(* ===== verification/Ikaros_Base.thy ===== *)
theory Ikaros_Base
  imports Main "HOL-Library.Word"
begin

text \<open>
  The prelude of the development: the machine types of the i386 target (\<^verbatim>\<open>libc/include/stdint.h\<close>
  and \<^verbatim>\<open>stddef.h\<close>: \<open>unsigned char\<close>, \<open>short\<close>, \<open>int\<close>, \<open>long\<close> and pointers are 8, 16, 32, 32
  and 32 bits wide), the outcomes of a C call (it returns a value, it goes wrong, it never
  returns), little-endian access to byte arrays, and the lemmas on words, bytes and lists that
  the component theories share.
\<close>

unbundle bit_operations_syntax

section \<open>Machine types\<close>

type_synonym u8 = "8 word"
type_synonym u16 = "16 word"
type_synonym u32 = "32 word"
type_synonym u64 = "64 word"

text \<open>Byte-addressed memory of the 32-bit address space.\<close>

type_synonym mem = "u32 \<Rightarrow> u8"

named_theorems word_bits \<open>bits of composed and decomposed words\<close>
named_theorems run_simps \<open>evaluation of sequenced C calls\<close>

section \<open>Outcomes of C code\<close>

text \<open>
  \<open>fault\<close> collects what C leaves undefined or the kernel treats as fatal: an access outside an
  array or structure, a dereference of \<open>NULL\<close>, a read of a variable never written, an access the
  page tables do not allow, a call of \<open>PANIC\<close>, a variadic argument of the wrong kind, a division by
  zero. A call is a \<open>run\<close>: \<open>None\<close> when it never
  returns, \<open>Some (Inl f)\<close> when it goes wrong, \<open>Some (Inr v)\<close> when it returns \<open>v\<close>.
\<close>

datatype fault = Out_of_bounds | Null_pointer | Uninitialised | Page_fault | Panic string | Bad_argument | Division_by_zero
  | General_protection

type_synonym 'a run = "(fault + 'a) option"

abbreviation ret :: "'a \<Rightarrow> 'a run" where
  "ret v \<equiv> Some (Inr v)"

abbreviation goes_wrong :: "fault \<Rightarrow> 'a run" where
  "goes_wrong f \<equiv> Some (Inl f)"

definition run_bind :: "'a run \<Rightarrow> ('a \<Rightarrow> 'b run) \<Rightarrow> 'b run" where
  "run_bind m k = (case m of None \<Rightarrow> None | Some (Inl f) \<Rightarrow> Some (Inl f) | Some (Inr v) \<Rightarrow> k v)"

lemma run_bind_simps [simp, run_simps]:
  "run_bind None k = None"
  "run_bind (goes_wrong f) k = goes_wrong f"
  "run_bind (ret v) k = k v"
  by (simp_all add: run_bind_def)

lemma run_bind_ret_iff:
  "run_bind m k = ret v \<longleftrightarrow> (\<exists>u. m = ret u \<and> k u = ret v)"
  by (auto simp: run_bind_def split: option.splits sum.splits)

lemma run_bind_ret_right [simp]: "run_bind m (\<lambda>v. ret v) = m"
  by (auto simp: run_bind_def split: option.splits sum.splits)

lemma run_bind_assoc: "run_bind (run_bind m k) l = run_bind m (\<lambda>x. run_bind (k x) l)"
  by (auto simp: run_bind_def split: option.splits sum.splits)

text \<open>A loop \<open>for (i = a; i < b; i++)\<close> whose body does not change \<open>i\<close> runs over \<open>[a..<b]\<close>.\<close>

fun run_for :: "'i list \<Rightarrow> ('i \<Rightarrow> 's \<Rightarrow> 's run) \<Rightarrow> 's \<Rightarrow> 's run" where
  "run_for [] f s = ret s"
| "run_for (i # is) f s = run_bind (f i s) (run_for is f)"

lemma run_for_Cons: "run_for (i # is) f = (\<lambda>s. run_bind (f i s) (run_for is f))"
  by (simp add: fun_eq_iff)

text \<open>A loop whose body returns and keeps an invariant returns and keeps it.\<close>

lemma run_for_inv:
  assumes "P s" and "\<And>i s. i \<in> set is \<Longrightarrow> P s \<Longrightarrow> \<exists>s'. f i s = ret s' \<and> P s'"
  shows "\<exists>s'. run_for is f s = ret s' \<and> P s'"
  using assms
proof (induction "is" arbitrary: s)
  case Nil
  then show ?case by simp
next
  case (Cons i "is")
  then obtain s1 where "f i s = ret s1" "P s1" by (metis list.set_intros(1))
  with Cons show ?case by simp
qed

lemma run_for_upt:
  assumes "P a s" and "a \<le> b"
    and "\<And>i s. a \<le> i \<Longrightarrow> i < b \<Longrightarrow> P i s \<Longrightarrow> \<exists>s'. f i s = ret s' \<and> P (Suc i) s'"
  shows "\<exists>s'. run_for [a..<b] f s = ret s' \<and> P b s'"
  using assms
proof (induction "b - a" arbitrary: a s)
  case 0
  then show ?case by simp
next
  case (Suc d)
  then have "a < b" by simp
  then obtain s1 where s1: "f a s = ret s1" "P (Suc a) s1" using Suc.prems by blast
  have "\<exists>s'. run_for [Suc a..<b] f s1 = ret s' \<and> P b s'"
    using Suc.hyps(2) Suc.prems \<open>a < b\<close> s1 by (intro Suc.hyps(1)) auto
  with \<open>a < b\<close> s1 show ?case by (simp add: upt_conv_Cons)
qed

text \<open>
  A loop each of whose rounds establishes its own fact, in a way that no later round undoes,
  establishes all of them. \<open>R\<close> says what every round keeps.
\<close>

lemma run_for_each:
  assumes "\<And>a. R a a" and "\<And>a b c. R a b \<Longrightarrow> R b c \<Longrightarrow> R a c"
    and "\<And>i t. i \<in> set is \<Longrightarrow> R s t \<Longrightarrow> \<exists>t'. f i t = ret t' \<and> R t t' \<and> Q i t'"
    and "\<And>i t t'. Q i t \<Longrightarrow> R t t' \<Longrightarrow> Q i t'"
  shows "\<exists>t. run_for is f s = ret t \<and> R s t \<and> (\<forall>i \<in> set is. Q i t)"
proof -
  have "\<exists>t'. run_for is f t = ret t' \<and> R t t' \<and> (\<forall>i \<in> set is. Q i t')" if "R s t" for t
    using that assms(3)
  proof (induction "is" arbitrary: t)
    case Nil
    then show ?case using assms(1) by simp
  next
    case (Cons i "is")
    then obtain u where u: "f i t = ret u" "R t u" "Q i u" by (meson list.set_intros(1))
    have "R s u" using Cons.prems(1) u(2) assms(2) by blast
    then obtain t' where "run_for is f u = ret t'" "R u t'" "\<forall>i \<in> set is. Q i t'"
      using Cons.IH [of u] Cons.prems(2) by (meson list.set_intros(2))
    with u assms(2,4) show ?case by auto
  qed
  with assms(1) show ?thesis by blast
qed

lemma run_for_append: "run_for (xs @ ys) f s = run_bind (run_for xs f s) (run_for ys f)"
proof (induction xs arbitrary: s)
  case Nil
  then show ?case by simp
next
  case (Cons x xs)
  then have "run_for (xs @ ys) f = (\<lambda>s. run_bind (run_for xs f s) (run_for ys f))" by (simp add: fun_eq_iff)
  then show ?case by (simp add: run_bind_assoc)
qed

text \<open>A loop whose body always returns is a fold.\<close>

lemma run_for_fold:
  assumes "\<And>i s. i \<in> set is \<Longrightarrow> P s \<Longrightarrow> f i s = ret (g i s) \<and> P (g i s)" and "P s"
  shows "run_for is f s = ret (fold g is s) \<and> P (fold g is s)"
  using assms
proof (induction "is" arbitrary: s)
  case Nil
  then show ?case by simp
next
  case (Cons i "is")
  then show ?case by simp
qed

lemma byte_le: "unat (b :: u8) \<le> 255"
proof -
  have "unat b < 2 ^ LENGTH(8)" by (rule unsigned_less)
  then show ?thesis by simp
qed

lemma bit_nonzero: "bit (x :: 'a :: len word) n \<Longrightarrow> x \<noteq> 0"
  by auto

text \<open>Loops that may not end are written as \<open>partial_function\<close>; sequencing is monotone.\<close>

lemma run_bind_mono [partial_function_mono]:
  fixes f :: "('x \<Rightarrow> 'y option) \<Rightarrow> 'a run" and g :: "('x \<Rightarrow> 'y option) \<Rightarrow> 'a \<Rightarrow> 'b run"
  assumes "mono_option f" and "\<And>y. mono_option (\<lambda>x. g x y)"
  shows "mono_option (\<lambda>x. run_bind (f x) (\<lambda>y. g x y))"
proof (rule monotoneI, goal_cases)
  case le: (1 x y)
  have f: "option_ord (f x) (f y)" using assms(1) le by (rule monotoneD [of _ _ _ x y])
  have g: "option_ord (g x z) (g y z)" for z using assms(2) le by (rule monotoneD [of _ _ _ x y])
  show ?case
  proof (cases "f x")
    case None
    then show ?thesis by (simp add: flat_ord_def)
  next
    case (Some r)
    then have "f y = f x" using f by (simp add: flat_ord_def)
    with Some g show ?thesis by (cases r) (simp_all add: flat_ord_def)
  qed
qed

text \<open>
  Arguments of a variadic call, and a call of \<open>printf\<close>: its format and its arguments. A string
  argument is the text before the terminating NUL, \<open>None\<close> the null pointer.
\<close>

datatype va = Va_int u32 | Va_str "string option"

type_synonym printf_call = "string \<times> va list"

lemma find_SomeD: "find P xs = Some x \<Longrightarrow> x \<in> set xs \<and> P x"
  by (induction xs) (auto split: if_splits)

section \<open>Words and bytes\<close>

definition byte_of :: "u32 \<Rightarrow> nat \<Rightarrow> u8" where
  "byte_of w k = ucast (drop_bit (8 * k) w)"

definition le32 :: "u8 \<Rightarrow> u8 \<Rightarrow> u8 \<Rightarrow> u8 \<Rightarrow> u32" where
  "le32 a b c d = ucast a OR push_bit 8 (ucast b) OR push_bit 16 (ucast c) OR push_bit 24 (ucast d)"

lemma bit_byte_of [word_bits]: "bit (byte_of w k) n \<longleftrightarrow> n < 8 \<and> bit w (8 * k + n)"
  by (simp add: byte_of_def bit_simps)

lemma bit_le32 [word_bits]:
  "bit (le32 a b c d) n \<longleftrightarrow>
    (if n < 8 then bit a n else if n < 16 then bit b (n - 8)
     else if n < 24 then bit c (n - 16) else bit d (n - 24))"
  by (auto simp: le32_def bit_simps dest: bit_imp_le_length)

lemma le32_bytes: "le32 (byte_of w 0) (byte_of w 1) (byte_of w 2) (byte_of w 3) = w"
  by (rule bit_word_eqI) (auto simp: word_bits)

lemma byte_of_le32:
  "byte_of (le32 a b c d) 0 = a" "byte_of (le32 a b c d) 1 = b"
  "byte_of (le32 a b c d) 2 = c" "byte_of (le32 a b c d) 3 = d"
  by (rule bit_word_eqI, auto simp: word_bits)+

text \<open>A 32-bit word in byte-addressed memory.\<close>

definition ld32 :: "mem \<Rightarrow> u32 \<Rightarrow> u32" where
  "ld32 m a = le32 (m a) (m (a + 1)) (m (a + 2)) (m (a + 3))"

definition st32 :: "mem \<Rightarrow> u32 \<Rightarrow> u32 \<Rightarrow> mem" where
  "st32 m a w = m(a := byte_of w 0, a + 1 := byte_of w 1, a + 2 := byte_of w 2, a + 3 := byte_of w 3)"

lemma ld_st_same [simp]: "ld32 (st32 m a w) a = w"
  by (simp add: ld32_def st32_def le32_bytes [unfolded One_nat_def])

lemma st32_other: "b - a \<ge> 4 \<Longrightarrow> st32 m a w b = m b"
  by (auto simp: st32_def word_le_nat_alt)

lemma unat_inc_less [simp]:
  assumes "(i :: 'a::len word) < n"
  shows "unat (i + 1) = Suc (unat i)"
proof -
  have "unat n < 2 ^ LENGTH('a)" by (rule unsigned_less)
  moreover have "unat i < unat n" using assms by (simp add: word_less_nat_alt)
  ultimately have "unat i + 1 < 2 ^ LENGTH('a)" by linarith
  then show ?thesis by (simp add: unat_word_ariths)
qed

lemma unat_u32: "unat (w :: u32) < 4294967296"
proof -
  have "unat w < 2 ^ LENGTH(32)" by (rule unsigned_less)
  then show ?thesis by simp
qed

text \<open>The measure of a loop that counts a 32-bit index up to a bound.\<close>

lemma count_up: "(i :: u32) < n \<Longrightarrow> unat n - unat (i + 1) < unat n - unat i"
  by (simp add: word_less_nat_alt [symmetric] diff_less_mono2)

lemma unat_and_mask: "unat ((w :: u32) AND 0x3FF) = unat w mod 1024" "unat (w AND 0xFFF) = unat w mod 4096"
proof -
  have "w AND 0x3FF = take_bit 10 w" "w AND 0xFFF = take_bit 12 w"
    by (simp_all add: take_bit_eq_mask mask_eq_exp_minus_1)
  then show "unat (w AND 0x3FF) = unat w mod 1024" "unat (w AND 0xFFF) = unat w mod 4096"
    by (simp_all only: unsigned_take_bit_eq, simp_all add: take_bit_eq_mod)
qed

lemma unat_drop: "unat (drop_bit n (w :: u32)) = unat w div 2 ^ n"
  by (simp only: unsigned_drop_bit_eq) (simp add: drop_bit_eq_div take_bit_eq_mod unat_u32)

lemma unat_of_nat_small: "n < 2 ^ LENGTH('a) \<Longrightarrow> unat (of_nat n :: 'a::len word) = n"
  by (simp add: unat_of_nat)

lemma unat_add_small: "unat a + unat b < 2 ^ LENGTH('a) \<Longrightarrow> unat (a + b :: 'a::len word) = unat a + unat b"
  by (simp add: unat_word_ariths)

lemma ld_st_other:
  assumes "b - a \<ge> 4" and "a - b \<ge> 4"
  shows "ld32 (st32 m a w) b = ld32 m b"
proof -
  define d where "d = b - a"
  have neg: "a - b = - d" by (simp add: d_def)
  have d: "unat d \<ge> 4" "unat (- d) \<ge> 4" using assms unfolding neg d_def [symmetric] by (simp_all add: word_le_nat_alt)
  moreover have "unat (- d) = 4294967296 - unat d"
    using d(1) unat_sub_if_size [of 0 d] by (simp add: word_size split: if_splits)
  ultimately have small: "unat d \<le> 4294967292" by linarith
  have far: "b + of_nat i - a \<ge> 4" if "i < 4" for i
  proof -
    have i: "unat (of_nat i :: u32) = i" using that by (intro unat_of_nat_small) simp
    have "unat (d + of_nat i) = unat d + i" using that small i by (subst unat_add_small) simp_all
    then have "4 \<le> unat (d + of_nat i)" using d(1) by simp
    moreover have "b + of_nat i - a = d + of_nat i" by (simp add: d_def)
    ultimately show ?thesis by (simp only: word_le_nat_alt) simp
  qed
  show ?thesis
    using st32_other [OF far [of 0]] st32_other [OF far [of 1]] st32_other [OF far [of 2]] st32_other [OF far [of 3]]
    by (simp add: ld32_def)
qed

lemma inc_le_iff_less: "(i :: 'a::len word) < n \<Longrightarrow> i + 1 \<le> x \<longleftrightarrow> i < x"
  by (simp add: word_le_nat_alt word_less_nat_alt Suc_le_eq)

lemma less_iff_le_dec: "(i :: 'a::len word) \<noteq> 0 \<Longrightarrow> x < i \<longleftrightarrow> x \<le> i - 1"
  using unat_gt_0 [of i]
  by (simp add: word_le_nat_alt word_less_nat_alt unat_minus_one) linarith

lemma word_neq0_bit: "(w :: 'a::len word) \<noteq> 0 \<longleftrightarrow> (\<exists>n < LENGTH('a). bit w n)"
  by (metis bit_0_eq bot_apply bot_bool_def bit_imp_le_length bit_eqI)

end
