(* ===== verification/Linked_List.thy ===== *)
theory Linked_List
  imports Ikaros_Base
begin

text \<open>
  Singly linked structures of the C code, shared by the page regions, the tasks, the wait
  queues and the allocator's free list. A pointer is an address or \<open>None\<close> for \<open>NULL\<close>; a
  structure type contributes the function that reads its \<open>next\<close> field. \<open>lseg nxt p xs q\<close> says
  that following \<open>next\<close> from \<open>p\<close> visits exactly the nodes \<open>xs\<close> and then arrives at \<open>q\<close>: a
  \<open>NULL\<close>-terminated list has \<open>q = None\<close>, a ring comes back to its own start.
\<close>

fun lseg :: "('p \<Rightarrow> 'p option) \<Rightarrow> 'p option \<Rightarrow> 'p list \<Rightarrow> 'p option \<Rightarrow> bool" where
  "lseg nxt p [] q \<longleftrightarrow> p = q"
| "lseg nxt p (x # xs) q \<longleftrightarrow> p = Some x \<and> lseg nxt (nxt x) xs q"

lemma lseg_NoneI [simp]: "lseg nxt None xs q \<longleftrightarrow> xs = [] \<and> q = None"
  by (cases xs) auto

lemma lseg_append:
  "lseg nxt p (xs @ ys) q \<longleftrightarrow> (\<exists>m. lseg nxt p xs m \<and> lseg nxt m ys q)"
  by (induction xs arbitrary: p) auto

lemma lseg_split_at:
  "lseg nxt p (xs @ x # ys) q \<longleftrightarrow> lseg nxt p xs (Some x) \<and> lseg nxt (nxt x) ys q"
  by (auto simp: lseg_append)

lemma lseg_cong:
  "(\<And>x. x \<in> set xs \<Longrightarrow> nxt x = nxt' x) \<Longrightarrow> lseg nxt p xs q = lseg nxt' p xs q"
  by (induction xs arbitrary: p) auto

lemma lseg_upd_other [simp]:
  "a \<notin> set xs \<Longrightarrow> lseg (nxt(a := v)) p xs q = lseg nxt p xs q"
  by (rule lseg_cong) auto

lemma lseg_None_unique:
  "lseg nxt p xs None \<Longrightarrow> lseg nxt p ys None \<Longrightarrow> xs = ys"
proof (induction xs arbitrary: p ys)
  case Nil
  then show ?case by simp
next
  case (Cons x xs)
  then show ?case by (cases ys) auto
qed

lemma lseg_None_distinct: "lseg nxt p xs None \<Longrightarrow> distinct xs"
proof (induction xs arbitrary: p)
  case Nil
  then show ?case by simp
next
  case (Cons x xs)
  then have tail: "lseg nxt (nxt x) xs None" by simp
  have "x \<notin> set xs"
  proof
    assume "x \<in> set xs"
    then obtain ys zs where xs: "xs = ys @ x # zs" by (auto simp: in_set_conv_decomp)
    with tail have "lseg nxt (nxt x) zs None" by (simp add: lseg_split_at)
    with tail have "xs = zs" by (rule lseg_None_unique)
    with xs show False by simp
  qed
  with Cons tail show ?case by auto
qed

lemma lseg_head: "lseg nxt (Some a) xs q \<Longrightarrow> Some a \<noteq> q \<Longrightarrow> \<exists>ys. xs = a # ys"
  by (cases xs) auto

text \<open>Redirecting the last node of a segment whose nodes are distinct moves its end.\<close>

lemma lseg_set_last:
  "lseg nxt p (xs @ [a]) q \<Longrightarrow> a \<notin> set xs \<Longrightarrow> lseg (nxt(a := r)) p (xs @ [a]) r"
  by (auto simp: lseg_append)

text \<open>Unlinking a node: its predecessor takes over its \<open>next\<close>.\<close>

lemma lseg_unlink:
  assumes "lseg nxt p (xs @ a # b # ys) q" and "distinct (xs @ a # b # ys)"
  shows "lseg (nxt(a := nxt b)) p (xs @ a # ys) q"
  using assms by (auto simp: lseg_append)

text \<open>Appending a node whose \<open>next\<close> is \<open>NULL\<close>: the last node, or the head pointer, points to it.\<close>

lemma lseg_append_node:
  assumes "lseg nxt p xs None" and "x \<notin> set xs" and "nxt x = None"
  shows "xs = [] \<Longrightarrow> lseg nxt (Some x) [x] None"
    and "xs \<noteq> [] \<Longrightarrow> lseg (nxt(last xs := Some x)) p (xs @ [x]) None"
proof -
  show "xs = [] \<Longrightarrow> lseg nxt (Some x) [x] None" using assms(3) by simp
  assume "xs \<noteq> []"
  then obtain ys l where xs: "xs = ys @ [l]" by (cases xs rule: rev_cases) auto
  have "l \<notin> set ys" using lseg_None_distinct [OF assms(1)] by (simp add: xs)
  then have "lseg (nxt(l := Some x)) p (ys @ [l]) (Some x)" using assms(1) xs lseg_set_last by metis
  then show "lseg (nxt(last xs := Some x)) p (xs @ [x]) None" using assms(2,3) by (auto simp: xs lseg_append)
qed

end
