(* ===== verification/Libc_Strings.thy ===== *)
theory Libc_Strings
  imports Ikaros_Base
begin

text \<open>
  The C library's memory and string routines (\<^verbatim>\<open>libc/string\<close>, \<^verbatim>\<open>libc/strings\<close>,
  \<^verbatim>\<open>libc/stdlib/atoi.c\<close>, \<^verbatim>\<open>libc/include/strings.h\<close>), over byte-addressed memory. A routine that
  scans for a terminator may never return, so it is a partial function into \<open>option\<close>.
\<close>

section \<open>ffs\<close>

text \<open>\<open>t\<close> is the shifted test bit and \<open>r\<close> the position it stands for.\<close>

partial_function (option) ffs_loop :: "u32 \<Rightarrow> u32 \<Rightarrow> nat \<Rightarrow> nat option" where
  "ffs_loop x t r = (if x AND t = 0 then ffs_loop x (push_bit 1 t) (r + 1) else Some r)"

definition ffs :: "u32 \<Rightarrow> nat option" where
  "ffs x = ffs_loop x 1 1"

section \<open>Block routines\<close>

text \<open>The counter of every loop is a \<open>size_t\<close>; the loops run while it is below \<open>sz\<close>, the size argument.\<close>

function memset_loop :: "mem \<Rightarrow> u32 \<Rightarrow> u8 \<Rightarrow> u32 \<Rightarrow> u32 \<Rightarrow> mem" where
  "memset_loop m buf c i sz =
     (if i < sz then memset_loop (m(buf + i := c)) buf c (i + 1) sz else m)"
  by pat_completeness auto
termination
  by (relation "measure (\<lambda>(m, buf, c, i, sz). unat sz - unat i)") (auto simp: word_less_nat_alt)

definition memset :: "mem \<Rightarrow> u32 \<Rightarrow> u32 \<Rightarrow> u32 \<Rightarrow> mem \<times> u32" where
  "memset m bufptr value sz = (memset_loop m bufptr (ucast value) 0 sz, bufptr)"

function memcpy_loop :: "mem \<Rightarrow> u32 \<Rightarrow> u32 \<Rightarrow> u32 \<Rightarrow> u32 \<Rightarrow> mem" where
  "memcpy_loop m dst src i sz =
     (if i < sz then memcpy_loop (m(dst + i := m (src + i))) dst src (i + 1) sz else m)"
  by pat_completeness auto
termination
  by (relation "measure (\<lambda>(m, dst, src, i, sz). unat sz - unat i)") (auto simp: word_less_nat_alt)

definition memcpy :: "mem \<Rightarrow> u32 \<Rightarrow> u32 \<Rightarrow> u32 \<Rightarrow> mem \<times> u32" where
  "memcpy m dstptr srcptr sz = (memcpy_loop m dstptr srcptr 0 sz, dstptr)"

function memmove_down :: "mem \<Rightarrow> u32 \<Rightarrow> u32 \<Rightarrow> u32 \<Rightarrow> mem" where
  "memmove_down m dst src i =
     (if i \<noteq> 0 then memmove_down (m(dst + (i - 1) := m (src + (i - 1)))) dst src (i - 1) else m)"
  by pat_completeness auto
termination
  by (relation "measure (\<lambda>(m, dst, src, i). unat i)") (auto simp: unat_minus_one unat_gt_0)

definition memmove :: "mem \<Rightarrow> u32 \<Rightarrow> u32 \<Rightarrow> u32 \<Rightarrow> mem \<times> u32" where
  "memmove m dstptr srcptr sz =
     (if dstptr < srcptr then memcpy_loop m dstptr srcptr 0 sz
      else memmove_down m dstptr srcptr sz, dstptr)"

function memcmp_loop :: "mem \<Rightarrow> u32 \<Rightarrow> u32 \<Rightarrow> u32 \<Rightarrow> u32 \<Rightarrow> int" where
  "memcmp_loop m a b i sz =
     (if i < sz then
        (if m (a + i) < m (b + i) then -1
         else if m (b + i) < m (a + i) then 1
         else memcmp_loop m a b (i + 1) sz)
      else 0)"
  by pat_completeness auto
termination
  by (relation "measure (\<lambda>(m, a, b, i, sz). unat sz - unat i)") (auto simp: word_less_nat_alt)

definition memcmp :: "mem \<Rightarrow> u32 \<Rightarrow> u32 \<Rightarrow> u32 \<Rightarrow> int" where
  "memcmp m aptr bptr sz = memcmp_loop m aptr bptr 0 sz"

declare memset_loop.simps [simp del] memcpy_loop.simps [simp del]
  memmove_down.simps [simp del] memcmp_loop.simps [simp del]

section \<open>String routines\<close>

text \<open>
  \<open>char\<close> is signed on the target, so a character read into an \<open>int\<close> is the byte's \<open>sint\<close>.
\<close>

partial_function (option) strlen_loop :: "mem \<Rightarrow> u32 \<Rightarrow> u32 \<Rightarrow> u32 option" where
  "strlen_loop m str len = (if m (str + len) \<noteq> 0 then strlen_loop m str (len + 1) else Some len)"

definition strlen :: "mem \<Rightarrow> u32 \<Rightarrow> u32 option" where
  "strlen m str = strlen_loop m str 0"

definition tolower_c :: "int \<Rightarrow> int" where
  "tolower_c c = (if c \<ge> 65 \<and> c \<le> 90 then c + 32 else c)"

text \<open>
  The comparison loops share their body; \<open>conv\<close> is what each applies to a character and
  \<open>lim\<close> the bound of the counted variants. \<open>flag\<close> leaves the loop as soon as it is set.
\<close>

definition cmp_flag :: "int \<Rightarrow> int \<Rightarrow> int" where
  "cmp_flag c0 c1 = (if c0 > c1 then 1 else if c0 < c1 then -1 else 0)"

partial_function (option) strcmp_loop ::
  "(int \<Rightarrow> int) \<Rightarrow> u32 option \<Rightarrow> mem \<Rightarrow> u32 \<Rightarrow> u32 \<Rightarrow> u32 \<Rightarrow> int option" where
  "strcmp_loop conv lim m s0 s1 i =
     (if (case lim of None \<Rightarrow> False | Some n \<Rightarrow> \<not> i < n) then Some 0
      else let c0 = conv (sint (m (s0 + i))); c1 = conv (sint (m (s1 + i)))
      in if c0 = 0 \<or> cmp_flag c0 c1 \<noteq> 0 then Some (cmp_flag c0 c1)
         else strcmp_loop conv lim m s0 s1 (i + 1))"

definition strcmp :: "mem \<Rightarrow> u32 \<Rightarrow> u32 \<Rightarrow> int option" where
  "strcmp m s0 s1 = strcmp_loop (\<lambda>c. c) None m s0 s1 0"

definition strncmp :: "mem \<Rightarrow> u32 \<Rightarrow> u32 \<Rightarrow> u32 \<Rightarrow> int option" where
  "strncmp m s0 s1 max_len = strcmp_loop (\<lambda>c. c) (Some max_len) m s0 s1 0"

definition strcasecmp :: "mem \<Rightarrow> u32 \<Rightarrow> u32 \<Rightarrow> int option" where
  "strcasecmp m s0 s1 = strcmp_loop tolower_c None m s0 s1 0"

definition strncasecmp :: "mem \<Rightarrow> u32 \<Rightarrow> u32 \<Rightarrow> u32 \<Rightarrow> int option" where
  "strncasecmp m s0 s1 max_len = strcmp_loop tolower_c (Some max_len) m s0 s1 0"

text \<open>\<open>atoi\<close> computes in \<open>int\<close>; the target's arithmetic wraps.\<close>

partial_function (option) atoi_loop :: "mem \<Rightarrow> u32 \<Rightarrow> u32 \<Rightarrow> u32 \<Rightarrow> u32 option" where
  "atoi_loop m str i res =
     (if m (str + i) \<noteq> 0 then atoi_loop m str (i + 1) (res * 10 + scast (m (str + i)) - 48)
      else Some res)"

definition atoi :: "mem \<Rightarrow> u32 \<Rightarrow> u32 option" where
  "atoi m str =
     (if m str = 45 then map_option (\<lambda>res. - res) (atoi_loop m str 1 0)
      else atoi_loop m str 0 0)"

section \<open>Lemmas\<close>

lemma bit_and_exp: "(x :: u32) AND 2 ^ k = 0 \<longleftrightarrow> \<not> (k < 32 \<and> bit x k)"
proof
  assume "x AND 2 ^ k = 0"
  then have "\<not> bit (x AND 2 ^ k) k" by simp
  then show "\<not> (k < 32 \<and> bit x k)" by (auto simp: bit_simps)
next
  assume "\<not> (k < 32 \<and> bit x k)"
  then show "x AND 2 ^ k = 0"
    by (intro bit_word_eqI) (auto simp: bit_simps)
qed

lemma ffs_loop_found:
  assumes "bit x j" and "\<And>i. k \<le> i \<Longrightarrow> i < j \<Longrightarrow> \<not> bit x i" and "k \<le> j"
  shows "ffs_loop x (2 ^ k) (k + 1) = Some (j + 1)"
  using assms
proof (induction "j - k" arbitrary: k)
  case 0
  then have "k = j" and "j < 32" using bit_imp_le_length [of x j] by auto
  with 0 show ?case by (subst ffs_loop.simps) (simp add: bit_and_exp)
next
  case (Suc d)
  then have "k < j" and "\<not> bit x k" by auto
  then have "ffs_loop x (2 ^ k) (k + 1) = ffs_loop x (2 ^ Suc k) (Suc k + 1)"
    by (subst ffs_loop.simps) (simp add: bit_and_exp mult.commute)
  also have "\<dots> = Some (j + 1)" using Suc \<open>k < j\<close> by (intro Suc.hyps(1)) auto
  finally show ?case .
qed

lemma ffs_least_bit:
  assumes "x \<noteq> 0"
  shows "\<exists>j < 32. ffs x = Some (j + 1) \<and> bit x j \<and> (\<forall>i < j. \<not> bit x i)"
proof -
  from assms obtain n where n: "bit x n" using word_neq0_bit [of x] by auto
  define j where "j = (LEAST n. bit x n)"
  have j: "bit x j" "\<And>i. i < j \<Longrightarrow> \<not> bit x i"
    using n unfolding j_def by (auto intro: LeastI dest: not_less_Least)
  moreover have "ffs_loop x (2 ^ 0) (0 + 1) = Some (j + 1)"
    using j by (intro ffs_loop_found) auto
  ultimately show ?thesis
    using bit_imp_le_length [of x j] by (auto simp: ffs_def)
qed

lemma ffs_zero_diverges: "ffs 0 = None"
proof -
  have "x \<noteq> 0" if returned: "ffs_loop x t r = Some y" for x t r y
    by (rule ffs_loop.raw_induct [where P = "\<lambda>x t r y. x \<noteq> 0" and xa = "((x, t), r)" and y = y,
        unfolded prod.case, OF _ returned]) (auto split: if_splits)
  then show ?thesis unfolding ffs_def by (metis not_Some_eq)
qed

subsection \<open>Block routines\<close>

lemma memset_loop_apply:
  "memset_loop m buf c i sz a = (if i \<le> a - buf \<and> a - buf < sz then c else m a)"
proof (induction m buf c i sz rule: memset_loop.induct)
  case (1 m buf c i sz)
  show ?case
  proof (cases "i < sz")
    case True
    then have "memset_loop m buf c i sz a = memset_loop (m(buf + i := c)) buf c (i + 1) sz a"
      by (simp only: memset_loop.simps [of m buf c i sz] if_True)
    also have "\<dots> = (if i + 1 \<le> a - buf \<and> a - buf < sz then c else (m(buf + i := c)) a)"
      by (rule "1.IH" [OF True])
    also have "\<dots> = (if i \<le> a - buf \<and> a - buf < sz then c else m a)"
    proof (cases "a = buf + i")
      case False
      then have "a - buf \<noteq> i" by auto
      with False True show ?thesis by (auto simp: inc_le_iff_less)
    qed (use True in auto)
    finally show ?thesis .
  next
    case False
    then show ?thesis by (subst memset_loop.simps) auto
  qed
qed

lemma memcpy_loop_apply:
  assumes "\<And>j k. i \<le> j \<Longrightarrow> j < k \<Longrightarrow> k < sz \<Longrightarrow> src + k \<noteq> dst + j"
  shows "memcpy_loop m dst src i sz a =
    (if i \<le> a - dst \<and> a - dst < sz then m (src + (a - dst)) else m a)"
  using assms
proof (induction m dst src i sz rule: memcpy_loop.induct)
  case (1 m dst src i sz)
  show ?case
  proof (cases "i < sz")
    case True
    let ?m = "m(dst + i := m (src + i))"
    have "\<And>j k. i + 1 \<le> j \<Longrightarrow> j < k \<Longrightarrow> k < sz \<Longrightarrow> src + k \<noteq> dst + j"
      using "1.prems" True by (simp add: inc_le_iff_less)
    then have "memcpy_loop ?m dst src (i + 1) sz a =
      (if i + 1 \<le> a - dst \<and> a - dst < sz then ?m (src + (a - dst)) else ?m a)"
      by (rule "1.IH" [OF True])
    then have "memcpy_loop m dst src i sz a =
      (if i + 1 \<le> a - dst \<and> a - dst < sz then ?m (src + (a - dst)) else ?m a)"
      using True by (simp only: memcpy_loop.simps [of m dst src i sz] if_True)
    also have "\<dots> = (if i \<le> a - dst \<and> a - dst < sz then m (src + (a - dst)) else m a)"
    proof (cases "a = dst + i")
      case False
      then have ne: "a - dst \<noteq> i" by auto
      have "src + (a - dst) \<noteq> dst + i" if "i < a - dst" "a - dst < sz"
        using "1.prems" [of i "a - dst"] that by simp
      with False ne True show ?thesis by (auto simp: inc_le_iff_less)
    qed (use True in auto)
    finally show ?thesis .
  next
    case False
    then show ?thesis by (subst memcpy_loop.simps) auto
  qed
qed

lemma memmove_down_apply:
  assumes "\<And>j k. j < k \<Longrightarrow> k < i \<Longrightarrow> src + j \<noteq> dst + k"
  shows "memmove_down m dst src i a = (if a - dst < i then m (src + (a - dst)) else m a)"
  using assms
proof (induction m dst src i rule: memmove_down.induct)
  case (1 m dst src i)
  show ?case
  proof (cases "i = 0")
    case False
    let ?i = "i - 1" and ?m = "m(dst + (i - 1) := m (src + (i - 1)))"
    have less: "x < i \<longleftrightarrow> x < ?i \<or> x = ?i" for x
      using False by (simp add: less_iff_le_dec order_le_less)
    have "\<And>j k. j < k \<Longrightarrow> k < ?i \<Longrightarrow> src + j \<noteq> dst + k"
      using "1.prems" less by blast
    then have "memmove_down ?m dst src ?i a =
      (if a - dst < ?i then ?m (src + (a - dst)) else ?m a)"
      by (rule "1.IH" [OF False])
    then have "memmove_down m dst src i a =
      (if a - dst < ?i then ?m (src + (a - dst)) else ?m a)"
      using False by (simp only: memmove_down.simps [of m dst src i] not_False_eq_True if_True)
    also have "\<dots> = (if a - dst < i then m (src + (a - dst)) else m a)"
    proof (cases "a = dst + ?i")
      case False
      then have ne: "a - dst \<noteq> ?i" by (metis add.commute diff_add_cancel)
      have "src + (a - dst) \<noteq> dst + ?i" if "a - dst < ?i"
        using "1.prems" [of "a - dst" ?i] that less by blast
      with False ne show ?thesis by (auto simp: less)
    qed (auto simp: less)
    finally show ?thesis .
  next
    case True
    then show ?thesis by (subst memmove_down.simps) simp
  qed
qed

lemma memset_fst:
  "fst (memset m buf v sz) a = (if a - buf < sz then ucast v else m a)"
  by (simp add: memset_def memset_loop_apply)

text \<open>
  Two blocks that do not wrap around the address space: comparing their addresses decides
  which loop can overwrite what it has still to read.
\<close>

lemma block_offset:
  assumes "unat (p :: u32) + unat sz \<le> 2 ^ 32" and "j < sz"
  shows "unat (p + j) = unat p + unat j"
  using assms by (simp add: unat_plus_if' word_less_nat_alt)

lemma forward_no_clobber:
  assumes "unat dst + unat sz \<le> 2 ^ 32" and "unat src + unat sz \<le> 2 ^ 32"
    and "dst < src" and "j < k" and "(k :: u32) < sz"
  shows "src + k \<noteq> dst + j"
proof -
  have "j < sz" using assms(4,5) by simp
  then have "unat (dst + j) = unat dst + unat j" "unat (src + k) = unat src + unat k"
    using assms by (auto intro: block_offset)
  then have "unat (dst + j) < unat (src + k)"
    using assms(3,4) by (simp add: word_less_nat_alt)
  then show ?thesis by auto
qed

text \<open>
  Property: \<open>memmove\<close> copies correctly however the two blocks overlap, and touches
  nothing outside the destination.
\<close>

lemma memmove_copies:
  assumes "unat dst + unat sz \<le> 2 ^ 32" and "unat src + unat sz \<le> 2 ^ 32"
  shows "fst (memmove m dst src sz) a = (if a - dst < sz then m (src + (a - dst)) else m a)"
proof (cases "dst < src")
  case True
  have "memcpy_loop m dst src 0 sz a =
      (if 0 \<le> a - dst \<and> a - dst < sz then m (src + (a - dst)) else m a)"
    by (rule memcpy_loop_apply) (rule forward_no_clobber [OF assms True])
  with True show ?thesis by (simp add: memmove_def)
next
  case False
  have "src + j \<noteq> dst + k" if "j < k" "k < sz" for j k
  proof (cases "src = dst")
    case True
    with that show ?thesis by simp
  next
    case ne: False
    with False have "src < dst" by simp
    with assms that show ?thesis by (metis forward_no_clobber)
  qed
  then have "memmove_down m dst src sz a =
      (if a - dst < sz then m (src + (a - dst)) else m a)"
    by (rule memmove_down_apply)
  with False show ?thesis by (simp add: memmove_def)
qed

lemma memcpy_disjoint:
  assumes "\<And>j k. j < sz \<Longrightarrow> k < sz \<Longrightarrow> src + k \<noteq> dst + j"
  shows "fst (memcpy m dst src sz) a = (if a - dst < sz then m (src + (a - dst)) else m a)"
proof -
  have "memcpy_loop m dst src 0 sz a =
      (if 0 \<le> a - dst \<and> a - dst < sz then m (src + (a - dst)) else m a)"
    by (rule memcpy_loop_apply) (rule assms, auto)
  then show ?thesis by (simp add: memcpy_def)
qed

lemma memcmp_loop_zero:
  "memcmp_loop m a b i sz = 0 \<longleftrightarrow> (\<forall>k. i \<le> k \<and> k < sz \<longrightarrow> m (a + k) = m (b + k))"
proof (induction m a b i sz rule: memcmp_loop.induct)
  case (1 m a b i sz)
  show ?case
  proof (cases "i < sz \<and> m (a + i) = m (b + i)")
    case True
    then have "memcmp_loop m a b i sz = memcmp_loop m a b (i + 1) sz"
      by (simp only: memcmp_loop.simps [of m a b i sz]) simp
    also have "\<dots> = 0 \<longleftrightarrow> (\<forall>k. i + 1 \<le> k \<and> k < sz \<longrightarrow> m (a + k) = m (b + k))"
      using "1.IH" True by simp
    also have "\<dots> \<longleftrightarrow> (\<forall>k. i \<le> k \<and> k < sz \<longrightarrow> m (a + k) = m (b + k))"
      using True inc_le_iff_less [of i sz] by (metis order_le_less)
    finally show ?thesis .
  next
    case False
    then show ?thesis by (subst memcmp_loop.simps) auto
  qed
qed

lemma memcmp_zero: "memcmp m a b sz = 0 \<longleftrightarrow> (\<forall>k < sz. m (a + k) = m (b + k))"
  by (simp add: memcmp_def memcmp_loop_zero)

subsection \<open>Strings\<close>

text \<open>\<open>cstring m p bs\<close>: the bytes \<open>bs\<close>, none of them zero, lie at \<open>p\<close> and a zero follows.\<close>

definition cstring :: "mem \<Rightarrow> u32 \<Rightarrow> u8 list \<Rightarrow> bool" where
  "cstring m p bs \<longleftrightarrow> length bs < 2 ^ 32 \<and> 0 \<notin> set bs \<and>
     (\<forall>k < length bs. m (p + of_nat k) = bs ! k) \<and> m (p + of_nat (length bs)) = 0"

lemma cstring_nth:
  "cstring m p bs \<Longrightarrow> k \<le> length bs \<Longrightarrow>
     m (p + of_nat k) = (if k < length bs then bs ! k else 0)"
  by (auto simp: cstring_def)

lemma cstring_nonzero:
  "cstring m p bs \<Longrightarrow> k \<le> length bs \<Longrightarrow> m (p + of_nat k) = 0 \<longleftrightarrow> k = length bs"
  by (auto simp: cstring_def) (metis nth_mem nat_less_le)

lemma strlen_cstring:
  assumes "cstring m p bs"
  shows "strlen m p = Some (of_nat (length bs))"
proof -
  have "strlen_loop m p (of_nat k) = Some (of_nat (length bs))" if "k \<le> length bs" for k
    using that
  proof (induction "length bs - k" arbitrary: k)
    case 0
    with assms show ?case by (subst strlen_loop.simps) (simp add: cstring_nonzero)
  next
    case (Suc d)
    then have "m (p + of_nat k) \<noteq> 0" using assms by (simp add: cstring_nonzero)
    then have "strlen_loop m p (of_nat k) = strlen_loop m p (of_nat (Suc k))"
      by (simp only: strlen_loop.simps [of m p "of_nat k"]) (simp add: add.commute)
    also have "\<dots> = Some (of_nat (length bs))" using Suc by (intro Suc.hyps(1)) auto
    finally show ?case .
  qed
  from this [of 0] show ?thesis by (simp add: strlen_def)
qed

text \<open>Where there is a zero byte anywhere in memory, \<open>strlen\<close> returns.\<close>

lemma strlen_returns:
  assumes "m z = 0"
  shows "\<exists>n. strlen m p = Some n"
proof -
  define n where "n = (LEAST n. m (p + of_nat n) = 0)"
  have z: "m (p + of_nat (unat (z - p))) = 0" using assms by simp
  then have "m (p + of_nat n) = 0" unfolding n_def by (rule LeastI)
  moreover have "m (p + of_nat k) \<noteq> 0" if "k < n" for k using that unfolding n_def by (rule not_less_Least)
  moreover have "n < 2 ^ 32"
  proof -
    have "n \<le> unat (z - p)" unfolding n_def using z by (rule Least_le)
    also have "\<dots> < 2 ^ LENGTH(32)" by (rule unsigned_less)
    finally show ?thesis by simp
  qed
  ultimately have "cstring m p (map (\<lambda>k. m (p + of_nat k)) [0..<n])" by (auto simp: cstring_def)
  from strlen_cstring [OF this] show ?thesis by blast
qed

text \<open>\<open>atoi\<close> is the decimal value of the string, modulo the width of \<open>int\<close>.\<close>

definition decimal :: "u32 \<Rightarrow> u8 list \<Rightarrow> u32" where
  "decimal = foldl (\<lambda>res b. res * 10 + scast b - 48)"

definition atoi_value :: "u8 list \<Rightarrow> u32" where
  "atoi_value bs = (if bs \<noteq> [] \<and> hd bs = 45 then - decimal 0 (tl bs) else decimal 0 bs)"

lemma atoi_loop_cstring:
  assumes "cstring m p bs" and "k \<le> length bs"
  shows "atoi_loop m p (of_nat k) res = Some (decimal res (drop k bs))"
  using assms(2)
proof (induction "length bs - k" arbitrary: k res)
  case 0
  with assms(1) show ?case by (subst atoi_loop.simps) (simp add: cstring_nonzero decimal_def)
next
  case (Suc d)
  then have k: "k < length bs" by simp
  then have "atoi_loop m p (of_nat k) res = atoi_loop m p (of_nat (Suc k)) (res * 10 + scast (bs ! k) - 48)"
  proof -
    have "m (p + of_nat k) \<noteq> 0" "m (p + of_nat k) = bs ! k"
      using assms(1) k by (simp_all add: cstring_nonzero) (simp add: cstring_nth)
    then show ?thesis by (subst atoi_loop.simps) (simp add: add.commute)
  qed
  also have "\<dots> = Some (decimal (res * 10 + scast (bs ! k) - 48) (drop (Suc k) bs))"
    using Suc k by (intro Suc.hyps(1)) auto
  finally show ?case using k by (simp add: decimal_def Cons_nth_drop_Suc [symmetric])
qed

lemma atoi_cstring:
  assumes "cstring m p bs"
  shows "atoi m p = Some (atoi_value bs)"
proof (cases bs)
  case Nil
  then have "m p = 0" using cstring_nth [OF assms, of 0] by simp
  with Nil atoi_loop_cstring [OF assms, of 0 0] show ?thesis by (simp add: atoi_def atoi_value_def)
next
  case (Cons b cs)
  then have "m p = b" using cstring_nth [OF assms, of 0] by simp
  with Cons atoi_loop_cstring [OF assms, of 0 0] atoi_loop_cstring [OF assms, of 1 0] show ?thesis
    by (simp add: atoi_def atoi_value_def)
qed

text \<open>A byte array as memory: what \<open>atoi\<close> reads.\<close>

definition array_mem :: "u8 list \<Rightarrow> mem" where
  "array_mem bs = (\<lambda>a. if unat a < length bs then bs ! unat a else 0)"

lemma array_cstring:
  assumes "length bs < n" and "n < 2 ^ 32"
  shows "cstring (array_mem (bs @ replicate (n - length bs) 0)) 0 (takeWhile (\<lambda>b. b \<noteq> 0) bs)"
proof -
  let ?w = "takeWhile (\<lambda>b. b \<noteq> 0) bs"
  have le: "length ?w \<le> length bs" by (rule length_takeWhile_le)
  have rd: "array_mem (bs @ replicate (n - length bs) 0) (of_nat k) = (if k < length bs then bs ! k else 0)"
    if "k \<le> length bs" for k
    using that assms by (auto simp: array_mem_def nth_append unat_of_nat)
  show ?thesis unfolding cstring_def
  proof (intro conjI allI impI)
    show "length ?w < 2 ^ 32" using le assms by simp
    show "0 \<notin> set ?w" by (auto dest: set_takeWhileD)
    show "array_mem (bs @ replicate (n - length bs) 0) (0 + of_nat k) = ?w ! k" if "k < length ?w" for k
      using that le rd [of k] by (simp add: takeWhile_nth)
    show "array_mem (bs @ replicate (n - length bs) 0) (0 + of_nat (length ?w)) = 0"
      using le rd [of "length ?w"] nth_length_takeWhile [of "\<lambda>b. b \<noteq> 0" bs] by auto
  qed
qed

end
