(* ===== verification/Page_Source.thy ===== *)
theory Page_Source
  imports Ikaros_Base
begin

text \<open>
  The interface the rest of the kernel relies on when it takes physical pages
  (\<open>memory_region_alloc_page\<close> is called by the heap, by \<open>mm_map_page\<close> and by the paging
  set-up): allocation returns a page that was free and takes exactly it from the free pages, it
  fails only when no page is free, and deallocation gives a managed page back. The locale's
  lemmas follow a client through any number of calls.
\<close>

fun alloc_pages :: "('s \<Rightarrow> ('s \<times> u32 option) run) \<Rightarrow> nat \<Rightarrow> 's \<Rightarrow> ('s \<times> u32 list) run" where
  "alloc_pages alloc 0 s = ret (s, [])"
| "alloc_pages alloc (Suc n) s =
     run_bind (alloc s) (\<lambda>(s', r). case r of
       None \<Rightarrow> ret (s', [])
     | Some pg \<Rightarrow> run_bind (alloc_pages alloc n s') (\<lambda>(s'', pgs). ret (s'', pg # pgs)))"

locale page_source =
  fixes alloc :: "'s \<Rightarrow> ('s \<times> u32 option) run"
    and dealloc :: "'s \<Rightarrow> u32 \<Rightarrow> 's run"
    and inv :: "'s \<Rightarrow> bool"
    and free :: "'s \<Rightarrow> nat set"
    and pages :: "'s \<Rightarrow> nat set"
  assumes alloc_returns: "inv s \<Longrightarrow> \<exists>s' r. alloc s = ret (s', r)"
    and alloc_some: "inv s \<Longrightarrow> alloc s = ret (s', Some pg) \<Longrightarrow>
      inv s' \<and> unat pg \<in> free s \<and> free s' = free s - {unat pg} \<and> pages s' = pages s"
    and alloc_none: "inv s \<Longrightarrow> alloc s = ret (s', None) \<Longrightarrow> s' = s \<and> free s = {}"
    and dealloc_managed: "inv s \<Longrightarrow> unat pg \<in> pages s \<Longrightarrow>
      \<exists>s'. dealloc s pg = ret s' \<and> inv s' \<and> free s' = insert (unat pg) (free s) \<and> pages s' = pages s"
    and free_managed: "inv s \<Longrightarrow> free s \<subseteq> pages s"
begin

text \<open>A page that is taken is given back by \<open>dealloc\<close>: the free pages are as before.\<close>

lemma alloc_dealloc:
  assumes "inv s" and "alloc s = ret (s', Some pg)"
  shows "\<exists>s''. dealloc s' pg = ret s'' \<and> inv s'' \<and> free s'' = free s"
proof -
  from alloc_some [OF assms] have s': "inv s'" "unat pg \<in> free s" "free s' = free s - {unat pg}"
    "pages s' = pages s" by blast+
  then have "unat pg \<in> pages s'" using free_managed [OF assms(1)] by blast
  with s'(1) obtain s'' where "dealloc s' pg = ret s''" "inv s''" "free s'' = insert (unat pg) (free s')"
    using dealloc_managed by blast
  moreover have "insert (unat pg) (free s') = free s" using s'(2,3) by auto
  ultimately show ?thesis by auto
qed

text \<open>
  \<open>n\<close> calls in a row return distinct pages, all of them free before, and they return as many as
  asked for as long as enough are free.
\<close>

lemma alloc_pages_spec:
  assumes "inv s" and "finite (free s)"
  shows "\<exists>s' pgs. alloc_pages alloc n s = ret (s', pgs) \<and> inv s' \<and> distinct pgs \<and>
    unat ` set pgs \<subseteq> free s \<and> free s' = free s - unat ` set pgs \<and> length pgs = min n (card (free s))"
  using assms
proof (induction n arbitrary: s)
  case 0
  then show ?case by simp
next
  case (Suc n)
  from alloc_returns [OF Suc.prems(1)] obtain s' r where step: "alloc s = ret (s', r)" by blast
  show ?case
  proof (cases r)
    case None
    with alloc_none Suc.prems step have "s' = s" "free s = {}" by blast+
    with step None Suc.prems show ?thesis by simp
  next
    case (Some pg)
    with alloc_some Suc.prems step have s': "inv s'" "unat pg \<in> free s" "free s' = free s - {unat pg}"
      by blast+
    with Suc.prems have "finite (free s')" by simp
    from Suc.IH [OF s'(1) this] obtain s'' pgs where rec: "alloc_pages alloc n s' = ret (s'', pgs)"
      "inv s''" "distinct pgs" "unat ` set pgs \<subseteq> free s'" "free s'' = free s' - unat ` set pgs"
      "length pgs = min n (card (free s'))" by blast
    have "pg \<notin> set pgs" using rec(4) s'(3) by auto
    moreover have "card (free s) = Suc (card (free s'))"
      using s' Suc.prems(2) by (metis card_Suc_Diff1)
    ultimately show ?thesis using rec s' step Some by auto
  qed
qed

end

end
