(* ===== verification/Memory_Region.thy ===== *)
theory Memory_Region
  imports Linked_List Libc_Strings Page_Source
begin

text \<open>
  The physical page allocator: \<^verbatim>\<open>kernel/include/kernel/memory/memory_region.h\<close> and
  \<^verbatim>\<open>kernel/kernel/memory/memory_region.c\<close>. A region is a run of pages with a bitmap, one bit per
  page (set: in use); regions form a \<open>NULL\<close>-terminated list. \<open>regions\<close> is the store of region
  structures by address, and the two pointers are the file's static variables. The locking
  functions of the source are empty and leave no trace in the model.
\<close>

section \<open>Data\<close>

type_synonym page = u32
type_synonym rptr = nat

definition MEMORY_BITMAP_SIZE :: nat where
  "MEMORY_BITMAP_SIZE = 2048"

record memory_region =
  r_next :: "rptr option"
  r_base :: u32
  r_length :: u32
  r_bitmap :: "u8 list"

record region_state =
  regions :: "rptr \<Rightarrow> memory_region"
  root_region :: "rptr option"
  last_free_region :: "rptr option"

text \<open>The address of the statically allocated \<open>_initial_memory_region\<close>.\<close>

definition initial_region :: rptr where
  "initial_region = 0"

text \<open>The static variables before any code runs: the loader zeroes them.\<close>

definition region_bss :: region_state where
  "region_bss = \<lparr>regions = (\<lambda>_. \<lparr>r_next = None, r_base = 0, r_length = 0, r_bitmap = replicate MEMORY_BITMAP_SIZE 0\<rparr>),
     root_region = None, last_free_region = None\<rparr>"

section \<open>Operations on one region list (memory_region.h)\<close>

definition memory_region_overlap :: "memory_region \<Rightarrow> page \<Rightarrow> page \<Rightarrow> bool" where
  "memory_region_overlap region mn mx =
     (if mx < r_base region then False
      else if mn > r_base region + r_length region then False
      else True)"

text \<open>The loop both bit operations start with: skip the regions that end at or before \<open>page\<close>.\<close>

partial_function (option) region_seek ::
  "(rptr \<Rightarrow> memory_region) \<Rightarrow> page \<Rightarrow> rptr option \<Rightarrow> rptr option option" where
  "region_seek rs pg region = (case region of
     None \<Rightarrow> Some None
   | Some p \<Rightarrow> if pg \<ge> r_base (rs p) + r_length (rs p) then region_seek rs pg (r_next (rs p))
              else Some region)"

definition memory_region_setbit ::
  "(rptr \<Rightarrow> memory_region) \<Rightarrow> rptr option \<Rightarrow> page \<Rightarrow> bool \<Rightarrow> (rptr \<Rightarrow> memory_region) run" where
  "memory_region_setbit rs region pg st = (case region_seek rs pg region of
     None \<Rightarrow> None
   | Some None \<Rightarrow> ret rs
   | Some (Some p) \<Rightarrow>
       if pg \<ge> r_base (rs p) then
         (let off = pg - r_base (rs p);
              element = drop_bit 3 off;
              index = push_bit (unat (off - push_bit 3 element)) (1 :: u32);
              bm = r_bitmap (rs p)
          in if unat element < length bm then
               ret (rs(p := (rs p)\<lparr>r_bitmap := bm[unat element :=
                 (if st then bm ! unat element OR ucast index
                  else bm ! unat element AND ucast (NOT index))]\<rparr>))
             else goes_wrong Out_of_bounds)
       else ret rs)"

definition memory_region_getbit ::
  "(rptr \<Rightarrow> memory_region) \<Rightarrow> rptr option \<Rightarrow> page \<Rightarrow> int run" where
  "memory_region_getbit rs region pg = (case region_seek rs pg region of
     None \<Rightarrow> None
   | Some None \<Rightarrow> ret (-1)
   | Some (Some p) \<Rightarrow>
       if pg > r_base (rs p) then
         (let off = pg - r_base (rs p);
              element = drop_bit 3 off;
              index = push_bit (unat (off - push_bit 3 element)) (1 :: u32);
              bm = r_bitmap (rs p)
          in if unat element < length bm then
               ret (if ucast (bm ! unat element) AND index \<noteq> 0 then 1 else 0)
             else goes_wrong Out_of_bounds)
       else ret (-1))"

text \<open>The bitmap seen as an array of 32-bit words, in the target's byte order.\<close>

definition bm_word :: "u8 list \<Rightarrow> nat \<Rightarrow> u32" where
  "bm_word bm i = le32 (bm ! (4 * i)) (bm ! (4 * i + 1)) (bm ! (4 * i + 2)) (bm ! (4 * i + 3))"

definition bm_set_word :: "u8 list \<Rightarrow> nat \<Rightarrow> u32 \<Rightarrow> u8 list" where
  "bm_set_word bm i w =
     bm[4 * i := byte_of w 0, 4 * i + 1 := byte_of w 1, 4 * i + 2 := byte_of w 2, 4 * i + 3 := byte_of w 3]"

text \<open>The inner loop: the first of the \<open>n\<close> words that is not all ones, and its lowest zero bit.\<close>

function find_word :: "u8 list \<Rightarrow> nat \<Rightarrow> nat \<Rightarrow> (nat \<times> nat) option run" where
  "find_word bm i n =
     (if i < n then
        (if 4 * i + 3 < length bm then
           (let x = NOT (bm_word bm i)
            in if x \<noteq> 0 then (case ffs x of None \<Rightarrow> None | Some f \<Rightarrow> ret (Some (i, f - 1)))
               else find_word bm (i + 1) n)
         else goes_wrong Out_of_bounds)
      else ret None)"
  by pat_completeness auto
termination
  by (relation "measure (\<lambda>(bm, i, n). n - i)") auto

declare find_word.simps [simp del]

partial_function (option) memory_region_find_and_set ::
  "(rptr \<Rightarrow> memory_region) \<Rightarrow> rptr option \<Rightarrow> rptr option \<Rightarrow>
     ((rptr \<Rightarrow> memory_region) \<times> (rptr \<times> page) option) run" where
  "memory_region_find_and_set rs region stop =
     (if region = None \<or> region = stop then ret (rs, None)
      else let p = the region; bm = r_bitmap (rs p)
      in case find_word bm 0 (unat (r_length (rs p) div 32)) of
           None \<Rightarrow> None
         | Some (Inl f) \<Rightarrow> goes_wrong f
         | Some (Inr None) \<Rightarrow> memory_region_find_and_set rs (r_next (rs p)) stop
         | Some (Inr (Some (i, y))) \<Rightarrow>
             ret (rs(p := (rs p)\<lparr>r_bitmap := bm_set_word bm i (bm_word bm i OR push_bit y 1)\<rparr>),
                  Some (p, r_base (rs p) + of_nat i * 32 + of_nat y)))"

section \<open>The allocator (memory_region.c)\<close>

definition memory_region_early_init :: "region_state \<Rightarrow> u32 \<Rightarrow> u32 \<Rightarrow> region_state" where
  "memory_region_early_init s bs len =
     (let max_size = of_nat (MEMORY_BITMAP_SIZE * 32)
      in s\<lparr>regions := (regions s)(initial_region :=
             \<lparr>r_next = None, r_base = bs,
              r_length = (if len > max_size then max_size else len),
              r_bitmap = replicate MEMORY_BITMAP_SIZE 0\<rparr>),
           root_region := Some initial_region,
           last_free_region := Some initial_region\<rparr>)"

definition memory_region_enumerate :: "region_state \<Rightarrow> rptr option" where
  "memory_region_enumerate s = root_region s"

text \<open>The result \<open>None\<close> is the return value \<open>-1\<close>; \<open>Some pg\<close> is \<open>0\<close> with \<open>*page\<close> set to \<open>pg\<close>.\<close>

definition memory_region_alloc_page :: "region_state \<Rightarrow> (region_state \<times> page option) run" where
  "memory_region_alloc_page s =
     run_bind (memory_region_find_and_set (regions s) (last_free_region s) None) (\<lambda>(rs, found).
     run_bind (if found = None \<and> last_free_region s \<noteq> root_region s
               then memory_region_find_and_set rs (root_region s) (last_free_region s)
               else ret (rs, found)) (\<lambda>(rs, found).
     case found of
       None \<Rightarrow> ret (s\<lparr>regions := rs\<rparr>, None)
     | Some (p, pg) \<Rightarrow> ret (s\<lparr>regions := rs, last_free_region := Some p\<rparr>, Some pg)))"

definition memory_region_dealloc_page :: "region_state \<Rightarrow> page \<Rightarrow> region_state run" where
  "memory_region_dealloc_page s pg =
     run_bind (memory_region_setbit (regions s) (root_region s) pg False)
       (\<lambda>rs. ret (s\<lparr>regions := rs\<rparr>))"

section \<open>The bitmap as an array of page bits\<close>

definition page_bit :: "u8 list \<Rightarrow> nat \<Rightarrow> bool" where
  "page_bit bm k \<longleftrightarrow> bit (bm ! (k div 8)) (k mod 8)"

definition bm_put :: "u8 list \<Rightarrow> nat \<Rightarrow> bool \<Rightarrow> u8 list" where
  "bm_put bm k b = bm[k div 8 :=
     (if b then set_bit (k mod 8) (bm ! (k div 8)) else unset_bit (k mod 8) (bm ! (k div 8)))]"

lemma length_bm_put [simp]: "length (bm_put bm k b) = length bm"
  by (simp add: bm_put_def)

lemma page_bit_put:
  "k div 8 < length bm \<Longrightarrow> page_bit (bm_put bm k b) j = (if j = k then b else page_bit bm j)"
proof -
  assume k: "k div 8 < length bm"
  have "j = k \<longleftrightarrow> j div 8 = k div 8 \<and> j mod 8 = k mod 8"
    by (metis div_mult_mod_eq)
  with k show ?thesis
    by (auto simp: page_bit_def bm_put_def nth_list_update bit_simps)
qed

lemma length_bm_set_word [simp]: "length (bm_set_word bm i w) = length bm"
  by (simp add: bm_set_word_def)

lemma page_in_word: "(32 * i + j) div 8 = 4 * i + j div 8" "(32 * i + j) mod 8 = j mod (8 :: nat)"
proof -
  have eq: "32 * i + j = j + 8 * (4 * i)" by simp
  show "(32 * i + j) div 8 = 4 * i + j div 8" unfolding eq by simp
  show "(32 * i + j) mod 8 = j mod 8" unfolding eq by (rule mod_mult_self2)
qed

lemma bit_bm_word:
  assumes "j < 32"
  shows "bit (bm_word bm i) j = page_bit bm (32 * i + j)"
proof -
  define c b where "c = j div 8" and "b = j mod 8"
  have j: "j = 8 * c + b" "b < 8" "c < 4" using assms by (auto simp: c_def b_def)
  have "page_bit bm (32 * i + j) = bit (bm ! (4 * i + c)) b"
    by (simp add: page_bit_def page_in_word c_def b_def)
  moreover from j(3) consider "c = 0" | "c = 1" | "c = 2" | "c = 3" by linarith
  then have "bit (bm_word bm i) (8 * c + b) = bit (bm ! (4 * i + c)) b"
    using j(2) by cases (auto simp: bm_word_def bit_le32)
  ultimately show ?thesis by (simp add: j(1))
qed

lemma bm_set_word_nth:
  assumes "4 * i + 3 < length bm"
  shows "bm_set_word bm i w ! n =
    (if 4 * i \<le> n \<and> n < 4 * i + 4 then byte_of w (n - 4 * i) else bm ! n)"
proof (cases "4 * i \<le> n \<and> n < 4 * i + 4")
  case True
  then consider "n = 4 * i" | "n = 4 * i + 1" | "n = 4 * i + 2" | "n = 4 * i + 3" by linarith
  then show ?thesis using assms by cases (simp_all add: bm_set_word_def nth_list_update)
next
  case False
  then have "n \<noteq> 4 * i" "n \<noteq> 4 * i + 1" "n \<noteq> 4 * i + 2" "n \<noteq> 4 * i + 3" by auto
  with False show ?thesis by (auto simp: bm_set_word_def)
qed

lemma bm_set_word_put:
  assumes "4 * i + 3 < length bm" and "y < 32"
  shows "bm_set_word bm i (bm_word bm i OR push_bit y 1) = bm_put bm (32 * i + y) True"
proof (rule nth_equalityI)
  fix n assume n: "n < length (bm_set_word bm i (bm_word bm i OR push_bit y 1))"
  have byte: "byte_of (bm_word bm i OR push_bit y 1) c =
      (if y div 8 = c then set_bit (y mod 8) (bm ! (4 * i + c)) else bm ! (4 * i + c))"
    if "c < 4" for c
  proof (rule bit_word_eqI)
    fix b assume b: "b < LENGTH(8)"
    have e: "(32 * i + (8 * c + b)) div 8 = 4 * i + c" "(32 * i + (8 * c + b)) mod 8 = b"
      using b by (auto simp: page_in_word)
    have yc: "8 * c + b = y \<longleftrightarrow> y div 8 = c \<and> y mod 8 = b" using b by auto
    from that b have "8 * c + b < 32" by simp
    with b show "bit (byte_of (bm_word bm i OR push_bit y 1) c) b = bit (if y div 8 = c
        then set_bit (y mod 8) (bm ! (4 * i + c)) else bm ! (4 * i + c)) b"
      by (auto simp: bit_byte_of bit_simps bit_bm_word page_bit_def e yc)
  qed
  show "bm_set_word bm i (bm_word bm i OR push_bit y 1) ! n = bm_put bm (32 * i + y) True ! n"
  proof (cases "4 * i \<le> n \<and> n < 4 * i + 4")
    case True
    with byte [of "n - 4 * i"] n show ?thesis
      by (auto simp: bm_set_word_nth [OF assms(1)] bm_put_def page_in_word nth_list_update)
  next
    case False
    with assms(2) have "n \<noteq> 4 * i + y div 8" by auto
    with False show ?thesis
      by (auto simp: bm_set_word_nth [OF assms(1)] bm_put_def page_in_word)
  qed
qed simp

lemma find_word_cases:
  assumes "4 * n \<le> length bm"
  shows "(find_word bm i n = ret None \<and> (\<forall>k. 32 * i \<le> k \<and> k < 32 * n \<longrightarrow> page_bit bm k)) \<or>
    (\<exists>i' y. find_word bm i n = ret (Some (i', y)) \<and> i \<le> i' \<and> i' < n \<and> y < 32 \<and>
       \<not> page_bit bm (32 * i' + y) \<and> (\<forall>k. 32 * i \<le> k \<and> k < 32 * i' + y \<longrightarrow> page_bit bm k))"
  using assms
proof (induction bm i n rule: find_word.induct)
  case (1 bm i n)
  show ?case
  proof (cases "i < n")
    case False
    then show ?thesis by (subst find_word.simps) auto
  next
    case True
    with "1.prems" have inb: "4 * i + 3 < length bm" by simp
    have word: "bit (NOT (bm_word bm i)) j \<longleftrightarrow> j < 32 \<and> \<not> page_bit bm (32 * i + j)" for j
      by (auto simp: bit_simps bit_bm_word)
    show ?thesis
    proof (cases "NOT (bm_word bm i) = 0")
      case True
      with \<open>i < n\<close> inb have step: "find_word bm i n = find_word bm (i + 1) n"
        by (subst find_word.simps) simp
      have full: "page_bit bm k" if "32 * i \<le> k" "k < 32 * (i + 1)" for k
      proof -
        have "\<not> bit (NOT (bm_word bm i)) (k - 32 * i)" using True by simp
        with that show ?thesis by (simp add: word)
      qed
      have lift: "\<forall>k. 32 * i \<le> k \<and> k < m \<longrightarrow> page_bit bm k"
        if "\<forall>k. 32 * (i + 1) \<le> k \<and> k < m \<longrightarrow> page_bit bm k" for m
        using that full by (meson not_less)
      have "\<not> NOT (bm_word bm i) \<noteq> 0" using True by simp
      from "1.IH" [OF \<open>i < n\<close> inb refl this "1.prems"] show ?thesis
      proof (elim disjE conjE exE)
        fix i' y
        assume found: "find_word bm (i + 1) n = ret (Some (i', y))" "i + 1 \<le> i'" "i' < n" "y < 32"
          "\<not> page_bit bm (32 * i' + y)" "\<forall>k. 32 * (i + 1) \<le> k \<and> k < 32 * i' + y \<longrightarrow> page_bit bm k"
        then have "i \<le> i'" by simp
        with found lift [OF found(6)] show ?thesis unfolding step by blast
      next
        assume "find_word bm (i + 1) n = ret None"
          and "\<forall>k. 32 * (i + 1) \<le> k \<and> k < 32 * n \<longrightarrow> page_bit bm k"
        then show ?thesis using lift unfolding step by simp
      qed
    next
      case False
      then obtain j where j: "ffs (NOT (bm_word bm i)) = Some (j + 1)" "j < 32"
        "bit (NOT (bm_word bm i)) j" "\<forall>b < j. \<not> bit (NOT (bm_word bm i)) b"
        using ffs_least_bit by blast
      have "page_bit bm k" if "32 * i \<le> k" "k < 32 * i + j" for k
        using j(2,4) that word [of "k - 32 * i"] by auto
      moreover have "find_word bm i n = ret (Some (i, j))"
        using \<open>i < n\<close> inb False j(1) by (subst find_word.simps) simp
      ultimately show ?thesis using j word \<open>i < n\<close> by blast
    qed
  qed
qed

section \<open>One region\<close>

text \<open>
  \<open>region_ok\<close>: the bitmap covers every page of the region and the region ends below the top of
  the page number space. The search looks at whole 32-bit words only, so it hands out the
  \<open>usable\<close> pages.
\<close>

definition region_ok :: "memory_region \<Rightarrow> bool" where
  "region_ok r \<longleftrightarrow> length (r_bitmap r) = MEMORY_BITMAP_SIZE \<and>
     unat (r_length r) \<le> 8 * MEMORY_BITMAP_SIZE \<and> unat (r_base r) + unat (r_length r) < 2 ^ 32"

definition mark :: "memory_region \<Rightarrow> nat \<Rightarrow> bool \<Rightarrow> memory_region" where
  "mark r k b = r\<lparr>r_bitmap := bm_put (r_bitmap r) k b\<rparr>"

definition usable :: "memory_region \<Rightarrow> nat" where
  "usable r = 32 * (unat (r_length r) div 32)"

definition free_in :: "memory_region \<Rightarrow> nat set" where
  "free_in r = {unat (r_base r) + k | k. k < usable r \<and> \<not> page_bit (r_bitmap r) k}"

lemma mark_sel [simp]:
  "r_next (mark r k b) = r_next r" "r_base (mark r k b) = r_base r"
  "r_length (mark r k b) = r_length r" "usable (mark r k b) = usable r"
  "region_ok (mark r k b) = region_ok r"
  by (simp_all add: mark_def usable_def region_ok_def)

lemma usable_bounds:
  assumes "region_ok r" and "k < usable r"
  shows "k < unat (r_length r)" and "k div 8 < length (r_bitmap r)"
  using assms by (auto simp: region_ok_def usable_def MEMORY_BITMAP_SIZE_def)

lemma free_in_mark:
  assumes "region_ok r" and "k < unat (r_length r)"
  shows "free_in (mark r k True) = free_in r - {unat (r_base r) + k}"
    and "k < usable r \<Longrightarrow> free_in (mark r k False) = insert (unat (r_base r) + k) (free_in r)"
proof -
  from assms have "k div 8 < length (r_bitmap r)"
    by (auto simp: region_ok_def MEMORY_BITMAP_SIZE_def)
  then have pb: "page_bit (r_bitmap (mark r k b)) j = (if j = k then b else page_bit (r_bitmap r) j)" for b j
    by (simp add: mark_def page_bit_put)
  show "free_in (mark r k True) = free_in r - {unat (r_base r) + k}"
    by (auto simp: free_in_def pb)
  show "k < usable r \<Longrightarrow> free_in (mark r k False) = insert (unat (r_base r) + k) (free_in r)"
    by (auto simp: free_in_def pb)
qed

lemma region_end: "region_ok r \<Longrightarrow> unat (r_base r + r_length r) = unat (r_base r) + unat (r_length r)"
  by (simp add: region_ok_def unat_plus_if')

lemma region_page:
  assumes "region_ok r" and "k < unat (r_length r)"
  shows "unat (r_base r + of_nat k) = unat (r_base r) + k"
proof -
  have "unat (of_nat k :: u32) = k"
    using assms by (auto simp: region_ok_def MEMORY_BITMAP_SIZE_def unat_of_nat)
  with assms show ?thesis by (simp add: region_ok_def unat_plus_if')
qed

text \<open>Searching one region finds its lowest free page, or finds it full.\<close>

lemma find_word_region:
  assumes "region_ok r"
  shows "(find_word (r_bitmap r) 0 (unat (r_length r div 32)) = ret None \<and> free_in r = {}) \<or>
    (\<exists>i y k. find_word (r_bitmap r) 0 (unat (r_length r div 32)) = ret (Some (i, y)) \<and>
       k = 32 * i + y \<and> y < 32 \<and> 4 * i + 3 < length (r_bitmap r) \<and> k < usable r \<and>
       \<not> page_bit (r_bitmap r) k \<and> (\<forall>j < k. page_bit (r_bitmap r) j))"
proof -
  let ?n = "unat (r_length r) div 32"
  have n: "unat (r_length r div 32) = ?n" by (simp add: unat_div)
  have b: "4 * ?n \<le> length (r_bitmap r)"
    using assms by (auto simp: region_ok_def MEMORY_BITMAP_SIZE_def)
  from find_word_cases [OF b, of 0] show ?thesis
  proof (elim disjE conjE exE)
    assume "find_word (r_bitmap r) 0 ?n = ret None"
      and "\<forall>k. 32 * 0 \<le> k \<and> k < 32 * ?n \<longrightarrow> page_bit (r_bitmap r) k"
    then show ?thesis by (auto simp: n free_in_def usable_def)
  next
    fix i y
    assume *: "find_word (r_bitmap r) 0 ?n = ret (Some (i, y))" "i < ?n" "y < 32"
      "\<not> page_bit (r_bitmap r) (32 * i + y)"
      "\<forall>k. 32 * 0 \<le> k \<and> k < 32 * i + y \<longrightarrow> page_bit (r_bitmap r) k"
    then have "32 * i + y < usable r" "4 * i + 3 < length (r_bitmap r)"
      using b by (auto simp: usable_def)
    with * show ?thesis by (simp add: n)
  qed
qed

section \<open>A list of regions\<close>

text \<open>
  \<open>marked rs xs rs' p k\<close>: the outcome of a successful search through the regions \<open>xs\<close>: page \<open>k\<close>
  of region \<open>p\<close> was free, every region before \<open>p\<close> and every page before \<open>k\<close> was in use, and
  exactly that page is now in use.
\<close>

definition marked ::
  "(rptr \<Rightarrow> memory_region) \<Rightarrow> rptr list \<Rightarrow> (rptr \<Rightarrow> memory_region) \<Rightarrow> rptr \<Rightarrow> nat \<Rightarrow> bool" where
  "marked rs xs rs' p k \<longleftrightarrow> rs' = rs(p := mark (rs p) k True) \<and> k < usable (rs p) \<and>
     \<not> page_bit (r_bitmap (rs p)) k \<and> (\<forall>j < k. page_bit (r_bitmap (rs p)) j) \<and>
     (\<exists>ys zs. xs = ys @ p # zs \<and> (\<forall>q \<in> set ys. free_in (rs q) = {}))"

lemma find_and_set_seg:
  assumes "lseg (\<lambda>p. r_next (rs p)) region xs stop" and "\<forall>p \<in> set xs. region_ok (rs p) \<and> stop \<noteq> Some p"
  shows "(memory_region_find_and_set rs region stop = ret (rs, None) \<and> (\<forall>p \<in> set xs. free_in (rs p) = {})) \<or>
    (\<exists>rs' p k. memory_region_find_and_set rs region stop = ret (rs', Some (p, r_base (rs p) + of_nat k)) \<and>
       marked rs xs rs' p k)"
  using assms
proof (induction xs arbitrary: region)
  case Nil
  then show ?case by (subst memory_region_find_and_set.simps) simp
next
  case (Cons p xs)
  then have region: "region = Some p" and ok: "region_ok (rs p)" and ne: "region \<noteq> stop"
    and tail: "lseg (\<lambda>p. r_next (rs p)) (r_next (rs p)) xs stop"
    and tail_ok: "\<forall>p \<in> set xs. region_ok (rs p) \<and> stop \<noteq> Some p"
    by auto
  from find_word_region [OF ok] show ?case
  proof (elim disjE conjE exE)
    assume none: "find_word (r_bitmap (rs p)) 0 (unat (r_length (rs p) div 32)) = ret None"
      and full: "free_in (rs p) = {}"
    have step: "memory_region_find_and_set rs region stop =
        memory_region_find_and_set rs (r_next (rs p)) stop"
      using region ne none by (subst memory_region_find_and_set.simps) simp
    have cons: "marked rs (p # xs) rs' q k" if "marked rs xs rs' q k" for rs' q k
      using that full unfolding marked_def by (metis append_Cons set_ConsD)
    from Cons.IH [OF tail tail_ok] show ?thesis unfolding step
      by (elim disjE conjE exE) (use full cons in \<open>simp, blast\<close>)
  next
    fix i y k
    assume *: "find_word (r_bitmap (rs p)) 0 (unat (r_length (rs p) div 32)) = ret (Some (i, y))"
      "k = 32 * i + y" "y < 32" "4 * i + 3 < length (r_bitmap (rs p))" "k < usable (rs p)"
      "\<not> page_bit (r_bitmap (rs p)) k" "\<forall>j < k. page_bit (r_bitmap (rs p)) j"
    have page: "r_base (rs p) + of_nat i * 32 + of_nat y = r_base (rs p) + (of_nat k :: u32)"
      by (simp add: *(2))
    have "memory_region_find_and_set rs region stop =
        ret (rs(p := mark (rs p) k True), Some (p, r_base (rs p) + of_nat k))"
      using region ne *(1-4)
      by (subst memory_region_find_and_set.simps) (simp add: Let_def bm_set_word_put [simplified] mark_def page)
    moreover have "marked rs (p # xs) (rs(p := mark (rs p) k True)) p k"
      unfolding marked_def using *(5-7) by (intro conjI exI [of _ "[]"] exI [of _ xs]) auto
    ultimately show ?thesis by blast
  qed
qed

text \<open>
  The invariant of the allocator: the regions form a finite list, sorted by page number and
  without overlap, and the search starts at one of them.
\<close>

definition chain :: "region_state \<Rightarrow> rptr list \<Rightarrow> bool" where
  "chain s ps \<longleftrightarrow> lseg (\<lambda>p. r_next (regions s p)) (root_region s) ps None \<and>
     (\<forall>p \<in> set ps. region_ok (regions s p)) \<and> (\<exists>p \<in> set ps. last_free_region s = Some p) \<and>
     sorted_wrt (\<lambda>p q. unat (r_base (regions s p)) + unat (r_length (regions s p))
        \<le> unat (r_base (regions s q))) ps"

definition region_inv :: "region_state \<Rightarrow> bool" where
  "region_inv s \<longleftrightarrow> (\<exists>ps. chain s ps)"

definition listed :: "region_state \<Rightarrow> rptr \<Rightarrow> bool" where
  "listed s p \<longleftrightarrow> (\<exists>ps. lseg (\<lambda>p. r_next (regions s p)) (root_region s) ps None \<and> p \<in> set ps)"

definition free_pages :: "region_state \<Rightarrow> nat set" where
  "free_pages s = (\<Union>p \<in> {p. listed s p}. free_in (regions s p))"

definition region_pages :: "region_state \<Rightarrow> nat set" where
  "region_pages s = (\<Union>p \<in> {p. listed s p}.
     {unat (r_base (regions s p))..<unat (r_base (regions s p)) + usable (regions s p)})"

lemma listed_chain: "chain s ps \<Longrightarrow> listed s p \<longleftrightarrow> p \<in> set ps"
  unfolding chain_def listed_def by (blast dest: lseg_None_unique)

lemma chain_distinct: "chain s ps \<Longrightarrow> distinct ps"
  unfolding chain_def by (blast intro: lseg_None_distinct)

lemma free_pages_chain: "chain s ps \<Longrightarrow> free_pages s = (\<Union>p \<in> set ps. free_in (regions s p))"
  by (auto simp: free_pages_def listed_chain)

lemma region_pages_chain:
  "chain s ps \<Longrightarrow> region_pages s = (\<Union>p \<in> set ps.
     {unat (r_base (regions s p))..<unat (r_base (regions s p)) + usable (regions s p)})"
  by (auto simp: region_pages_def listed_chain)

lemma usable_le: "usable r \<le> unat (r_length r)"
  by (simp add: usable_def)

lemma free_in_bounds: "pg \<in> free_in r \<Longrightarrow> unat (r_base r) \<le> pg \<and> pg < unat (r_base r) + usable r"
  by (auto simp: free_in_def)

text \<open>Two listed regions share no page.\<close>

lemma chain_disjoint:
  assumes "chain s ps" "p \<in> set ps" "q \<in> set ps" "p \<noteq> q"
    and "unat (r_base (regions s p)) \<le> pg" "pg < unat (r_base (regions s p)) + unat (r_length (regions s p))"
    and "unat (r_base (regions s q)) \<le> pg"
  shows "unat (r_base (regions s q)) + unat (r_length (regions s q)) \<le> pg"
proof -
  let ?b = "\<lambda>p. unat (r_base (regions s p))" and ?l = "\<lambda>p. unat (r_length (regions s p))"
  have srt: "sorted_wrt (\<lambda>p q. ?b p + ?l p \<le> ?b q) ps" using assms(1) by (simp add: chain_def)
  from assms(2,3,4) obtain i j where ij: "i < length ps" "j < length ps" "i \<noteq> j" "p = ps ! i" "q = ps ! j"
    by (metis in_set_conv_nth)
  then consider "i < j" | "j < i" by linarith
  then have "?b p + ?l p \<le> ?b q \<or> ?b q + ?l q \<le> ?b p"
    by cases (use ij sorted_wrt_nth_less [OF srt] in auto)
  with assms(5-7) show ?thesis by linarith
qed

text \<open>Changing one bit of a listed region keeps the list.\<close>

lemma chain_mark:
  assumes "chain s ps" and "p \<in> set ps"
  shows "chain (s\<lparr>regions := (regions s)(p := mark (regions s p) k b)\<rparr>) ps"
    and "chain (s\<lparr>regions := (regions s)(p := mark (regions s p) k b), last_free_region := Some p\<rparr>) ps"
proof -
  have sel: "f (((regions s)(p := mark (regions s p) k b)) q) = f (regions s q)"
    if "f (mark (regions s p) k b) = f (regions s p)" for f :: "memory_region \<Rightarrow> 'z" and q
    using that by simp
  show "chain (s\<lparr>regions := (regions s)(p := mark (regions s p) k b)\<rparr>) ps"
    and "chain (s\<lparr>regions := (regions s)(p := mark (regions s p) k b), last_free_region := Some p\<rparr>) ps"
    using assms by (auto simp: chain_def sel [of r_next] sel [of r_base] sel [of r_length] sel [of region_ok] simp del: fun_upd_apply)
qed

lemma region_seek_hit:
  assumes "lseg (\<lambda>p. r_next (rs p)) region (ys @ p # zs) q"
    and "\<forall>x \<in> set ys. r_base (rs x) + r_length (rs x) \<le> pg" and "pg < r_base (rs p) + r_length (rs p)"
  shows "region_seek rs pg region = Some (Some p)"
  using assms
proof (induction ys arbitrary: region)
  case Nil
  then show ?case by (subst region_seek.simps) auto
next
  case (Cons x ys)
  then show ?case by (subst region_seek.simps) simp
qed

lemma region_seek_miss:
  assumes "lseg (\<lambda>p. r_next (rs p)) region ys None"
    and "\<forall>x \<in> set ys. r_base (rs x) + r_length (rs x) \<le> pg"
  shows "region_seek rs pg region = Some None"
  using assms
proof (induction ys arbitrary: region)
  case Nil
  then show ?case by (subst region_seek.simps) simp
next
  case (Cons x ys)
  then show ?case by (subst region_seek.simps) simp
qed

text \<open>In the list of the allocator, a page of a listed region is found there.\<close>

lemma chain_seek:
  assumes "chain s ps" and "p \<in> set ps" and "unat (r_base (regions s p)) \<le> unat pg"
    and "unat pg < unat (r_base (regions s p)) + unat (r_length (regions s p))"
  shows "region_seek (regions s) pg (root_region s) = Some (Some p)"
proof -
  from assms(2) obtain ys zs where ps: "ps = ys @ p # zs" by (auto simp: in_set_conv_decomp)
  let ?e = "\<lambda>x. r_base (regions s x) + r_length (regions s x)"
  have ok: "region_ok (regions s x)" if "x \<in> set ps" for x using assms(1) that by (simp add: chain_def)
  have "?e x \<le> pg" if "x \<in> set ys" for x
  proof -
    have "unat (r_base (regions s x)) + unat (r_length (regions s x)) \<le> unat (r_base (regions s p))"
      using assms(1) that ps by (auto simp: chain_def sorted_wrt_append)
    with assms(3) ok [of x] ps that show ?thesis by (simp add: word_le_nat_alt region_end)
  qed
  moreover have "pg < ?e p"
    using assms(2,4) ok [of p] by (simp add: word_less_nat_alt region_end)
  ultimately show ?thesis
    using assms(1) ps by (intro region_seek_hit [where ys = ys and zs = zs and q = None]) (auto simp: chain_def)
qed

text \<open>The masks the bit operations compute are those of the page's byte and position in it.\<close>

lemma element_index:
  "unat (drop_bit 3 (off :: u32)) = unat off div 8"
  "unat (off - push_bit 3 (drop_bit 3 off)) = unat off mod 8"
proof -
  show div: "unat (drop_bit 3 off) = unat off div 8"
    by (simp add: drop_bit_eq_div unat_div)
  have "push_bit 3 (drop_bit 3 off) = of_nat (8 * (unat off div 8))"
    by (simp add: push_bit_eq_mult drop_bit_eq_div word_arith_nat_div)
  moreover have "unat (of_nat (8 * (unat off div 8)) :: u32) = 8 * (unat off div 8)"
  proof -
    have "8 * (unat off div 8) \<le> unat off" by simp
    also have "unat off < 2 ^ 32" using unsigned_less [of off] by simp
    finally show ?thesis by (intro unat_of_nat_small) simp
  qed
  ultimately show "unat (off - push_bit 3 (drop_bit 3 off)) = unat off mod 8"
    by (simp add: unat_sub_if_size minus_mult_div_eq_mod)
qed

lemma ucast_bit_masks:
  "n < 8 \<Longrightarrow> (b :: u8) OR ucast (push_bit n (1 :: u32)) = set_bit n b"
  "n < 8 \<Longrightarrow> (b :: u8) AND ucast (NOT (push_bit n (1 :: u32))) = unset_bit n b"
  "n < 8 \<Longrightarrow> ucast (b :: u8) AND push_bit n (1 :: u32) \<noteq> 0 \<longleftrightarrow> bit b n"
proof -
  assume n: "n < 8"
  show "b OR ucast (push_bit n (1 :: u32)) = set_bit n b"
    by (rule bit_word_eqI) (use n in \<open>auto simp: bit_simps\<close>)
  show "b AND ucast (NOT (push_bit n (1 :: u32))) = unset_bit n b"
    by (rule bit_word_eqI) (use n in \<open>auto simp: bit_simps\<close>)
  have "(ucast b :: u32) AND 2 ^ n = 0 \<longleftrightarrow> \<not> (n < 32 \<and> bit (ucast b :: u32) n)" by (rule bit_and_exp)
  with n show "ucast b AND push_bit n (1 :: u32) \<noteq> 0 \<longleftrightarrow> bit b n" by (simp add: bit_simps)
qed

text \<open>Both bit operations, on page \<open>k\<close> of a listed region.\<close>

lemma chain_page:
  assumes "chain s ps" and "p \<in> set ps" and "k < unat (r_length (regions s p))"
  shows "unat (r_base (regions s p) + of_nat k) = unat (r_base (regions s p)) + k"
    and "region_seek (regions s) (r_base (regions s p) + of_nat k) (root_region s) = Some (Some p)"
    and "r_base (regions s p) \<le> r_base (regions s p) + of_nat k"
    and "unat (r_base (regions s p) + of_nat k - r_base (regions s p)) = k"
    and "k div 8 < length (r_bitmap (regions s p))"
proof -
  have ok: "region_ok (regions s p)" using assms(1,2) by (simp add: chain_def)
  show pg: "unat (r_base (regions s p) + of_nat k) = unat (r_base (regions s p)) + k"
    using region_page [OF ok assms(3)] .
  show "region_seek (regions s) (r_base (regions s p) + of_nat k) (root_region s) = Some (Some p)"
    by (rule chain_seek [OF assms(1,2)]) (use pg assms(3) in auto)
  show "r_base (regions s p) \<le> r_base (regions s p) + of_nat k"
    by (simp add: word_le_nat_alt pg)
  have "k < 2 ^ 32" using assms(3) unat_u32 [of "r_length (regions s p)"] by simp
  then show "unat (r_base (regions s p) + of_nat k - r_base (regions s p)) = k"
    by (simp add: unat_of_nat_small)
  show "k div 8 < length (r_bitmap (regions s p))"
    using ok assms(3) by (auto simp: region_ok_def MEMORY_BITMAP_SIZE_def)
qed

lemma setbit_chain:
  assumes "chain s ps" and "p \<in> set ps" and "k < unat (r_length (regions s p))"
  shows "memory_region_setbit (regions s) (root_region s) (r_base (regions s p) + of_nat k) b =
    ret ((regions s)(p := mark (regions s p) k b))"
proof -
  note pg = chain_page [OF assms]
  have m: "k mod 8 < 8" by simp
  show ?thesis
    unfolding memory_region_setbit_def pg(2) Let_def
    using pg(3,5) ucast_bit_masks(1,2) [OF m]
    by (simp only: option.case if_True element_index pg(4)) (simp add: mark_def bm_put_def)
qed

lemma getbit_chain:
  assumes "chain s ps" and "p \<in> set ps" and "k < unat (r_length (regions s p))"
  shows "memory_region_getbit (regions s) (root_region s) (r_base (regions s p) + of_nat k) =
    ret (if k = 0 then -1 else if page_bit (r_bitmap (regions s p)) k then 1 else 0)"
proof -
  note pg = chain_page [OF assms]
  have m: "k mod 8 < 8" by simp
  have gt: "r_base (regions s p) + of_nat k > r_base (regions s p) \<longleftrightarrow> k \<noteq> 0"
    by (simp only: word_less_nat_alt pg(1)) simp
  show ?thesis
    unfolding memory_region_getbit_def pg(2) Let_def gt
    using pg(5) ucast_bit_masks(3) [OF m, of "r_bitmap (regions s p) ! (k div 8)"]
    by (simp only: option.case element_index pg(4)) (simp add: page_bit_def gt)
qed

section \<open>The allocator\<close>

lemma alloc_page_cases:
  assumes "chain s ps"
  shows "(memory_region_alloc_page s = ret (s, None) \<and> free_pages s = {}) \<or>
    (\<exists>p k. p \<in> set ps \<and> k < usable (regions s p) \<and> \<not> page_bit (r_bitmap (regions s p)) k \<and>
       memory_region_alloc_page s =
         ret (s\<lparr>regions := (regions s)(p := mark (regions s p) k True), last_free_region := Some p\<rparr>,
              Some (r_base (regions s p) + of_nat k)))"
proof -
  let ?nx = "\<lambda>p. r_next (regions s p)"
  from assms obtain l where l: "l \<in> set ps" "last_free_region s = Some l" by (auto simp: chain_def)
  then obtain ys zs where ps: "ps = ys @ l # zs" by (auto simp: in_set_conv_decomp)
  have ok: "\<forall>p \<in> set ps. region_ok (regions s p)" using assms by (simp add: chain_def)
  have segs: "lseg ?nx (root_region s) ys (Some l)" "lseg ?nx (Some l) (l # zs) None"
    using assms ps by (auto simp: chain_def lseg_append)
  have ly: "l \<notin> set ys" using chain_distinct [OF assms] ps by simp
  have first: "\<forall>p \<in> set (l # zs). region_ok (regions s p) \<and> None \<noteq> Some p" using ok ps by auto
  have second: "\<forall>p \<in> set ys. region_ok (regions s p) \<and> Some l \<noteq> Some p" using ok ps ly by auto
  have found: ?thesis
    if search: "memory_region_alloc_page s = (case Some (p, r_base (regions s p) + of_nat k) of
         None \<Rightarrow> ret (s\<lparr>regions := rs'\<rparr>, None)
       | Some (p, pg) \<Rightarrow> ret (s\<lparr>regions := rs', last_free_region := Some p\<rparr>, Some pg))"
      and mk: "marked (regions s) xs rs' p k" and sub: "set xs \<subseteq> set ps" for p k rs' xs
    using search mk sub unfolding marked_def by auto
  from find_and_set_seg [OF segs(2) first] show ?thesis
  proof (elim disjE conjE exE)
    fix rs' p k
    assume "memory_region_find_and_set (regions s) (Some l) None = ret (rs', Some (p, r_base (regions s p) + of_nat k))"
      and mk: "marked (regions s) (l # zs) rs' p k"
    then show ?thesis
      by (intro found [OF _ mk]) (auto simp: memory_region_alloc_page_def l(2) ps)
  next
    assume none: "memory_region_find_and_set (regions s) (Some l) None = ret (regions s, None)"
      and full: "\<forall>p \<in> set (l # zs). free_in (regions s p) = {}"
    show ?thesis
    proof (cases "root_region s = Some l")
      case True
      with segs(1) ly have "ys = []" by (cases ys) auto
      with full ps have "free_pages s = {}" by (simp add: free_pages_chain [OF assms])
      with none True l(2) show ?thesis by (simp add: memory_region_alloc_page_def)
    next
      case False
      from find_and_set_seg [OF segs(1) second] show ?thesis
      proof (elim disjE conjE exE)
        fix rs' p k
        assume "memory_region_find_and_set (regions s) (root_region s) (Some l) =
            ret (rs', Some (p, r_base (regions s p) + of_nat k))"
          and mk: "marked (regions s) ys rs' p k"
        then show ?thesis using none False
          by (intro found [OF _ mk]) (auto simp: memory_region_alloc_page_def l(2) ps)
      next
        assume "memory_region_find_and_set (regions s) (root_region s) (Some l) = ret (regions s, None)"
          and "\<forall>p \<in> set ys. free_in (regions s p) = {}"
        with none False full ps show ?thesis
          by (auto simp: memory_region_alloc_page_def l(2) free_pages_chain [OF assms])
      qed
    qed
  qed
qed

text \<open>The allocator of the kernel provides the page interface.\<close>

lemma free_pages_mark:
  assumes "chain s ps" and "p \<in> set ps" and "k < usable (regions s p)"
    and s': "s' = s\<lparr>regions := (regions s)(p := mark (regions s p) k b), last_free_region := lf\<rparr>"
    and "chain s' ps"
  shows "free_pages s' = (if b then free_pages s - {unat (r_base (regions s p)) + k}
      else insert (unat (r_base (regions s p)) + k) (free_pages s))"
    and "region_pages s' = region_pages s"
proof -
  have ok: "region_ok (regions s p)" using assms(1,2) by (simp add: chain_def)
  note kb = usable_bounds [OF ok assms(3)]
  have other: "unat (r_base (regions s p)) + k \<notin> free_in (regions s q)" if "q \<in> set ps" "q \<noteq> p" for q
  proof
    assume "unat (r_base (regions s p)) + k \<in> free_in (regions s q)"
    note b = free_in_bounds [OF this]
    with chain_disjoint [OF assms(1,2) that(1) that(2) [symmetric], of "unat (r_base (regions s p)) + k"] kb
    have "unat (r_base (regions s q)) + unat (r_length (regions s q)) \<le> unat (r_base (regions s p)) + k"
      by simp
    with b usable_le [of "regions s q"] show False by linarith
  qed
  have split: "(\<Union>q \<in> set ps. f (regions s' q)) = f (mark (regions s p) k b) \<union> (\<Union>q \<in> set ps - {p}. f (regions s q))"
    "(\<Union>q \<in> set ps. f (regions s q)) = f (regions s p) \<union> (\<Union>q \<in> set ps - {p}. f (regions s q))"
    for f :: "memory_region \<Rightarrow> nat set"
    using assms(2) by (auto simp: s' split: if_splits)
  show "free_pages s' = (if b then free_pages s - {unat (r_base (regions s p)) + k}
      else insert (unat (r_base (regions s p)) + k) (free_pages s))"
    unfolding free_pages_chain [OF assms(1)] free_pages_chain [OF assms(5)] split
    using free_in_mark [OF ok kb(1)] assms(3) other by auto
  show "region_pages s' = region_pages s"
    unfolding region_pages_chain [OF assms(1)] region_pages_chain [OF assms(5)]
    by (auto simp: s' split: if_splits)
qed

lemma alloc_page_returns: "region_inv s \<Longrightarrow> \<exists>s' r. memory_region_alloc_page s = ret (s', r)"
  unfolding region_inv_def using alloc_page_cases by blast

lemma alloc_page_some:
  assumes "region_inv s" and "memory_region_alloc_page s = ret (s', Some pg)"
  shows "region_inv s' \<and> unat pg \<in> free_pages s \<and> free_pages s' = free_pages s - {unat pg} \<and>
    region_pages s' = region_pages s"
proof -
  from assms(1) obtain ps where ch: "chain s ps" by (auto simp: region_inv_def)
  from alloc_page_cases [OF ch] assms(2) obtain p k where p: "p \<in> set ps" "k < usable (regions s p)"
    "\<not> page_bit (r_bitmap (regions s p)) k"
    and s': "s' = s\<lparr>regions := (regions s)(p := mark (regions s p) k True), last_free_region := Some p\<rparr>"
    and pg: "pg = r_base (regions s p) + of_nat k"
    by auto
  have ch': "chain s' ps" unfolding s' by (rule chain_mark(2) [OF ch p(1)])
  have "region_ok (regions s p)" using ch p(1) by (simp add: chain_def)
  then have "k < unat (r_length (regions s p))" using p(2) by (rule usable_bounds)
  then have upg: "unat pg = unat (r_base (regions s p)) + k"
    unfolding pg by (rule chain_page(1) [OF ch p(1)])
  have "unat pg \<in> free_pages s"
    unfolding free_pages_chain [OF ch] upg using p by (auto simp: free_in_def)
  with free_pages_mark [OF ch p(1,2) s' ch'] ch' upg show ?thesis by (auto simp: region_inv_def)
qed

lemma alloc_page_none:
  assumes "region_inv s" and "memory_region_alloc_page s = ret (s', None)"
  shows "s' = s \<and> free_pages s = {}"
  using assms alloc_page_cases unfolding region_inv_def by fastforce

lemma dealloc_page_managed:
  assumes "region_inv s" and "unat pg \<in> region_pages s"
  shows "\<exists>s'. memory_region_dealloc_page s pg = ret s' \<and> region_inv s' \<and>
    free_pages s' = insert (unat pg) (free_pages s) \<and> region_pages s' = region_pages s"
proof -
  from assms(1) obtain ps where ch: "chain s ps" by (auto simp: region_inv_def)
  from assms(2) obtain p where p: "p \<in> set ps" "unat (r_base (regions s p)) \<le> unat pg"
    "unat pg < unat (r_base (regions s p)) + usable (regions s p)"
    unfolding region_pages_chain [OF ch] by auto
  define k where "k = unat pg - unat (r_base (regions s p))"
  have k: "k < usable (regions s p)" using p by (simp add: k_def)
  have "region_ok (regions s p)" using ch p(1) by (simp add: chain_def)
  then have kl: "k < unat (r_length (regions s p))" using k by (rule usable_bounds)
  have upg: "unat pg = unat (r_base (regions s p)) + k" using p(2) by (simp add: k_def)
  then have pg: "pg = r_base (regions s p) + of_nat k"
    using chain_page(1) [OF ch p(1) kl] by (simp add: word_unat_eq_iff)
  define s' where "s' = s\<lparr>regions := (regions s)(p := mark (regions s p) k False)\<rparr>"
  have ch': "chain s' ps" unfolding s'_def by (rule chain_mark(1) [OF ch p(1)])
  have "memory_region_dealloc_page s pg = ret s'"
    unfolding memory_region_dealloc_page_def pg setbit_chain [OF ch p(1) kl] by (simp add: s'_def)
  moreover have "s' = s\<lparr>regions := (regions s)(p := mark (regions s p) k False),
      last_free_region := last_free_region s\<rparr>" by (simp add: s'_def)
  note free_pages_mark [OF ch p(1) k this ch']
  ultimately show ?thesis using ch' upg by (auto simp: region_inv_def)
qed

lemma free_pages_managed: "region_inv s \<Longrightarrow> free_pages s \<subseteq> region_pages s"
  unfolding free_pages_def region_pages_def by (fastforce dest: free_in_bounds)

lemma region_pages_finite: "region_inv s \<Longrightarrow> finite (region_pages s)"
  unfolding region_inv_def by (auto simp: region_pages_chain)

interpretation mr: page_source memory_region_alloc_page memory_region_dealloc_page
  region_inv free_pages region_pages
  by unfold_locales
    (rule alloc_page_returns alloc_page_some alloc_page_none dealloc_page_managed free_pages_managed;
      assumption)+

lemma page_bit_zero: "k < 8 * n \<Longrightarrow> \<not> page_bit (replicate n 0) k"
  by (simp add: page_bit_def less_mult_imp_div_less mult.commute)

lemma early_init_chain:
  assumes "unat len \<le> 8 * MEMORY_BITMAP_SIZE" and "unat bs + unat len < 2 ^ 32"
  shows "chain (memory_region_early_init s bs len) [initial_region]"
    and "free_pages (memory_region_early_init s bs len) = {unat bs..<unat bs + 32 * (unat len div 32)}"
proof -
  let ?s = "memory_region_early_init s bs len"
  have "\<not> len > of_nat (MEMORY_BITMAP_SIZE * 32)"
    using assms(1) by (simp add: word_less_nat_alt MEMORY_BITMAP_SIZE_def)
  then have init: "regions ?s initial_region =
      \<lparr>r_next = None, r_base = bs, r_length = len, r_bitmap = replicate MEMORY_BITMAP_SIZE 0\<rparr>"
    "root_region ?s = Some initial_region" "last_free_region ?s = Some initial_region"
    by (simp_all add: memory_region_early_init_def Let_def)
  show ch: "chain ?s [initial_region]"
    using assms by (simp add: chain_def init region_ok_def)
  have unused: "\<not> page_bit (replicate MEMORY_BITMAP_SIZE 0) k" if "k < 32 * (unat len div 32)" for k
    using that assms(1) by (intro page_bit_zero) simp
  show "free_pages ?s = {unat bs..<unat bs + 32 * (unat len div 32)}"
  proof (intro set_eqI iffI)
    fix pg assume "pg \<in> {unat bs..<unat bs + 32 * (unat len div 32)}"
    then show "pg \<in> free_pages ?s"
      by (auto simp: free_pages_chain [OF ch] free_in_def init usable_def
          intro!: exI [of _ "pg - unat bs"] unused)
  qed (auto simp: free_pages_chain [OF ch] free_in_def init usable_def)
qed

lemma find_word_all_ones:
  assumes "i \<le> length bm div 4" and "length bm div 4 < n" and "\<forall>k < 8 * length bm. page_bit bm k"
  shows "find_word bm i n = goes_wrong Out_of_bounds"
  using assms
proof (induction bm i n rule: find_word.induct)
  case (1 bm i n)
  show ?case
  proof (cases "4 * i + 3 < length bm")
    case True
    have "\<not> bit (NOT (bm_word bm i)) j" if "j < 32" for j
      using "1.prems"(3) True that by (simp add: bit_simps bit_bm_word)
    then have zero: "NOT (bm_word bm i) = 0" using word_neq0_bit [of "NOT (bm_word bm i)"] by auto
    have "find_word bm (i + 1) n = goes_wrong Out_of_bounds"
      using True zero "1.prems" by (intro "1.IH") auto
    with True zero "1.prems" show ?thesis by (subst find_word.simps) auto
  next
    case False
    with "1.prems" show ?thesis by (subst find_word.simps) auto
  qed
qed

text \<open>
  \<open>wide s m\<close>: a single region longer than its bitmap, in which exactly the first \<open>m\<close> of the
  16384 pages the bitmap holds are in use.
\<close>

definition wide :: "region_state \<Rightarrow> nat \<Rightarrow> bool" where
  "wide s m \<longleftrightarrow> root_region s = Some initial_region \<and> last_free_region s = Some initial_region \<and>
     length (r_bitmap (regions s initial_region)) = 2048 \<and> unat (r_length (regions s initial_region)) \<ge> 16416 \<and>
     (\<forall>k < 16384. page_bit (r_bitmap (regions s initial_region)) k \<longleftrightarrow> k < m)"

lemma find_word_longer:
  "find_word bm i n = ret (Some r) \<Longrightarrow> n \<le> n' \<Longrightarrow> find_word bm i n' = ret (Some r)"
proof (induction bm i n rule: find_word.induct)
  case (1 bm i n)
  from "1.prems" have "i < n" "4 * i + 3 < length bm"
    by (subst (asm) find_word.simps, auto split: if_splits)+
  moreover have "i < n'" using \<open>i < n\<close> "1.prems"(2) by simp
  ultimately show ?case
    using "1.prems" "1.IH" by (simp add: find_word.simps [of bm i n] find_word.simps [of bm i n'] Let_def split: if_splits)
qed

lemma wide_alloc:
  assumes "wide s m" and "m < 16384"
  shows "\<exists>s' pg. memory_region_alloc_page s = ret (s', Some pg) \<and> wide s' (Suc m)"
proof -
  let ?r = "regions s initial_region"
  have len: "length (r_bitmap ?r) = 2048" and big: "512 \<le> unat (r_length ?r div 32)"
    using assms(1) by (auto simp: wide_def unat_div)
  have bits: "page_bit (r_bitmap ?r) k \<longleftrightarrow> k < m" if "k < 16384" for k
    using assms(1) that by (simp add: wide_def)
  have "4 * 512 \<le> length (r_bitmap ?r)" by (simp add: len)
  from find_word_cases [OF this, of 0]
  obtain i y where iy: "find_word (r_bitmap ?r) 0 512 = ret (Some (i, y))" "i < 512" "y < 32" "32 * i + y = m"
  proof (elim disjE conjE exE)
    assume "\<forall>k. 32 * 0 \<le> k \<and> k < 32 * 512 \<longrightarrow> page_bit (r_bitmap ?r) k"
    with bits [of m] assms(2) show thesis by simp
  next
    fix i y
    assume *: "find_word (r_bitmap ?r) 0 512 = ret (Some (i, y))" "i < 512" "y < 32"
      "\<not> page_bit (r_bitmap ?r) (32 * i + y)"
      "\<forall>k. 32 * 0 \<le> k \<and> k < 32 * i + y \<longrightarrow> page_bit (r_bitmap ?r) k"
    have "\<not> 32 * i + y < m" using bits [of "32 * i + y"] *(2-4) by simp
    moreover have "\<not> m < 32 * i + y" using bits [of m] assms(2) *(5) by auto
    ultimately show thesis using that * by simp
  qed
  let ?s = "s\<lparr>regions := (regions s)(initial_region := mark ?r m True)\<rparr>"
  have "memory_region_alloc_page s = ret (?s, Some (r_base ?r + of_nat i * 32 + of_nat y))"
    using assms(1) find_word_longer [OF iy(1) big] bm_set_word_put [simplified, of i "r_bitmap ?r" y] iy(2-4) len
    by (simp add: memory_region_alloc_page_def wide_def memory_region_find_and_set.simps [of "regions s" "Some _" None]
        Let_def mark_def)
  moreover have "wide ?s (Suc m)"
    using assms bits len by (auto simp: wide_def mark_def page_bit_put less_Suc_eq)
  ultimately show ?thesis by blast
qed

lemma wide_alloc_pages:
  assumes "wide s m" and "m + n \<le> 16384"
  shows "\<exists>s' pgs. alloc_pages memory_region_alloc_page n s = ret (s', pgs) \<and> length pgs = n \<and> wide s' (m + n)"
  using assms
proof (induction n arbitrary: s m)
  case 0
  then show ?case by simp
next
  case (Suc n)
  then obtain s' pg where step: "memory_region_alloc_page s = ret (s', Some pg)" "wide s' (Suc m)"
    using wide_alloc [of s m] by auto
  from Suc.IH [OF step(2)] Suc.prems(2) step(1) show ?case by fastforce
qed

lemma wide_full:
  assumes "wide s 16384"
  shows "memory_region_alloc_page s = goes_wrong Out_of_bounds"
proof -
  let ?r = "regions s initial_region"
  have "find_word (r_bitmap ?r) 0 (unat (r_length ?r div 32)) = goes_wrong Out_of_bounds"
    by (rule find_word_all_ones) (use assms in \<open>auto simp: wide_def unat_div\<close>)
  then have "memory_region_find_and_set (regions s) (Some initial_region) None = goes_wrong Out_of_bounds"
    by (subst memory_region_find_and_set.simps) (simp add: Let_def)
  with assms show ?thesis by (simp add: memory_region_alloc_page_def wide_def)
qed

lemma boot_chain: "chain (memory_region_early_init region_bss 256 64) [initial_region]"
  by (rule early_init_chain) (simp_all add: MEMORY_BITMAP_SIZE_def)

lemma boot_region_inv: "region_inv (memory_region_early_init region_bss 256 64)"
  using boot_chain by (auto simp: region_inv_def)

lemma boot_free: "free_pages (memory_region_early_init region_bss 256 64) = {256..<320}"
  using early_init_chain(2) [of 64 256 region_bss] by (simp add: MEMORY_BITMAP_SIZE_def)

section \<open>Properties\<close>

text \<open>C3: The page allocator refines a set of free pages. From every state of the invariant
  \<open>memory_region_alloc_page\<close> returns; it either hands out a page that was free and takes exactly
  that page, or reports failure, in which case no page is free and nothing has changed.\<close>

theorem alloc_page_correct:
  assumes "region_inv s"
  shows "\<exists>s' r. memory_region_alloc_page s = ret (s', r) \<and> region_inv s' \<and>
    (case r of None \<Rightarrow> s' = s \<and> free_pages s = {}
     | Some pg \<Rightarrow> unat pg \<in> free_pages s \<and> free_pages s' = free_pages s - {unat pg})"
proof -
  from mr.alloc_returns [OF assms] obtain s' r where a: "memory_region_alloc_page s = ret (s', r)"
    by blast
  then show ?thesis
    using mr.alloc_some [OF assms] mr.alloc_none [OF assms] assms by (cases r) auto
qed

theorem alloc_page_correct_witness:
  "region_inv (memory_region_early_init region_bss 256 64) \<and>
   (\<exists>s' r. memory_region_alloc_page (memory_region_early_init region_bss 256 64) = ret (s', r) \<and> region_inv s' \<and>
     (case r of None \<Rightarrow> s' = memory_region_early_init region_bss 256 64 \<and>
          free_pages (memory_region_early_init region_bss 256 64) = {}
      | Some pg \<Rightarrow> unat pg \<in> {256..<320} \<and> free_pages s' = {256..<320} - {unat pg}))"
  using alloc_page_correct [OF boot_region_inv] boot_region_inv unfolding boot_free by blast

text \<open>\<open>memory_region_early_init\<close> with a length the bitmap covers makes every page of
  the whole 32-page groups free, and then any number of allocations returns distinct pages of the
  region, as many as asked for while pages remain.\<close>

theorem early_init_then_alloc:
  assumes "unat len \<le> 16384" and "unat bs + unat len < 2 ^ 32"
  shows "\<exists>s' pgs. alloc_pages memory_region_alloc_page n (memory_region_early_init s bs len) = ret (s', pgs) \<and>
    distinct pgs \<and> unat ` set pgs \<subseteq> {unat bs..<unat bs + unat len} \<and>
    length pgs = min n (32 * (unat len div 32))"
proof -
  have len: "unat len \<le> 8 * MEMORY_BITMAP_SIZE" using assms(1) by (simp add: MEMORY_BITMAP_SIZE_def)
  note init = early_init_chain [OF len assms(2), of s]
  let ?s = "memory_region_early_init s bs len"
  have inv: "region_inv ?s" using init(1) by (auto simp: region_inv_def)
  have fin: "finite (free_pages ?s)" by (simp add: init(2))
  from mr.alloc_pages_spec [OF inv fin, of n] show ?thesis
    by (fastforce simp: init(2))
qed

theorem early_init_then_alloc_witness:
  "\<exists>s' pgs. alloc_pages memory_region_alloc_page 40 (memory_region_early_init region_bss 256 64) = ret (s', pgs) \<and>
    distinct pgs \<and> unat ` set pgs \<subseteq> {256..<320} \<and> length pgs = 40"
  using early_init_then_alloc [of 64 256 40 region_bss] by simp

text \<open>C4: A page that was allocated and is deallocated again is free again; the two calls
  together leave the free pages as they were.\<close>

theorem alloc_then_dealloc:
  assumes "region_inv s" and "memory_region_alloc_page s = ret (s', Some pg)"
  shows "\<exists>s''. memory_region_dealloc_page s' pg = ret s'' \<and> region_inv s'' \<and> free_pages s'' = free_pages s"
  using assms by (rule mr.alloc_dealloc)

theorem alloc_then_dealloc_witness:
  "\<exists>s' pg s''. memory_region_alloc_page (memory_region_early_init region_bss 256 64) = ret (s', Some pg) \<and>
    memory_region_dealloc_page s' pg = ret s'' \<and> region_inv s'' \<and> free_pages s'' = {256..<320}"
proof -
  let ?s = "memory_region_early_init region_bss 256 64"
  from mr.alloc_returns [OF boot_region_inv] obtain s' r where a: "memory_region_alloc_page ?s = ret (s', r)"
    by blast
  moreover have "r \<noteq> None" using mr.alloc_none [OF boot_region_inv] a boot_free by force
  ultimately obtain pg where a: "memory_region_alloc_page ?s = ret (s', Some pg)" by auto
  with alloc_then_dealloc [OF boot_region_inv a] boot_free show ?thesis by auto
qed

text \<open>Reading back a page bit: after \<open>memory_region_setbit\<close> on a page of a listed region,
  \<open>memory_region_getbit\<close> returns the value written, for every page but the first of the region, and
  \<open>-1\<close>, the value for a page that belongs to no region, for the first one.\<close>

theorem setbit_getbit:
  assumes "chain s ps" and "p \<in> set ps" and "k < unat (r_length (regions s p))"
  shows "\<exists>rs. memory_region_setbit (regions s) (root_region s) (r_base (regions s p) + of_nat k) b = ret rs \<and>
    memory_region_getbit rs (root_region s) (r_base (regions s p) + of_nat k) =
      ret (if k = 0 then -1 else if b then 1 else 0)"
proof -
  let ?rs = "(regions s)(p := mark (regions s p) k b)"
  have ch: "chain (s\<lparr>regions := ?rs\<rparr>) ps" by (rule chain_mark(1) [OF assms(1,2)])
  have "page_bit (r_bitmap (mark (regions s p) k b)) k = b"
    using chain_page(5) [OF assms] by (simp add: mark_def page_bit_put)
  then have "memory_region_getbit ?rs (root_region s) (r_base (regions s p) + of_nat k) =
      ret (if k = 0 then -1 else if b then 1 else 0)"
    using getbit_chain [OF ch assms(2), of k] assms(3) by simp
  with setbit_chain [OF assms, of b] show ?thesis by blast
qed

theorem setbit_getbit_witness:
  "\<exists>rs. memory_region_setbit (regions (memory_region_early_init region_bss 256 64)) (Some initial_region) 261 True = ret rs \<and>
    memory_region_getbit rs (Some initial_region) 261 = ret 1"
  using setbit_getbit [OF boot_chain, of initial_region 5 True]
  by (simp add: memory_region_early_init_def MEMORY_BITMAP_SIZE_def)

text \<open>C5: \<open>memory_region_early_init\<close> limits the length of the region to 65536 pages, four
  times what the 2048-byte bitmap holds. With a length above 16415 the first 16384 allocations
  succeed, and the next one reads past the end of the bitmap.\<close>

theorem early_init_overrun:
  assumes "unat len \<ge> 16416"
  shows "\<exists>s' pgs. alloc_pages memory_region_alloc_page 16384 (memory_region_early_init s bs len) = ret (s', pgs) \<and>
    length pgs = 16384 \<and> memory_region_alloc_page s' = goes_wrong Out_of_bounds"
proof -
  have "wide (memory_region_early_init s bs len) 0"
    using assms by (auto simp: wide_def memory_region_early_init_def Let_def MEMORY_BITMAP_SIZE_def
        page_bit_zero word_less_nat_alt)
  from wide_alloc_pages [OF this, of 16384] show ?thesis
    using wide_full by fastforce
qed

theorem early_init_overrun_witness:
  "\<exists>s' pgs. alloc_pages memory_region_alloc_page 16384 (memory_region_early_init region_bss 256 20000) = ret (s', pgs) \<and>
    length pgs = 16384 \<and> memory_region_alloc_page s' = goes_wrong Out_of_bounds"
  using early_init_overrun [of 20000 region_bss 256] by simp

end
