(* ===== verification/Paging.thy ===== *)
theory Paging
  imports Memory_Region
begin

text \<open>
  The page tables of the i386 (\<^verbatim>\<open>arch/i386/.../memory_manager.h\<close> and \<^verbatim>\<open>memory/paging.c\<close>). Physical
  memory is addressed by frame number and word; every access the code makes through a pointer
  goes through the page walk of the processor, with the write-protect bit honoured (\<^verbatim>\<open>boot.S\<close> sets
  \<open>CR0.WP\<close>), so the recursive mapping at \<open>0xFFC00000\<close> is not assumed but follows from the contents
  of the page directory. The translation cache is not modelled: the walk always sees the
  tables, which is what the code's \<open>invlpg\<close> after each change achieves. The lemmas show
  what \<open>mm_map_page\<close> does to the address space and that \<open>paging_earlyinit\<close> builds one.
\<close>

section \<open>The processor's page walk\<close>

record machine =
  cr3 :: u32
  ram :: "u32 \<Rightarrow> u32 \<Rightarrow> u32"
  page_state :: region_state
  printed :: "printf_call list"

definition walk :: "machine \<Rightarrow> bool \<Rightarrow> u32 \<Rightarrow> u32 option" where
  "walk m wr v =
     (let pde = ram m (drop_bit 12 (cr3 m)) (drop_bit 22 v)
      in if bit pde 0 \<and> (wr \<longrightarrow> bit pde 1) then
           (let pte = ram m (drop_bit 12 pde) (drop_bit 12 v AND 0x3FF)
            in if bit pte 0 \<and> (wr \<longrightarrow> bit pte 1) then Some (drop_bit 12 pte) else None)
         else None)"

definition translate :: "machine \<Rightarrow> u32 \<Rightarrow> u32 option" where
  "translate m v = map_option (\<lambda>f. push_bit 12 f OR (v AND 0xFFF)) (walk m False v)"

definition vread :: "machine \<Rightarrow> u32 \<Rightarrow> u32 run" where
  "vread m v = (case walk m False v of
     None \<Rightarrow> goes_wrong Page_fault
   | Some f \<Rightarrow> ret (ram m f (drop_bit 2 (v AND 0xFFF))))"

definition vwrite :: "machine \<Rightarrow> u32 \<Rightarrow> u32 \<Rightarrow> machine run" where
  "vwrite m v x = (case walk m True v of
     None \<Rightarrow> goes_wrong Page_fault
   | Some f \<Rightarrow> ret (m\<lparr>ram := (ram m)(f := (ram m f)(drop_bit 2 (v AND 0xFFF) := x))\<rparr>))"

text \<open>\<open>memset (p, 0, 4 n)\<close> on a word-aligned pointer.\<close>

fun zero_words :: "machine \<Rightarrow> u32 \<Rightarrow> nat \<Rightarrow> machine run" where
  "zero_words m v 0 = ret m"
| "zero_words m v (Suc n) = run_bind (vwrite m v 0) (\<lambda>m. zero_words m (v + 4) n)"

text \<open>\<open>memory_region_alloc_page\<close> on the machine's allocator state.\<close>

definition alloc_frame :: "machine \<Rightarrow> (machine \<times> page option) run" where
  "alloc_frame m = run_bind (memory_region_alloc_page (page_state m)) (\<lambda>(s, r). ret (m\<lparr>page_state := s\<rparr>, r))"

section \<open>memory_manager.h\<close>

definition mm_get_physaddr :: "machine \<Rightarrow> u32 \<Rightarrow> u32 run" where
  "mm_get_physaddr m vaddr =
     (let pdindex = drop_bit 22 vaddr;
          ptindex = drop_bit 12 vaddr AND 0x3FF;
          pt = 0xFFC00000 + 4 * (0x400 * pdindex)
      in run_bind (vread m (pt + 4 * ptindex)) (\<lambda>e.
         ret ((e AND NOT 0xFFF) + (vaddr AND 0xFFF))))"

definition mm_create_table :: "machine \<Rightarrow> u32 \<Rightarrow> machine run" where
  "mm_create_table m pdindex =
     (let pd = 0xFFFFF000;
          pt = 0xFFC00000 + 4 * (0x400 * pdindex)
      in run_bind (alloc_frame m) (\<lambda>(m, r). case r of
           None \<Rightarrow> goes_wrong Uninitialised
         | Some pg \<Rightarrow>
             run_bind (vwrite m (pd + 4 * pdindex) (push_bit 12 pg OR 0x03)) (\<lambda>m.
             zero_words m pt 1024)))"

definition mm_map_page :: "machine \<Rightarrow> u32 \<Rightarrow> u32 \<Rightarrow> u32 \<Rightarrow> machine run" where
  "mm_map_page m paddr vaddr flags =
     (let pdindex = drop_bit 22 vaddr;
          ptindex = drop_bit 12 vaddr AND 0x3FF;
          pd = 0xFFFFF000;
          pt = 0xFFC00000 + 4 * (0x400 * pdindex)
      in run_bind (vread m (pd + 4 * pdindex)) (\<lambda>pde.
         run_bind (if pde = 0 then mm_create_table m pdindex else ret m) (\<lambda>m.
         run_bind (vread m (pt + 4 * ptindex)) (\<lambda>pte.
         let m = (if pte \<noteq> 0 then m\<lparr>printed := printed m @
                    [(''Address already mapped: Page 0x%08x'' @ [CHR 0x0A], [Va_int pte])]\<rparr> else m)
         in vwrite m (pt + 4 * ptindex) (paddr OR (flags AND 0xFFF) OR 0x01)))))"

section \<open>paging.c\<close>

function kernel_space_loop :: "machine \<Rightarrow> u32 \<Rightarrow> u32 \<Rightarrow> (machine \<times> u32) run" where
  "kernel_space_loop m start cnt =
     (if start < 1024 then
        (let offset = 0xFFFFF000 + start * 4
         in run_bind (vread m offset) (\<lambda>entry.
            if entry AND 0x01 = 0 then
              run_bind (alloc_frame m) (\<lambda>(m, r). case r of
                None \<Rightarrow> goes_wrong (Panic ''Failed to initialize kernel address space'')
              | Some pg \<Rightarrow>
                  run_bind (vwrite m offset (push_bit 12 pg OR 0x03)) (\<lambda>m.
                  run_bind (zero_words m (0xFFC00000 + start * 4096) 1024) (\<lambda>m.
                  kernel_space_loop m (start + 1) (cnt + 1))))
            else kernel_space_loop m (start + 1) cnt))
      else ret (m, cnt))"
  by pat_completeness auto
termination
  by (relation "measure (\<lambda>(m, start, cnt). 1024 - unat start)")
    (use count_up [of _ 1024] in auto)

declare kernel_space_loop.simps [simp del]

definition paging_init_kernel_space :: "machine \<Rightarrow> machine run" where
  "paging_init_kernel_space m = run_bind (kernel_space_loop m 768 0) (\<lambda>(m, _). ret m)"

function page_table_loop :: "machine \<Rightarrow> u32 \<Rightarrow> u32 \<Rightarrow> u32 \<Rightarrow> machine run" where
  "page_table_loop m page_kernel_start page_kernel_end i =
     (if i < 1024 then
        run_bind
          (if i < page_kernel_start then vwrite m (0xFFFFE000 + i * 4) (push_bit 12 i OR 0x03)
           else if i < page_kernel_end then vwrite m (0xFFFFE000 + i * 4) (push_bit 12 i OR 0x03)
           else vwrite m (0xFFFFE000 + i * 4) 0)
          (\<lambda>m. page_table_loop m page_kernel_start page_kernel_end (i + 1))
      else ret m)"
  by pat_completeness auto
termination
  by (relation "measure (\<lambda>(m, s, e, i). 1024 - unat i)") (use count_up [of _ 1024] in auto)

declare page_table_loop.simps [simp del]

text \<open>
  The parameters are the addresses of the linker symbols \<open>boot_pagedir\<close>, \<open>boot_pagetab1\<close>,
  \<open>_kernel_start\<close> and \<open>_kernel_end\<close>.
\<close>

definition paging_earlyinit :: "u32 \<Rightarrow> u32 \<Rightarrow> u32 \<Rightarrow> u32 \<Rightarrow> machine \<Rightarrow> machine run" where
  "paging_earlyinit pagedir pagetb1 kernel_start kernel_end m =
     (let page_kernel_start = drop_bit 12 (kernel_start - 0xC0000000);
          page_kernel_end = drop_bit 12 (kernel_end - 0xC0000000) + 1
      in run_bind (alloc_frame m) (\<lambda>(m, r). case r of
           None \<Rightarrow> goes_wrong (Panic ''Failed to allocate page for page table directory'')
         | Some pagedir_page \<Rightarrow>
      run_bind (alloc_frame m) (\<lambda>(m, r). case r of
           None \<Rightarrow> goes_wrong (Panic ''Failed to allocate page table'')
         | Some pagetbx_page \<Rightarrow>
      run_bind (vwrite m (pagetb1 + 4 * 1023) (push_bit 12 pagedir_page OR 0x03)) (\<lambda>m.
      run_bind (vwrite m (pagetb1 + 4 * 1022) (push_bit 12 pagetbx_page OR 0x03)) (\<lambda>m.
      run_bind (vwrite m (pagedir + 4 * 1023) (((pagetb1 - 0xC0000000) AND 0xFFFFF000) OR 0x03)) (\<lambda>m.
      run_bind (zero_words m 0xFFFFE000 1024) (\<lambda>m.
      run_bind (zero_words m 0xFFFFF000 1024) (\<lambda>m.
      run_bind (vwrite m (0xFFFFF000 + 4 * 1023) (push_bit 12 pagedir_page OR 0x03)) (\<lambda>m.
      run_bind (vwrite m (0xFFFFF000 + 4 * 768) (push_bit 12 pagetbx_page OR 0x03)) (\<lambda>m.
      run_bind (page_table_loop m page_kernel_start page_kernel_end 0) (\<lambda>m.
      let i = drop_bit 12 (pagedir - 0xC0000000)
      in run_bind (vwrite m (0xFFFFE000 + i * 4) (push_bit 12 i OR 0x01)) (\<lambda>m.
      paging_init_kernel_space (m\<lparr>cr3 := push_bit 12 pagedir_page\<rparr>)))))))))))))"

section \<open>Accesses within a page\<close>

definition pd_frame :: "machine \<Rightarrow> u32" where
  "pd_frame m = drop_bit 12 (cr3 m)"

definition entry :: "u32 \<Rightarrow> u32" where
  "entry f = push_bit 12 f OR 3"

definition poke :: "machine \<Rightarrow> u32 \<Rightarrow> u32 \<Rightarrow> u32 \<Rightarrow> machine" where
  "poke m f j x = m\<lparr>ram := (ram m)(f := (ram m f)(j := x))\<rparr>"

text \<open>The machine after the words \<open>k .. k + n - 1\<close> of a frame have been zeroed.\<close>

definition wipe :: "machine \<Rightarrow> u32 \<Rightarrow> nat \<Rightarrow> nat \<Rightarrow> machine" where
  "wipe m f k n = m\<lparr>ram := (ram m)(f := (\<lambda>j. if k \<le> unat j \<and> unat j < k + n then 0 else ram m f j))\<rparr>"

lemma poke_sel [simp]:
  "cr3 (poke m f j x) = cr3 m" "page_state (poke m f j x) = page_state m"
  "printed (poke m f j x) = printed m" "pd_frame (poke m f j x) = pd_frame m"
  "ram (poke m f j x) = (ram m)(f := (ram m f)(j := x))"
  by (simp_all add: poke_def pd_frame_def)

lemma wipe_sel [simp]:
  "cr3 (wipe m f k n) = cr3 m" "page_state (wipe m f k n) = page_state m"
  "printed (wipe m f k n) = printed m" "pd_frame (wipe m f k n) = pd_frame m"
  "ram (wipe m f k n) = (ram m)(f := (\<lambda>j. if k \<le> unat j \<and> unat j < k + n then 0 else ram m f j))"
  by (simp_all add: wipe_def pd_frame_def)

lemma page_addr:
  assumes "a AND 0xFFF = (0 :: u32)" and "j < 1024"
  shows "drop_bit 12 (a + 4 * j) = drop_bit 12 a" and "drop_bit 22 (a + 4 * j) = drop_bit 22 a"
    and "drop_bit 2 ((a + 4 * j) AND 0xFFF) = j"
proof -
  have j: "unat j < 1024" using assms(2) by (simp add: word_less_nat_alt)
  have a: "unat a mod 4096 = 0" using arg_cong [OF assms(1), of unat] by (simp only: unat_and_mask) simp
  then obtain q where q: "unat a = 4096 * q" by auto
  have bound: "unat a < 4294967296" by (rule unat_u32)
  have "unat (4 * j) = 4 * unat j" using j by (simp add: unat_word_ariths)
  moreover have "q < 1048576" using bound q by simp
  then have "unat a + 4 * unat j < 4294967296" using q j by linarith
  ultimately have sum: "unat (a + 4 * j) = 4096 * q + 4 * unat j"
    using q by (simp add: unat_word_ariths)
  have "(4096 * q + 4 * unat j) div 4096 = q" using j by simp
  then show d12: "drop_bit 12 (a + 4 * j) = drop_bit 12 a"
    by (intro word_unat_eq_iff [THEN iffD2]) (simp only: unat_drop sum q, simp)
  have d22: "drop_bit 22 w = drop_bit 10 (drop_bit 12 w)" for w :: u32 by (simp only: drop_bit_drop_bit) simp
  show "drop_bit 22 (a + 4 * j) = drop_bit 22 a" by (simp only: d22 d12)
  have "(4096 * q + 4 * unat j) mod 4096 = 4 * unat j" using j by simp
  then show "drop_bit 2 ((a + 4 * j) AND 0xFFF) = j"
    by (intro word_unat_eq_iff [THEN iffD2]) (simp only: unat_drop unat_and_mask sum, simp)
qed

lemma walk_page:
  assumes "a AND 0xFFF = (0 :: u32)" and "j < 1024"
  shows "walk m wr (a + 4 * j) = walk m wr a"
  using assms by (simp only: walk_def page_addr)

lemma vread_page:
  assumes "a AND 0xFFF = (0 :: u32)" and "j < 1024" and "walk m False a = Some f"
  shows "vread m (a + 4 * j) = ret (ram m f j)"
  using assms by (simp only: vread_def walk_page option.case page_addr)

lemma vwrite_page:
  assumes "a AND 0xFFF = (0 :: u32)" and "j < 1024" and "walk m True a = Some f"
  shows "vwrite m (a + 4 * j) x = ret (poke m f j x)"
  using assms by (simp only: vwrite_def walk_page option.case page_addr poke_def)

lemma walk_read: "walk m True a = Some f \<Longrightarrow> walk m False a = Some f"
  by (auto simp: walk_def Let_def split: if_splits)

lemma walk_poke:
  assumes "f \<noteq> pd_frame m" and "f \<noteq> drop_bit 12 (ram m (pd_frame m) (drop_bit 22 a))"
  shows "walk (poke m f j x) wr a = walk m wr a"
  using assms by (simp add: walk_def Let_def pd_frame_def)

lemma zero_words_page:
  assumes "a AND 0xFFF = (0 :: u32)" and "walk m True a = Some f" and "f \<noteq> pd_frame m"
    and "f \<noteq> drop_bit 12 (ram m (pd_frame m) (drop_bit 22 a))" and "k + n \<le> 1024"
  shows "zero_words m (a + 4 * of_nat k) n = ret (wipe m f k n)"
  using assms(2-)
proof (induction n arbitrary: m k)
  case 0
  have "(ram m)(f := (\<lambda>j. if k \<le> unat j \<and> unat j < k then 0 else ram m f j)) = ram m"
    by (auto simp: fun_eq_iff)
  then show ?case by (simp add: wipe_def)
next
  case (Suc n)
  let ?m = "poke m f (of_nat k) 0"
  have k: "of_nat k < (1024 :: u32)" using Suc.prems by (simp add: word_less_nat_alt unat_of_nat_small)
  have w: "walk ?m True a = Some f" using Suc.prems walk_poke by simp
  have "zero_words ?m (a + 4 * of_nat (Suc k)) n = ret (wipe ?m f (Suc k) n)"
    using Suc.prems w by (intro Suc.IH) auto
  moreover have "wipe ?m f (Suc k) n = wipe m f k (Suc n)"
  proof -
    have "unat (of_nat k :: u32) = k" using Suc.prems(4) by (intro unat_of_nat_small) simp
    then have eq: "j = of_nat k \<longleftrightarrow> unat j = k" for j :: u32 by (auto simp: word_unat_eq_iff)
    have "ram (wipe ?m f (Suc k) n) = ram (wipe m f k (Suc n))"
      by (auto simp: fun_eq_iff eq)
    then show ?thesis by (simp add: wipe_def poke_def)
  qed
  ultimately show ?case
    using vwrite_page [OF assms(1) k Suc.prems(1)] by (simp add: algebra_simps)
qed

section \<open>The recursive mapping\<close>

definition pde :: "machine \<Rightarrow> u32 \<Rightarrow> u32" where
  "pde m i = ram m (pd_frame m) i"

definition tbl :: "machine \<Rightarrow> u32 \<Rightarrow> u32" where
  "tbl m i = drop_bit 12 (pde m i)"

definition usable_entry :: "u32 \<Rightarrow> bool" where
  "usable_entry e \<longleftrightarrow> bit e 0 \<and> bit e 1"

lemma bits_3: "bit (3 :: u32) n \<longleftrightarrow> n = 0 \<or> n = 1"
proof -
  have "(3 :: u32) = mask 2" by (simp add: mask_eq_exp_minus_1)
  then have "bit (3 :: u32) n \<longleftrightarrow> n < 2"
    by (simp only: bit_mask_iff) auto
  then show ?thesis by auto
qed

lemma entry_sel [simp]:
  "bit (entry f) 0" "bit (entry f) (Suc 0)" "usable_entry (entry f)" "entry f \<noteq> 0"
proof -
  show *: "bit (entry f) 0" "bit (entry f) (Suc 0)" by (simp_all add: entry_def bit_simps bits_3)
  then show "usable_entry (entry f)" by (simp add: usable_entry_def)
  from *(1) show "entry f \<noteq> 0" by (metis bit_0_eq bot_apply bot_bool_def)
qed

lemma entry_frame: "f < 2 ^ 20 \<Longrightarrow> drop_bit 12 (entry f) = f"
proof (rule bit_word_eqI)
  fix n assume "f < 2 ^ 20" and "n < LENGTH(32)"
  moreover have "\<not> bit f n" if "n \<ge> 20"
  proof -
    have "unat f < 2 ^ n"
      using \<open>f < 2 ^ 20\<close> that power_increasing [of 20 n "2 :: nat"] by (simp add: word_less_nat_alt)
    then have "\<not> bit (unat f) n" by (simp add: bit_iff_odd)
    then show ?thesis by (simp add: bit_unsigned_iff)
  qed
  ultimately show "bit (drop_bit 12 (entry f)) n = bit f n"
    by (cases "n < 20") (auto simp: entry_def bit_simps bits_3)
qed

lemma frame_small: "drop_bit 12 (w :: u32) < 2 ^ 20"
  using unat_u32 [of w] by (simp only: word_less_nat_alt unat_drop) (simp add: less_mult_imp_div_less)

text \<open>
  The invariant of an address space: the last entry of the page directory maps the directory
  itself; every other entry is empty or a writable table; the tables and the directory occupy
  different frames, none of which the page allocator still owns.
\<close>

definition recursive :: "machine \<Rightarrow> bool" where
  "recursive m \<longleftrightarrow> pde m 1023 = entry (pd_frame m)"

definition frames_apart :: "machine \<Rightarrow> bool" where
  "frames_apart m \<longleftrightarrow>
     (\<forall>i < 1023. pde m i \<noteq> 0 \<longrightarrow> usable_entry (pde m i) \<and> tbl m i \<noteq> pd_frame m \<and>
        unat (tbl m i) \<notin> free_pages (page_state m) \<and>
        (\<forall>j < 1023. pde m j \<noteq> 0 \<longrightarrow> i \<noteq> j \<longrightarrow> tbl m i \<noteq> tbl m j))"

definition space_inv :: "machine \<Rightarrow> bool" where
  "space_inv m \<longleftrightarrow> recursive m \<and> frames_apart m \<and> region_inv (page_state m) \<and>
     free_pages (page_state m) \<subseteq> {..<2 ^ 20} \<and> unat (pd_frame m) \<notin> free_pages (page_state m)"

lemma pt_base:
  assumes "i < (1024 :: u32)"
  shows "(0xFFC00000 + 4 * (0x400 * i)) AND 0xFFF = 0" and "drop_bit 22 (0xFFC00000 + 4 * (0x400 * i)) = 1023"
    and "drop_bit 12 (0xFFC00000 + 4 * (0x400 * i)) AND 0x3FF = i"
proof -
  let ?a = "0xFFC00000 + 4 * (0x400 * i)"
  have i: "unat i < 1024" using assms by (simp add: word_less_nat_alt)
  have "unat (4 * (0x400 * i)) = 4096 * unat i" using i by (simp add: unat_word_ariths)
  then have a: "unat ?a = 4096 * (1047552 + unat i)" using i by (simp add: unat_word_ariths)
  have m: "(1047552 + unat i) mod 1024 = unat i"
    using i mod_mult_self1 [of "unat i" 1023 1024] by (simp add: add.commute)
  show "?a AND 0xFFF = 0"
    by (intro word_unat_eq_iff [THEN iffD2]) (simp only: unat_and_mask a, simp)
  show "drop_bit 22 ?a = 1023"
    using i by (intro word_unat_eq_iff [THEN iffD2]) (simp only: unat_drop a, simp)
  show "drop_bit 12 ?a AND 0x3FF = i"
    by (intro word_unat_eq_iff [THEN iffD2]) (simp only: unat_drop unat_and_mask a, simp add: m)
qed

lemma walk_table:
  assumes "recursive m" and "i < 1024" and "usable_entry (pde m i)"
  shows "walk m wr (0xFFC00000 + 4 * (0x400 * i)) = Some (tbl m i)"
proof -
  have "pd_frame m < 2 ^ 20" unfolding pd_frame_def by (rule frame_small)
  then show ?thesis
    using assms by (simp only: walk_def pt_base recursive_def pde_def tbl_def pd_frame_def [symmetric]
        usable_entry_def entry_frame entry_sel Let_def, simp)
qed

lemma walk_directory: "recursive m \<Longrightarrow> walk m wr 0xFFFFF000 = Some (pd_frame m)"
proof -
  assume r: "recursive m"
  have "pd_frame m < 2 ^ 20" unfolding pd_frame_def by (rule frame_small)
  then have "tbl m 1023 = pd_frame m" using r by (simp add: recursive_def tbl_def entry_frame)
  with walk_table [OF r, of 1023 wr] r show ?thesis by (simp add: recursive_def)
qed

section \<open>Installing a page table\<close>

lemma alloc_frame_spec:
  assumes "region_inv (page_state m)" and "free_pages (page_state m) \<noteq> {}"
  obtains s pg where "alloc_frame m = ret (m\<lparr>page_state := s\<rparr>, Some pg)" and "region_inv s"
    and "unat pg \<in> free_pages (page_state m)" and "free_pages s = free_pages (page_state m) - {unat pg}"
proof -
  obtain s r where a: "memory_region_alloc_page (page_state m) = ret (s, r)"
    using mr.alloc_returns [OF assms(1)] by blast
  moreover have "r \<noteq> None" using mr.alloc_none [OF assms(1), of s] a assms(2) by (cases r) auto
  ultimately obtain pg where pg: "memory_region_alloc_page (page_state m) = ret (s, Some pg)" by blast
  then show thesis
    using mr.alloc_some [OF assms(1) pg] that by (simp add: alloc_frame_def)
qed

text \<open>The machine after an empty table in frame \<open>pg\<close> has been entered at index \<open>i\<close>.\<close>

definition installed :: "machine \<Rightarrow> region_state \<Rightarrow> u32 \<Rightarrow> u32 \<Rightarrow> machine" where
  "installed m s i pg = wipe (poke (m\<lparr>page_state := s\<rparr>) (pd_frame m) i (entry pg)) pg 0 1024"

lemma installed_sel [simp]:
  "cr3 (installed m s i pg) = cr3 m" "pd_frame (installed m s i pg) = pd_frame m"
  "page_state (installed m s i pg) = s" "printed (installed m s i pg) = printed m"
  by (simp_all add: installed_def pd_frame_def)

lemma installed_pde:
  "pg \<noteq> pd_frame m \<Longrightarrow> pde (installed m s i pg) j = (if j = i then entry pg else pde m j)"
  by (simp add: pde_def installed_def pd_frame_def)

lemma install_table:
  assumes "recursive m" and "i < 1023" and "pg < 2 ^ 20" and "pg \<noteq> pd_frame m"
  shows "run_bind (vwrite (m\<lparr>page_state := s\<rparr>) (0xFFFFF000 + 4 * i) (push_bit 12 pg OR 3))
      (\<lambda>m. zero_words m (0xFFC00000 + 4 * (0x400 * i)) 1024) = ret (installed m s i pg)"
proof -
  let ?m = "m\<lparr>page_state := s\<rparr>" and ?a = "0xFFC00000 + 4 * (0x400 * i)"
  have rec: "recursive ?m" and pd: "pd_frame ?m = pd_frame m"
    using assms(1) by (simp_all add: recursive_def pde_def pd_frame_def)
  have i: "i < 1024" "i \<noteq> 1023" using assms(2) by (auto simp: word_less_nat_alt)
  let ?p = "poke ?m (pd_frame m) i (entry pg)"
  have "vwrite ?m (0xFFFFF000 + 4 * i) (push_bit 12 pg OR 3) = ret ?p"
    using vwrite_page [of "0xFFFFF000" i ?m "pd_frame m"] walk_directory [OF rec, of True] i pd
    by (simp add: entry_def)
  moreover have "recursive ?p"
    using rec i pd by (auto simp: recursive_def pde_def)
  moreover have p: "pde ?p i = entry pg" "tbl ?p i = pg" using pd assms(3) by (simp_all add: pde_def tbl_def entry_frame)
  moreover have "drop_bit 12 (ram ?p (pd_frame ?p) (drop_bit 22 ?a)) = pd_frame m"
    using \<open>recursive ?p\<close> pd entry_frame frame_small [of "cr3 m"]
    by (simp only: pt_base(2) [OF i(1)] recursive_def pde_def poke_sel pd_frame_def)
  ultimately show ?thesis
    using zero_words_page [OF pt_base(1) [OF i(1)] walk_table [of ?p i True], of 0 1024]
      assms i pd by (simp add: installed_def)
qed

text \<open>A walk reads the directory entry of the address and then the entry of its table.\<close>

lemma walk_pde:
  "walk m wr w = (if bit (pde m (drop_bit 22 w)) 0 \<and> (wr \<longrightarrow> bit (pde m (drop_bit 22 w)) 1) then
     (let pte = ram m (tbl m (drop_bit 22 w)) (drop_bit 12 w AND 0x3FF)
      in if bit pte 0 \<and> (wr \<longrightarrow> bit pte 1) then Some (drop_bit 12 pte) else None)
   else None)"
  by (simp add: walk_def pde_def tbl_def pd_frame_def Let_def)

lemma index_small: "(drop_bit 12 (w :: u32) AND 0x3FF) < 1024"
  by (simp only: word_less_nat_alt unat_and_mask) simp

lemma installed_space:
  assumes inv: "space_inv m" and i: "i < 1023" and empty: "pde m i = 0"
    and s: "region_inv s" "unat pg \<in> free_pages (page_state m)" "free_pages s = free_pages (page_state m) - {unat pg}"
  shows "pg < 2 ^ 20" and "pg \<noteq> pd_frame m" and "space_inv (installed m s i pg)"
    and "drop_bit 22 w < 1023 \<Longrightarrow> walk (installed m s i pg) wr w = walk m wr w"
proof -
  let ?m = "installed m s i pg"
  show pg: "pg < 2 ^ 20"
    using inv s(2) by (auto simp: space_inv_def word_less_nat_alt)
  show npd: "pg \<noteq> pd_frame m" using inv s(2) by (auto simp: space_inv_def)
  have fresh: "tbl m j \<noteq> pg" if "j < 1023" "pde m j \<noteq> 0" for j
    using inv that s(2) by (auto simp: space_inv_def frames_apart_def)
  have tbl: "tbl ?m j = (if j = i then pg else tbl m j)" for j
    using npd pg by (simp add: tbl_def installed_pde entry_frame)
  have "i \<noteq> 1023" using i by auto
  then show "space_inv ?m"
    using inv s npd fresh empty
    by (auto simp: space_inv_def recursive_def frames_apart_def installed_pde tbl)
  show "walk ?m wr w = walk m wr w" if "drop_bit 22 w < 1023"
  proof (cases "drop_bit 22 w = i")
    case True
    have "ram ?m pg (drop_bit 12 w AND 0x3FF) = 0"
      using index_small [of w] by (simp add: installed_def word_less_nat_alt)
    with True empty npd show ?thesis
      by (simp add: walk_pde [of ?m] walk_pde [of m] installed_pde tbl)
  next
    case False
    show ?thesis
    proof (cases "pde m (drop_bit 22 w) = 0")
      case True
      with False npd show ?thesis by (simp add: walk_pde [of ?m] walk_pde [of m] installed_pde)
    next
      case nonzero: False
      have "tbl m (drop_bit 22 w) \<noteq> pg" using fresh [OF that nonzero] .
      moreover have "tbl m (drop_bit 22 w) \<noteq> pd_frame m"
        using inv that nonzero by (auto simp: space_inv_def frames_apart_def)
      ultimately have "ram ?m (tbl m (drop_bit 22 w)) = ram m (tbl m (drop_bit 22 w))"
        by (simp add: installed_def pd_frame_def)
      moreover have "pde ?m (drop_bit 22 w) = pde m (drop_bit 22 w)" "tbl ?m (drop_bit 22 w) = tbl m (drop_bit 22 w)"
        using False npd by (simp_all add: installed_pde tbl)
      ultimately show ?thesis by (simp only: walk_pde)
    qed
  qed
qed

lemma create_table:
  assumes inv: "space_inv m" and i: "i < 1023" and empty: "pde m i = 0"
    and free: "free_pages (page_state m) \<noteq> {}"
  shows "\<exists>m'. mm_create_table m i = ret m' \<and> space_inv m' \<and> usable_entry (pde m' i) \<and> cr3 m' = cr3 m \<and>
    (\<forall>w wr. drop_bit 22 w < 1023 \<longrightarrow> walk m' wr w = walk m wr w) \<and> (\<forall>j. j \<noteq> i \<longrightarrow> pde m' j = pde m j)"
proof -
  have "region_inv (page_state m)" using inv by (simp add: space_inv_def)
  from alloc_frame_spec [OF this free] obtain s pg where a: "alloc_frame m = ret (m\<lparr>page_state := s\<rparr>, Some pg)"
    and s: "region_inv s" "unat pg \<in> free_pages (page_state m)" "free_pages s = free_pages (page_state m) - {unat pg}"
    by blast
  note inst = installed_space [OF inv i empty s]
  have "mm_create_table m i = ret (installed m s i pg)"
    using a install_table [OF _ i inst(1,2), of s] inv by (simp add: mm_create_table_def space_inv_def)
  then show ?thesis
    using inst by (intro exI [of _ "installed m s i pg"]) (simp add: installed_pde)
qed

section \<open>Mapping a page\<close>

lemma same_page:
  "drop_bit 12 w = drop_bit 12 v \<longleftrightarrow>
    drop_bit 22 w = drop_bit 22 v \<and> drop_bit 12 w AND 0x3FF = drop_bit 12 v AND (0x3FF :: u32)"
proof -
  have "drop_bit 22 x = drop_bit 10 (drop_bit 12 x)" for x :: u32 by (simp only: drop_bit_drop_bit) simp
  then have "unat (drop_bit 22 x) = unat (drop_bit 12 x) div 1024" for x :: u32
    by (simp only: unat_drop) simp
  then show ?thesis
    unfolding word_unat_eq_iff unat_and_mask by (metis div_mult_mod_eq)
qed

lemma bits_FFF: "bit (0xFFF :: u32) n \<longleftrightarrow> n < 12"
proof -
  have "(0xFFF :: u32) = mask 12" by (simp add: mask_eq_exp_minus_1)
  then show ?thesis by (simp only: bit_mask_iff) auto
qed

definition leaf :: "u32 \<Rightarrow> u32 \<Rightarrow> u32" where
  "leaf p fl = p OR (fl AND 0xFFF) OR 1"

lemma aligned_bits:
  assumes "p AND 0xFFF = (0 :: u32)" and "n < 12"
  shows "\<not> bit p n"
proof -
  have "bit (p AND 0xFFF) n \<longleftrightarrow> bit p n" using assms(2) by (simp only: bit_and_iff bits_FFF) simp
  with assms(1) show ?thesis by simp
qed

lemma leaf_sel:
  assumes "p AND 0xFFF = 0"
  shows "bit (leaf p fl) 0" and "bit (leaf p fl) 1 \<longleftrightarrow> bit fl 1" and "drop_bit 12 (leaf p fl) = drop_bit 12 p"
    and "leaf p fl AND NOT 0xFFF = p"
proof -
  show "bit (leaf p fl) 0" by (simp add: leaf_def bit_simps)
  show "bit (leaf p fl) 1 \<longleftrightarrow> bit fl 1"
    using aligned_bits [OF assms, of 1] by (simp add: leaf_def bit_simps bits_FFF)
  show "drop_bit 12 (leaf p fl) = drop_bit 12 p"
    by (rule bit_word_eqI) (simp add: leaf_def bit_simps bits_FFF)
  show "leaf p fl AND NOT 0xFFF = p"
  proof (rule bit_word_eqI)
    fix n assume "n < LENGTH(32)"
    moreover have "bit (1 :: u32) n \<longleftrightarrow> n = 0" by (simp add: bit_1_iff)
    ultimately show "bit (leaf p fl AND NOT 0xFFF) n = bit p n"
      using aligned_bits [OF assms, of n]
      by (simp only: leaf_def bit_and_iff bit_or_iff bit_not_iff bits_FFF) auto
  qed
qed

lemma poke_leaf:
  fixes fl :: u32
  assumes inv: "space_inv m" and v: "drop_bit 22 v < 1023" and p: "p AND 0xFFF = 0"
    and present: "usable_entry (pde m (drop_bit 22 v))"
  defines "m' \<equiv> poke m (tbl m (drop_bit 22 v)) (drop_bit 12 v AND 0x3FF) (leaf p fl)"
  shows "space_inv m'" and "pde m' = pde m"
    and "drop_bit 22 w < 1023 \<Longrightarrow> walk m' wr w =
      (if drop_bit 12 w = drop_bit 12 v then (if wr \<longrightarrow> bit fl 1 then Some (drop_bit 12 p) else None)
       else walk m wr w)"
proof -
  have nz: "pde m (drop_bit 22 v) \<noteq> 0" using present by (auto simp: usable_entry_def)
  with inv v have npd: "tbl m (drop_bit 22 v) \<noteq> pd_frame m" by (auto simp: space_inv_def frames_apart_def)
  then show pde: "pde m' = pde m" by (auto simp: m'_def pde_def)
  then have tbl: "tbl m' = tbl m" by (simp add: tbl_def fun_eq_iff)
  show "space_inv m'"
    using inv pde tbl by (simp add: space_inv_def recursive_def frames_apart_def m'_def)
  assume w: "drop_bit 22 w < 1023"
  show "walk m' wr w = (if drop_bit 12 w = drop_bit 12 v then (if wr \<longrightarrow> bit fl 1 then Some (drop_bit 12 p) else None)
       else walk m wr w)"
  proof (cases "drop_bit 22 w = drop_bit 22 v")
    case True
    then have key: "drop_bit 12 w = drop_bit 12 v \<longleftrightarrow> drop_bit 12 w AND 0x3FF = drop_bit 12 v AND 0x3FF"
      by (simp only: same_page [of w v]) simp
    from True present leaf_sel [OF p, of fl] show ?thesis
      by (simp add: walk_pde [of m'] walk_pde [of m] pde tbl key usable_entry_def)
        (simp add: m'_def Let_def)
  next
    case False
    then have "tbl m (drop_bit 22 w) \<noteq> tbl m (drop_bit 22 v)" if "pde m (drop_bit 22 w) \<noteq> 0"
      using inv v w nz that by (auto simp: space_inv_def frames_apart_def)
    then have "ram m' (tbl m (drop_bit 22 w)) = ram m (tbl m (drop_bit 22 w)) \<or> pde m (drop_bit 22 w) = 0"
      by (auto simp: m'_def)
    moreover have "drop_bit 12 w \<noteq> drop_bit 12 v" using False same_page [of w v] by blast
    ultimately show ?thesis by (auto simp: walk_pde [of m'] walk_pde [of m] pde tbl)
  qed
qed

lemma map_present:
  fixes fl :: u32
  assumes inv: "space_inv m" and v: "drop_bit 22 v < 1023" and p: "p AND 0xFFF = 0"
    and present: "usable_entry (pde m (drop_bit 22 v))"
  defines "pt \<equiv> 0xFFC00000 + 4 * (0x400 * drop_bit 22 v)" and "j \<equiv> drop_bit 12 v AND 0x3FF"
  obtains m' where "run_bind (vread m (pt + 4 * j)) (\<lambda>pte.
      let m = (if pte \<noteq> 0 then m\<lparr>printed := printed m @
                 [(''Address already mapped: Page 0x%08x'' @ [CHR 0x0A], [Va_int pte])]\<rparr> else m)
      in vwrite m (pt + 4 * j) (p OR (fl AND 0xFFF) OR 1)) = ret m'"
    and "space_inv m'" and "page_state m' = page_state m" and "pde m' = pde m" and "cr3 m' = cr3 m"
    and "\<And>w wr. drop_bit 22 w < 1023 \<Longrightarrow> walk m' wr w =
      (if drop_bit 12 w = drop_bit 12 v then (if wr \<longrightarrow> bit fl 1 then Some (drop_bit 12 p) else None)
       else walk m wr w)"
proof -
  let ?i = "drop_bit 22 v"
  have i: "?i < 1024" using v by (simp add: word_less_nat_alt)
  have j: "j < 1024" unfolding j_def by (rule index_small)
  have rec: "recursive m" using inv by (simp add: space_inv_def)
  define pte where "pte = ram m (tbl m ?i) j"
  define m1 where "m1 = (if pte \<noteq> 0 then m\<lparr>printed := printed m @
                 [(''Address already mapped: Page 0x%08x'' @ [CHR 0x0A], [Va_int pte])]\<rparr> else m)"
  have m1: "cr3 m1 = cr3 m" "ram m1 = ram m" "page_state m1 = page_state m" by (simp_all add: m1_def)
  then have m1': "pd_frame m1 = pd_frame m" "pde m1 = pde m" "tbl m1 = tbl m"
    by (simp_all add: pd_frame_def pde_def tbl_def fun_eq_iff)
  have inv1: "space_inv m1" using inv m1 m1' by (simp add: space_inv_def recursive_def frames_apart_def)
  then have rec1: "recursive m1" by (simp add: space_inv_def)
  have "vread m (pt + 4 * j) = ret pte"
    using vread_page [OF pt_base(1) [OF i] j walk_table [OF rec i present]] by (simp add: pt_def pte_def)
  moreover have "vwrite m1 (pt + 4 * j) (leaf p fl) = ret (poke m1 (tbl m1 ?i) j (leaf p fl))"
    using vwrite_page [OF pt_base(1) [OF i] j walk_table [OF rec1 i]] present m1'
    by (simp add: pt_def)
  moreover have "walk m1 = walk m" by (auto simp: fun_eq_iff walk_pde m1 m1')
  ultimately show thesis
    using that [of "poke m1 (tbl m1 ?i) j (leaf p fl)"] poke_leaf [OF inv1 v p, where fl = fl] present m1 m1'
    by (simp add: m1_def [symmetric] Let_def leaf_def j_def)
qed

text \<open>What \<open>mm_map_page\<close> does to the address space, a missing page table included.\<close>

lemma map_page:
  fixes fl :: u32
  assumes inv: "space_inv m" and v: "drop_bit 22 v < 1023" and p: "p AND 0xFFF = 0"
    and room: "pde m (drop_bit 22 v) \<noteq> 0 \<or> free_pages (page_state m) \<noteq> {}"
  obtains m' where "mm_map_page m p v fl = ret m'" and "space_inv m'" and "cr3 m' = cr3 m"
    and "\<And>i. pde m i \<noteq> 0 \<Longrightarrow> pde m' i = pde m i"
    and "pde m (drop_bit 22 v) \<noteq> 0 \<Longrightarrow> page_state m' = page_state m"
    and "\<And>w wr. drop_bit 22 w < 1023 \<Longrightarrow> walk m' wr w =
      (if drop_bit 12 w = drop_bit 12 v then (if wr \<longrightarrow> bit fl 1 then Some (drop_bit 12 p) else None)
       else walk m wr w)"
proof -
  let ?i = "drop_bit 22 v"
  have i: "?i < 1024" using v by (simp add: word_less_nat_alt)
  have "recursive m" using inv by (simp add: space_inv_def)
  then have pd: "vread m (0xFFFFF000 + 4 * ?i) = ret (pde m ?i)"
    using vread_page [OF _ i walk_directory, of m] by (simp add: pde_def)
  show thesis
  proof (cases "pde m ?i = 0")
    case True
    with room have free: "free_pages (page_state m) \<noteq> {}" by simp
    obtain m1 where m1: "mm_create_table m ?i = ret m1" "space_inv m1" "usable_entry (pde m1 ?i)" "cr3 m1 = cr3 m"
      "\<And>w wr. drop_bit 22 w < 1023 \<Longrightarrow> walk m1 wr w = walk m wr w" "\<And>j. j \<noteq> ?i \<Longrightarrow> pde m1 j = pde m j"
      using create_table [OF inv v True free] by blast
    have keep: "pde m1 i = pde m i" if "pde m i \<noteq> 0" for i using m1(6) True that by metis
    show thesis
    proof (rule map_present [OF m1(2) v p m1(3), where fl = fl], goal_cases)
      case (1 m')
      then show thesis using pd True m1 keep by (intro that [of m']) (auto simp: mm_map_page_def)
    qed
  next
    case False
    then have pr: "usable_entry (pde m ?i)" using inv v by (auto simp: space_inv_def frames_apart_def)
    show thesis
    proof (rule map_present [OF inv v p pr, where fl = fl], goal_cases)
      case (1 m')
      then show thesis using pd False by (intro that [of m']) (auto simp: mm_map_page_def)
    qed
  qed
qed

text \<open>\<open>mm_get_physaddr\<close> agrees with the processor on every mapped address.\<close>

lemma get_physaddr:
  assumes inv: "space_inv m" and v: "drop_bit 22 v < 1023" and t: "translate m v = Some a"
  shows "mm_get_physaddr m v = ret a"
proof -
  let ?i = "drop_bit 22 v" and ?j = "drop_bit 12 v AND 0x3FF"
  have i: "?i < 1024" using v by (simp add: word_less_nat_alt)
  from t have nz: "pde m ?i \<noteq> 0" by (auto simp: translate_def walk_pde split: if_splits)
  with inv v have pr: "usable_entry (pde m ?i)" by (auto simp: space_inv_def frames_apart_def)
  have rec: "recursive m" using inv by (simp add: space_inv_def)
  let ?e = "ram m (tbl m ?i) ?j"
  have "vread m (0xFFC00000 + 4 * (0x400 * ?i) + 4 * ?j) = ret ?e"
    by (rule vread_page [OF pt_base(1) [OF i] index_small walk_table [OF rec i pr]])
  moreover have "a = push_bit 12 (drop_bit 12 ?e) OR (v AND 0xFFF)"
    using t by (auto simp: translate_def walk_pde Let_def split: if_splits)
  moreover have "push_bit 12 (drop_bit 12 ?e) OR (v AND 0xFFF) = (?e AND NOT 0xFFF) + (v AND 0xFFF)"
  proof -
    have "push_bit 12 (drop_bit 12 ?e) = ?e AND NOT 0xFFF"
      by (rule bit_word_eqI) (simp only: bit_push_bit_iff bit_drop_bit_eq bit_and_iff bit_not_iff bits_FFF, auto)
    moreover have "(?e AND NOT 0xFFF) AND (v AND 0xFFF) = 0"
      by (rule bit_word_eqI) (simp only: bit_and_iff bit_not_iff bits_FFF, auto)
    ultimately show ?thesis by (simp only: disjunctive_add_eq_or)
  qed
  ultimately show ?thesis by (simp add: mm_get_physaddr_def Let_def)
qed

section \<open>The kernel's part of the address space\<close>

lemma bit0_and_1: "e AND 1 = 0 \<longleftrightarrow> \<not> bit (e :: u32) 0"
  by (simp add: and_one_eq odd_iff_mod_2_eq_one bit_0)

lemma vread_pde: "recursive m \<Longrightarrow> i < 1024 \<Longrightarrow> vread m (0xFFFFF000 + i * 4) = ret (pde m i)"
  using vread_page [of "0xFFFFF000" i m "pd_frame m"] walk_directory [of m False]
  by (simp add: pde_def mult.commute)

text \<open>\<open>m'\<close> has taken at most \<open>n\<close> pages from the allocator and given none back.\<close>

definition takes_pages :: "nat \<Rightarrow> machine \<Rightarrow> machine \<Rightarrow> bool" where
  "takes_pages n m m' \<longleftrightarrow> free_pages (page_state m') \<subseteq> free_pages (page_state m) \<and>
     card (free_pages (page_state m)) \<le> card (free_pages (page_state m')) + n"

lemma takes_pages_refl: "takes_pages n m m"
  by (simp add: takes_pages_def)

lemma takes_pages_trans: "takes_pages n m m' \<Longrightarrow> takes_pages k m' m'' \<Longrightarrow> n + k \<le> j \<Longrightarrow> takes_pages j m m''"
  by (auto simp: takes_pages_def)

lemma kernel_space_loop_spec:
  assumes "space_inv m" and "start \<le> 1024" and "1023 - unat start \<le> card (free_pages (page_state m))"
  shows "\<exists>m' c. kernel_space_loop m start cnt = ret (m', c) \<and> space_inv m' \<and> cr3 m' = cr3 m \<and>
    (\<forall>i. start \<le> i \<longrightarrow> i < 1024 \<longrightarrow> pde m' i \<noteq> 0) \<and> (\<forall>i. pde m i \<noteq> 0 \<longrightarrow> pde m' i = pde m i) \<and>
    takes_pages (1023 - unat start) m m' \<and>
    (\<forall>w wr. drop_bit 22 w < 1023 \<longrightarrow> walk m' wr w = walk m wr w)"
  using assms
proof (induction m start cnt rule: kernel_space_loop.induct)
  case (1 m start cnt)
  note inv = "1.prems"(1)
  then have rec: "recursive m" by (simp add: space_inv_def)
  show ?case
  proof (cases "start < 1024")
    case False
    then have "start = 1024" using "1.prems"(2) by simp
    then show ?thesis using inv by (subst kernel_space_loop.simps) (auto simp: takes_pages_refl)
  next
    case start: True
    note read = vread_pde [OF rec start]
    have up: "start + 1 \<le> 1024" "\<And>i. start \<le> i \<longleftrightarrow> i = start \<or> start + 1 \<le> i"
      using start by (auto simp: inc_le_iff_less)
    have unat1: "unat (start + 1) = Suc (unat start)" using start by simp
    show ?thesis
    proof (cases "pde m start AND 1 = 0")
      case False
      then have nz: "pde m start \<noteq> 0" by auto
      have "1023 - unat (start + 1) \<le> card (free_pages (page_state m))"
        using "1.prems"(3) unat1 by simp
      then obtain m' c where "kernel_space_loop m (start + 1) cnt = ret (m', c)" "space_inv m'" "cr3 m' = cr3 m"
        "\<forall>i. start + 1 \<le> i \<longrightarrow> i < 1024 \<longrightarrow> pde m' i \<noteq> 0" "\<forall>i. pde m i \<noteq> 0 \<longrightarrow> pde m' i = pde m i"
        "\<forall>w wr. drop_bit 22 w < 1023 \<longrightarrow> walk m' wr w = walk m wr w" "takes_pages (1023 - unat (start + 1)) m m'"
        using "1.IH"(2) [OF start refl False inv up(1)] by blast
      moreover from this have "takes_pages (1023 - unat start) m m'" using unat1 by (auto simp: takes_pages_def)
      ultimately show ?thesis using nz read start False
        by (subst kernel_space_loop.simps) (auto simp: up(2))
    next
      case True
      have "start \<noteq> 1023" using True rec by (auto simp: recursive_def bit0_and_1)
      then have lt: "start < 1023" using start by (auto simp: word_less_nat_alt word_unat_eq_iff)
      then have "unat start < 1023" by (simp add: word_less_nat_alt)
      with "1.prems"(3) have card: "card (free_pages (page_state m)) \<ge> 1"
        and card': "1023 - unat (start + 1) \<le> card (free_pages (page_state m)) - 1" using unat1 by auto
      then have fin: "finite (free_pages (page_state m))" and free: "free_pages (page_state m) \<noteq> {}"
        by (auto intro: card_ge_0_finite)
      have empty: "pde m start = 0"
        using inv lt True by (auto simp: space_inv_def frames_apart_def usable_entry_def bit0_and_1)
      have "region_inv (page_state m)" using inv by (simp add: space_inv_def)
      from alloc_frame_spec [OF this free] obtain s pg where a: "alloc_frame m = ret (m\<lparr>page_state := s\<rparr>, Some pg)"
        and s: "region_inv s" "unat pg \<in> free_pages (page_state m)" "free_pages s = free_pages (page_state m) - {unat pg}"
        by blast
      let ?m = "installed m s start pg"
      note inst = installed_space [OF inv lt empty s]
      have put: "vwrite (m\<lparr>page_state := s\<rparr>) (0xFFFFF000 + start * 4) (push_bit 12 pg OR 3) = ret m1 \<Longrightarrow>
          zero_words m1 (0xFFC00000 + start * 4096) 1024 = ret ?m" for m1
        using install_table [OF rec lt inst(1,2), of s] by (simp add: mult.commute)
      obtain m1 where m1: "vwrite (m\<lparr>page_state := s\<rparr>) (0xFFFFF000 + start * 4) (push_bit 12 pg OR 3) = ret m1"
        using install_table [OF rec lt inst(1,2), of s] by (auto simp: mult.commute run_bind_ret_iff)
      have "card (free_pages (page_state ?m)) = card (free_pages (page_state m)) - 1"
        using s fin by simp
      then obtain m' c where "kernel_space_loop ?m (start + 1) (cnt + 1) = ret (m', c)" "space_inv m'" "cr3 m' = cr3 m"
        "\<forall>i. start + 1 \<le> i \<longrightarrow> i < 1024 \<longrightarrow> pde m' i \<noteq> 0" "\<forall>i. pde ?m i \<noteq> 0 \<longrightarrow> pde m' i = pde ?m i"
        "\<forall>w wr. drop_bit 22 w < 1023 \<longrightarrow> walk m' wr w = walk ?m wr w" and takes: "takes_pages (1023 - unat (start + 1)) ?m m'"
        using "1.IH"(1) [OF start refl True inst(3) up(1)] card' by auto
      moreover have "takes_pages (1023 - unat start) m m'"
      proof (rule takes_pages_trans [OF _ takes])
        show "takes_pages 1 m ?m" using s fin card by (auto simp: takes_pages_def)
        show "1 + (1023 - unat (start + 1)) \<le> 1023 - unat start" using \<open>unat start < 1023\<close> unat1 by simp
      qed
      moreover have "pde ?m start \<noteq> 0" "\<And>i. pde m i \<noteq> 0 \<Longrightarrow> pde ?m i = pde m i"
        using inst(2) empty by (auto simp: installed_pde)
      ultimately show ?thesis
        using a m1 put [OF m1] read start True inst(4)
        by (subst kernel_space_loop.simps) (auto simp: up(2))
    qed
  qed
qed

section \<open>The switch to the kernel's own page directory\<close>

text \<open>The machine after frame \<open>f\<close> has been filled with a table that maps the pages before \<open>e\<close>.\<close>

definition filled :: "machine \<Rightarrow> u32 \<Rightarrow> u32 \<Rightarrow> u32 \<Rightarrow> machine" where
  "filled m f e i = m\<lparr>ram := (ram m)(f := (\<lambda>j. if i \<le> j \<and> j < 1024 then if j < e then entry j else 0
     else ram m f j))\<rparr>"

lemma page_table_loop_spec:
  assumes "walk m True 0xFFFFE000 = Some f" and "f \<noteq> pd_frame m"
    and "f \<noteq> drop_bit 12 (pde m 1023)" and "s \<le> e" and "i \<le> 1024"
  shows "page_table_loop m s e i = ret (filled m f e i)"
  using assms
proof (induction m s e i rule: page_table_loop.induct)
  case (1 m s e i)
  show ?case
  proof (cases "i < 1024")
    case False
    then have "i = 1024" using "1.prems"(5) by simp
    then have "(ram m)(f := (\<lambda>j. if i \<le> j \<and> j < 1024 then if j < e then entry j else 0 else ram m f j)) = ram m"
      by (auto simp: fun_eq_iff)
    with False show ?thesis by (subst page_table_loop.simps) (simp add: filled_def)
  next
    case True
    let ?x = "if i < e then entry i else 0"
    let ?m = "poke m f i ?x"
    have "vwrite m (0xFFFFE000 + i * 4) x = ret (poke m f i x)" for x
      using vwrite_page [OF _ True "1.prems"(1), of x] by (simp add: mult.commute)
    moreover have "walk ?m True 0xFFFFE000 = Some f" "pde ?m 1023 = pde m 1023"
      using "1.prems" walk_poke [of f m "0xFFFFE000"] by (simp_all add: pde_def)
    moreover have "i + 1 \<le> 1024" using True by (simp add: inc_le_iff_less)
    ultimately have "page_table_loop m s e i = page_table_loop ?m s e (i + 1)"
        "page_table_loop ?m s e (i + 1) = ret (filled ?m f e (i + 1))"
      using True "1.prems" "1.IH" [OF True, of ?m]
      by (subst page_table_loop.simps, auto simp: entry_def)
    moreover have "i \<le> j \<longleftrightarrow> j = i \<or> i + 1 \<le> j" for j using True by (auto simp: inc_le_iff_less)
    then have "ram (filled ?m f e (i + 1)) = ram (filled m f e i)"
      using True by (auto simp: filled_def fun_eq_iff inc_le_iff_less)
    then have "filled ?m f e (i + 1) = filled m f e i" by (simp add: filled_def poke_def)
    ultimately show ?thesis by simp
  qed
qed

text \<open>
  What \<^verbatim>\<open>boot.S\<close> leaves behind: \<open>boot_pagedir\<close> and \<open>boot_pagetab1\<close> are pages \<open>kd\<close> and \<open>kt\<close> of the
  kernel's window, the directory is in use, its entry 768 names the table, and the table maps
  both pages writable.
\<close>

definition boot_space :: "u32 \<Rightarrow> u32 \<Rightarrow> machine \<Rightarrow> bool" where
  "boot_space kd kt m \<longleftrightarrow> kd < 1022 \<and> kt < 1022 \<and> kd \<noteq> kt \<and> cr3 m = push_bit 12 kd \<and>
     ram m kd 768 = entry kt \<and> ram m kt kd = entry kd \<and> ram m kt kt = entry kt \<and>
     region_inv (page_state m) \<and> free_pages (page_state m) \<subseteq> {..<2 ^ 20} - {unat kd, unat kt}"

abbreviation window :: "u32 \<Rightarrow> u32" where
  "window k \<equiv> 0xC0000000 + push_bit 12 k"

lemma window_sel:
  assumes "k < 1024"
  shows "drop_bit 22 (window k) = 768" and "drop_bit 12 (window k) AND 0x3FF = k" and "window k AND 0xFFF = 0"
    and "drop_bit 12 (window k - 0xC0000000) = k" and "drop_bit 12 (push_bit 12 k) = k"
    and "(window k - 0xC0000000) AND 0xFFFFF000 = push_bit 12 k"
proof -
  have k: "unat k < 1024" using assms by (simp add: word_less_nat_alt)
  have p: "unat (push_bit 12 k) = 4096 * unat k" using k by (simp add: push_bit_eq_mult unat_word_ariths)
  then have w: "unat (window k) = 4096 * (786432 + unat k)" using k by (simp add: unat_word_ariths)
  show "drop_bit 22 (window k) = 768" using k by (intro word_unat_eq_iff [THEN iffD2]) (simp only: unat_drop w, simp)
  have "(786432 + unat k) mod 1024 = unat k" using k mod_mult_self1 [of "unat k" 768 1024] by (simp add: add.commute)
  then show "drop_bit 12 (window k) AND 0x3FF = k"
    by (intro word_unat_eq_iff [THEN iffD2]) (simp only: unat_drop unat_and_mask w, simp)
  show "window k AND 0xFFF = 0" by (intro word_unat_eq_iff [THEN iffD2]) (simp only: unat_and_mask w, simp)
  show d: "drop_bit 12 (push_bit 12 k) = k" by (intro word_unat_eq_iff [THEN iffD2]) (simp only: unat_drop p, simp)
  show "drop_bit 12 (window k - 0xC0000000) = k" using d by simp
  have "push_bit 12 k AND 0xFFFFF000 = push_bit 12 k"
  proof (rule bit_word_eqI)
    fix n assume n: "n < LENGTH(32)"
    have "(0xFFFFF000 :: u32) = NOT 0xFFF" by simp
    then have "bit (0xFFFFF000 :: u32) n \<longleftrightarrow> \<not> n < 12" using n by (simp only: bit_not_iff bits_FFF) simp
    then show "bit (push_bit 12 k AND 0xFFFFF000) n = bit (push_bit 12 k) n"
      by (simp only: bit_and_iff bit_push_bit_iff) auto
  qed
  then show "(window k - 0xC0000000) AND 0xFFFFF000 = push_bit 12 k" by simp
qed

lemma window_translate:
  assumes "drop_bit 22 w = 768"
  shows "push_bit 12 (drop_bit 12 (w :: u32) AND 0x3FF) OR (w AND 0xFFF) = w - 0xC0000000"
    and "w = window (drop_bit 12 w AND 0x3FF) + (w AND 0xFFF)"
proof -
  have "unat w div 4194304 = 768" using arg_cong [OF assms, of unat] by (simp only: unat_drop) simp
  then have w: "unat w = 3221225472 + unat w mod 4194304" using div_mult_mod_eq [of "unat w" 4194304] by simp
  have idx: "unat (drop_bit 12 w AND 0x3FF) = unat w mod 4194304 div 4096"
  proof -
    have "x mod (4096 * 1024) = 4096 * (x div 4096 mod 1024) + x mod 4096" for x :: nat
      by (rule mod_mult2_eq)
    then have "unat w mod 4194304 div 4096 = unat w div 4096 mod 1024" by simp
    moreover have "unat (drop_bit 12 w AND 0x3FF) = unat w div 2 ^ 12 mod 1024"
      by (simp only: unat_and_mask unat_drop)
    moreover have "(2 :: nat) ^ 12 = 4096" by simp
    ultimately show ?thesis by (simp only:)
  qed
  let ?k = "drop_bit 12 w AND 0x3FF"
  have k: "?k < 1024" by (rule index_small)
  then have p: "unat (push_bit 12 ?k) = 4096 * unat ?k"
    by (simp only: push_bit_eq_mult unat_word_ariths word_less_nat_alt) simp
  have dis: "push_bit 12 ?k AND (w AND 0xFFF) = 0"
    by (rule bit_word_eqI) (simp only: bit_and_iff bit_push_bit_iff bits_FFF, auto)
  have "unat (push_bit 12 ?k + (w AND 0xFFF)) = 4096 * (unat w mod 4194304 div 4096) + unat w mod 4194304 mod 4096"
  proof -
    have "unat (w AND 0xFFF) = unat w mod 4194304 mod 4096" by (simp only: unat_and_mask(2)) (simp add: mod_mod_cancel)
    moreover have "4096 * (unat w mod 4194304 div 4096) + unat w mod 4194304 mod 4096 < 2 ^ 32"
      unfolding mult_div_mod_eq by (rule less_trans [of _ 4194304]) simp_all
    ultimately show ?thesis by (simp only: unat_word_ariths p idx) simp
  qed
  then have "unat (push_bit 12 ?k + (w AND 0xFFF)) = unat w mod 4194304" by (simp only: mult_div_mod_eq)
  moreover have "unat (w - 0xC0000000) = unat w mod 4194304"
    using w by (simp add: unat_sub_if_size word_size)
  ultimately have eq: "push_bit 12 ?k + (w AND 0xFFF) = w - 0xC0000000"
    by (intro word_unat_eq_iff [THEN iffD2]) (simp only:)
  then show "push_bit 12 ?k OR (w AND 0xFFF) = w - 0xC0000000"
    using disjunctive_add_eq_or [OF dis] by (simp only:)
  show "w = window ?k + (w AND 0xFFF)" using eq by (simp add: algebra_simps)
qed

text \<open>The machine when \<open>CR3\<close> is loaded: directory in \<open>f1\<close>, first table in \<open>f2\<close>.\<close>

definition new_space :: "machine \<Rightarrow> u32 \<Rightarrow> u32 \<Rightarrow> u32 \<Rightarrow> u32 \<Rightarrow> bool" where
  "new_space m f1 f2 e kd \<longleftrightarrow> pd_frame m = f1 \<and>
     (\<forall>i < 1024. ram m f1 i = (if i = 1023 then entry f1 else if i = 768 then entry f2 else 0)) \<and>
     (\<forall>j < 1024. ram m f2 j = (if j = kd then push_bit 12 kd OR 1 else if j < e then entry j else 0))"

lemma earlyinit_tables:
  assumes boot: "boot_space kd kt m" and f: "f1 < 2 ^ 20" "f2 < 2 ^ 20" "f1 \<noteq> f2"
    and apart: "f1 \<noteq> kd" "f1 \<noteq> kt" "f2 \<noteq> kd" "f2 \<noteq> kt"
    and e: "s \<le> e" "e \<le> 1024"
  shows "\<exists>m'. run_bind (vwrite m (window kt + 4 * 1023) (push_bit 12 f1 OR 3)) (\<lambda>m.
      run_bind (vwrite m (window kt + 4 * 1022) (push_bit 12 f2 OR 3)) (\<lambda>m.
      run_bind (vwrite m (window kd + 4 * 1023) (((window kt - 0xC0000000) AND 0xFFFFF000) OR 3)) (\<lambda>m.
      run_bind (zero_words m 0xFFFFE000 1024) (\<lambda>m.
      run_bind (zero_words m 0xFFFFF000 1024) (\<lambda>m.
      run_bind (vwrite m (0xFFFFF000 + 4 * 1023) (push_bit 12 f1 OR 3)) (\<lambda>m.
      run_bind (vwrite m (0xFFFFF000 + 4 * 768) (push_bit 12 f2 OR 3)) (\<lambda>m.
      run_bind (page_table_loop m s e 0) (\<lambda>m.
      run_bind (vwrite m (0xFFFFE000 + drop_bit 12 (window kd - 0xC0000000) * 4)
        (push_bit 12 (drop_bit 12 (window kd - 0xC0000000)) OR 1)) g)))))))) = g m' \<and>
    page_state m' = page_state m \<and> new_space (m'\<lparr>cr3 := push_bit 12 f1\<rparr>) f1 f2 e kd"
proof -
  have small: "kd < 1024" "kt < 1024" "kd \<noteq> kt" "kd < 1022" "kt < 1022"
    using boot by (auto simp: boot_space_def word_less_nat_alt)
  have kt20: "kt < 2 ^ 20" "kd < 2 ^ 20" using small by (auto simp: word_less_nat_alt)
  note frames = entry_frame [OF f(1)] entry_frame [OF f(2)] entry_frame [OF kt20(1)] entry_frame [OF kt20(2)]
  have not_end: "kd \<noteq> 1022" "kd \<noteq> 1023" "kt \<noteq> 1022" "kt \<noteq> 1023" using small by auto
  have pd: "pd_frame m = kd" using boot window_sel(5) [OF small(1)] by (simp add: boot_space_def pd_frame_def)
  note sels = window_sel [OF small(1)] window_sel [OF small(2)]
  have ents: "ram m kd 768 = entry kt" "ram m kt kd = entry kd" "ram m kt kt = entry kt"
    using boot by (auto simp: boot_space_def)
  have wk: "walk x True (window k) = Some (drop_bit 12 (ram x kt k))"
    if "pd_frame x = kd" "ram x kd 768 = entry kt" "usable_entry (ram x kt k)" "k < 1024" for x k
    using that frames
    by (simp only: walk_def window_sel pd_frame_def [symmetric] Let_def entry_sel usable_entry_def, simp)
  have top: "walk x True 0xFFFFE000 = Some f2" "walk x True 0xFFFFF000 = Some f1"
      "drop_bit 12 (ram x (pd_frame x) (drop_bit 22 0xFFFFE000)) = kt" "drop_bit 12 (ram x (pd_frame x) (drop_bit 22 0xFFFFF000)) = kt"
      "drop_bit 12 (pde x 1023) = kt"
    if "pd_frame x = kd" "ram x kd 1023 = entry kt" "ram x kt 1022 = entry f2" "ram x kt 1023 = entry f1" for x
    using that frames by (simp_all add: walk_def pd_frame_def [symmetric] pde_def Let_def)
  define m1 where "m1 = poke m kt 1023 (entry f1)"
  define m2 where "m2 = poke m1 kt 1022 (entry f2)"
  define m3 where "m3 = poke m2 kd 1023 (entry kt)"
  define m4 where "m4 = wipe m3 f2 0 1024"
  define m5 where "m5 = wipe m4 f1 0 1024"
  define m6 where "m6 = poke m5 f1 1023 (entry f1)"
  define m7 where "m7 = poke m6 f1 768 (entry f2)"
  define m8 where "m8 = filled m7 f2 e 0"
  define m9 where "m9 = poke m8 f2 kd (push_bit 12 kd OR 1)"
  note defs = m1_def m2_def m3_def m4_def m5_def m6_def m7_def m8_def m9_def filled_def pd_frame_def
  have pds: "pd_frame m1 = kd" "pd_frame m2 = kd" "pd_frame m3 = kd" "pd_frame m4 = kd" "pd_frame m5 = kd"
      "pd_frame m6 = kd" "pd_frame m7 = kd" "pd_frame m8 = kd"
    using pd by (simp_all add: defs)
  have s1: "vwrite m (window kt + 4 * 1023) (push_bit 12 f1 OR 3) = ret m1"
    using vwrite_page [OF sels(9) _ wk [OF pd], of 1023] ents small frames
    by (simp only: m1_def entry_def [symmetric] entry_sel) simp
  have s2: "vwrite m1 (window kt + 4 * 1022) (push_bit 12 f2 OR 3) = ret m2"
    using vwrite_page [OF sels(9) _ wk [OF pds(1)], of 1022] ents small frames not_end
    by (simp only: m2_def entry_def [symmetric]) (simp add: m1_def)
  have s3: "vwrite m2 (window kd + 4 * 1023) (((window kt - 0xC0000000) AND 0xFFFFF000) OR 3) = ret m3"
    using vwrite_page [OF sels(3) _ wk [OF pds(2)], of 1023] ents small frames not_end
    by (simp only: m3_def entry_def [symmetric] sels) (simp add: m1_def m2_def)
  have c3: "ram m3 kd 1023 = entry kt" "ram m3 kt 1022 = entry f2" "ram m3 kt 1023 = entry f1"
    using small by (simp_all add: defs)
  have z: "zero_words x a 1024 = ret (wipe x f 0 1024)"
    if "a AND 0xFFF = 0" "walk x True a = Some f" "f \<noteq> pd_frame x" "f \<noteq> drop_bit 12 (ram x (pd_frame x) (drop_bit 22 a))"
    for x a f using zero_words_page [OF that, of 0 1024] by simp
  have s4: "zero_words m3 0xFFFFE000 1024 = ret m4"
    unfolding m4_def using top [OF pds(3) c3] apart pds by (intro z) simp_all
  have c4: "ram m4 kd 1023 = entry kt" "ram m4 kt 1022 = entry f2" "ram m4 kt 1023 = entry f1"
    using c3 apart by (simp_all add: m4_def)
  have s5: "zero_words m4 0xFFFFF000 1024 = ret m5"
    unfolding m5_def using top [OF pds(4) c4] apart pds by (intro z) simp_all
  have c5: "ram m5 kd 1023 = entry kt" "ram m5 kt 1022 = entry f2" "ram m5 kt 1023 = entry f1"
    using c4 apart by (simp_all add: m5_def)
  have s6: "vwrite m5 (0xFFFFF000 + 4 * 1023) (push_bit 12 f1 OR 3) = ret m6"
    using vwrite_page [OF _ _ top(2) [OF pds(5) c5], of 1023] by (simp add: m6_def entry_def)
  have c6: "ram m6 kd 1023 = entry kt" "ram m6 kt 1022 = entry f2" "ram m6 kt 1023 = entry f1"
    using c5 apart by (simp_all add: m6_def)
  have s7: "vwrite m6 (0xFFFFF000 + 4 * 768) (push_bit 12 f2 OR 3) = ret m7"
    using vwrite_page [OF _ _ top(2) [OF pds(6) c6], of 768] by (simp add: m7_def entry_def)
  have c7: "ram m7 kd 1023 = entry kt" "ram m7 kt 1022 = entry f2" "ram m7 kt 1023 = entry f1"
    using c6 apart by (simp_all add: m7_def)
  have s8: "page_table_loop m7 s e 0 = ret m8"
    unfolding m8_def using top [OF pds(7) c7] apart pds e by (intro page_table_loop_spec) simp_all
  have c8: "ram m8 kd 1023 = entry kt" "ram m8 kt 1022 = entry f2" "ram m8 kt 1023 = entry f1"
    using c7 apart by (simp_all add: m8_def filled_def)
  have s9: "vwrite m8 (0xFFFFE000 + drop_bit 12 (window kd - 0xC0000000) * 4)
        (push_bit 12 (drop_bit 12 (window kd - 0xC0000000)) OR 1) = ret m9"
    unfolding sels using vwrite_page [OF _ small(1) top(1) [OF pds(8) c8]] by (simp add: m9_def mult.commute)
  have "new_space (m9\<lparr>cr3 := push_bit 12 f1\<rparr>) f1 f2 e kd"
    using f(1-3) apart small entry_frame [OF f(1)] by (auto simp: new_space_def defs word_less_nat_alt entry_def)
  then show ?thesis
    by (intro exI [of _ m9]) (simp only: s1 s2 s3 s4 s5 s6 s7 s8 s9 run_bind_simps, simp add: defs)
qed

lemma alloc_two_frames:
  assumes "region_inv (page_state m)" and "card (free_pages (page_state m)) \<ge> 2"
  obtains s f1 s' f2 where "alloc_frame m = ret (m\<lparr>page_state := s\<rparr>, Some f1)"
    and "alloc_frame (m\<lparr>page_state := s\<rparr>) = ret (m\<lparr>page_state := s'\<rparr>, Some f2)"
    and "region_inv s'" and "{unat f1, unat f2} \<subseteq> free_pages (page_state m)" and "f1 \<noteq> f2"
    and "free_pages s' = free_pages (page_state m) - {unat f1, unat f2}"
proof -
  let ?F = "free_pages (page_state m)"
  from assms(2) have fin: "finite ?F" and ne: "?F \<noteq> {}" by (auto intro: card_ge_0_finite)
  from alloc_frame_spec [OF assms(1) ne] obtain s f1 where a1: "alloc_frame m = ret (m\<lparr>page_state := s\<rparr>, Some f1)"
    "region_inv s" "unat f1 \<in> ?F" "free_pages s = ?F - {unat f1}" by blast
  have "card (free_pages s) \<ge> 1" using a1 fin assms(2) by simp
  then have ne': "free_pages (page_state (m\<lparr>page_state := s\<rparr>)) \<noteq> {}" by auto
  have inv': "region_inv (page_state (m\<lparr>page_state := s\<rparr>))" using a1(2) by simp
  from alloc_frame_spec [OF inv' ne'] obtain s' f2 where
    "alloc_frame (m\<lparr>page_state := s\<rparr>) = ret (m\<lparr>page_state := s'\<rparr>, Some f2)" "region_inv s'"
    "unat f2 \<in> ?F - {unat f1}" "free_pages s' = ?F - {unat f1} - {unat f2}"
    using a1(4) by auto
  then show thesis using that [OF a1(1)] a1(3) by auto
qed

lemma new_space_inv:
  assumes ns: "new_space m f1 f2 e kd" and f: "f1 < 2 ^ 20" "f2 < 2 ^ 20" "f1 \<noteq> f2"
    and st: "region_inv (page_state m)" "free_pages (page_state m) \<subseteq> {..<2 ^ 20}"
      "unat f1 \<notin> free_pages (page_state m)" "unat f2 \<notin> free_pages (page_state m)"
  shows "space_inv m" and "pde m 768 \<noteq> 0"
    and "drop_bit 22 w < 1023 \<Longrightarrow> walk m wr w =
      (if drop_bit 22 w \<noteq> 768 then None
       else if drop_bit 12 w AND 0x3FF = kd then (if wr then None else Some kd)
       else if drop_bit 12 w AND 0x3FF < e then Some (drop_bit 12 w AND 0x3FF) else None)"
proof -
  have pd: "pd_frame m = f1" using ns by (simp add: new_space_def)
  have pde: "pde m i = (if i = 1023 then entry f1 else if i = 768 then entry f2 else 0)" if "i < 1024" for i
    using ns that by (simp add: new_space_def pde_def)
  have tbl: "tbl m 768 = f2" using pde [of 768] f by (simp add: tbl_def entry_frame)
  have lt: "i < 1023 \<Longrightarrow> i < 1024 \<and> i \<noteq> 1023" for i :: u32 by (auto simp: word_less_nat_alt)
  show "pde m 768 \<noteq> 0" using pde [of 768] by simp
  have "frames_apart m"
    unfolding frames_apart_def using lt pde tbl f st pd by (auto split: if_splits)
  moreover have "recursive m" using pde [of 1023] pd by (simp add: recursive_def)
  ultimately show "space_inv m" using st pd by (simp add: space_inv_def)
  assume w: "drop_bit 22 w < 1023"
  let ?j = "drop_bit 12 w AND 0x3FF"
  have j: "?j < 1024" by (rule index_small)
  have ent: "drop_bit 12 (entry ?j) = ?j" using j by (intro entry_frame) (auto simp: word_less_nat_alt)
  have kd: "drop_bit 12 (push_bit 12 k OR 1) = k" "bit (push_bit 12 k OR 1) 0" "\<not> bit (push_bit 12 k OR 1) 1"
    if "k < 1024" for k :: u32
  proof -
    show "bit (push_bit 12 k OR 1) 0" "\<not> bit (push_bit 12 k OR 1) 1" by (simp_all add: bit_simps)
    have "drop_bit 12 (push_bit 12 k OR 1) = drop_bit 12 (entry k)"
      by (rule bit_word_eqI) (simp add: entry_def bit_simps bits_3)
    also have "\<dots> = k" using that by (intro entry_frame) (auto simp: word_less_nat_alt)
    finally show "drop_bit 12 (push_bit 12 k OR 1) = k" .
  qed
  have cell: "ram m f2 ?j = (if ?j = kd then push_bit 12 kd OR 1 else if ?j < e then entry ?j else 0)"
    using ns j by (simp only: new_space_def)
  show "walk m wr w = (if drop_bit 22 w \<noteq> 768 then None
       else if ?j = kd then (if wr then None else Some kd) else if ?j < e then Some ?j else None)"
  proof (cases "drop_bit 22 w = 768")
    case False
    then show ?thesis using pde [of "drop_bit 22 w"] lt [OF w] by (simp add: walk_pde)
  next
    case True
    then show ?thesis
      unfolding walk_pde True tbl cell using kd [of ?j] j ent pde [of 768] by (auto simp: Let_def)
  qed
qed

lemma frame_word: "unat f \<in> {..<2 ^ 20} - {unat kd, unat kt} \<Longrightarrow> f < 2 ^ 20 \<and> f \<noteq> kd \<and> f \<noteq> (kt :: u32)"
  by (simp add: word_less_nat_alt word_unat_eq_iff)

lemma earlyinit_runs_at:
  assumes boot: "boot_space kd kt m" and ks: "ks \<le> ke" and ke: "ke < 1024"
    and card: "card (free_pages (page_state m)) \<ge> 257"
    and image: "drop_bit 12 (kstart - 0xC0000000) = ks" "drop_bit 12 (kend - 0xC0000000) = ke"
  shows "\<exists>m'. paging_earlyinit (window kd) (window kt) kstart kend m = ret m' \<and> space_inv m' \<and> takes_pages 257 m m' \<and>
    (\<forall>i. 768 \<le> i \<longrightarrow> i < 1024 \<longrightarrow> pde m' i \<noteq> 0) \<and>
    (\<forall>w wr. drop_bit 22 w < 1023 \<longrightarrow> walk m' wr w =
      (if drop_bit 22 w \<noteq> 768 then None
       else if drop_bit 12 w AND 0x3FF = kd then (if wr then None else Some kd)
       else if drop_bit 12 w AND 0x3FF \<le> ke then Some (drop_bit 12 w AND 0x3FF) else None))"
proof -
  let ?F = "free_pages (page_state m)"
  have st: "region_inv (page_state m)" "?F \<subseteq> {..<2 ^ 20} - {unat kd, unat kt}" using boot by (auto simp: boot_space_def)
  have fin: "finite ?F" using st(2) by (rule finite_subset) simp
  have two: "card ?F \<ge> 2" using card by simp
  obtain s f1 s' f2 where a: "alloc_frame m = ret (m\<lparr>page_state := s\<rparr>, Some f1)"
      "alloc_frame (m\<lparr>page_state := s\<rparr>) = ret (m\<lparr>page_state := s'\<rparr>, Some f2)"
    and s': "region_inv s'" "{unat f1, unat f2} \<subseteq> ?F" "f1 \<noteq> f2" "free_pages s' = ?F - {unat f1, unat f2}"
    using alloc_two_frames [OF st(1) two] by blast
  have f: "f1 < 2 ^ 20" "f2 < 2 ^ 20" "f1 \<noteq> kd" "f1 \<noteq> kt" "f2 \<noteq> kd" "f2 \<noteq> kt"
    using s'(2) st(2) frame_word [of _ kd kt] by blast+
  have kernel: "drop_bit 12 (kstart - 0xC0000000) = ks" "drop_bit 12 (kend - 0xC0000000) + 1 = ke + 1" using image by simp_all
  have "unat ke < 1024" using ke by (simp add: word_less_nat_alt)
  then have le: "ks \<le> ke + 1" "ke + 1 \<le> 1024"
    using ks by (auto simp: word_le_nat_alt unat_inc_less [OF ke])
  have boot': "boot_space kd kt (m\<lparr>page_state := s'\<rparr>)" using boot s' by (auto simp: boot_space_def)
  obtain m' where m': "paging_earlyinit (window kd) (window kt) kstart kend m =
      paging_init_kernel_space (m'\<lparr>cr3 := push_bit 12 f1\<rparr>)" "page_state m' = s'"
      "new_space (m'\<lparr>cr3 := push_bit 12 f1\<rparr>) f1 f2 (ke + 1) kd"
    using earlyinit_tables [OF boot' f(1,2) s'(3) f(3-6) le,
        of "\<lambda>m. paging_init_kernel_space (m\<lparr>cr3 := push_bit 12 f1\<rparr>)"] a
    by (simp only: paging_earlyinit_def Let_def kernel run_bind_simps prod.case option.case) auto
  let ?m = "m'\<lparr>cr3 := push_bit 12 f1\<rparr>"
  have "region_inv (page_state ?m)" "free_pages (page_state ?m) \<subseteq> {..<2 ^ 20}"
      "unat f1 \<notin> free_pages (page_state ?m)" "unat f2 \<notin> free_pages (page_state ?m)"
    using m'(2) s' st(2) by auto
  note ns = new_space_inv [OF m'(3) f(1,2) s'(3) this]
  have "card (free_pages (page_state ?m)) \<ge> 255"
    using card s' fin m'(2) card_Diff_subset [of "{unat f1, unat f2}" ?F]
    by (simp add: word_unat_eq_iff)
  then obtain m'' c where k: "kernel_space_loop ?m 768 0 = ret (m'', c)" "space_inv m''"
      "\<forall>i. 768 \<le> i \<longrightarrow> i < 1024 \<longrightarrow> pde m'' i \<noteq> 0" and takes: "takes_pages 255 ?m m''" and walk: "\<forall>w wr. drop_bit 22 w < 1023 \<longrightarrow> walk m'' wr w = walk ?m wr w"
    using kernel_space_loop_spec [OF ns(1), of 768 0] by auto
  have lt: "j < ke + 1 \<longleftrightarrow> j \<le> ke" for j using inc_le_iff_less [OF ke, of j] by (meson not_le)
  have "paging_earlyinit (window kd) (window kt) kstart kend m = ret m''"
    using m'(1) k(1) by (simp add: paging_init_kernel_space_def)
  moreover have "takes_pages 257 m m''"
  proof (rule takes_pages_trans [OF _ takes])
    have "free_pages (page_state ?m) = ?F - {unat f1, unat f2}" using m'(2) s'(4) by simp
    moreover have "card (?F - {unat f1, unat f2}) = card ?F - 2"
      using s'(2,3) by (subst card_Diff_subset) (simp_all add: word_unat_eq_iff)
    ultimately show "takes_pages 2 m ?m" by (auto simp: takes_pages_def)
  qed simp
  ultimately show ?thesis using k walk ns(3) lt by auto
qed

lemma window_mapped:
  assumes walk: "\<forall>w wr. drop_bit 22 w < 1023 \<longrightarrow> walk m wr w =
      (if drop_bit 22 w \<noteq> 768 then None
       else if drop_bit 12 w AND 0x3FF = kd then (if wr then None else Some kd)
       else if drop_bit 12 w AND 0x3FF \<le> ke then Some (drop_bit 12 w AND 0x3FF) else None)"
    and "kd \<le> ke" and w: "w < 0xFFC00000"
  shows "drop_bit 22 w < 1023"
    and "translate m w = (if drop_bit 22 w = 768 \<and> drop_bit 12 w AND 0x3FF \<le> ke then Some (w - 0xC0000000) else None)"
proof -
  show below: "drop_bit 22 w < 1023"
    using w by (simp only: word_less_nat_alt unat_drop) (simp add: less_mult_imp_div_less)
  show "translate m w = (if drop_bit 22 w = 768 \<and> drop_bit 12 w AND 0x3FF \<le> ke then Some (w - 0xC0000000) else None)"
    using walk below window_translate(1) [of w] assms(2) by (auto simp: translate_def)
qed

lemma earlyinit_runs:
  assumes "boot_space kd kt m" and "ks \<le> ke" and "ke < 1024" and "card (free_pages (page_state m)) \<ge> 257"
  shows "\<exists>m'. paging_earlyinit (window kd) (window kt) (window ks) (window ke) m = ret m' \<and> space_inv m' \<and>
    (\<forall>i. 768 \<le> i \<longrightarrow> i < 1024 \<longrightarrow> pde m' i \<noteq> 0) \<and>
    (\<forall>w wr. drop_bit 22 w < 1023 \<longrightarrow> walk m' wr w =
      (if drop_bit 22 w \<noteq> 768 then None
       else if drop_bit 12 w AND 0x3FF = kd then (if wr then None else Some kd)
       else if drop_bit 12 w AND 0x3FF \<le> ke then Some (drop_bit 12 w AND 0x3FF) else None))"
proof -
  have "drop_bit 12 (window ks - 0xC0000000) = ks" "drop_bit 12 (window ke - 0xC0000000) = ke"
    using window_sel(4) assms(2,3) by (auto simp: order.strict_trans1)
  from earlyinit_runs_at [OF assms this] show ?thesis by blast
qed

section \<open>Two machines\<close>

text \<open>An address space with an empty directory in frame 2048, and a machine as \<^verbatim>\<open>boot.S\<close> leaves it
  with the boot directory in frame 257 and the boot table in frame 258.\<close>

definition empty_space :: machine where
  "empty_space = \<lparr>cr3 = 0x800000, ram = (\<lambda>f j. if f = 2048 \<and> j = 1023 then entry 2048 else 0),
     page_state = memory_region_early_init region_bss 256 64, printed = []\<rparr>"

lemma empty_space_inv: "space_inv empty_space"
proof -
  have "pd_frame empty_space = 2048" by (simp add: pd_frame_def empty_space_def)
  then show ?thesis
    using boot_region_inv boot_free
    by (auto simp: space_inv_def recursive_def frames_apart_def pde_def empty_space_def)
qed

definition boot_machine :: machine where
  "boot_machine = \<lparr>cr3 = 0x101000,
     ram = (\<lambda>f j. if f = 257 then (if j = 768 then entry 258 else 0) else if f = 258 then entry j else 0),
     page_state = memory_region_early_init region_bss 1024 320, printed = []\<rparr>"

lemma boot_machine_space: "boot_space 257 258 boot_machine"
    and boot_machine_free: "free_pages (page_state boot_machine) = {1024..<1344}"
proof -
  have *: "chain (memory_region_early_init region_bss 1024 320) [initial_region]"
    "free_pages (memory_region_early_init region_bss 1024 320) = {1024..<1344}"
    using early_init_chain [of 320 1024 region_bss] by (simp_all add: MEMORY_BITMAP_SIZE_def)
  then show "free_pages (page_state boot_machine) = {1024..<1344}" by (simp add: boot_machine_def)
  show "boot_space 257 258 boot_machine"
    using * by (auto simp: boot_space_def boot_machine_def region_inv_def)
qed

section \<open>Properties\<close>

text \<open>C6: \<open>mm_map_page\<close> maps exactly the page it is asked to map. In an address space that satisfies
  the invariant, for an address below the recursive window and a page-aligned physical address, it
  returns as soon as the page table exists or a page for it can be allocated; afterwards the
  processor translates every address of that page to the same offset in the physical page, allows
  writes to it only if the flags say so, and translates every other address as before; the
  invariant holds again, and \<open>mm_get_physaddr\<close> reports the new translation.\<close>

theorem mm_map_page_correct:
  assumes "space_inv m" and "v < 0xFFC00000" and "p AND 0xFFF = 0"
    and "pde m (drop_bit 22 v) \<noteq> 0 \<or> free_pages (page_state m) \<noteq> {}"
  shows "\<exists>m'. mm_map_page m p v fl = ret m' \<and> space_inv m' \<and>
    (\<forall>w < 0xFFC00000. translate m' w =
      (if drop_bit 12 w = drop_bit 12 v then Some (p OR (w AND 0xFFF)) else translate m w)) \<and>
    (\<forall>w < 0xFFC00000. drop_bit 12 w = drop_bit 12 v \<longrightarrow> (walk m' True w \<noteq> None) = bit fl 1) \<and>
    mm_get_physaddr m' v = ret (p OR (v AND 0xFFF))"
proof -
  have below: "drop_bit 22 w < 1023" if "w < 0xFFC00000" for w :: u32
    using that by (simp only: word_less_nat_alt unat_drop) (simp add: less_mult_imp_div_less)
  have p: "push_bit 12 (drop_bit 12 p) = p"
  proof (rule bit_word_eqI)
    fix n
    show "bit (push_bit 12 (drop_bit 12 p)) n = bit p n"
      using aligned_bits [OF assms(3), of n]
      by (cases "n < 12") (auto simp: bit_simps dest: bit_imp_le_length)
  qed
  show ?thesis
  proof (rule map_page [OF assms(1) below [OF assms(2)] assms(3,4), where fl = fl], goal_cases)
    case (1 m')
    have tr: "translate m' w = (if drop_bit 12 w = drop_bit 12 v then Some (p OR (w AND 0xFFF)) else translate m w)"
      if "w < 0xFFC00000" for w
      using "1"(6) [OF below [OF that]] p by (auto simp: translate_def)
    have "mm_get_physaddr m' v = ret (p OR (v AND 0xFFF))"
      using tr [OF assms(2)] get_physaddr [OF "1"(2) below [OF assms(2)]] by simp
    with 1 tr show ?thesis using below by auto
  qed
qed

theorem mm_map_page_correct_witness:
  "\<exists>m'. mm_map_page empty_space 0x5000 0x40001000 3 = ret m' \<and> space_inv m' \<and>
    translate m' 0x40001234 = Some 0x5234 \<and> translate m' 0x40002000 = translate empty_space 0x40002000"
proof -
  have "free_pages (page_state empty_space) \<noteq> {}" using boot_free by (simp add: empty_space_def)
  then obtain m' where "mm_map_page empty_space 0x5000 0x40001000 3 = ret m'" "space_inv m'"
    "\<forall>w < 0xFFC00000. translate m' w = (if drop_bit 12 w = drop_bit 12 (0x40001000 :: u32)
        then Some (0x5000 OR (w AND 0xFFF)) else translate empty_space w)"
    using mm_map_page_correct [OF empty_space_inv, of "0x40001000" "0x5000" 3] by auto
  then show ?thesis by auto
qed

text \<open>C7: \<open>paging_earlyinit\<close> switches from the boot page tables to an address space that satisfies the
  invariant. With the kernel inside the first 4 MiB window and at least 257 free pages it returns;
  then every kernel page up to and including the page of \<open>_kernel_end\<close> is mapped at \<open>0xC0000000\<close>
  plus its physical address and nothing else below the recursive window is mapped, the old page
  directory is read-only, all other kernel pages are writable, and every directory entry of the
  kernel's quarter has a page table.\<close>

theorem paging_earlyinit_correct:
  assumes "boot_space kd kt m" and "ks \<le> ke" and "ke < 1024" and "kd \<le> ke"
    and "card (free_pages (page_state m)) \<ge> 257"
  shows "\<exists>m'. paging_earlyinit (window kd) (window kt) (window ks) (window ke) m = ret m' \<and> space_inv m' \<and>
    (\<forall>i. 768 \<le> i \<longrightarrow> i < 1024 \<longrightarrow> pde m' i \<noteq> 0) \<and>
    (\<forall>w < 0xFFC00000. translate m' w =
      (if drop_bit 22 w = 768 \<and> drop_bit 12 w AND 0x3FF \<le> ke then Some (w - 0xC0000000) else None)) \<and>
    (\<forall>w < 0xFFC00000. walk m' True w =
      (if drop_bit 12 w AND 0x3FF = kd then None else walk m' False w))"
proof -
  obtain m' where m': "paging_earlyinit (window kd) (window kt) (window ks) (window ke) m = ret m'" "space_inv m'"
    "\<forall>i. 768 \<le> i \<longrightarrow> i < 1024 \<longrightarrow> pde m' i \<noteq> 0"
    and walk: "\<forall>w wr. drop_bit 22 w < 1023 \<longrightarrow> walk m' wr w =
      (if drop_bit 22 w \<noteq> 768 then None
       else if drop_bit 12 w AND 0x3FF = kd then (if wr then None else Some kd)
       else if drop_bit 12 w AND 0x3FF \<le> ke then Some (drop_bit 12 w AND 0x3FF) else None)"
    using earlyinit_runs [OF assms(1,2,3,5)] by blast
  with window_mapped [OF walk assms(4)] show ?thesis by (intro exI [of _ m']) auto
qed

theorem paging_earlyinit_correct_witness:
  "\<exists>m'. paging_earlyinit (window 257) (window 258) (window 256) (window 300) boot_machine = ret m' \<and>
    translate m' 0xC0105432 = Some 0x105432 \<and> translate m' 0xC0200000 = None \<and>
    walk m' True 0xC0101000 = None \<and> walk m' True 0xC0105432 \<noteq> None"
proof -
  obtain m' where "paging_earlyinit (window 257) (window 258) (window 256) (window 300) boot_machine = ret m'"
    and t: "\<forall>w < 0xFFC00000. translate m' w =
      (if drop_bit 22 w = 768 \<and> drop_bit 12 w AND 0x3FF \<le> 300 then Some (w - 0xC0000000) else None)"
    and r: "\<forall>w < 0xFFC00000. walk m' True w = (if drop_bit 12 w AND 0x3FF = 257 then None else walk m' False w)"
    using paging_earlyinit_correct [OF boot_machine_space, of 256 300] boot_machine_free by auto
  moreover have "translate m' 0xC0105432 = Some 0x105432" "translate m' 0xC0200000 = None" using t by simp_all
  moreover from this have "walk m' False 0xC0105432 \<noteq> None" by (auto simp: translate_def)
  then have "walk m' True 0xC0101000 = None" "walk m' True 0xC0105432 \<noteq> None" using r by simp_all
  ultimately show ?thesis by blast
qed

end
