(* ===== verification/Mmio.thy ===== *)
theory Mmio
  imports Paging
begin

text \<open>
  The window for device memory (\<^verbatim>\<open>arch/i386/kernel/memory/mmio.c\<close>): \<open>mmio_map\<close> hands out consecutive
  ranges of kernel addresses and maps them page by page. What it relies on is stated as the
  locale \<open>address_space\<close>: mapping a kernel page succeeds, changes the translation of that page
  only, takes no page from the allocator and keeps the invariant; the page tables of \<^verbatim>\<open>Paging\<close> provide it. The spin lock and the
  interrupt flag it saves are not modelled: one call runs at a time.
\<close>

section \<open>The code\<close>

definition PAGE_SIZE :: u32 where
  "PAGE_SIZE = 4096"

record mmio_state =
  mmio_start :: u32
  mmio_limit :: u32
  mmio_ptr :: u32

definition mmio_init :: "mmio_state \<Rightarrow> mmio_state" where
  "mmio_init s = s\<lparr>mmio_start := 0xC0000000 + 0x20000000, mmio_limit := 0xFFC00000 - (4096 * 1024),
     mmio_ptr := 0xC0000000 + 0x20000000\<rparr>"

text \<open>The loop that maps the pages, for any \<open>map_page\<close>.\<close>

fun map_pages :: "('m \<Rightarrow> u32 \<Rightarrow> u32 \<Rightarrow> u32 \<Rightarrow> 'm run) \<Rightarrow> 'm \<Rightarrow> u32 \<Rightarrow> u32 \<Rightarrow> nat \<Rightarrow> 'm run" where
  "map_pages map_page m pa va 0 = ret m"
| "map_pages map_page m pa va (Suc n) =
     run_bind (map_page m pa va 0x03) (\<lambda>m. map_pages map_page m (pa + PAGE_SIZE) (va + PAGE_SIZE) n)"

text \<open>The size rounded up to whole pages: \<open>size += offset\<close> and the adjustment that follows.\<close>

definition mmio_size :: "u32 \<Rightarrow> u32 \<Rightarrow> u32" where
  "mmio_size phys_addr sz =
     (let offset = phys_addr mod PAGE_SIZE;
          sz = sz + offset
      in if sz mod PAGE_SIZE \<noteq> 0 then sz + (PAGE_SIZE - sz mod PAGE_SIZE) else sz)"

definition mmio_map :: "mmio_state \<Rightarrow> machine \<Rightarrow> u32 \<Rightarrow> u32 \<Rightarrow> (mmio_state \<times> machine \<times> u32) run" where
  "mmio_map s m phys_addr sz =
     (let offset = phys_addr mod PAGE_SIZE;
          address = phys_addr - offset;
          sz = mmio_size phys_addr sz;
          num_pages = sz div PAGE_SIZE
      in if mmio_ptr s + sz > mmio_limit s then ret (s, m, 0)
         else let virt_addr = mmio_ptr s;
                  s = s\<lparr>mmio_ptr := mmio_ptr s + sz\<rparr>
           in run_bind (map_pages mm_map_page m address virt_addr (unat num_pages)) (\<lambda>m.
              ret (s, m, virt_addr + offset)))"

definition mmio_unmap :: "mmio_state \<Rightarrow> machine \<Rightarrow> u32 \<Rightarrow> u32 \<Rightarrow> mmio_state \<times> machine" where
  "mmio_unmap s m phys_addr sz = (s, m)"

section \<open>What the device window needs of an address space\<close>

text \<open>\<open>offset_in n va w\<close>: the distance of \<open>w\<close> from \<open>va\<close> is below \<open>n\<close> pages.\<close>

definition within :: "u32 \<Rightarrow> nat \<Rightarrow> u32 \<Rightarrow> bool" where
  "within va n w \<longleftrightarrow> unat va \<le> unat w \<and> unat w < unat va + 4096 * n"

locale address_space =
  fixes map_page :: "'m \<Rightarrow> u32 \<Rightarrow> u32 \<Rightarrow> u32 \<Rightarrow> 'm run"
    and tr :: "'m \<Rightarrow> u32 \<Rightarrow> u32 option"
    and inv :: "'m \<Rightarrow> bool"
    and taken :: "'m \<Rightarrow> 'r"
    and lo hi :: nat
  assumes hi_bound: "hi < 2 ^ 32"
    and map_kernel_page: "inv m \<Longrightarrow> unat pa mod 4096 = 0 \<Longrightarrow> unat va mod 4096 = 0 \<Longrightarrow>
      lo \<le> unat va \<Longrightarrow> unat va < hi \<Longrightarrow>
      \<exists>m'. map_page m pa va fl = ret m' \<and> inv m' \<and> taken m' = taken m \<and>
        (\<forall>w. unat w < hi \<longrightarrow> tr m' w = (if within va 1 w then Some (pa + (w - va)) else tr m w))"
begin

lemma within_Suc:
  assumes "unat va + 4096 * Suc n \<le> hi"
  shows "within va (Suc n) w \<longleftrightarrow> within va 1 w \<or> within (va + PAGE_SIZE) n w"
    and "\<not> (within va 1 w \<and> within (va + PAGE_SIZE) n w)"
    and "unat (va + PAGE_SIZE) = unat va + 4096"
proof -
  have "unat va + 4096 < 2 ^ 32" using assms hi_bound by simp
  then show *: "unat (va + PAGE_SIZE) = unat va + 4096" by (simp add: PAGE_SIZE_def unat_word_ariths)
  show "within va (Suc n) w \<longleftrightarrow> within va 1 w \<or> within (va + PAGE_SIZE) n w"
    "\<not> (within va 1 w \<and> within (va + PAGE_SIZE) n w)"
    by (auto simp: within_def *)
qed

text \<open>Mapping \<open>n\<close> pages in a row maps the whole range linearly and nothing else.\<close>

lemma map_pages_linear:
  assumes "inv m" and "unat pa mod 4096 = 0" and "unat va mod 4096 = 0" and "lo \<le> unat va"
    and "unat va + 4096 * n \<le> hi"
  shows "\<exists>m'. map_pages map_page m pa va n = ret m' \<and> inv m' \<and> taken m' = taken m \<and>
    (\<forall>w. unat w < hi \<longrightarrow> tr m' w = (if within va n w then Some (pa + (w - va)) else tr m w))"
  using assms
proof (induction n arbitrary: m pa va)
  case 0
  then show ?case by (auto simp: within_def)
next
  case (Suc n)
  note split = within_Suc [OF Suc.prems(5)]
  have "unat va < hi" using Suc.prems(5) by simp
  then obtain m1 where m1: "map_page m pa va 3 = ret m1" "inv m1" "taken m1 = taken m"
      "\<forall>w. unat w < hi \<longrightarrow> tr m1 w = (if within va 1 w then Some (pa + (w - va)) else tr m w)"
    using map_kernel_page [OF Suc.prems(1-4)] by blast
  have pa: "unat (pa + PAGE_SIZE) mod 4096 = 0"
    using Suc.prems(2) by (simp add: PAGE_SIZE_def unat_word_ariths mod_mod_cancel mod_add_eq)
  have va: "unat (va + PAGE_SIZE) mod 4096 = 0" "lo \<le> unat (va + PAGE_SIZE)" "unat (va + PAGE_SIZE) + 4096 * n \<le> hi"
    using Suc.prems(3-5) split(3) by simp_all
  from Suc.IH [OF m1(2) pa va] obtain m' where "map_pages map_page m1 (pa + PAGE_SIZE) (va + PAGE_SIZE) n = ret m'" "inv m'" "taken m' = taken m1"
      "\<forall>w. unat w < hi \<longrightarrow> tr m' w = (if within (va + PAGE_SIZE) n w
        then Some (pa + PAGE_SIZE + (w - (va + PAGE_SIZE))) else tr m1 w)"
    by blast
  with m1 split(1,2) show ?case by (intro exI [of _ m']) auto
qed

end

section \<open>The page tables provide it\<close>

definition kernel_space :: "machine \<Rightarrow> bool" where
  "kernel_space m \<longleftrightarrow> space_inv m \<and> (\<forall>i. 768 \<le> i \<longrightarrow> i < 1024 \<longrightarrow> pde m i \<noteq> 0)"

lemma aligned_unat: "unat (a :: u32) mod 4096 = 0 \<longleftrightarrow> a AND 0xFFF = 0"
  by (simp only: word_unat_eq_iff unat_and_mask) simp

lemma within_page:
  assumes "unat va mod 4096 = 0"
  shows "within va 1 w \<longleftrightarrow> drop_bit 12 w = drop_bit 12 va"
    and "within va 1 w \<Longrightarrow> w - va = w AND 0xFFF"
proof -
  from assms obtain q where q: "unat va = 4096 * q" by auto
  have "drop_bit 12 w = drop_bit 12 va \<longleftrightarrow> unat w div 4096 = q"
    by (simp only: word_unat_eq_iff unat_drop q) simp
  also have "\<dots> \<longleftrightarrow> within va 1 w"
    using div_mult_mod_eq [of "unat w" 4096] mod_less_divisor [of 4096 "unat w"]
    by (auto simp: within_def q div_nat_eqI)
  finally show "within va 1 w \<longleftrightarrow> drop_bit 12 w = drop_bit 12 va" by simp
  show "w - va = w AND 0xFFF" if "within va 1 w"
  proof -
    have "va \<le> w" using that by (simp add: within_def word_le_nat_alt)
    then have "unat (w - va) = unat w - 4096 * q" by (simp add: unat_sub q)
    also have "\<dots> = unat w mod 4096"
    proof -
      have "unat w div 4096 = q" using that by (intro div_nat_eqI) (auto simp: within_def q)
      then show ?thesis by (simp add: minus_mult_div_eq_mod [symmetric])
    qed
    finally show ?thesis by (intro word_unat_eq_iff [THEN iffD2]) (simp only: unat_and_mask)
  qed
qed

lemma aligned_or: "p AND 0xFFF = (0 :: u32) \<Longrightarrow> p OR (w AND 0xFFF) = p + (w AND 0xFFF)"
proof -
  assume "p AND 0xFFF = 0"
  moreover have "p AND (w AND 0xFFF) = (p AND 0xFFF) AND w" by (simp only: ac_simps)
  ultimately have "p AND (w AND 0xFFF) = 0" by simp
  then show ?thesis by (simp only: disjunctive_add_eq_or)
qed

lemma map_kernel_page:
  assumes m: "kernel_space m" and pa: "unat pa mod 4096 = 0" and va: "unat va mod 4096 = 0"
    and range: "0xC0000000 \<le> unat va" "unat va < 0xFFC00000"
  shows "\<exists>m'. mm_map_page m pa va fl = ret m' \<and> kernel_space m' \<and> page_state m' = page_state m \<and>
    (\<forall>w. unat w < 0xFFC00000 \<longrightarrow> translate m' w = (if within va 1 w then Some (pa + (w - va)) else translate m w))"
proof -
  have inv: "space_inv m" using m by (simp add: kernel_space_def)
  have low: "drop_bit 22 w < 1023" if "unat w < 0xFFC00000" for w :: u32
    using that by (simp only: word_less_nat_alt unat_drop) (simp add: less_mult_imp_div_less)
  have "768 \<le> drop_bit 22 va" using range(1)
    by (simp only: word_le_nat_alt unat_drop) (simp add: less_eq_div_iff_mult_less_eq)
  moreover have "drop_bit 22 va < 1024" using low [OF range(2)] by (simp add: word_less_nat_alt)
  ultimately have nz: "pde m (drop_bit 22 va) \<noteq> 0" using m by (simp add: kernel_space_def)
  then have room: "pde m (drop_bit 22 va) \<noteq> 0 \<or> free_pages (page_state m) \<noteq> {}" ..
  have p: "pa AND 0xFFF = 0" using pa by (simp only: aligned_unat)
  have pp: "push_bit 12 (drop_bit 12 pa) = pa"
    by (rule bit_word_eqI) (metis aligned_bits [OF p] bit_drop_bit_eq bit_push_bit_iff comp_apply
        le_add_diff_inverse linorder_not_less possible_bit_word)
  show ?thesis
  proof (rule map_page [OF inv low [OF range(2)] p room, where fl = fl], goal_cases)
    case (1 m')
    have "translate m' w = (if within va 1 w then Some (pa + (w - va)) else translate m w)"
      if "unat w < 0xFFC00000" for w
      using "1"(6) [OF low [OF that], of False] pp within_page [OF va, of w] aligned_or [OF p, of w]
      by (auto simp: translate_def)
    moreover have "kernel_space m'" using m "1"(2,4) by (auto simp: kernel_space_def)
    ultimately show ?thesis using "1"(1,5) nz by blast
  qed
qed

interpretation ks: address_space mm_map_page translate kernel_space page_state "0xC0000000" "0xFFC00000"
  by unfold_locales ((rule map_kernel_page; assumption) | simp)+

section \<open>The window\<close>

definition mmio_ok :: "mmio_state \<Rightarrow> bool" where
  "mmio_ok s \<longleftrightarrow> mmio_limit s = 0xFF800000 \<and> 0xE0000000 \<le> unat (mmio_ptr s) \<and>
     mmio_ptr s \<le> mmio_limit s \<and> unat (mmio_ptr s) mod 4096 = 0"

text \<open>\<open>n\<close> bytes rounded up to whole pages.\<close>

definition page_round :: "nat \<Rightarrow> nat" where
  "page_round n = 4096 * ((n + 4095) div 4096)"

lemma mmio_size_round:
  assumes "unat pa mod 4096 + unat sz + 4095 < 2 ^ 32"
  shows "unat (mmio_size pa sz) = page_round (unat pa mod 4096 + unat sz)"
proof -
  let ?n = "unat pa mod 4096 + unat sz"
  have m: "unat (w mod PAGE_SIZE) = unat w mod 4096" for w :: u32 by (simp add: PAGE_SIZE_def unat_mod)
  have n: "unat (sz + pa mod PAGE_SIZE) = ?n"
  proof -
    have "unat sz + unat (pa mod PAGE_SIZE) < 2 ^ LENGTH(32)" using assms m [of pa] by simp
    then show ?thesis unfolding unat_add_small [OF \<open>unat sz + _ < _\<close>] by (simp add: m)
  qed
  have ge: "w mod PAGE_SIZE \<le> PAGE_SIZE" for w :: u32
    using mod_less_divisor [of 4096 "unat w"] by (simp add: word_le_nat_alt m) (simp add: PAGE_SIZE_def)
  have up: "unat (PAGE_SIZE - w mod PAGE_SIZE) = 4096 - unat w mod 4096" for w :: u32
    using ge [of w] by (simp add: unat_sub m) (simp add: PAGE_SIZE_def)
  have r: "page_round ?n = (if ?n mod 4096 \<noteq> 0 then ?n + (4096 - ?n mod 4096) else ?n)"
  proof -
    define q r where "q = ?n div 4096" and "r = ?n mod 4096"
    have n: "?n = 4096 * q + r" "r < 4096" by (simp_all add: q_def r_def)
    then have "(?n + 4095) div 4096 = (if r = 0 then q else q + 1)" by (auto intro!: div_nat_eqI)
    then show ?thesis using n by (simp add: page_round_def r_def [symmetric])
  qed
  have zero: "(sz + pa mod PAGE_SIZE) mod PAGE_SIZE = 0 \<longleftrightarrow> ?n mod 4096 = 0"
    by (simp add: word_unat_eq_iff m n)
  show ?thesis
  proof (cases "?n mod 4096 = 0")
    case True
    then show ?thesis unfolding mmio_size_def Let_def r using zero n by simp
  next
    case False
    let ?w = "sz + pa mod PAGE_SIZE"
    have "?n + (4096 - ?n mod 4096) < 2 ^ 32" using assms False by linarith
    then have "unat (?w + (PAGE_SIZE - ?w mod PAGE_SIZE)) = ?n + (4096 - ?n mod 4096)"
      using up [of ?w] n by (subst unat_add_small) simp_all
    then show ?thesis unfolding mmio_size_def Let_def r using False zero by simp
  qed
qed

section \<open>A request\<close>

lemma mmio_map_run:
  assumes "kernel_space m" and "mmio_ok s" and "unat (mmio_ptr s) + unat sz + 8192 \<le> 2 ^ 32"
  shows "\<exists>s' m' v. mmio_map s m pa sz = ret (s', m', v) \<and> kernel_space m' \<and> page_state m' = page_state m \<and> mmio_ok s' \<and>
    (let n = page_round (unat pa mod 4096 + unat sz) in
     if unat (mmio_ptr s) + n \<le> 0xFF800000
     then unat v = unat (mmio_ptr s) + unat pa mod 4096 \<and> unat (mmio_ptr s') = unat (mmio_ptr s) + n \<and>
       (\<forall>k < unat sz. translate m' (v + of_nat k) = Some (pa + of_nat k)) \<and>
       (\<forall>w. unat w < 0xFFC00000 \<longrightarrow> unat w < unat (mmio_ptr s) \<or> unat (mmio_ptr s') \<le> unat w \<longrightarrow>
          translate m' w = translate m w)
     else s' = s \<and> m' = m \<and> v = 0)"
proof -
  define ofs n where "ofs = unat pa mod 4096" and "n = page_round (ofs + unat sz)"
  let ?p = "mmio_ptr s" and ?n = "mmio_size pa sz"
  have ptr: "mmio_limit s = 0xFF800000" "0xE0000000 \<le> unat ?p" "?p \<le> mmio_limit s" "unat ?p mod 4096 = 0"
    using assms(2) by (auto simp: mmio_ok_def)
  have ofs: "ofs < 4096" by (simp add: ofs_def)
  have "ofs + unat sz + 4095 < 2 ^ 32" using assms(3) ofs ptr(2) by linarith
  then have n: "unat ?n = n" using mmio_size_round [of pa sz] by (simp add: ofs_def n_def)
  have bounds: "ofs + unat sz \<le> n" "n < ofs + unat sz + 4096" "n mod 4096 = 0"
  proof -
    have "4096 * (x div 4096) + x mod 4096 = x" "x mod 4096 < 4096" for x :: nat by simp_all
    from this [of "ofs + unat sz + 4095"] show "ofs + unat sz \<le> n" "n < ofs + unat sz + 4096" "n mod 4096 = 0"
      by (simp_all add: n_def page_round_def)
  qed
  have sum: "unat (?p + ?n) = unat ?p + n"
    using assms(3) bounds ofs n by (subst unat_add_small) simp_all
  have fits: "?p + ?n > mmio_limit s \<longleftrightarrow> \<not> unat ?p + n \<le> 0xFF800000"
    by (simp add: word_less_nat_alt sum ptr(1) not_le)
  have off: "unat (pa mod PAGE_SIZE) = ofs" by (simp add: PAGE_SIZE_def unat_mod ofs_def)
  show ?thesis
  proof (cases "unat ?p + n \<le> 0xFF800000")
    case False
    then have "mmio_map s m pa sz = ret (s, m, 0)" using fits by (simp add: mmio_map_def Let_def)
    with assms False show ?thesis by (simp add: ofs_def [symmetric] n_def [symmetric])
  next
    case True
    let ?a = "pa - pa mod PAGE_SIZE" and ?s = "s\<lparr>mmio_ptr := ?p + ?n\<rparr>" and ?v = "?p + pa mod PAGE_SIZE"
    have num: "4096 * unat (?n div PAGE_SIZE) = n"
      using bounds(3) n by (auto simp: unat_div PAGE_SIZE_def)
    have "pa mod PAGE_SIZE \<le> pa" by (simp add: word_le_nat_alt off ofs_def)
    then have "unat ?a = unat pa - unat pa mod 4096" by (simp only: unat_sub off ofs_def)
    then have a: "unat ?a mod 4096 = 0" by (simp only: minus_mod_eq_mult_div) simp
    have "unat ?p + 4096 * unat (?n div PAGE_SIZE) \<le> 0xFFC00000" using num True by simp
    then obtain m' where m': "map_pages mm_map_page m ?a ?p (unat (?n div PAGE_SIZE)) = ret m'" "kernel_space m'"
        "\<forall>w. unat w < 0xFFC00000 \<longrightarrow> translate m' w =
          (if within ?p (unat (?n div PAGE_SIZE)) w then Some (?a + (w - ?p)) else translate m w)"
        "page_state m' = page_state m"
      using ks.map_pages_linear [OF assms(1) a ptr(4)] ptr(2) by auto
    have win: "within ?p (unat (?n div PAGE_SIZE)) w \<longleftrightarrow> unat ?p \<le> unat w \<and> unat w < unat ?p + n" for w
      using num by (simp add: within_def)
    have v: "unat ?v = unat ?p + ofs"
      using ofs True off by (subst unat_add_small) simp_all
    have "translate m' (?v + of_nat k) = Some (pa + of_nat k)" if k: "k < unat sz" for k
    proof -
      have "unat (of_nat k :: u32) = k" using k unat_u32 [of sz] by (intro unat_of_nat_small) simp
      then have w: "unat (?v + of_nat k) = unat ?p + ofs + k"
        using k bounds True v by (subst unat_add_small) simp_all
      then have "unat (?v + of_nat k) < 0xFFC00000" using k bounds True by simp
      moreover have "within ?p (unat (?n div PAGE_SIZE)) (?v + of_nat k)" using w k bounds win by simp
      moreover have "?a + (?v + of_nat k - ?p) = pa + of_nat k" by simp
      ultimately show ?thesis using m'(3) by simp
    qed
    moreover have "mmio_map s m pa sz = ret (?s, m', ?v)"
      using True fits m'(1) by (simp add: mmio_map_def Let_def)
    moreover have "mmio_ok ?s"
      using ptr bounds(3) True sum by (auto simp: mmio_ok_def word_le_nat_alt)
    ultimately show ?thesis
      using True m' win sum v by (intro exI [of _ ?s] exI [of _ m'] exI [of _ ?v])
        (auto simp: ofs_def [symmetric] n_def [symmetric])
  qed
qed

section \<open>Properties\<close>

text \<open>C8: \<open>mmio_map\<close> hands out a range of the device window and maps it. The window is the one \<^verbatim>\<open>mmio_init\<close> sets up,
  from \<^verbatim>\<open>0xE0000000\<close> to \<^verbatim>\<open>0xFF800000\<close>; the file \<^verbatim>\<open>src/kernel_address_space\<close> describes another one, \<^verbatim>\<open>0xE4000000\<close> to
  \<^verbatim>\<open>0xFFC00000\<close>, with the kernel stacks below it, and the code does not follow it at either end. The sums of the
  function must not wrap around: the pointer into the window plus the requested size plus two pages is at most \<open>2^32\<close>,
  which the limit check of the code does not ensure. Then a request that fits the window returns an address that carries the offset of the physical address
  in its page, every byte of the request is translated to the corresponding byte of the device,
  addresses outside the range handed out are translated as before, and the window shrinks by the
  rounded size, so that later requests get disjoint ranges; a request that does not fit returns
  \<open>NULL\<close> and changes nothing.\<close>

theorem mmio_map_correct:
  assumes "kernel_space m" and "mmio_ok s" and "unat (mmio_ptr s) + unat sz + 8192 \<le> 2 ^ 32"
  shows "\<exists>s' m' v. mmio_map s m pa sz = ret (s', m', v) \<and> kernel_space m' \<and> mmio_ok s' \<and>
    (let n = page_round (unat pa mod 4096 + unat sz) in
     if unat (mmio_ptr s) + n \<le> 0xFF800000
     then unat v = unat (mmio_ptr s) + unat pa mod 4096 \<and> unat (mmio_ptr s') = unat (mmio_ptr s) + n \<and>
       (\<forall>k < unat sz. translate m' (v + of_nat k) = Some (pa + of_nat k)) \<and>
       (\<forall>w. unat w < 0xFFC00000 \<longrightarrow> unat w < unat (mmio_ptr s) \<or> unat (mmio_ptr s') \<le> unat w \<longrightarrow>
          translate m' w = translate m w)
     else s' = s \<and> m' = m \<and> v = 0)"
  using mmio_map_run [OF assms] by blast

theorem mmio_map_correct_witness:
  "\<exists>m s' m' v. paging_earlyinit (window 257) (window 258) (window 256) (window 300) boot_machine = ret m \<and>
    mmio_map (mmio_init \<lparr>mmio_start = 0, mmio_limit = 0, mmio_ptr = 0\<rparr>) m 0xFEBC0123 0x20 = ret (s', m', v) \<and>
    v = 0xE0000123 \<and> mmio_ptr s' = 0xE0001000 \<and> translate m' 0xE0000142 = Some 0xFEBC0142"
proof -
  let ?s = "mmio_init \<lparr>mmio_start = 0, mmio_limit = 0, mmio_ptr = 0\<rparr>"
  obtain m where m: "paging_earlyinit (window 257) (window 258) (window 256) (window 300) boot_machine = ret m" "kernel_space m"
    using earlyinit_runs [OF boot_machine_space, of 256 300] boot_machine_free by (auto simp: kernel_space_def)
  have "mmio_ok ?s" by (simp add: mmio_ok_def mmio_init_def)
  from mmio_map_correct [OF m(2) this, of "0x20" "0xFEBC0123"] obtain s' m' v where
    r: "mmio_map ?s m 0xFEBC0123 0x20 = ret (s', m', v)" "unat v = unat (mmio_ptr ?s) + 0x123"
      "unat (mmio_ptr s') = unat (mmio_ptr ?s) + 4096"
      "\<forall>k < 0x20. translate m' (v + of_nat k) = Some (0xFEBC0123 + of_nat k)"
    by (auto simp: mmio_init_def page_round_def)
  then have "v = 0xE0000123" "mmio_ptr s' = 0xE0001000" by (simp_all add: word_unat_eq_iff mmio_init_def)
  moreover from this r(4) [rule_format, of 31] have "translate m' 0xE0000142 = Some 0xFEBC0142" by simp
  ultimately show ?thesis using m r by blast
qed

end
