(* ===== verification/Malloc.thy ===== *)
theory Malloc
  imports Mmio
begin

text \<open>
  The kernel heap (\<^verbatim>\<open>libc/stdlib/malloc.c\<close> as built into the kernel, with \<^verbatim>\<open>CONFIG_DEBUG_MALLOC\<close>):
  blocks with a 12-byte header (next, size, checksum) padded to 16 bytes, a free list threaded
  through the headers of the free blocks, and a bump pointer that grows page by page. Memory
  contents are kept per byte of the virtual address space, because the code can write headers at
  unaligned addresses; an access to a header that the page tables do not map is a page fault, and that
  the addresses of the heap are mapped is part of the invariant. The two spin locks are not modelled. The lemmas show the bump allocator correct, and what the free-list
  code does on the blocks it finds.
\<close>

section \<open>The code\<close>

record heap =
  heap_start :: u32
  heap_end :: u32
  kernel_heap :: u32
  free_list :: u32
  hmem :: mem
  mach :: machine

text \<open>The fields of a \<open>malloc_freelist_t\<close> at address \<open>p\<close>.\<close>

definition fl_next :: "heap \<Rightarrow> u32 \<Rightarrow> u32" where
  "fl_next h p = ld32 (hmem h) p"

definition fl_size :: "heap \<Rightarrow> u32 \<Rightarrow> u32" where
  "fl_size h p = ld32 (hmem h) (p + 4)"

definition fl_checksum :: "heap \<Rightarrow> u32 \<Rightarrow> u32" where
  "fl_checksum h p = ld32 (hmem h) (p + 8)"

definition set_next :: "u32 \<Rightarrow> u32 \<Rightarrow> heap \<Rightarrow> heap" where
  "set_next p v h = h\<lparr>hmem := st32 (hmem h) p v\<rparr>"

definition set_size :: "u32 \<Rightarrow> u32 \<Rightarrow> heap \<Rightarrow> heap" where
  "set_size p v h = h\<lparr>hmem := st32 (hmem h) (p + 4) v\<rparr>"

definition set_checksum :: "u32 \<Rightarrow> u32 \<Rightarrow> heap \<Rightarrow> heap" where
  "set_checksum p v h = h\<lparr>hmem := st32 (hmem h) (p + 8) v\<rparr>"

text \<open>Access to the \<open>n\<close> bytes at \<open>p\<close>.\<close>

definition mapped :: "heap \<Rightarrow> u32 \<Rightarrow> nat \<Rightarrow> bool" where
  "mapped h p n \<longleftrightarrow> list_all (\<lambda>k. translate (mach h) (p + of_nat k) \<noteq> None) [0..<n]"

definition touch :: "heap \<Rightarrow> u32 \<Rightarrow> nat \<Rightarrow> 'a run \<Rightarrow> 'a run" where
  "touch h p n k = (if mapped h p n then k else goes_wrong Page_fault)"

definition COMPUTE_CHECKSUM :: "heap \<Rightarrow> u32 \<Rightarrow> u32" where
  "COMPUTE_CHECKSUM h p = fl_next h p XOR fl_size h p"

definition MALLOC_ALIGN_BYTES :: u32 where
  "MALLOC_ALIGN_BYTES = 16"

text \<open>The rounding both functions apply to \<open>sizeof (malloc_freelist_t)\<close> and to the request.\<close>

definition align_bytes :: "u32 \<Rightarrow> u32" where
  "align_bytes n = (if n mod MALLOC_ALIGN_BYTES \<noteq> 0
     then n + (MALLOC_ALIGN_BYTES - n mod MALLOC_ALIGN_BYTES) else n)"

definition header_size :: u32 where
  "header_size = align_bytes 12"

definition malloc_init :: "u32 \<Rightarrow> heap \<Rightarrow> heap" where
  "malloc_init kernel_end h =
     (let hs = (if kernel_end mod PAGE_SIZE \<noteq> 0 then kernel_end + (PAGE_SIZE - kernel_end mod PAGE_SIZE) else kernel_end)
      in h\<lparr>heap_start := hs, heap_end := hs, kernel_heap := hs, free_list := 0\<rparr>)"

text \<open>The flag is \<open>True\<close> when the C function returns 0.\<close>

definition heap_grow :: "heap \<Rightarrow> (heap \<times> bool) run" where
  "heap_grow h = run_bind (alloc_frame (mach h)) (\<lambda>(m, r). case r of
     None \<Rightarrow> ret (h\<lparr>mach := m\<rparr>, False)
   | Some pg \<Rightarrow> run_bind (mm_map_page m (push_bit 12 pg) (heap_end h) 0x03) (\<lambda>m.
       ret (h\<lparr>mach := m, heap_end := heap_end h + PAGE_SIZE\<rparr>, True)))"

partial_function (option) grow_loop :: "heap \<Rightarrow> u32 \<Rightarrow> (heap \<times> bool) run" where
  "grow_loop h sz =
     (if heap_end h - kernel_heap h < sz then
        run_bind (heap_grow h) (\<lambda>r. if snd r then grow_loop (fst r) sz else ret (fst r, False))
      else ret (h, True))"

text \<open>The body of the search loop when a block is large enough.\<close>

definition take_block :: "heap \<Rightarrow> u32 \<Rightarrow> u32 \<Rightarrow> u32 \<Rightarrow> (heap \<times> u32) run" where
  "take_block h n prev fl =
     (let sz = fl_size h fl XOR 0xF
      in touch h fl 12
        (if sz - n > 16 then
           (let nxt = fl + sz
            in touch h nxt 8
              (let h = set_next nxt (fl_next h fl) h;
                   h = set_size nxt (sz - n - MALLOC_ALIGN_BYTES) h;
                   h = set_size fl n h;
                   h = set_checksum fl (COMPUTE_CHECKSUM h fl) h;
                   h = (if prev \<noteq> 0 then set_next prev nxt h else h\<lparr>free_list := nxt\<rparr>)
               in ret (h, fl + header_size)))
         else
           (let h = (if prev \<noteq> 0 then set_next prev (fl_next h fl) h else h);
                h = set_size fl n h;
                h = set_checksum fl (COMPUTE_CHECKSUM h fl) h
            in ret (h, fl + header_size))))"

text \<open>Every round reads the fields \<open>size\<close> and \<open>next\<close> of a block; those of \<open>prev\<close> were read the round before.\<close>

partial_function (option) malloc_search :: "heap \<Rightarrow> u32 \<Rightarrow> u32 \<Rightarrow> u32 \<Rightarrow> (heap \<times> u32 option) run" where
  "malloc_search h n prev fl =
     (if fl \<noteq> 0 then
        (if \<not> mapped h fl 8 then goes_wrong Page_fault
         else if fl_size h fl XOR 0xF \<ge> n then run_bind (take_block h n prev fl) (\<lambda>(h, p). ret (h, Some p))
         else malloc_search h n fl (fl_next h fl))
      else ret (h, None))"

text \<open>The block cut from the end of the used heap.\<close>

definition carve_block :: "heap \<Rightarrow> u32 \<Rightarrow> heap \<times> u32" where
  "carve_block h n =
     (let fl = kernel_heap h;
          h = h\<lparr>kernel_heap := kernel_heap h + (header_size + n)\<rparr>;
          h = set_next fl 0 h;
          h = set_size fl n h;
          h = set_checksum fl (COMPUTE_CHECKSUM h fl) h
      in (h, fl + header_size))"

definition malloc :: "heap \<Rightarrow> u32 \<Rightarrow> (heap \<times> u32) run" where
  "malloc h num_bytes =
     (let n = align_bytes num_bytes
      in run_bind (malloc_search h n 0 (free_list h)) (\<lambda>(h, found). case found of
           Some p \<Rightarrow> ret (h, p)
         | None \<Rightarrow> run_bind (grow_loop h (header_size + n)) (\<lambda>(h, ok).
             if ok then touch h (kernel_heap h) 12 (ret (carve_block h n)) else ret (h, 0))))"

partial_function (option) free_loop :: "heap \<Rightarrow> u32 \<Rightarrow> u32 \<Rightarrow> u32 \<Rightarrow> heap run" where
  "free_loop h fl prev other =
     (if other \<noteq> 0 then
        (if \<not> mapped h (other + 4) 4 then goes_wrong Page_fault
         else
          (let fl_end = fl + fl_size h fl + header_size;
               other_end = other + fl_size h other + header_size
           in if fl_end = other then
                touch h other 4
                 (let h' = set_size fl (fl_size h fl + (header_size + fl_size h other)) h;
                      h' = set_next fl (fl_next h' other) h'
                  in ret (if prev = 0 then h'\<lparr>free_list := fl\<rparr> else set_next prev fl h'))
              else if fl = other_end then
                ret (set_size other (fl_size h other + (header_size + fl_size h fl)) h)
              else if \<not> mapped h other 4 then goes_wrong Page_fault
              else free_loop h fl other (fl_next h other)))
      else
        (let h = set_next fl (free_list h) h
         in ret (h\<lparr>free_list := fl\<rparr>)))"

definition free_c :: "heap \<Rightarrow> u32 \<Rightarrow> heap run" where
  "free_c h p =
     (let fl = p - header_size
      in touch h fl 12
        (if fl_checksum h fl \<noteq> COMPUTE_CHECKSUM h fl then
           goes_wrong (Panic ''free: Invalid checksum, memory corruption detected'')
         else if fl_size h fl AND 0xF \<noteq> 0 then ret h
         else free_loop h fl 0 (free_list h)))"

section \<open>Headers\<close>

lemma header_size [simp]: "header_size = 16"
  by (simp add: header_size_def align_bytes_def MALLOC_ALIGN_BYTES_def)

lemma set_sel [simp]:
  "heap_start (set_next p v h) = heap_start h" "heap_start (set_size p v h) = heap_start h" "heap_start (set_checksum p v h) = heap_start h"
  "heap_end (set_next p v h) = heap_end h" "heap_end (set_size p v h) = heap_end h" "heap_end (set_checksum p v h) = heap_end h"
  "kernel_heap (set_next p v h) = kernel_heap h" "kernel_heap (set_size p v h) = kernel_heap h" "kernel_heap (set_checksum p v h) = kernel_heap h"
  "free_list (set_next p v h) = free_list h" "free_list (set_size p v h) = free_list h" "free_list (set_checksum p v h) = free_list h"
  "mach (set_next p v h) = mach h" "mach (set_size p v h) = mach h" "mach (set_checksum p v h) = mach h"
  by (simp_all add: set_next_def set_size_def set_checksum_def)

lemma header_fields [simp]:
  "fl_next (set_next p v h) p = v" "fl_size (set_size p v h) p = v" "fl_checksum (set_checksum p v h) p = v"
  "fl_next (set_size p v h) p = fl_next h p" "fl_next (set_checksum p v h) p = fl_next h p"
  "fl_size (set_next p v h) p = fl_size h p" "fl_size (set_checksum p v h) p = fl_size h p"
  "fl_checksum (set_next p v h) p = fl_checksum h p" "fl_checksum (set_size p v h) p = fl_checksum h p"
  by (simp_all add: fl_next_def fl_size_def fl_checksum_def set_next_def set_size_def set_checksum_def ld_st_other)

lemma checksum_set [simp]: "COMPUTE_CHECKSUM (set_checksum p v h) p = COMPUTE_CHECKSUM h p"
  by (simp add: COMPUTE_CHECKSUM_def)

lemma fl_upd [simp]:
  "fl_next (h\<lparr>free_list := x\<rparr>) p = fl_next h p" "fl_size (h\<lparr>free_list := x\<rparr>) p = fl_size h p"
  "fl_next (h\<lparr>kernel_heap := x\<rparr>) p = fl_next h p" "fl_size (h\<lparr>kernel_heap := x\<rparr>) p = fl_size h p"
  by (simp_all add: fl_next_def fl_size_def)

lemma mapped_cong: "mach h' = mach h \<Longrightarrow> mapped h' p n = mapped h p n"
  by (simp add: mapped_def)

lemma touch_mapped [simp]: "mapped h p n \<Longrightarrow> touch h p n k = k"
  by (simp add: touch_def)

section \<open>Growing the heap\<close>

definition pages_left :: "heap \<Rightarrow> nat set" where
  "pages_left h = free_pages (page_state (mach h))"

definition in_heap :: "heap \<Rightarrow> u32 \<Rightarrow> bool" where
  "in_heap h a \<longleftrightarrow> unat (heap_start h) \<le> unat a \<and> unat a < unat (heap_end h)"

text \<open>Every byte of the heap is backed by a byte of physical memory of its own, in a page that
  the page allocator has given away.\<close>

definition heap_backed :: "heap \<Rightarrow> bool" where
  "heap_backed h \<longleftrightarrow> (\<forall>a. in_heap h a \<longrightarrow> (\<exists>b. translate (mach h) a = Some b \<and> unat b div 4096 \<notin> pages_left h)) \<and>
     (\<forall>a a'. in_heap h a \<longrightarrow> in_heap h a' \<longrightarrow> translate (mach h) a = translate (mach h) a' \<longrightarrow> a = a')"

definition heap_inv :: "heap \<Rightarrow> bool" where
  "heap_inv h \<longleftrightarrow> kernel_space (mach h) \<and> heap_backed h \<and>
     unat (heap_end h) mod 4096 = 0 \<and> unat (kernel_heap h) mod 16 = 0 \<and>
     0xC0000000 \<le> unat (heap_start h) \<and> heap_start h \<le> kernel_heap h \<and> kernel_heap h \<le> heap_end h \<and>
     unat (heap_end h) + 4096 * card (pages_left h) \<le> 0xE0000000"

text \<open>What lies in the heap can be accessed.\<close>

lemma mapped_in_heap:
  assumes "heap_inv h" and "unat (heap_start h) \<le> unat p" and "unat p + n \<le> unat (heap_end h)"
  shows "mapped h p n"
proof -
  have "translate (mach h) (p + of_nat k) \<noteq> None" if k: "k < n" for k
  proof -
    have n: "n < 2 ^ 32" using assms(3) unat_u32 [of "heap_end h"] by simp
    then have "unat (of_nat k :: u32) = k" using k by (intro unat_of_nat_small) simp
    then have "unat (p + of_nat k) = unat p + k"
      using k assms(3) unat_u32 [of "heap_end h"] by (subst unat_add_small) simp_all
    then have "in_heap h (p + of_nat k)" using k assms(2,3) by (simp add: in_heap_def)
    then show ?thesis using assms(1) by (auto simp: heap_inv_def heap_backed_def)
  qed
  then show ?thesis by (simp add: mapped_def list_all_iff)
qed

lemma kernel_space_alloc:
  assumes "kernel_space m" and "region_inv s" and "free_pages s \<subseteq> free_pages (page_state m)"
  shows "kernel_space (m\<lparr>page_state := s\<rparr>)" and "translate (m\<lparr>page_state := s\<rparr>) = translate m"
proof -
  have f: "pd_frame (m\<lparr>page_state := s\<rparr>) = pd_frame m" "pde (m\<lparr>page_state := s\<rparr>) = pde m" "tbl (m\<lparr>page_state := s\<rparr>) = tbl m"
    by (auto simp: pd_frame_def pde_def tbl_def)
  show "kernel_space (m\<lparr>page_state := s\<rparr>)"
    using assms unfolding kernel_space_def space_inv_def recursive_def frames_apart_def f by fastforce
  show "translate (m\<lparr>page_state := s\<rparr>) = translate m" by (simp add: translate_def walk_def Let_def fun_eq_iff)
qed

lemma frame_bytes:
  assumes "pg < (2 ^ 20 :: u32)" and "within va 1 a"
  shows "unat (push_bit 12 pg) = 4096 * unat pg" and "unat (push_bit 12 pg + (a - va)) = 4096 * unat pg + (unat a - unat va)"
    and "unat (push_bit 12 pg + (a - va)) div 4096 = unat pg"
proof -
  have pg: "unat pg < 1048576" using assms(1) by (simp add: word_less_nat_alt)
  then show p: "unat (push_bit 12 pg) = 4096 * unat pg" by (simp add: push_bit_eq_mult unat_word_ariths)
  have a: "unat va \<le> unat a" "unat a - unat va < 4096" using assms(2) by (auto simp: within_def)
  then have "unat (a - va) = unat a - unat va" by (simp add: unat_sub word_le_nat_alt)
  moreover have "4096 * unat pg + (unat a - unat va) < 2 ^ 32" using pg a by simp
  ultimately show s: "unat (push_bit 12 pg + (a - va)) = 4096 * unat pg + (unat a - unat va)"
    using p by (subst unat_add_small) simp_all
  then show "unat (push_bit 12 pg + (a - va)) div 4096 = unat pg" using a by simp
qed

lemma backed_grow:
  assumes backed: "heap_backed h" and pg: "pg < 2 ^ 20" "unat pg \<in> pages_left h"
    and h': "heap_start h' = heap_start h" "unat (heap_end h') = unat (heap_end h) + 4096"
      "pages_left h' = pages_left h - {unat pg}" "unat (heap_end h') \<le> 0xE0000000" "heap_start h \<le> heap_end h"
    and tr: "\<forall>w. unat w < 0xFFC00000 \<longrightarrow> translate (mach h') w =
      (if within (heap_end h) 1 w then Some (push_bit 12 pg + (w - heap_end h)) else translate (mach h) w)"
  shows "heap_backed h'"
proof -
  let ?e = "heap_end h"
  have split: "in_heap h' a \<longleftrightarrow> in_heap h a \<or> within ?e 1 a" "in_heap h a \<Longrightarrow> \<not> within ?e 1 a" for a
  proof -
    have "unat (heap_start h) \<le> unat ?e" using h'(5) by (simp add: word_le_nat_alt)
    then show "in_heap h' a \<longleftrightarrow> in_heap h a \<or> within ?e 1 a" "in_heap h a \<Longrightarrow> \<not> within ?e 1 a"
      unfolding in_heap_def within_def h'(1,2) by auto
  qed
  have low: "unat a < 0xFFC00000" if "in_heap h' a" for a using that h' by (auto simp: in_heap_def)
  have old: "\<exists>b. translate (mach h') a = Some b \<and> translate (mach h) a = Some b \<and> unat b div 4096 \<notin> pages_left h"
    if "in_heap h a" for a
  proof -
    have "translate (mach h') a = translate (mach h) a" using tr low split that by simp
    then show ?thesis using backed that by (auto simp: heap_backed_def)
  qed
  have new: "translate (mach h') a = Some (push_bit 12 pg + (a - ?e))"
      "unat (push_bit 12 pg + (a - ?e)) div 4096 = unat pg"
    if "within ?e 1 a" for a
    using tr low split that frame_bytes(3) [OF pg(1) that] by simp_all
  show ?thesis
    unfolding heap_backed_def
  proof (intro conjI allI impI)
    fix a assume "in_heap h' a"
    then show "\<exists>b. translate (mach h') a = Some b \<and> unat b div 4096 \<notin> pages_left h'"
      using split old new h'(3) by fastforce
  next
    fix a a' assume *: "in_heap h' a" "in_heap h' a'" "translate (mach h') a = translate (mach h') a'"
    consider "in_heap h a" "in_heap h a'" | "in_heap h a" "within ?e 1 a'" | "within ?e 1 a" "in_heap h a'"
      | "within ?e 1 a" "within ?e 1 a'" using *(1,2) split by blast
    then show "a = a'"
    proof cases
      case 1
      with old [of a] old [of a'] *(3) backed show ?thesis unfolding heap_backed_def by force
    next
      case 4
      with new *(3) show ?thesis by simp
    qed (use old new *(3) pg(2) in fastforce)+
  qed
qed

text \<open>The heap has only been extended: all other addresses keep their translation, and the new ones are backed by
  pages that the allocator had to give.\<close>

definition grown :: "heap \<Rightarrow> heap \<Rightarrow> bool" where
  "grown h h' \<longleftrightarrow> heap_start h' = heap_start h \<and> unat (heap_end h) \<le> unat (heap_end h') \<and> pages_left h' \<subseteq> pages_left h \<and>
     (\<forall>w. unat w < unat (heap_end h) \<longrightarrow> translate (mach h') w = translate (mach h) w) \<and>
     (\<forall>w. unat (heap_end h') \<le> unat w \<longrightarrow> unat w < 0xFFC00000 \<longrightarrow> translate (mach h') w = translate (mach h) w) \<and>
     (\<forall>w. unat (heap_end h) \<le> unat w \<longrightarrow> unat w < unat (heap_end h') \<longrightarrow>
       (\<exists>b. translate (mach h') w = Some b \<and> unat b div 4096 \<in> pages_left h))"

lemma grown_refl: "grown h h"
  by (simp add: grown_def)

lemma grown_trans:
  assumes "grown h h'" and "grown h' h''"
  shows "grown h h''"
proof -
  have "\<exists>b. translate (mach h'') w = Some b \<and> unat b div 4096 \<in> pages_left h"
    if w: "unat (heap_end h) \<le> unat w" "unat w < unat (heap_end h'')" for w
  proof (cases "unat w < unat (heap_end h')")
    case True
    then show ?thesis using assms w by (auto simp: grown_def)
  next
    case False
    then have "unat (heap_end h') \<le> unat w" by simp
    then obtain b where "translate (mach h'') w = Some b" "unat b div 4096 \<in> pages_left h'"
      using assms(2) w(2) unfolding grown_def by blast
    then show ?thesis using assms(1) by (auto simp: grown_def)
  qed
  then show ?thesis using assms by (auto simp: grown_def)
qed

lemma heap_grow_spec:
  assumes inv: "heap_inv h"
  shows "(pages_left h = {} \<and> heap_grow h = ret (h, False)) \<or>
    (\<exists>m. heap_grow h = ret (h\<lparr>mach := m, heap_end := heap_end h + PAGE_SIZE\<rparr>, True) \<and>
       heap_inv (h\<lparr>mach := m, heap_end := heap_end h + PAGE_SIZE\<rparr>) \<and>
       unat (heap_end h + PAGE_SIZE) = unat (heap_end h) + 4096 \<and>
       card (pages_left (h\<lparr>mach := m, heap_end := heap_end h + PAGE_SIZE\<rparr>)) + 1 = card (pages_left h) \<and>
       grown h (h\<lparr>mach := m, heap_end := heap_end h + PAGE_SIZE\<rparr>))"
proof -
  let ?m = "mach h" and ?e = "heap_end h"
  have sp: "kernel_space ?m" "region_inv (page_state ?m)" "pages_left h \<subseteq> {..<2 ^ 20}"
    using inv by (auto simp: heap_inv_def kernel_space_def space_inv_def pages_left_def)
  have fin: "finite (pages_left h)" using sp(3) by (rule finite_subset) simp
  show ?thesis
  proof (cases "pages_left h = {}")
    case True
    obtain s r where a: "memory_region_alloc_page (page_state ?m) = ret (s, r)"
      using mr.alloc_returns [OF sp(2)] by blast
    have "r = None" using mr.alloc_some [OF sp(2)] a True by (cases r) (auto simp: pages_left_def)
    then have "s = page_state ?m" using mr.alloc_none [OF sp(2)] a by blast
    with a \<open>r = None\<close> have "heap_grow h = ret (h, False)" by (simp add: heap_grow_def alloc_frame_def)
    with True show ?thesis by blast
  next
    case False
    obtain s pg where a: "alloc_frame ?m = ret (?m\<lparr>page_state := s\<rparr>, Some pg)" "region_inv s"
        "unat pg \<in> pages_left h" "free_pages s = pages_left h - {unat pg}"
      using alloc_frame_spec [OF sp(2)] False unfolding pages_left_def by blast
    let ?m1 = "?m\<lparr>page_state := s\<rparr>"
    have k1: "kernel_space ?m1" "translate ?m1 = translate ?m"
      using kernel_space_alloc [OF sp(1) a(2)] a(4) by (auto simp: pages_left_def)
    have card: "card (pages_left h) \<ge> 1" using False fin by (simp add: Suc_le_eq card_gt_0_iff)
    have e: "unat ?e mod 4096 = 0" "0xC0000000 \<le> unat ?e" "unat ?e + 4096 \<le> 0xE0000000"
      using inv card by (auto simp: heap_inv_def word_le_nat_alt)
    have pg: "pg < 2 ^ 20" using a(3) sp(3) by (auto simp: word_less_nat_alt)
    have pa: "unat (push_bit 12 pg) mod 4096 = 0" using frame_bytes(1) [OF pg, of 0 0] by (simp add: within_def)
    obtain m' where m': "mm_map_page ?m1 (push_bit 12 pg) ?e 3 = ret m'" "kernel_space m'"
        "page_state m' = s"
        "\<forall>w. unat w < 0xFFC00000 \<longrightarrow> translate m' w = (if within ?e 1 w then Some (push_bit 12 pg + (w - ?e)) else translate ?m w)"
      using map_kernel_page [OF k1(1) pa e(1,2), of 3] e(3) k1(2) by auto
    let ?h = "h\<lparr>mach := m', heap_end := ?e + PAGE_SIZE\<rparr>"
    have e': "unat (?e + PAGE_SIZE) = unat ?e + 4096"
      using e by (subst unat_add_small) (simp_all add: PAGE_SIZE_def)
    have left: "pages_left ?h = pages_left h - {unat pg}" using m'(3) a(4) by (simp add: pages_left_def)
    then have card': "card (pages_left ?h) = card (pages_left h) - 1" using a(3) fin by simp
    have hb: "heap_backed h" "heap_start h \<le> ?e" using inv by (auto simp: heap_inv_def)
    have sel: "mach ?h = m'" by simp
    have "heap_backed ?h"
    proof (rule backed_grow [OF hb(1) pg a(3)])
      show "\<forall>w. unat w < 0xFFC00000 \<longrightarrow> translate (mach ?h) w =
          (if within ?e 1 w then Some (push_bit 12 pg + (w - ?e)) else translate (mach h) w)"
        unfolding sel by (rule m'(4))
      show "unat (heap_end ?h) \<le> 0xE0000000" using e e' by simp
    qed (simp_all add: e' left hb)
    moreover have "unat ?e + 4096 + 4096 * (card (pages_left h) - 1) \<le> 0xE0000000"
      using inv card by (auto simp: heap_inv_def)
    ultimately have "heap_inv ?h"
      using inv e e' m'(2) card' unfolding heap_inv_def word_le_nat_alt by simp
    moreover have "heap_grow h = ret (?h, True)" using a(1) m'(1) by (simp add: heap_grow_def)
    moreover have "grown h ?h"
    proof -
      have "translate m' w = translate ?m w" if "unat w < unat ?e" for w
        using m'(4) that e(3) by (auto simp: within_def)
      moreover have "translate m' w = translate ?m w" if "unat ?e + 4096 \<le> unat w" "unat w < 0xFFC00000" for w
        using m'(4) that by (auto simp: within_def)
      moreover have "\<exists>b. translate m' w = Some b \<and> unat b div 4096 \<in> pages_left h"
        if "unat ?e \<le> unat w" "unat w < unat ?e + 4096" for w
      proof -
        have in1: "within ?e 1 w" using that by (simp add: within_def)
        then have "translate m' w = Some (push_bit 12 pg + (w - ?e))" using m'(4) that e(3) by auto
        then show ?thesis using frame_bytes(3) [OF pg in1] a(3) by auto
      qed
      ultimately show ?thesis using left by (auto simp: grown_def e')
    qed
    ultimately show ?thesis using e' card card' by auto
  qed
qed

text \<open>The heap with all the memory it can still get.\<close>

definition heap_limit :: "heap \<Rightarrow> nat" where
  "heap_limit h = unat (heap_end h) + 4096 * card (pages_left h)"

text \<open>The loop ends: every round takes a page from the allocator.\<close>

lemma grow_loop_spec:
  assumes "heap_inv h"
  shows "\<exists>h' ok. grow_loop h sz = ret (h', ok) \<and> heap_inv h' \<and> heap_start h' = heap_start h \<and>
    kernel_heap h' = kernel_heap h \<and> free_list h' = free_list h \<and> hmem h' = hmem h \<and> heap_limit h' = heap_limit h \<and>
    (if ok then heap_end h' - kernel_heap h' \<ge> sz else pages_left h' = {} \<and> heap_end h' - kernel_heap h' < sz) \<and>
    grown h h'"
  using assms
proof (induction "card (pages_left h)" arbitrary: h rule: less_induct)
  case less
  show ?case
  proof (cases "heap_end h - kernel_heap h < sz")
    case False
    then have "grow_loop h sz = ret (h, True)" by (subst grow_loop.simps) simp
    with less.prems False show ?thesis by (intro exI [of _ h] exI [of _ True]) (simp add: not_less grown_refl)
  next
    case True
    from heap_grow_spec [OF less.prems] show ?thesis
    proof (elim disjE exE conjE)
      assume *: "pages_left h = {}" "heap_grow h = ret (h, False)"
      then have "grow_loop h sz = ret (h, False)" using True by (subst grow_loop.simps) simp
      with less.prems True * show ?thesis by (intro exI [of _ h] exI [of _ False]) (simp add: grown_refl)
    next
      fix m
      let ?h = "h\<lparr>mach := m, heap_end := heap_end h + PAGE_SIZE\<rparr>"
      assume g: "heap_grow h = ret (?h, True)" "heap_inv ?h" "unat (heap_end h + PAGE_SIZE) = unat (heap_end h) + 4096"
        "card (pages_left ?h) + 1 = card (pages_left h)" "grown h ?h"
      then have lt: "card (pages_left ?h) < card (pages_left h)" by simp
      have "grow_loop h sz = grow_loop ?h sz"
        using True g(1) by (subst grow_loop.simps) simp
      moreover from less.hyps [OF lt g(2)] obtain h' ok where r: "grow_loop ?h sz = ret (h', ok)" "heap_inv h'"
        "heap_start h' = heap_start ?h" "kernel_heap h' = kernel_heap ?h" "free_list h' = free_list ?h" "hmem h' = hmem ?h"
        "heap_limit h' = heap_limit ?h"
        "if ok then heap_end h' - kernel_heap h' \<ge> sz else pages_left h' = {} \<and> heap_end h' - kernel_heap h' < sz"
        "grown ?h h'"
        by blast
      moreover have "grown h h'" using grown_trans [OF g(5) r(9)] .
      moreover have "heap_limit ?h = heap_limit h" using g(3,4) by (simp add: heap_limit_def)
      ultimately show ?thesis by (intro exI [of _ h'] exI [of _ ok]) simp
    qed
  qed
qed

section \<open>Allocation from an empty free list\<close>

lemma align_bytes_round:
  assumes "unat n + 15 < 2 ^ 32"
  shows "unat (align_bytes n) = 16 * ((unat n + 15) div 16)"
proof -
  define q r where "q = unat n div 16" and "r = unat n mod 16"
  have n: "unat n = 16 * q + r" "r < 16" by (simp_all add: q_def r_def)
  have m: "unat (n mod MALLOC_ALIGN_BYTES) = r" by (simp add: MALLOC_ALIGN_BYTES_def unat_mod r_def)
  have div: "(unat n + 15) div 16 = (if r = 0 then q else q + 1)" using n by (auto intro!: div_nat_eqI)
  have z: "n mod MALLOC_ALIGN_BYTES = 0 \<longleftrightarrow> r = 0" by (simp add: word_unat_eq_iff m)
  show ?thesis
  proof (cases "r = 0")
    case True
    then show ?thesis using z n div by (simp add: align_bytes_def)
  next
    case False
    have "unat (MALLOC_ALIGN_BYTES - n mod MALLOC_ALIGN_BYTES) = 16 - r"
      using n(2) m by (subst unat_sub) (simp_all add: word_le_nat_alt MALLOC_ALIGN_BYTES_def)
    then have "unat (n + (MALLOC_ALIGN_BYTES - n mod MALLOC_ALIGN_BYTES)) = unat n + (16 - r)"
      using assms n False by (subst unat_add_small) simp_all
    then show ?thesis using False z n div by (simp add: align_bytes_def)
  qed
qed

lemma carve_sel:
  "heap_start (fst (carve_block h n)) = heap_start h" "heap_end (fst (carve_block h n)) = heap_end h"
  "free_list (fst (carve_block h n)) = free_list h" "mach (fst (carve_block h n)) = mach h"
  "kernel_heap (fst (carve_block h n)) = kernel_heap h + (16 + n)"
  "snd (carve_block h n) = kernel_heap h + 16"
  "fl_next (fst (carve_block h n)) (kernel_heap h) = 0"
  "fl_size (fst (carve_block h n)) (kernel_heap h) = n"
  "fl_checksum (fst (carve_block h n)) (kernel_heap h) = COMPUTE_CHECKSUM (fst (carve_block h n)) (kernel_heap h)"
  by (simp_all add: carve_block_def Let_def COMPUTE_CHECKSUM_def)

lemma carve_mem:
  assumes "a - kernel_heap h \<ge> 12"
  shows "hmem (fst (carve_block h n)) a = hmem h a"
proof -
  let ?d = "a - kernel_heap h"
  have d: "unat ?d \<ge> 12" using assms by (simp add: word_le_nat_alt)
  have "a - kernel_heap h \<ge> 4" "a - (kernel_heap h + 4) \<ge> 4" "a - (kernel_heap h + 8) \<ge> 4"
  proof -
    have "unat (?d - 4) = unat ?d - 4" "unat (?d - 8) = unat ?d - 8"
      using d by (simp_all add: unat_sub word_le_nat_alt)
    then have "4 \<le> ?d - 4" "4 \<le> ?d - 8" "4 \<le> ?d" using d by (simp_all add: word_le_nat_alt)
    then show "a - kernel_heap h \<ge> 4" "a - (kernel_heap h + 4) \<ge> 4" "a - (kernel_heap h + 8) \<ge> 4"
      by (simp_all add: algebra_simps)
  qed
  then show ?thesis
    by (simp add: carve_block_def Let_def set_next_def set_size_def set_checksum_def st32_other)
qed

lemma search_empty [simp]: "malloc_search h n prev 0 = ret (h, None)"
  by (subst malloc_search.simps) simp

abbreviation rounded :: "u32 \<Rightarrow> nat" where
  "rounded n \<equiv> 16 * ((unat n + 15) div 16)"

lemma malloc_bump:
  assumes inv: "heap_inv h" and fl: "free_list h = 0" and n: "unat n + 31 < 2 ^ 32"
  shows "\<exists>h' p. malloc h n = ret (h', p) \<and> heap_inv h' \<and> free_list h' = 0 \<and> heap_start h' = heap_start h \<and>
    (p = 0 \<longleftrightarrow> heap_limit h < unat (kernel_heap h) + 16 + rounded n) \<and> heap_limit h' = heap_limit h \<and>
    (if p = 0 then kernel_heap h' = kernel_heap h \<and> hmem h' = hmem h
     else unat p = unat (kernel_heap h) + 16 \<and> unat (kernel_heap h') = unat p + rounded n \<and>
       fl_size h' (p - 16) = align_bytes n \<and> fl_checksum h' (p - 16) = COMPUTE_CHECKSUM h' (p - 16) \<and>
       fl_next h' (p - 16) = 0 \<and> (\<forall>a. a - kernel_heap h \<ge> 12 \<longrightarrow> hmem h' a = hmem h a)) \<and>
    grown h h'"
proof -
  let ?n = "align_bytes n" and ?k = "kernel_heap h"
  have n': "unat ?n = rounded n" using n by (intro align_bytes_round) simp
  moreover have "rounded n < 2 ^ 32 - 16" using n by linarith
  ultimately have size: "unat (16 + ?n) = 16 + rounded n" by (subst unat_add_small) simp_all
  obtain h1 ok where g: "grow_loop h (16 + ?n) = ret (h1, ok)" "heap_inv h1" "heap_start h1 = heap_start h"
      "kernel_heap h1 = ?k" "free_list h1 = free_list h" "hmem h1 = hmem h" "heap_limit h1 = heap_limit h"
      "if ok then heap_end h1 - kernel_heap h1 \<ge> 16 + ?n else pages_left h1 = {} \<and> heap_end h1 - kernel_heap h1 < 16 + ?n"
    and keep: "grown h h1"
    using grow_loop_spec [OF inv, of "16 + ?n"] by blast
  have le: "?k \<le> heap_end h1" and low: "unat (heap_end h1) \<le> 0xE0000000"
    and base: "0xC0000000 \<le> unat ?k" "unat ?k mod 16 = 0"
    using g(2) unfolding heap_inv_def g(4) word_le_nat_alt by auto
  then have diff: "unat (heap_end h1 - ?k) = unat (heap_end h1) - unat ?k" by (simp add: unat_sub)
  show ?thesis
  proof (cases ok)
    case False
    then have "malloc h n = ret (h1, 0)" using g(1) fl by (simp add: malloc_def Let_def)
    moreover have "unat (heap_end h1) < unat ?k + 16 + rounded n" "heap_limit h1 = unat (heap_end h1)"
      using g(8) False le unfolding g(4) word_less_nat_alt diff size
      by (simp_all add: word_le_nat_alt heap_limit_def less_diff_conv2 add.commute)
    ultimately show ?thesis using g keep False fl by (intro exI [of _ h1] exI [of _ 0]) simp
  next
    case True
    let ?h = "fst (carve_block h1 ?n)"
    have room: "unat ?k + 16 + rounded n \<le> unat (heap_end h1)"
      using g(8) True le unfolding g(4) word_le_nat_alt diff size by simp
    then have lim: "\<not> heap_limit h < unat ?k + 16 + rounded n" using g(7) by (simp add: heap_limit_def)
    have p: "unat (?k + 16) = unat ?k + 16" using room low by (subst unat_add_small) simp_all
    have k': "unat (?k + (16 + ?n)) = unat ?k + 16 + rounded n"
      using room low size by (subst unat_add_small) simp_all
    have "heap_backed ?h"
      using g(2) by (simp add: heap_inv_def heap_backed_def in_heap_def pages_left_def carve_sel)
    moreover have "unat (kernel_heap ?h) mod 16 = 0" unfolding carve_sel g(4) k' using base by simp
    moreover have "kernel_heap ?h \<le> heap_end ?h" unfolding carve_sel g(4) word_le_nat_alt k' by (rule room)
    moreover have "heap_start ?h \<le> kernel_heap ?h"
      using g(2) unfolding heap_inv_def carve_sel g(4) word_le_nat_alt k' by simp
    ultimately have "heap_inv ?h"
      using g(2) by (simp add: heap_inv_def carve_sel pages_left_def)
    moreover have "mapped h1 ?k 12"
      using g(2) room unfolding heap_inv_def g(4) word_le_nat_alt by (intro mapped_in_heap) (simp_all add: g(2))
    then have "malloc h n = ret (?h, ?k + 16)"
      using g(1,4) True fl carve_sel(6) [of h1 ?n] by (cases "carve_block h1 ?n") (simp add: malloc_def Let_def)
    moreover have "?k + 16 \<noteq> 0" using p by auto
    moreover have "hmem ?h a = hmem h a" if "a - ?k \<ge> 12" for a
      using carve_mem [of a h1 ?n] that g(4,6) by simp
    moreover have "heap_limit ?h = heap_limit h" using g(7) by (simp add: heap_limit_def carve_sel pages_left_def)
    moreover have "grown h ?h" using keep g(3) by (simp add: grown_def carve_sel pages_left_def)
    ultimately show ?thesis
      using g fl p k' lim carve_sel(7-9) [of h1 ?n]
      by (intro exI [of _ ?h] exI [of _ "?k + 16"]) (simp add: carve_sel)
  qed
qed

text \<open>The heap has grown from \<open>h0\<close>, nothing has been freed, and there is room for \<open>r\<close> more bytes, headers included.\<close>

definition heap_ready :: "heap \<Rightarrow> nat \<Rightarrow> heap \<Rightarrow> bool" where
  "heap_ready h0 r h \<longleftrightarrow> heap_inv h \<and> free_list h = 0 \<and> grown h0 h \<and> unat (kernel_heap h) + r \<le> heap_limit h"

lemma heap_ready_less: "heap_ready h0 r h \<Longrightarrow> r' \<le> r \<Longrightarrow> heap_ready h0 r' h"
  by (simp add: heap_ready_def)

lemma malloc_ready:
  assumes "heap_ready h0 (16 + rounded n + r) h" and "unat n + 31 < 2 ^ 32"
  obtains p h' where "malloc h n = ret (h', p)" and "p \<noteq> 0" and "heap_ready h0 r h'" and "heap_limit h' = heap_limit h"
    and "unat p = unat (kernel_heap h) + 16" and "unat (kernel_heap h') = unat p + rounded n"
proof -
  have h: "heap_inv h" "free_list h = 0" "grown h0 h" "unat (kernel_heap h) + (16 + rounded n + r) \<le> heap_limit h"
    using assms(1) by (simp_all add: heap_ready_def)
  obtain h' p where m: "malloc h n = ret (h', p)" "heap_inv h'" "free_list h' = 0" "heap_limit h' = heap_limit h"
    "grown h h'" "p = 0 \<longleftrightarrow> heap_limit h < unat (kernel_heap h) + 16 + rounded n"
    "p \<noteq> 0 \<Longrightarrow> unat p = unat (kernel_heap h) + 16 \<and> unat (kernel_heap h') = unat p + rounded n"
    using malloc_bump [OF h(1,2) assms(2)] by (auto split: if_splits)
  have p: "p \<noteq> 0" using m(6) h(4) by simp
  with m(7) have "unat (kernel_heap h') + r \<le> heap_limit h'" using h(4) m(4) by simp
  with m grown_trans [OF h(3) m(5)] have "heap_ready h0 r h'" by (simp add: heap_ready_def)
  with that m(1,4,7) p show ?thesis by blast
qed

section \<open>Sequences of allocations\<close>

fun alloc_list :: "('s \<Rightarrow> u32 \<Rightarrow> ('s \<times> u32) run) \<Rightarrow> 's \<Rightarrow> u32 list \<Rightarrow> ('s \<times> u32 list) run" where
  "alloc_list alloc s [] = ret (s, [])"
| "alloc_list alloc s (n # ns) = run_bind (alloc s n) (\<lambda>(s, p). run_bind (alloc_list alloc s ns) (\<lambda>(s, ps). ret (s, p # ps)))"

text \<open>What a client of the heap relies on: a block lies above everything in use before.\<close>

locale bump_allocator =
  fixes alloc :: "'s \<Rightarrow> u32 \<Rightarrow> ('s \<times> u32) run"
    and inv :: "'s \<Rightarrow> bool"
    and used :: "'s \<Rightarrow> nat"
    and max_request :: nat
  assumes alloc_above: "inv s \<Longrightarrow> unat n \<le> max_request \<Longrightarrow>
    \<exists>s' p. alloc s n = ret (s', p) \<and> inv s' \<and> used s \<le> used s' \<and>
      (p \<noteq> 0 \<longrightarrow> used s \<le> unat p \<and> unat p + unat n \<le> used s')"
begin

lemma alloc_list_disjoint:
  assumes "inv s" and "\<forall>n \<in> set ns. unat n \<le> max_request"
  shows "\<exists>s' ps. alloc_list alloc s ns = ret (s', ps) \<and> inv s' \<and> length ps = length ns \<and> used s \<le> used s' \<and>
    sorted_wrt (\<lambda>(p, n) (q, m). unat p + unat n \<le> unat q) (filter (\<lambda>(p, n). p \<noteq> 0) (zip ps ns)) \<and>
    (\<forall>(p, n) \<in> set (zip ps ns). p \<noteq> 0 \<longrightarrow> used s \<le> unat p \<and> unat p + unat n \<le> used s')"
  using assms
proof (induction ns arbitrary: s)
  case Nil
  then show ?case by simp
next
  case (Cons n ns)
  obtain s1 p where a: "alloc s n = ret (s1, p)" "inv s1" "used s \<le> used s1"
      "p \<noteq> 0 \<longrightarrow> used s \<le> unat p \<and> unat p + unat n \<le> used s1"
    using alloc_above [OF Cons.prems(1), of n] Cons.prems(2) by auto
  obtain s' ps where r: "alloc_list alloc s1 ns = ret (s', ps)" "inv s'" "length ps = length ns" "used s1 \<le> used s'"
      "sorted_wrt (\<lambda>(p, n) (q, m). unat p + unat n \<le> unat q) (filter (\<lambda>(p, n). p \<noteq> 0) (zip ps ns))"
      "\<forall>(p, n) \<in> set (zip ps ns). p \<noteq> 0 \<longrightarrow> used s1 \<le> unat p \<and> unat p + unat n \<le> used s'"
    using Cons.IH [OF a(2)] Cons.prems(2) by auto
  have "alloc_list alloc s (n # ns) = ret (s', p # ps)" using a(1) r(1) by simp
  moreover have "sorted_wrt (\<lambda>(p, n) (q, m). unat p + unat n \<le> unat q) (filter (\<lambda>(p, n). p \<noteq> 0) (zip (p # ps) (n # ns)))"
    using r(5,6) a(4) by (auto intro: order_trans)
  moreover have "\<forall>(p, n) \<in> set (zip (p # ps) (n # ns)). p \<noteq> 0 \<longrightarrow> used s \<le> unat p \<and> unat p + unat n \<le> used s'"
    using r(4,6) a(3,4) by (auto intro: order_trans)
  ultimately show ?case using r(2,3,4) a(3) by (intro exI [of _ s'] exI [of _ "p # ps"]) simp
qed

end

lemma malloc_above:
  assumes "heap_inv h \<and> free_list h = 0" and "unat n \<le> 0xFFFFFFE0"
  shows "\<exists>h' p. malloc h n = ret (h', p) \<and> (heap_inv h' \<and> free_list h' = 0) \<and> unat (kernel_heap h) \<le> unat (kernel_heap h') \<and>
    (p \<noteq> 0 \<longrightarrow> unat (kernel_heap h) \<le> unat p \<and> unat p + unat n \<le> unat (kernel_heap h'))"
proof -
  obtain h' p where m: "malloc h n = ret (h', p)" "heap_inv h'" "free_list h' = 0"
    "if p = 0 then kernel_heap h' = kernel_heap h
     else unat p = unat (kernel_heap h) + 16 \<and> unat (kernel_heap h') = unat p + rounded n"
    using malloc_bump [of h n] assms by (auto split: if_splits)
  moreover have "unat n \<le> rounded n" by linarith
  ultimately show ?thesis by (intro exI [of _ h'] exI [of _ p]) (auto split: if_splits)
qed

interpretation kheap: bump_allocator malloc "\<lambda>h. heap_inv h \<and> free_list h = 0"
  "\<lambda>h. unat (kernel_heap h)" "0xFFFFFFE0"
  by unfold_locales (rule malloc_above)

section \<open>Blocks of the free list\<close>

lemma size_flags:
  assumes "s AND 0xF = (0 :: u32)"
  shows "s XOR 0xF = s + 15" and "unat (s + 15) = unat s + 15" and "unat s mod 16 = 0"
proof -
  show "s XOR 0xF = s + 15" using disjunctive_add_eq_xor [OF assms] by simp
  have "s AND 0xF = take_bit 4 s" by (simp add: take_bit_eq_mask mask_eq_exp_minus_1)
  then have "unat (take_bit 4 s) = 0" using assms by (simp only: unsigned_0)
  then show m: "unat s mod 16 = 0" by (simp only: unsigned_take_bit_eq) (simp add: take_bit_eq_mod)
  then obtain q where "unat s = 16 * q" by auto
  moreover have "unat s < 4294967296" by (rule unat_u32)
  ultimately have "unat s + 15 < 4294967296" by presburger
  then show "unat (s + 15) = unat s + 15" by (subst unat_add_small) simp_all
qed

lemma aligned_flags:
  assumes "unat n + 15 < 2 ^ 32"
  shows "align_bytes n AND 0xF = 0"
proof -
  have "align_bytes n AND 0xF = take_bit 4 (align_bytes n)" by (simp add: take_bit_eq_mask mask_eq_exp_minus_1)
  moreover have "unat (take_bit 4 (align_bytes n)) = 0"
    by (simp only: unsigned_take_bit_eq align_bytes_round [OF assms]) (simp add: take_bit_eq_mod)
  ultimately show ?thesis by (simp only: word_unat_eq_iff) simp
qed

text \<open>The branch that does not split, on the first block of the list.\<close>

lemma malloc_exact_head:
  assumes "free_list h = f" and "f \<noteq> 0" and "fl_size h f = align_bytes n" and "unat n + 15 < 2 ^ 32"
    and "mapped h f 8" and "mapped h f 12"
  shows "\<exists>h'. malloc h n = ret (h', f + 16) \<and> free_list h' = f \<and> fl_size h' f = align_bytes n \<and> fl_next h' f = fl_next h f \<and> mach h' = mach h"
proof -
  note sz = size_flags [OF aligned_flags [OF assms(4)]]
  let ?n = "align_bytes n"
  have fit: "?n \<le> ?n + 15" "\<not> ?n + 15 - ?n > 16" using sz(2) by (simp_all add: word_le_nat_alt word_less_nat_alt)
  have "malloc_search h ?n 0 f = run_bind (take_block h ?n 0 f) (\<lambda>(h, p). ret (h, Some p))"
    using assms(2,3,5) fit by (subst malloc_search.simps) (simp add: sz)
  moreover have "take_block h ?n 0 f = (let h = set_size f ?n h in ret (set_checksum f (COMPUTE_CHECKSUM h f) h, f + 16))"
    using assms(3,6) fit by (simp add: sz take_block_def Let_def)
  ultimately show ?thesis using assms(1) by (simp add: malloc_def Let_def)
qed

lemma free_on_empty:
  assumes "free_list h = 0" and "fl_checksum h (p - 16) = COMPUTE_CHECKSUM h (p - 16)" and "fl_size h (p - 16) AND 0xF = 0"
    and "mapped h (p - 16) 12"
  shows "free_c h p = ret ((set_next (p - 16) 0 h)\<lparr>free_list := p - 16\<rparr>)"
  using assms by (simp add: free_c_def free_loop.simps [of h "p - 16" 0 0] Let_def)

text \<open>The branch that splits, on the first block of the list. The header of the remainder is one byte below the end of
  the block and its three bytes of \<open>next\<close> and \<open>size\<close> lie over the header of the block behind it.\<close>

lemma malloc_split_head:
  assumes "free_list h = f" and "f \<noteq> 0" and "fl_size h f AND 0xF = 0" and "unat n + 15 < 2 ^ 32"
    and "rounded n + 16 \<le> unat (fl_size h f)" and "mapped h f 8" and "mapped h f 12" and "mapped h (f + fl_size h f + 15) 8"
    and "unat (fl_size h f) + 64 < 2 ^ 32"
  shows "\<exists>h'. malloc h n = ret (h', f + 16) \<and> free_list h' = f + fl_size h f + 15 \<and> mach h' = mach h \<and>
    (let b = f + fl_size h f + 16 in hmem h' (b + 3) = byte_of (fl_size h f - align_bytes n - 1) 0 \<and>
      (\<forall>k. 7 \<le> k \<and> k < 12 \<longrightarrow> hmem h' (b + of_nat k) = hmem h (b + of_nat k)))"
proof -
  let ?s = "fl_size h f" and ?n = "align_bytes n"
  note sz = size_flags [OF assms(3)]
  have n: "unat ?n = rounded n" using assms(4) by (rule align_bytes_round)
  have le: "?n \<le> ?s + 15" using n sz(2) assms(5) by (simp add: word_le_nat_alt)
  then have "unat (?s + 15 - ?n) = unat ?s + 15 - rounded n" using n sz(2) by (simp add: unat_sub)
  then have big: "?s + 15 - ?n > 16" using assms(5) by (simp add: word_less_nat_alt)
  let ?x = "f + (?s + 15)"
  have x: "mapped h ?x 8" using assms(8) by (simp add: add.assoc)
  let ?h1 = "set_size f ?n (set_size ?x (?s + 15 - ?n - MALLOC_ALIGN_BYTES) (set_next ?x (fl_next h f) h))"
  let ?h = "(set_checksum f (COMPUTE_CHECKSUM ?h1 f) ?h1)\<lparr>free_list := ?x\<rparr>"
  have tb: "take_block h ?n 0 f = ret (?h, f + 16)"
    using big assms(7) x by (simp add: take_block_def Let_def sz(1))
  have "malloc_search h ?n 0 f = run_bind (take_block h ?n 0 f) (\<lambda>(h, p). ret (h, Some p))"
    using assms(2,6) le by (subst malloc_search.simps) (simp add: sz(1))
  then have m: "malloc h n = ret (?h, f + 16)" using assms(1) tb by (simp add: malloc_def Let_def)
  let ?b = "f + ?s + 16"
  have s: "unat ?s + 15 < 4294967296" "16 \<le> unat ?s" using sz(2) unat_u32 [of "?s + 15"] assms(5) by auto
  have far: "?b + of_nat k - (f + 4) \<ge> 4" "?b + of_nat k - (f + 8) \<ge> 4" if "k < 12" for k
  proof -
    have e: "?b + of_nat k - (f + 4) = ?s + of_nat (12 + k)" "?b + of_nat k - (f + 8) = ?s + of_nat (8 + k)" by simp_all
    have "unat (of_nat (12 + k) :: u32) = 12 + k" "unat (of_nat (8 + k) :: u32) = 8 + k"
      using that by (intro unat_of_nat_small; simp)+
    then have u: "unat (?s + of_nat (12 + k)) = unat ?s + (12 + k)" "unat (?s + of_nat (8 + k)) = unat ?s + (8 + k)"
      using assms(9) that by (subst unat_add_small; simp)+
    show "?b + of_nat k - (f + 4) \<ge> 4" "?b + of_nat k - (f + 8) \<ge> 4" unfolding e word_le_nat_alt u by simp_all
  qed
  have "hmem ?h (?b + of_nat k) = st32 (st32 (hmem h) ?x (fl_next h f)) (?x + 4) (?s + 15 - ?n - 16) (?b + of_nat k)" if "k < 12" for k
    using far [OF that] by (simp add: set_checksum_def set_size_def set_next_def st32_other MALLOC_ALIGN_BYTES_def)
  note mem = this
  have "hmem ?h (?b + 3) = byte_of (?s - ?n - 1) 0"
  proof -
    have "?b + 3 = ?x + 4" "?s + 15 - ?n - 16 = ?s - ?n - 1" by simp_all
    then show ?thesis using mem [of 3] by (simp add: st32_def)
  qed
  moreover have "hmem ?h (?b + of_nat k) = hmem h (?b + of_nat k)" if k: "7 \<le> k" "k < 12" for k
  proof -
    have e: "?b + of_nat k - ?x = of_nat (k + 1)" "?b + of_nat k - (?x + 4) = of_nat (k - 3)" using k by (simp_all add: of_nat_diff)
    have "unat (of_nat (k + 1) :: u32) = k + 1" "unat (of_nat (k - 3) :: u32) = k - 3" using k by (intro unat_of_nat_small; simp)+
    then have "4 \<le> ?b + of_nat k - ?x" "4 \<le> ?b + of_nat k - (?x + 4)" unfolding e word_le_nat_alt using k by simp_all
    then show ?thesis using mem [OF k(2)] by (simp add: st32_other)
  qed
  ultimately show ?thesis using m by (intro exI [of _ ?h]) (simp add: algebra_simps Let_def)
qed

lemma byte_of_xor: "byte_of (v XOR w) k = byte_of v k XOR byte_of w k"
  by (rule bit_eqI) (auto simp: bit_byte_of bit_simps)

lemma header_cong:
  assumes "\<And>k. k < 12 \<Longrightarrow> hmem h' (p + of_nat k) = hmem h (p + of_nat k)"
  shows "fl_next h' p = fl_next h p" "fl_size h' p = fl_size h p" "fl_checksum h' p = fl_checksum h p"
    "COMPUTE_CHECKSUM h' p = COMPUTE_CHECKSUM h p"
proof -
  have k: "hmem h' p = hmem h p" "hmem h' (p + 1) = hmem h (p + 1)" "hmem h' (p + 2) = hmem h (p + 2)" "hmem h' (p + 3) = hmem h (p + 3)"
    "hmem h' (p + 4) = hmem h (p + 4)" "hmem h' (p + 5) = hmem h (p + 5)" "hmem h' (p + 6) = hmem h (p + 6)" "hmem h' (p + 7) = hmem h (p + 7)"
    "hmem h' (p + 8) = hmem h (p + 8)" "hmem h' (p + 9) = hmem h (p + 9)" "hmem h' (p + 10) = hmem h (p + 10)" "hmem h' (p + 11) = hmem h (p + 11)"
    using assms [of 0] assms [of 1] assms [of 2] assms [of 3] assms [of 4] assms [of 5] assms [of 6] assms [of 7] assms [of 8] assms [of 9]
      assms [of 10] assms [of 11] by simp_all
  show "fl_next h' p = fl_next h p" "fl_size h' p = fl_size h p" "fl_checksum h' p = fl_checksum h p"
    using k by (simp_all add: fl_next_def fl_size_def fl_checksum_def ld32_def add.commute [of p])
  then show "COMPUTE_CHECKSUM h' p = COMPUTE_CHECKSUM h p" by (simp add: COMPUTE_CHECKSUM_def)
qed

text \<open>A checksum does not survive a change of the high byte of \<open>next\<close>.\<close>

lemma checksum_high_byte:
  assumes "fl_checksum h b = COMPUTE_CHECKSUM h b" and "fl_next h b = 0" and "hmem h' (b + 3) \<noteq> 0"
    and "\<And>k. 7 \<le> k \<Longrightarrow> k < 12 \<Longrightarrow> hmem h' (b + of_nat k) = hmem h (b + of_nat k)"
  shows "fl_checksum h' b \<noteq> COMPUTE_CHECKSUM h' b"
proof
  assume "fl_checksum h' b = COMPUTE_CHECKSUM h' b"
  then have "byte_of (fl_checksum h' b) 3 = byte_of (fl_next h' b) 3 XOR byte_of (fl_size h' b) 3"
    by (simp add: COMPUTE_CHECKSUM_def byte_of_xor)
  then have "hmem h' (b + 11) = hmem h' (b + 3) XOR hmem h' (b + 7)"
    by (simp add: fl_checksum_def fl_next_def fl_size_def ld32_def byte_of_le32 add.commute [of b])
  moreover have "hmem h (b + 11) = hmem h (b + 7)"
  proof -
    have "fl_checksum h b = fl_size h b" using assms(1,2) by (simp add: COMPUTE_CHECKSUM_def)
    then have "byte_of (fl_checksum h b) 3 = byte_of (fl_size h b) 3" by simp
    then show ?thesis by (simp add: fl_checksum_def fl_size_def ld32_def byte_of_le32 add.commute [of b])
  qed
  ultimately have "hmem h' (b + 3) XOR hmem h' (b + 7) = hmem h' (b + 7)"
    using assms(4) [of 7] assms(4) [of 11] by simp
  then have "(hmem h' (b + 3) XOR hmem h' (b + 7)) XOR hmem h' (b + 7) = hmem h' (b + 7) XOR hmem h' (b + 7)" by (simp only:)
  then have "hmem h' (b + 3) = 0" by (simp only: xor.assoc xor_self_eq xor.right_neutral)
  then show False using assms(3) by simp
qed

section \<open>A heap at boot\<close>

lemma malloc_init_start:
  assumes "unat ke + 4096 < 2 ^ 32"
  shows "unat ke \<le> unat (heap_start (malloc_init ke h))"
proof -
  have "unat (PAGE_SIZE - ke mod PAGE_SIZE) \<le> 4096"
    by (subst unat_sub) (simp_all add: word_le_nat_alt PAGE_SIZE_def unat_mod less_imp_le)
  then have "unat (ke + (PAGE_SIZE - ke mod PAGE_SIZE)) = unat ke + unat (PAGE_SIZE - ke mod PAGE_SIZE)"
    using assms by (intro unat_add_small) simp
  then show ?thesis by (simp add: malloc_init_def Let_def)
qed

lemma malloc_init_inv:
  assumes "kernel_space (mach h)" and "0xC0000000 \<le> unat ke" and "unat ke + 4096 + 4096 * card (pages_left h) \<le> 0xE0000000"
  shows "heap_inv (malloc_init ke h)" and "free_list (malloc_init ke h) = 0"
proof -
  define r where "r = unat ke mod 4096"
  have m: "unat (ke mod PAGE_SIZE) = r" by (simp add: PAGE_SIZE_def unat_mod r_def)
  have r: "r < 4096" by (simp add: r_def)
  have z: "ke mod PAGE_SIZE = 0 \<longleftrightarrow> r = 0" by (simp add: word_unat_eq_iff m)
  let ?hs = "heap_start (malloc_init ke h)"
  have hs: "unat ?hs = (if r = 0 then unat ke else unat ke + (4096 - r))"
  proof (cases "r = 0")
    case False
    have "unat (PAGE_SIZE - ke mod PAGE_SIZE) = 4096 - r"
      using r m by (subst unat_sub) (simp_all add: word_le_nat_alt PAGE_SIZE_def)
    then have "unat (ke + (PAGE_SIZE - ke mod PAGE_SIZE)) = unat ke + (4096 - r)"
      using assms(3) by (subst unat_add_small) simp_all
    then show ?thesis using False z by (simp add: malloc_init_def Let_def)
  qed (simp add: z malloc_init_def Let_def)
  define q where "q = (if r = 0 then unat ke div 4096 else unat ke div 4096 + 1)"
  have "unat ke = 4096 * (unat ke div 4096) + r" by (simp add: r_def)
  then have q: "unat ?hs = 4096 * q" "unat ke \<le> unat ?hs" "unat ?hs \<le> unat ke + 4096"
    using hs r by (auto simp: q_def)
  have "4096 * q = 16 * (256 * q)" by simp
  then have "(4096 * q) mod 16 = 0" by (simp only: mod_mult_self1_is_0)
  then have al: "unat ?hs mod 4096 = 0" "unat ?hs mod 16 = 0" "unat ke \<le> unat ?hs" "unat ?hs \<le> unat ke + 4096"
    using q by simp_all
  have eq: "heap_end (malloc_init ke h) = ?hs" "kernel_heap (malloc_init ke h) = ?hs" "mach (malloc_init ke h) = mach h"
    "pages_left (malloc_init ke h) = pages_left h"
    by (simp_all add: malloc_init_def Let_def pages_left_def)
  have "\<not> in_heap (malloc_init ke h) a" for a by (simp add: in_heap_def eq)
  then have "heap_backed (malloc_init ke h)" by (simp add: heap_backed_def)
  then show "heap_inv (malloc_init ke h)"
    using assms al by (simp add: heap_inv_def eq)
  show "free_list (malloc_init ke h) = 0" by (simp add: malloc_init_def Let_def)
qed

definition kernel_machine :: machine where
  "kernel_machine = \<lparr>cr3 = 0x800000,
     ram = (\<lambda>f j. if f = 2048 then (if j = 1023 then entry 2048 else if 768 \<le> j then entry (4096 + j) else 0) else 0),
     page_state = memory_region_early_init region_bss 256 64, printed = []\<rparr>"

lemma kernel_machine_space: "kernel_space kernel_machine"
proof -
  have pd: "pd_frame kernel_machine = 2048" by (simp add: pd_frame_def kernel_machine_def)
  have pde: "pde kernel_machine j = (if j = 1023 then entry 2048 else if 768 \<le> j then entry (4096 + j) else 0)" for j
    unfolding pde_def pd by (simp add: kernel_machine_def)
  have tbl: "tbl kernel_machine j = 4096 + j" "unat (4096 + j) = 4096 + unat j" if "768 \<le> j" "j < 1023" for j
  proof -
    have j: "unat j < 1023" using that by (simp add: word_less_nat_alt)
    then show u: "unat (4096 + j) = 4096 + unat j" by (subst unat_add_small) simp_all
    have "4096 + j < 2 ^ 20" using u j by (simp add: word_less_nat_alt)
    moreover have "j \<noteq> 1023" using that by auto
    ultimately show "tbl kernel_machine j = 4096 + j" using that by (simp add: tbl_def pde entry_frame)
  qed
  have free: "free_pages (page_state kernel_machine) = {256..<320}" "region_inv (page_state kernel_machine)"
    using boot_free boot_region_inv by (simp_all add: kernel_machine_def)
  have cond: "768 \<le> j \<and> usable_entry (pde kernel_machine j)" if "pde kernel_machine j \<noteq> 0" "j < 1023" for j
    using that by (auto simp: pde split: if_splits)
  have "frames_apart kernel_machine"
    unfolding frames_apart_def pd free(1)
  proof (intro allI impI conjI)
    fix i assume i: "i < 1023" "pde kernel_machine i \<noteq> 0"
    note t = tbl [OF conjunct1 [OF cond [OF i(2,1)]] i(1)]
    show "usable_entry (pde kernel_machine i)" using cond [OF i(2,1)] by simp
    show "tbl kernel_machine i \<noteq> 2048" "unat (tbl kernel_machine i) \<notin> {256..<320}"
      using t by (auto simp: word_unat_eq_iff)
    fix j assume j: "j < 1023" "pde kernel_machine j \<noteq> 0" "i \<noteq> j"
    then show "tbl kernel_machine i \<noteq> tbl kernel_machine j"
      using t tbl [OF conjunct1 [OF cond [OF j(2,1)]] j(1)] by simp
  qed
  then show ?thesis
    using free by (auto simp: kernel_space_def space_inv_def recursive_def pd pde)
qed

definition boot_heap :: heap where
  "boot_heap = malloc_init 0xC0123456 \<lparr>heap_start = 0, heap_end = 0, kernel_heap = 0, free_list = 0,
     hmem = (\<lambda>_. 0), mach = kernel_machine\<rparr>"

lemma boot_heap: "heap_inv boot_heap" "free_list boot_heap = 0" "kernel_heap boot_heap = 0xC0124000"
  "heap_limit boot_heap = 0xC0164000"
proof -
  have "card (free_pages (page_state kernel_machine)) = 64" using boot_free by (simp add: kernel_machine_def)
  then show "heap_inv boot_heap" "free_list boot_heap = 0"
    unfolding boot_heap_def
    by (intro malloc_init_inv; simp add: kernel_machine_space pages_left_def)+
  show "kernel_heap boot_heap = 0xC0124000" by (simp add: boot_heap_def malloc_init_def PAGE_SIZE_def)
  show "heap_limit boot_heap = 0xC0164000"
    using boot_free by (simp add: boot_heap_def malloc_init_def PAGE_SIZE_def heap_limit_def pages_left_def kernel_machine_def)
qed

section \<open>Properties\<close>

text \<open>C9: As long as nothing has been freed, \<open>malloc\<close> is a correct bump allocator. From every heap of the
  invariant with an empty free list and for every request up to \<open>2^32 - 32\<close> bytes it returns; the
  result is \<open>NULL\<close> exactly when the heap with all pages still free cannot hold the block, and
  then memory is unchanged; otherwise it is a 16-byte aligned block that lies wholly above all
  earlier blocks and inside the heap, every byte of it is backed by physical memory, its header is
  valid, no byte outside the new header is written, and the invariant holds again.\<close>

theorem malloc_correct:
  assumes "heap_inv h" and "free_list h = 0" and "unat n + 32 \<le> 2 ^ 32"
  shows "\<exists>h' p. malloc h n = ret (h', p) \<and> heap_inv h' \<and> free_list h' = 0 \<and>
    (p = 0 \<longleftrightarrow> heap_limit h < unat (kernel_heap h) + 16 + rounded n) \<and>
    (if p = 0 then hmem h' = hmem h
     else unat p mod 16 = 0 \<and> unat (kernel_heap h) + 16 = unat p \<and> unat p + unat n \<le> unat (kernel_heap h') \<and>
       (\<forall>k < unat n. translate (mach h') (p + of_nat k) \<noteq> None) \<and>
       fl_checksum h' (p - 16) = COMPUTE_CHECKSUM h' (p - 16) \<and> unat n \<le> unat (fl_size h' (p - 16)) \<and>
       (\<forall>a. a - kernel_heap h \<ge> 12 \<longrightarrow> hmem h' a = hmem h a))"
proof -
  obtain h' p where m: "malloc h n = ret (h', p)" "heap_inv h'" "free_list h' = 0" "heap_start h' = heap_start h"
    "p = 0 \<longleftrightarrow> heap_limit h < unat (kernel_heap h) + 16 + rounded n"
    "if p = 0 then hmem h' = hmem h
     else unat p = unat (kernel_heap h) + 16 \<and> unat (kernel_heap h') = unat p + rounded n \<and>
       fl_size h' (p - 16) = align_bytes n \<and> fl_checksum h' (p - 16) = COMPUTE_CHECKSUM h' (p - 16) \<and>
       (\<forall>a. a - kernel_heap h \<ge> 12 \<longrightarrow> hmem h' a = hmem h a)"
    using malloc_bump [OF assms(1,2), of n] assms(3) by (auto split: if_splits)
  show ?thesis
  proof (cases "p = 0")
    case True
    with m show ?thesis by (intro exI [of _ h'] exI [of _ p]) simp
  next
    case False
    with m(6) have p: "unat p = unat (kernel_heap h) + 16" "unat (kernel_heap h') = unat p + rounded n"
      "fl_size h' (p - 16) = align_bytes n" by simp_all
    have le: "unat n \<le> rounded n" by linarith
    have heap: "unat (heap_start h) \<le> unat (kernel_heap h)" "unat (kernel_heap h') \<le> unat (heap_end h')" "unat (kernel_heap h) mod 16 = 0"
      using assms(1) m(2) by (auto simp: heap_inv_def word_le_nat_alt)
    have "translate (mach h') (p + of_nat k) \<noteq> None" if k: "k < unat n" for k
    proof -
      have "unat (of_nat k :: u32) = k" using k unat_u32 [of n] by (intro unat_of_nat_small) simp
      then have "unat (p + of_nat k) = unat p + k"
        using k p(2) le heap(2) unat_u32 [of "heap_end h'"] by (subst unat_add_small) simp_all
      then have "in_heap h' (p + of_nat k)" using k p le heap m(4) by (simp add: in_heap_def)
      then show ?thesis using m(2) by (auto simp: heap_inv_def heap_backed_def)
    qed
    moreover have "unat n \<le> unat (fl_size h' (p - 16))"
      using p(3) le assms(3) by (simp add: align_bytes_round)
    ultimately show ?thesis using m False p le heap(3) by (intro exI [of _ h'] exI [of _ p]) simp
  qed
qed

text \<open>C10: Any sequence of allocations, with nothing freed in between, returns, and the blocks it
  returns are pairwise disjoint: each non-\<open>NULL\<close> block ends before the next one starts.\<close>

theorem malloc_sequence_disjoint:
  assumes "heap_inv h" and "free_list h = 0" and "\<forall>n \<in> set ns. unat n + 32 \<le> 2 ^ 32"
  shows "\<exists>h' ps. alloc_list malloc h ns = ret (h', ps) \<and> heap_inv h' \<and> length ps = length ns \<and>
    sorted_wrt (\<lambda>(p, n) (q, m). unat p + unat n \<le> unat q) (filter (\<lambda>(p, n). p \<noteq> 0) (zip ps ns)) \<and>
    (\<forall>(p, n) \<in> set (zip ps ns). p \<noteq> 0 \<longrightarrow> unat (kernel_heap h) \<le> unat p \<and> unat p + unat n \<le> unat (kernel_heap h'))"
  using kheap.alloc_list_disjoint [of h ns] assms by auto

text \<open>Freeing a block and asking twice for its size hands out the same block twice. \<open>free\<close> puts the
  block at the head of the free list, and the branch of \<open>malloc\<close> that uses a block without splitting
  unlinks it only when it has a predecessor: the head stays on the list after it was allocated.\<close>

theorem free_then_malloc_twice_same_block:
  assumes "heap_inv h" and "free_list h = 0" and "unat n + 32 \<le> 2 ^ 32"
    and "malloc h n = ret (h1, p)" and "p \<noteq> 0"
  shows "\<exists>h2 h3 h4. free_c h1 p = ret h2 \<and> malloc h2 n = ret (h3, p) \<and> malloc h3 n = ret (h4, p)"
proof -
  have f: "fl_size h1 (p - 16) = align_bytes n" "fl_checksum h1 (p - 16) = COMPUTE_CHECKSUM h1 (p - 16)" "free_list h1 = 0"
    "unat p = unat (kernel_heap h) + 16" "heap_inv h1" "heap_start h1 = heap_start h" "unat (kernel_heap h1) = unat p + rounded n"
    using malloc_bump [OF assms(1,2), of n] assms(3-5) by auto
  have heap: "0xC0000000 \<le> unat (kernel_heap h)" "unat (heap_start h) \<le> unat (kernel_heap h)" "unat (kernel_heap h1) \<le> unat (heap_end h1)"
    using assms(1) f(5) by (auto simp: heap_inv_def word_le_nat_alt)
  have pf: "unat (p - 16) = unat (kernel_heap h)" using f(4) by (simp add: unat_sub word_le_nat_alt)
  then have nz: "p - 16 \<noteq> 0" using heap(1) by auto
  have m: "mapped h1 (p - 16) 12" "mapped h1 (p - 16) 8"
    using pf heap f(4,6,7) by (intro mapped_in_heap [OF f(5)]; simp)+
  let ?h2 = "(set_next (p - 16) 0 h1)\<lparr>free_list := p - 16\<rparr>"
  have m2: "mapped ?h2 (p - 16) 12" "mapped ?h2 (p - 16) 8" using m mapped_cong [of ?h2 h1] by simp_all
  have n: "unat n + 15 < 2 ^ 32" using assms(3) by simp
  have "free_c h1 p = ret ?h2" using f m(1) aligned_flags [OF n] by (intro free_on_empty) simp_all
  moreover obtain h3 where h3: "malloc ?h2 n = ret (h3, p)" "free_list h3 = p - 16" "fl_size h3 (p - 16) = align_bytes n" "mach h3 = mach ?h2"
    using malloc_exact_head [OF _ nz _ n m2(2,1)] f(1) by auto
  moreover obtain h4 where "malloc h3 n = ret (h4, p)"
    using malloc_exact_head [OF h3(2) nz h3(3) n] m2 mapped_cong [OF h3(4)] by auto
  ultimately show ?thesis by blast
qed

text \<open>C11: Splitting a free block destroys the block behind it. Take two blocks \<open>p\<close> and \<open>q\<close> that \<open>malloc\<close> has cut from the
  heap one after the other, free the first and ask for at least 16 bytes less: \<open>malloc\<close> returns the first block again, but
  it computes its size as \<open>size ^ 0xF\<close>, 15 bytes too many, and puts the header of the remainder at that distance from
  the old header instead of behind the bytes it hands out. The new head of the free list is not 16-byte aligned, it lies
  over the header of the second block, and freeing the second block panics over a wrong checksum.\<close>

theorem malloc_split_corrupts_next_block:
  assumes "heap_inv h" and "free_list h = 0" and "unat n + 32 \<le> 2 ^ 32" and "unat m + 32 \<le> 2 ^ 32"
    and "malloc h n = ret (h1, p)" and "p \<noteq> 0" and "malloc h1 m = ret (h2, q)" and "q \<noteq> 0"
    and "rounded l + 16 \<le> rounded n" and "unat l + 32 \<le> 2 ^ 32"
  shows "\<exists>h3 h4. free_c h2 p = ret h3 \<and> malloc h3 l = ret (h4, p) \<and> unat (free_list h4) mod 16 = 15 \<and>
    free_c h4 q = goes_wrong (Panic ''free: Invalid checksum, memory corruption detected'')"
proof -
  let ?f = "p - 16" and ?b = "q - 16"
  have n: "unat n + 31 < 2 ^ 32" "unat n + 15 < 2 ^ 32" and m: "unat m + 31 < 2 ^ 32" and l: "unat l + 15 < 2 ^ 32" using assms(3,4,10) by simp_all
  have h1: "heap_inv h1" "free_list h1 = 0" "heap_start h1 = heap_start h" "unat p = unat (kernel_heap h) + 16"
    "unat (kernel_heap h1) = unat p + rounded n"
    "fl_size h1 ?f = align_bytes n" "fl_checksum h1 ?f = COMPUTE_CHECKSUM h1 ?f" "fl_next h1 ?f = 0"
    using malloc_bump [OF assms(1,2) n(1)] assms(5,6) by auto
  have h2: "heap_inv h2" "free_list h2 = 0" "heap_start h2 = heap_start h" "unat q = unat (kernel_heap h1) + 16"
    "unat (kernel_heap h2) = unat q + rounded m" "fl_next h2 ?b = 0" "fl_checksum h2 ?b = COMPUTE_CHECKSUM h2 ?b"
    "\<And>a. a - kernel_heap h1 \<ge> 12 \<Longrightarrow> hmem h2 a = hmem h1 a"
    using malloc_bump [OF h1(1,2) m] assms(7,8) h1(3) by auto
  have heap: "unat (heap_start h) \<le> unat (kernel_heap h)" "0xC0000000 \<le> unat (heap_start h)" "unat (kernel_heap h) mod 16 = 0"
    "unat (kernel_heap h2) \<le> unat (heap_end h2)" "unat (heap_end h2) \<le> 0xE0000000"
    using assms(1) h2(1) by (auto simp: heap_inv_def word_le_nat_alt)
  have f: "unat ?f = unat (kernel_heap h)" "?f \<noteq> 0" and b: "unat ?b = unat (kernel_heap h1)"
    using h1(4) h2(4) heap(1,2) by (auto simp: unat_sub word_le_nat_alt)
  have an: "unat (align_bytes n) = rounded n" by (rule align_bytes_round [OF n(2)])
  have next_block: "?f + align_bytes n + 16 = ?b"
  proof -
    have "?f + align_bytes n + 16 = p + align_bytes n" by simp
    also have "\<dots> = kernel_heap h1" unfolding word_unat_eq_iff
      using an h1(5) heap(4,5) h2(4,5) by (subst unat_add_small) simp_all
    finally show ?thesis using b by (simp add: word_unat_eq_iff)
  qed
  have "hmem h2 (?f + of_nat k) = hmem h1 (?f + of_nat k)" if k: "k < 12" for k
  proof (rule h2(8))
    have "unat (of_nat k :: u32) = k" using k by (intro unat_of_nat_small) simp
    then have "unat (?f + of_nat k) = unat ?f + k" using f(1) heap h1(4,5) h2(4,5) k by (subst unat_add_small) simp_all
    then have "unat (?f + of_nat k - kernel_heap h1) = 4294967296 + (unat ?f + k) - unat (kernel_heap h1)"
      using f(1) h1(4,5) k by (subst unat_sub_if_size) (simp add: word_size)
    then show "12 \<le> ?f + of_nat k - kernel_heap h1" using heap h2(4,5) by (simp add: word_le_nat_alt)
  qed
  note header = header_cong [of h2 ?f h1, OF this]
  have map2: "mapped h2 a k" if "unat (kernel_heap h) \<le> unat a" "unat a + k \<le> unat (kernel_heap h2)" for a k
    using that heap h2(1,3) by (intro mapped_in_heap) simp_all
  let ?h3 = "(set_next ?f 0 h2)\<lparr>free_list := ?f\<rparr>"
  have free: "free_c h2 p = ret ?h3"
    using h1(6,7) h2(2) header aligned_flags [OF n(2)] map2 [of ?f 12] f(1) h1(4,5) h2(4,5) by (intro free_on_empty) simp_all
  have h3: "fl_size ?h3 ?f = align_bytes n" using header(2) h1(6) by simp
  have lt: "rounded n + 64 < 2 ^ 32" using heap h1(4,5) h2(4,5) by simp
  have x: "unat (?f + align_bytes n + 15) = unat (kernel_heap h1) - 1"
  proof -
    have e: "?f + align_bytes n + 15 = ?b - 1" using next_block [symmetric] by simp
    have one: "unat (w - 1) = unat w - 1" if "0 < unat w" for w :: u32 using that by (simp add: unat_sub word_le_nat_alt)
    have "unat (?b - 1) = unat ?b - 1" unfolding b using h1(4,5) b by (subst one) simp_all
    then show ?thesis unfolding e b .
  qed
  have map3: "mapped ?h3 a k = mapped h2 a k" for a k by (rule mapped_cong) simp
  obtain h4 where h4: "malloc ?h3 l = ret (h4, p)" "free_list h4 = ?f + align_bytes n + 15" "mach h4 = mach h2"
    "hmem h4 (?b + 3) = byte_of (align_bytes n - align_bytes l - 1) 0"
    "\<And>k. 7 \<le> k \<Longrightarrow> k < 12 \<Longrightarrow> hmem h4 (?b + of_nat k) = hmem ?h3 (?b + of_nat k)"
    using malloc_split_head [of ?h3 ?f l, OF _ f(2) _ l] aligned_flags [OF n(2)] assms(9) lt an x next_block
      map2 [of ?f 8] map2 [of ?f 12] map2 [of "?f + align_bytes n + 15" 8] f(1) heap h1(4,5) h2(4,5)
    unfolding map3 h3 Let_def by auto
  have "(unat (kernel_heap h1) - 1) mod 16 = 15"
  proof -
    obtain i where "unat (kernel_heap h) = 16 * i" using heap(3) by auto
    then have "unat (kernel_heap h1) - 1 = 15 + 16 * (i + (unat n + 15) div 16)" using h1(4,5) by simp
    then show ?thesis by (simp only: mod_mult_self2) simp
  qed
  then have al: "unat (free_list h4) mod 16 = 15" using h4(2) x by simp
  have low: "byte_of (align_bytes n - align_bytes l - 1) 0 \<noteq> 0"
  proof -
    have al': "unat (align_bytes l) = rounded l" by (rule align_bytes_round [OF l])
    have "unat (align_bytes n - align_bytes l - 1) = rounded n - rounded l - 1"
      using an al' assms(9) by (simp add: unat_sub word_le_nat_alt)
    also have "\<dots> = 15 + 16 * ((unat n + 15) div 16 - (unat l + 15) div 16 - 1)" using assms(9) by simp
    finally have u: "unat (align_bytes n - align_bytes l - 1) = 15 + 16 * ((unat n + 15) div 16 - (unat l + 15) div 16 - 1)" .
    have "(15 + 16 * i) mod 256 \<noteq> (0 :: nat)" for i by presburger
    then have "unat (align_bytes n - align_bytes l - 1) mod 256 \<noteq> 0" unfolding u .
    moreover have "unat (byte_of w 0) = unat w mod 256" for w :: u32 by (simp add: byte_of_def unsigned_ucast_eq take_bit_eq_mod)
    ultimately show ?thesis by (auto simp: word_unat_eq_iff)
  qed
  have same: "hmem ?h3 (?b + of_nat k) = hmem h2 (?b + of_nat k)" if k: "k < 12" for k
  proof -
    have "?b + of_nat k - ?f = align_bytes n + of_nat (16 + k)" using next_block [symmetric] by simp
    moreover have "unat (of_nat (16 + k) :: u32) = 16 + k" using k by (intro unat_of_nat_small) simp
    ultimately have "unat (?b + of_nat k - ?f) = rounded n + (16 + k)" using an lt k by (simp del: of_nat_add add: unat_add_small)
    then have "4 \<le> ?b + of_nat k - ?f" by (simp add: word_le_nat_alt)
    then show ?thesis by (simp add: set_next_def st32_other)
  qed
  have "fl_checksum h4 ?b \<noteq> COMPUTE_CHECKSUM h4 ?b"
    using h4(4,5) low same by (intro checksum_high_byte [OF h2(7,6)]) simp_all
  moreover have "mapped h4 ?b 12" using map2 [of ?b 12] b f(1) h1(4,5) h2(4,5) mapped_cong [OF h4(3)] by simp
  ultimately have "free_c h4 q = goes_wrong (Panic ''free: Invalid checksum, memory corruption detected'')"
    by (simp add: free_c_def Let_def)
  with free h4(1) al show ?thesis by blast
qed

theorem malloc_correct_witness:
  "\<exists>h' p. malloc boot_heap 100 = ret (h', p) \<and> heap_inv h' \<and> free_list h' = 0 \<and>
    p = 0xC0124010 \<and> unat p + 100 \<le> unat (kernel_heap h') \<and> translate (mach h') 0xC0124020 \<noteq> None"
proof -
  from malloc_correct [OF boot_heap(1,2), of 100] obtain h' p where
    m: "malloc boot_heap 100 = ret (h', p)" "heap_inv h'" "free_list h' = 0" "p \<noteq> 0"
      "unat (kernel_heap boot_heap) + 16 = unat p" "unat p + 100 \<le> unat (kernel_heap h')"
      "\<forall>k < 100. translate (mach h') (p + of_nat k) \<noteq> None"
    using boot_heap(3,4) by (auto split: if_splits)
  moreover have "p = 0xC0124010" using m(5) boot_heap(3) by (simp add: word_unat_eq_iff)
  moreover from this have "translate (mach h') 0xC0124020 \<noteq> None" using m(7) [rule_format, of 16] by simp
  ultimately show ?thesis by blast
qed

theorem malloc_sequence_disjoint_witness:
  "\<exists>h' ps. alloc_list malloc boot_heap [24, 100, 4096] = ret (h', ps) \<and> length ps = length [24, 100, 4096 :: u32] \<and>
    sorted_wrt (\<lambda>(p, n) (q, m). unat p + unat n \<le> unat q) (filter (\<lambda>(p, n). p \<noteq> 0) (zip ps [24, 100, 4096 :: u32]))"
proof -
  have "\<forall>n \<in> set [24, 100, 4096 :: u32]. unat n + 32 \<le> 2 ^ 32" by simp
  from malloc_sequence_disjoint [OF boot_heap(1,2) this] show ?thesis by blast
qed

theorem free_then_malloc_twice_same_block_witness:
  "\<exists>h1 p h2 h3 h4. malloc boot_heap 100 = ret (h1, p) \<and> p \<noteq> 0 \<and> free_c h1 p = ret h2 \<and>
    malloc h2 100 = ret (h3, p) \<and> malloc h3 100 = ret (h4, p)"
proof -
  obtain h1 p where m: "malloc boot_heap 100 = ret (h1, p)" "p \<noteq> 0"
    using malloc_bump [OF boot_heap(1,2), of 100] boot_heap(3,4) by auto
  from free_then_malloc_twice_same_block [OF boot_heap(1,2) _ m] m show ?thesis by auto
qed

text \<open>Blocks of 64 and 32 bytes, the first of which is freed and used again for 16 bytes.\<close>

theorem malloc_split_corrupts_next_block_witness:
  "\<exists>h1 p h2 q h3 h4. malloc boot_heap 64 = ret (h1, p) \<and> malloc h1 32 = ret (h2, q) \<and> free_c h2 p = ret h3 \<and> malloc h3 16 = ret (h4, p) \<and>
    unat (free_list h4) mod 16 = 15 \<and> free_c h4 q = goes_wrong (Panic ''free: Invalid checksum, memory corruption detected'')"
proof -
  obtain h1 p where m: "malloc boot_heap 64 = ret (h1, p)" "p \<noteq> 0" "heap_inv h1" "free_list h1 = 0" "heap_limit h1 = heap_limit boot_heap"
    "unat p = unat (kernel_heap boot_heap) + 16" "unat (kernel_heap h1) = unat p + 64"
    using malloc_bump [OF boot_heap(1,2), of 64] boot_heap(3,4) by auto
  then obtain h2 q where q: "malloc h1 32 = ret (h2, q)" "q \<noteq> 0"
    using malloc_bump [OF m(3,4), of 32] boot_heap(3,4) by auto
  from malloc_split_corrupts_next_block [OF boot_heap(1,2) _ _ m(1,2) q, of 16] m(1) q(1) show ?thesis by auto
qed

end
