(* ===== verification/Tasks.thy ===== *)
theory Tasks
  imports Linked_List
begin

text \<open>
  Tasks, wait queues, the timer and the scheduler (\<^verbatim>\<open>scheduler/task.c\<close>, \<^verbatim>\<open>task_switch.S\<close>,
  \<^verbatim>\<open>scheduler/wait.c\<close>, \<^verbatim>\<open>irq/timer.c\<close>, \<^verbatim>\<open>scheduler/scheduler.c\<close>). Task and queue structures live at
  addresses; a pointer is an address or \<open>None\<close> for \<open>NULL\<close>. What \<open>malloc\<close> returned for a new task is
  an argument. A context switch exchanges the processor's registers: what \<^verbatim>\<open>task_switch.S\<close> stores
  is the register file as the caller sees it after the return. Spin locks guard every queue
  operation and are not modelled; the interleavings with the timer interrupt are those of
  \<^verbatim>\<open>Sched_System\<close>.
\<close>

section \<open>Data\<close>

type_synonym tptr = nat
type_synonym wptr = nat

record registers =
  eax :: u32
  ebx :: u32
  ecx :: u32
  edx :: u32
  esi :: u32
  edi :: u32
  esp :: u32
  ebp :: u32
  eip :: u32
  eflags :: u32
  cr3_reg :: u32

datatype task_state = TASK_RUNNING | TASK_INTERRUPTIBLE | TASK_UNINTERRUPTIBLE

record task =
  t_regs :: registers
  t_next :: "tptr option"
  t_name :: string
  t_state :: task_state

record wait_queue =
  w_next :: "wptr option"
  w_task :: tptr

record sched =
  cpu :: registers
  task_at :: "tptr \<Rightarrow> task"
  tasks :: "tptr option"
  tasks_tail :: "tptr option"
  running_task :: "tptr option"
  wait_at :: "wptr \<Rightarrow> wait_queue"
  timer_queue :: "wptr option"
  jiffies :: u32

definition upd_task :: "tptr \<Rightarrow> (task \<Rightarrow> task) \<Rightarrow> sched \<Rightarrow> sched" where
  "upd_task t f s = s\<lparr>task_at := (task_at s)(t := f (task_at s t))\<rparr>"

definition upd_wait :: "wptr \<Rightarrow> (wait_queue \<Rightarrow> wait_queue) \<Rightarrow> sched \<Rightarrow> sched" where
  "upd_wait w f s = s\<lparr>wait_at := (wait_at s)(w := f (wait_at s w))\<rparr>"

section \<open>task.c and task_switch.S\<close>

definition no_regs :: registers where
  "no_regs = \<lparr>eax = 0, ebx = 0, ecx = 0, edx = 0, esi = 0, edi = 0, esp = 0, ebp = 0, eip = 0, eflags = 0, cr3_reg = 0\<rparr>"

definition task_wrap :: "tptr option \<Rightarrow> sched \<Rightarrow> (sched \<times> tptr) run" where
  "task_wrap p s = (case p of
     None \<Rightarrow> goes_wrong Null_pointer
   | Some t \<Rightarrow> ret (upd_task t (\<lambda>_. \<lparr>t_regs = no_regs\<lparr>cr3_reg := cr3_reg (cpu s), eflags := eflags (cpu s)\<rparr>,
       t_next = None, t_name = [], t_state = TASK_RUNNING\<rparr>) s, t))"

text \<open>\<open>ebp\<close> keeps what the block of memory held before.\<close>

definition task_inherit :: "tptr option \<Rightarrow> string \<Rightarrow> u32 \<Rightarrow> u32 \<Rightarrow> sched \<Rightarrow> (sched \<times> tptr) run" where
  "task_inherit p name entry_point stack s = (case p of
     None \<Rightarrow> goes_wrong Null_pointer
   | Some t \<Rightarrow> ret (upd_task t (\<lambda>old. \<lparr>t_regs = \<lparr>eax = 0, ebx = 0, ecx = 0, edx = 0, esi = 0, edi = 0, esp = stack,
         ebp = ebp (t_regs old), eip = entry_point, eflags = eflags (cpu s), cr3_reg = cr3_reg (cpu s)\<rparr>,
       t_next = None, t_name = name, t_state = TASK_RUNNING\<rparr>) s, t))"

definition task_create :: "tptr option \<Rightarrow> string \<Rightarrow> u32 \<Rightarrow> u32 \<Rightarrow> u32 \<Rightarrow> u32 \<Rightarrow> sched \<Rightarrow> (sched \<times> tptr) run" where
  "task_create p name entry_point flags page_dir stack s = (case p of
     None \<Rightarrow> goes_wrong Null_pointer
   | Some t \<Rightarrow> ret (upd_task t (\<lambda>old. \<lparr>t_regs = \<lparr>eax = 0, ebx = 0, ecx = 0, edx = 0, esi = 0, edi = 0, esp = stack,
         ebp = ebp (t_regs old), eip = entry_point, eflags = flags, cr3_reg = page_dir\<rparr>,
       t_next = None, t_name = name, t_state = TASK_RUNNING\<rparr>) s, t))"

definition task_set_state :: "tptr option \<Rightarrow> task_state \<Rightarrow> sched \<Rightarrow> sched run" where
  "task_set_state p st s = (case p of
     None \<Rightarrow> goes_wrong Null_pointer
   | Some t \<Rightarrow> ret (upd_task t (\<lambda>k. k\<lparr>t_state := st\<rparr>) s))"

definition task_signal_pending :: "tptr option \<Rightarrow> int" where
  "task_signal_pending p = 0"

definition task_switch :: "tptr \<Rightarrow> tptr \<Rightarrow> sched \<Rightarrow> sched" where
  "task_switch from to s =
     (let s = upd_task from (\<lambda>k. k\<lparr>t_regs := cpu s\<rparr>) s
      in s\<lparr>cpu := t_regs (task_at s to)\<rparr>)"

section \<open>wait.c\<close>

definition wait_queue_init :: "sched \<Rightarrow> sched" where
  "wait_queue_init s = s\<lparr>timer_queue := None\<rparr>"

definition wait_init :: "wptr \<Rightarrow> sched \<Rightarrow> sched run" where
  "wait_init wq s = (case running_task s of
     None \<Rightarrow> goes_wrong Null_pointer
   | Some t \<Rightarrow> ret (upd_wait wq (\<lambda>_. \<lparr>w_next = None, w_task = t\<rparr>) s))"

definition wait_add_to_queue :: "wptr \<Rightarrow> sched \<Rightarrow> sched" where
  "wait_add_to_queue wq s = (upd_wait wq (\<lambda>w. w\<lparr>w_next := timer_queue s\<rparr>) s)\<lparr>timer_queue := Some wq\<rparr>"

text \<open>The loop has no statement that advances \<open>cur\<close>: on any other element it repeats forever.\<close>

partial_function (option) wait_remove_loop :: "wptr \<Rightarrow> wptr option \<Rightarrow> wptr option \<Rightarrow> sched \<Rightarrow> sched option" where
  "wait_remove_loop wq prev cur s = (case cur of
     None \<Rightarrow> Some s
   | Some c \<Rightarrow>
       if c = wq then
         Some (case prev of
           Some p \<Rightarrow> upd_wait p (\<lambda>w. w\<lparr>w_next := w_next (wait_at s c)\<rparr>) s
         | None \<Rightarrow> s\<lparr>timer_queue := w_next (wait_at s c)\<rparr>)
       else wait_remove_loop wq prev cur s)"

definition wait_remove_from_queue :: "wptr \<Rightarrow> sched \<Rightarrow> sched option" where
  "wait_remove_from_queue wq s = wait_remove_loop wq None (timer_queue s) s"

definition wait_prepare_to_wait :: "wptr \<Rightarrow> task_state \<Rightarrow> sched \<Rightarrow> sched run" where
  "wait_prepare_to_wait wq st s =
     run_bind (task_set_state (running_task s) st s) (\<lambda>s. ret (wait_add_to_queue wq s))"

definition wait_finish :: "wptr \<Rightarrow> sched \<Rightarrow> sched run" where
  "wait_finish wq s =
     run_bind (task_set_state (running_task s) TASK_RUNNING s) (\<lambda>s. map_option Inr (wait_remove_from_queue wq s))"

partial_function (option) wake_loop :: "wptr option \<Rightarrow> sched \<Rightarrow> sched option" where
  "wake_loop wq s = (case wq of
     None \<Rightarrow> Some s
   | Some w \<Rightarrow>
       (let s = upd_task (w_task (wait_at s w)) (\<lambda>k. k\<lparr>t_state := TASK_RUNNING\<rparr>) s;
            s = s\<lparr>timer_queue := w_next (wait_at s w)\<rparr>
        in wake_loop (timer_queue s) s))"

definition wait_wake_up_interruptible :: "sched \<Rightarrow> sched option" where
  "wait_wake_up_interruptible s = wake_loop (timer_queue s) s"

section \<open>timer.c\<close>

definition HZ :: u64 where
  "HZ = 200"

definition ticks_to_ms :: "u64 \<Rightarrow> u64" where
  "ticks_to_ms ticks = (ticks * 1000) div HZ"

definition timer_range_to_ms :: "u64 \<Rightarrow> u64 \<Rightarrow> u64" where
  "timer_range_to_ms ticks_start ticks_end = ticks_to_ms (ticks_end - ticks_start)"

section \<open>scheduler.c\<close>

definition scheduler_initialize :: "tptr option \<Rightarrow> sched \<Rightarrow> sched run" where
  "scheduler_initialize p s =
     run_bind (task_wrap p (wait_queue_init s)) (\<lambda>(s, t).
     ret ((upd_task t (\<lambda>k. k\<lparr>t_next := Some t\<rparr>) s)\<lparr>tasks := Some t, tasks_tail := Some t, running_task := Some t\<rparr>))"

text \<open>The result \<open>NULL\<close> is ignored by the caller, whose body is empty.\<close>

definition scheduler_timer :: "sched \<Rightarrow> sched option" where
  "scheduler_timer s = wait_wake_up_interruptible s"

definition timer_handler :: "sched \<Rightarrow> sched option" where
  "timer_handler s = scheduler_timer (s\<lparr>jiffies := jiffies s + 1\<rparr>)"

partial_function (option) next_running_loop :: "sched \<Rightarrow> tptr \<Rightarrow> tptr option \<Rightarrow> tptr option option" where
  "next_running_loop s t cur = (case cur of
     None \<Rightarrow> Some None
   | Some c \<Rightarrow>
       if t_state (task_at s c) \<noteq> TASK_RUNNING \<and> c \<noteq> t then next_running_loop s t (t_next (task_at s c))
       else Some (Some c))"

definition scheduler_next_running_task :: "sched \<Rightarrow> tptr \<Rightarrow> tptr option option" where
  "scheduler_next_running_task s t = next_running_loop s t (t_next (task_at s t))"

definition scheduler_yield :: "sched \<Rightarrow> sched run" where
  "scheduler_yield s = (case running_task s of
     None \<Rightarrow> goes_wrong Null_pointer
   | Some r \<Rightarrow> (case scheduler_next_running_task s r of
       None \<Rightarrow> None
     | Some None \<Rightarrow> goes_wrong Null_pointer
     | Some (Some n) \<Rightarrow>
         if n = r then ret s
         else ret (task_switch r n (s\<lparr>running_task := Some n\<rparr>))))"

definition tasks_insert :: "tptr \<Rightarrow> sched \<Rightarrow> sched run" where
  "tasks_insert t s = (case tasks_tail s of
     None \<Rightarrow> goes_wrong Null_pointer
   | Some l \<Rightarrow>
       (let s = upd_task t (\<lambda>k. k\<lparr>t_next := tasks s\<rparr>) s;
            s = upd_task l (\<lambda>k. k\<lparr>t_next := Some t\<rparr>) s
        in ret (s\<lparr>tasks_tail := Some t\<rparr>)))"

partial_function (option) tasks_find :: "sched \<Rightarrow> tptr \<Rightarrow> tptr \<Rightarrow> tptr option \<Rightarrow> (tptr \<times> tptr option) option" where
  "tasks_find s t prev cur =
     (if cur \<noteq> tasks_tail s \<and> cur \<noteq> Some t \<and> cur \<noteq> None
      then tasks_find s t (the cur) (t_next (task_at s (the cur)))
      else Some (prev, cur))"

definition tasks_remove :: "tptr \<Rightarrow> sched \<Rightarrow> sched run" where
  "tasks_remove t s =
     (if tasks s = Some t then
        (case tasks_tail s of
           None \<Rightarrow> goes_wrong Null_pointer
         | Some l \<Rightarrow>
            (let s = upd_task l (\<lambda>k. k\<lparr>t_next := t_next (task_at s t)\<rparr>) s
             in ret (s\<lparr>tasks := t_next (task_at s t)\<rparr>)))
      else (case tasks s of
          None \<Rightarrow> goes_wrong Null_pointer
        | Some h \<Rightarrow> (case tasks_find s t h (t_next (task_at s h)) of
            None \<Rightarrow> None
          | Some (prev, cur) \<Rightarrow>
              if cur = Some t then
                (let s1 = upd_task prev (\<lambda>k. k\<lparr>t_next := t_next (task_at s t)\<rparr>) s
                 in ret (if Some t = tasks_tail s1 then s1\<lparr>tasks_tail := Some prev\<rparr> else s1))
              else if cur = None \<and> tasks_tail s \<noteq> None then goes_wrong Null_pointer
              else ret s)))"

definition scheduler_exit :: "sched \<Rightarrow> sched run" where
  "scheduler_exit s = (case running_task s of
     None \<Rightarrow> goes_wrong Null_pointer
   | Some r \<Rightarrow> (case t_next (task_at s r) of
       None \<Rightarrow> goes_wrong (Panic ''SHUTDOWN'')
     | Some n \<Rightarrow>
         if n = r then goes_wrong (Panic ''SHUTDOWN'')
         else run_bind (tasks_remove r (s\<lparr>running_task := Some n\<rparr>)) (\<lambda>s. ret (task_switch r n s))))"

text \<open>The first argument is what \<open>malloc\<close> returned for the task, the second the stack block.\<close>

definition scheduler_create_thread :: "tptr option \<Rightarrow> u32 \<Rightarrow> string \<Rightarrow> u32 \<Rightarrow> sched \<Rightarrow> sched run" where
  "scheduler_create_thread p stack name entry_point s =
     run_bind (task_inherit p name entry_point (stack + 4096) s) (\<lambda>(s, t). tasks_insert t s)"

section \<open>Updates\<close>

lemma upd_task_sel [simp]:
  "cpu (upd_task t f s) = cpu s" "tasks (upd_task t f s) = tasks s" "tasks_tail (upd_task t f s) = tasks_tail s"
  "running_task (upd_task t f s) = running_task s" "wait_at (upd_task t f s) = wait_at s"
  "timer_queue (upd_task t f s) = timer_queue s" "jiffies (upd_task t f s) = jiffies s"
  "task_at (upd_task t f s) = (task_at s)(t := f (task_at s t))"
  by (simp_all add: upd_task_def)

lemma upd_wait_sel [simp]:
  "cpu (upd_wait w g s) = cpu s" "tasks (upd_wait w g s) = tasks s" "tasks_tail (upd_wait w g s) = tasks_tail s"
  "running_task (upd_wait w g s) = running_task s" "task_at (upd_wait w g s) = task_at s"
  "timer_queue (upd_wait w g s) = timer_queue s" "jiffies (upd_wait w g s) = jiffies s"
  "wait_at (upd_wait w g s) = (wait_at s)(w := g (wait_at s w))"
  by (simp_all add: upd_wait_def)

lemma task_switch_sel [simp]:
  "tasks (task_switch a b s) = tasks s" "tasks_tail (task_switch a b s) = tasks_tail s"
  "running_task (task_switch a b s) = running_task s" "wait_at (task_switch a b s) = wait_at s"
  "timer_queue (task_switch a b s) = timer_queue s" "jiffies (task_switch a b s) = jiffies s"
  "t_next (task_at (task_switch a b s) t) = t_next (task_at s t)"
  "t_state (task_at (task_switch a b s) t) = t_state (task_at s t)"
  by (simp_all add: task_switch_def Let_def)

section \<open>The ring of tasks\<close>

abbreviation tnext :: "sched \<Rightarrow> tptr \<Rightarrow> tptr option" where
  "tnext s \<equiv> \<lambda>t. t_next (task_at s t)"

definition ring :: "sched \<Rightarrow> tptr list \<Rightarrow> bool" where
  "ring s ts \<longleftrightarrow> ts \<noteq> [] \<and> distinct ts \<and> tasks s = Some (hd ts) \<and> tasks_tail s = Some (last ts) \<and>
     lseg (tnext s) (Some (hd ts)) ts (Some (hd ts))"

lemma ring_cong:
  assumes "ring s ts" and "tasks s' = tasks s" and "tasks_tail s' = tasks_tail s"
    and "\<And>t. t \<in> set ts \<Longrightarrow> tnext s' t = tnext s t"
  shows "ring s' ts"
  using assms lseg_cong [of ts "tnext s" "tnext s'"] by (simp add: ring_def)

lemma tnext_upd: "tnext (upd_task t f s) = (tnext s)(t := t_next (f (task_at s t)))"
  by auto

lemma tasks_insert_ring:
  assumes "ring s ts" and "t \<notin> set ts"
  shows "\<exists>s'. tasks_insert t s = ret s' \<and> ring s' (ts @ [t]) \<and> running_task s' = running_task s \<and>
    wait_at s' = wait_at s \<and> timer_queue s' = timer_queue s \<and> jiffies s' = jiffies s \<and>
    (\<forall>u. t_state (task_at s' u) = t_state (task_at s u))"
proof -
  obtain us l where ts: "ts = us @ [l]" using assms(1) by (cases ts rule: rev_cases) (auto simp: ring_def)
  let ?h = "hd ts"
  let ?s1 = "upd_task t (\<lambda>k. k\<lparr>t_next := tasks s\<rparr>) s"
  let ?s2 = "upd_task l (\<lambda>k. k\<lparr>t_next := Some t\<rparr>) ?s1"
  have tl: "tasks_tail s = Some l" "tasks s = Some ?h" using assms(1) ts by (auto simp: ring_def)
  have d: "l \<notin> set us" "l \<noteq> t" "t \<notin> set us" using assms ts by (auto simp: ring_def)
  have "lseg (tnext s) (Some ?h) (us @ [l]) (Some ?h)" using assms(1) ts by (simp add: ring_def)
  then have "lseg (tnext ?s1) (Some ?h) (us @ [l]) (Some ?h)" unfolding tnext_upd using d by simp
  then have "lseg (tnext ?s2) (Some ?h) (us @ [l]) (Some t)"
    unfolding tnext_upd [of l] using d(1) lseg_set_last by fastforce
  moreover have "tnext ?s2 t = Some ?h" using d tl by simp
  ultimately have "lseg (tnext ?s2) (Some ?h) (ts @ [t]) (Some ?h)" using ts by (simp add: lseg_append)
  moreover have "tasks_insert t s = ret (?s2\<lparr>tasks_tail := Some t\<rparr>)" using tl by (simp add: tasks_insert_def Let_def)
  moreover have "hd (ts @ [t]) = ?h" using ts by (simp add: hd_append)
  ultimately show ?thesis using assms ts tl d by (auto simp: ring_def)
qed

lemma tasks_find_seg:
  assumes "lseg (tnext s) (Some c) (zs @ [t]) q" and "t \<notin> set zs" and "tasks_tail s = Some l" and "l \<notin> set zs"
  shows "tasks_find s t prev (Some c) = Some (if zs = [] then prev else last zs, Some t)"
  using assms(1,2,4)
proof (induction zs arbitrary: c prev)
  case Nil
  then show ?case by (subst tasks_find.simps) simp
next
  case (Cons z zs)
  then have z: "c = z" "z \<noteq> t" "z \<noteq> l" "lseg (tnext s) (tnext s z) (zs @ [t]) q" by auto
  then obtain c' where c': "tnext s z = Some c'" by (cases "tnext s z") auto
  have "tasks_find s t prev (Some c) = tasks_find s t z (Some c')"
    using z c' assms(3) by (subst tasks_find.simps) simp
  with Cons.IH [of c' z] Cons.prems z c' show ?case by auto
qed

text \<open>Removing the head, and removing any other task.\<close>

lemma tasks_remove_head:
  assumes "ring s (t # ts)" and "ts \<noteq> []"
  shows "\<exists>s'. tasks_remove t s = ret s' \<and> ring s' ts \<and> running_task s' = running_task s \<and>
    wait_at s' = wait_at s \<and> timer_queue s' = timer_queue s \<and> jiffies s' = jiffies s \<and>
    (\<forall>u. t_state (task_at s' u) = t_state (task_at s u))"
proof -
  obtain us l where ts: "ts = us @ [l]" using assms(2) by (cases ts rule: rev_cases) auto
  have r: "tasks s = Some t" "tasks_tail s = Some l" "lseg (tnext s) (tnext s t) (us @ [l]) (Some t)"
      "l \<notin> set us" "l \<noteq> t" "t \<notin> set us"
    using assms(1) ts by (auto simp: ring_def)
  let ?n = "tnext s t"
  let ?s = "upd_task l (\<lambda>k. k\<lparr>t_next := ?n\<rparr>) s"
  have hd: "?n = Some (hd ts)" using r(3) ts by (cases us) auto
  have "lseg (tnext ?s) ?n (us @ [l]) ?n"
    unfolding tnext_upd using lseg_set_last [OF r(3,4), of "?n"] by simp
  moreover have "tasks_remove t s = ret (?s\<lparr>tasks := ?n\<rparr>)" using r by (simp add: tasks_remove_def Let_def)
  ultimately show ?thesis using assms hd ts r by (auto simp: ring_def)
qed

lemma tasks_remove_inner:
  assumes "ring s (h # xs @ t # ys)"
  shows "\<exists>s'. tasks_remove t s = ret s' \<and> ring s' (h # xs @ ys) \<and> running_task s' = running_task s \<and>
    wait_at s' = wait_at s \<and> timer_queue s' = timer_queue s \<and> jiffies s' = jiffies s \<and>
    (\<forall>u. t_state (task_at s' u) = t_state (task_at s u))"
proof -
  let ?ts = "h # xs @ t # ys" and ?p = "if xs = [] then h else last xs"
  have r: "tasks s = Some h" "tasks_tail s = Some (last (t # ys))" "distinct ?ts"
      "lseg (tnext s) (tnext s h) (xs @ [t]) (tnext s t)" "lseg (tnext s) (tnext s t) ys (Some h)"
    using assms by (auto simp: ring_def lseg_append)
  obtain c where c: "tnext s h = Some c" using r(4) by (cases "tnext s h") auto
  have "last (t # ys) \<notin> set xs" using r(3) by (auto simp: last_in_set)
  then have find: "tasks_find s t h (Some c) = Some (?p, Some t)"
    using tasks_find_seg [OF r(4) [unfolded c], of _ h] r(2,3) by auto
  let ?s1 = "upd_task ?p (\<lambda>k. k\<lparr>t_next := tnext s t\<rparr>) s"
  let ?s' = "if Some t = tasks_tail s then ?s1\<lparr>tasks_tail := Some ?p\<rparr> else ?s1"
  have "tasks_remove t s = ret ?s'"
    using r(1,3) find c by (auto simp: tasks_remove_def Let_def)
  moreover have "lseg (tnext ?s1) (Some h) (h # xs @ ys) (Some h)"
  proof (cases xs rule: rev_cases)
    case Nil
    then show ?thesis using r(3,5) unfolding tnext_upd by simp
  next
    case (snoc us u)
    have "lseg (tnext s) (Some h) ((h # us) @ u # t # ys) (Some h)"
      using r(4,5) snoc by (auto simp: lseg_append)
    then have "lseg ((tnext s)(u := tnext s t)) (Some h) ((h # us) @ u # ys) (Some h)"
      by (rule lseg_unlink) (use r(3) snoc in auto)
    then show ?thesis using snoc unfolding tnext_upd by simp
  qed
  moreover have "tasks_tail ?s' = Some (last (h # xs @ ys))"
    using r(2,3) by (cases ys rule: rev_cases) auto
  ultimately show ?thesis using r(1,3) by (intro exI [of _ ?s']) (auto simp: ring_def)
qed

lemma tasks_remove_ring:
  assumes "ring s ts" and "t \<in> set ts" and "ts \<noteq> [t]"
  shows "\<exists>s'. tasks_remove t s = ret s' \<and> ring s' (remove1 t ts) \<and> running_task s' = running_task s \<and>
    wait_at s' = wait_at s \<and> timer_queue s' = timer_queue s \<and> jiffies s' = jiffies s \<and>
    (\<forall>u. t_state (task_at s' u) = t_state (task_at s u))"
proof -
  obtain h hs where ts: "ts = h # hs" using assms(2) by (cases ts) auto
  have d: "distinct ts" using assms(1) by (simp add: ring_def)
  show ?thesis
  proof (cases "h = t")
    case True
    then have "ring s (t # hs)" "hs \<noteq> []" using assms ts by auto
    from tasks_remove_head [OF this] show ?thesis using ts True by simp
  next
    case False
    then obtain xs ys where hs: "hs = xs @ t # ys" using assms(2) ts by (auto simp: in_set_conv_decomp)
    then have "remove1 t ts = h # xs @ ys" using False d ts by (simp add: remove1_append)
    moreover have "ring s (h # xs @ t # ys)" using assms(1) ts hs by simp
    ultimately show ?thesis using tasks_remove_inner by simp
  qed
qed

section \<open>Choosing the next task\<close>

definition runnable :: "sched \<Rightarrow> tptr \<Rightarrow> bool" where
  "runnable s t \<longleftrightarrow> t_state (task_at s t) = TASK_RUNNING"

lemma next_running_seg:
  assumes "lseg (tnext s) p zs (Some t)" and "t \<notin> set zs"
  shows "next_running_loop s t p = Some (Some (case find (runnable s) zs of Some c \<Rightarrow> c | None \<Rightarrow> t))"
  using assms
proof (induction zs arbitrary: p)
  case Nil
  then show ?case by (subst next_running_loop.simps) simp
next
  case (Cons z zs)
  then show ?case by (subst next_running_loop.simps) (auto simp: runnable_def [abs_def])
qed

lemma ring_after:
  assumes "ring s (xs @ t # ys)"
  shows "lseg (tnext s) (tnext s t) (ys @ xs) (Some t)"
proof -
  have "lseg (tnext s) (tnext s t) ys (Some (hd (xs @ t # ys)))" "lseg (tnext s) (Some (hd (xs @ t # ys))) xs (Some t)"
    using assms by (auto simp: ring_def lseg_append)
  then show ?thesis by (auto simp: lseg_append)
qed

text \<open>The tasks after \<open>t\<close> in the order of the ring.\<close>

definition after :: "tptr list \<Rightarrow> tptr \<Rightarrow> tptr list" where
  "after ts t = tl (dropWhile (\<lambda>u. u \<noteq> t) ts) @ takeWhile (\<lambda>u. u \<noteq> t) ts"

lemma after_split:
  assumes "t \<notin> set xs"
  shows "after (xs @ t # ys) t = ys @ xs"
proof -
  have "dropWhile (\<lambda>u. u \<noteq> t) xs = []" "takeWhile (\<lambda>u. u \<noteq> t) xs = xs"
    using assms by (auto simp: dropWhile_eq_Nil_conv takeWhile_eq_all_conv)
  with assms show ?thesis by (simp add: after_def dropWhile_append takeWhile_tail)
qed

lemma next_running_ring:
  assumes "ring s ts" and "t \<in> set ts"
  shows "scheduler_next_running_task s t = Some (Some (case find (runnable s) (after ts t) of Some c \<Rightarrow> c | None \<Rightarrow> t))"
proof -
  obtain xs ys where ts: "ts = xs @ t # ys" using assms(2) by (auto simp: in_set_conv_decomp)
  have d: "t \<notin> set xs" "t \<notin> set ys" using assms(1) ts by (auto simp: ring_def)
  have "lseg (tnext s) (tnext s t) (ys @ xs) (Some t)" using ring_after assms(1) ts by simp
  from next_running_seg [OF this] d show ?thesis
    by (simp add: scheduler_next_running_task_def ts after_split)
qed

section \<open>Wait queues\<close>

abbreviation wnext :: "sched \<Rightarrow> wptr \<Rightarrow> wptr option" where
  "wnext s \<equiv> \<lambda>w. w_next (wait_at s w)"

definition queue :: "sched \<Rightarrow> wptr list \<Rightarrow> bool" where
  "queue s ws \<longleftrightarrow> lseg (wnext s) (timer_queue s) ws None"

definition wake_all :: "wptr set \<Rightarrow> sched \<Rightarrow> sched" where
  "wake_all ws s = s\<lparr>task_at := (\<lambda>t. if t \<in> (\<lambda>w. w_task (wait_at s w)) ` ws then (task_at s t)\<lparr>t_state := TASK_RUNNING\<rparr> else task_at s t),
     timer_queue := None\<rparr>"

lemma wake_up_queue:
  assumes "queue s ws"
  shows "wait_wake_up_interruptible s = Some (wake_all (set ws) s)"
proof -
  have "wake_loop p s = Some (wake_all (set ws) s)"
    if "lseg (wnext s) p ws None" "p = timer_queue s" for p s
    using that
  proof (induction ws arbitrary: p s)
    case Nil
    then show ?case by (subst wake_loop.simps) (simp add: wake_all_def)
  next
    case (Cons w ws)
    let ?s = "(upd_task (w_task (wait_at s w)) (\<lambda>k. k\<lparr>t_state := TASK_RUNNING\<rparr>) s)\<lparr>timer_queue := wnext s w\<rparr>"
    have "wake_loop p s = wake_loop (timer_queue ?s) ?s"
      using Cons.prems by (subst wake_loop.simps) (simp add: Let_def)
    also have "\<dots> = Some (wake_all (set ws) ?s)" using Cons.prems by (intro Cons.IH) simp_all
    also have "wake_all (set ws) ?s = wake_all (set (w # ws)) s"
    proof -
      have "task_at (wake_all (set ws) ?s) = task_at (wake_all (set (w # ws)) s)"
        by (auto simp: wake_all_def fun_eq_iff)
      then show ?thesis by (simp add: wake_all_def upd_task_def)
    qed
    finally show ?case .
  qed
  with assms show ?thesis by (simp add: wait_wake_up_interruptible_def queue_def)
qed

text \<open>An element that points to itself keeps the wake-up loop from ending.\<close>

lemma wake_up_cycle:
  assumes "timer_queue s = Some w" and "wnext s w = Some w"
  shows "wait_wake_up_interruptible s = None"
proof -
  have "\<not> (p = Some w \<and> wnext s w = Some w)" if returned: "wake_loop p s = Some s'" for p s s'
    by (rule wake_loop.raw_induct [where P = "\<lambda>p s s'. \<not> (p = Some w \<and> wnext s w = Some w)", OF _ returned])
      (fastforce simp: Let_def split: option.splits)
  with assms show ?thesis unfolding wait_wake_up_interruptible_def by (metis not_Some_eq)
qed

lemma remove_head:
  assumes "timer_queue s = Some w"
  shows "wait_remove_from_queue w s = Some (s\<lparr>timer_queue := wnext s w\<rparr>)"
  using assms by (simp add: wait_remove_from_queue_def wait_remove_loop.simps [of w None "Some w"])

lemma remove_empty: "timer_queue s = None \<Longrightarrow> wait_remove_from_queue w s = Some s"
  by (simp add: wait_remove_from_queue_def wait_remove_loop.simps [of w None None])

lemma remove_other_diverges:
  assumes "timer_queue s = Some v" and "v \<noteq> w"
  shows "wait_remove_from_queue w s = None"
proof -
  have "c = None \<or> c = Some u" if returned: "wait_remove_loop u prev c s = Some s'" for u prev c s s'
    by (rule wait_remove_loop.raw_induct [where P = "\<lambda>u prev c s s'. c = None \<or> c = Some u", OF _ returned])
      (fastforce split: option.splits if_splits)
  with assms show ?thesis unfolding wait_remove_from_queue_def
    by (metis not_Some_eq option.inject option.distinct(1))
qed

lemma prepare_queue:
  assumes "queue s ws" and "w \<notin> set ws" and "running_task s = Some t"
  shows "wait_prepare_to_wait w st s =
      ret (wait_add_to_queue w (upd_task t (\<lambda>k. k\<lparr>t_state := st\<rparr>) s))"
    and "queue (wait_add_to_queue w (upd_task t (\<lambda>k. k\<lparr>t_state := st\<rparr>) s)) (w # ws)"
proof -
  show "wait_prepare_to_wait w st s = ret (wait_add_to_queue w (upd_task t (\<lambda>k. k\<lparr>t_state := st\<rparr>) s))"
    using assms(3) by (simp add: wait_prepare_to_wait_def task_set_state_def)
  have "wnext (wait_add_to_queue w s') = (wnext s')(w := timer_queue s')" for s'
    by (auto simp: wait_add_to_queue_def)
  then show "queue (wait_add_to_queue w (upd_task t (\<lambda>k. k\<lparr>t_state := st\<rparr>) s)) (w # ws)"
    using assms(1,2) by (simp add: queue_def) (simp add: wait_add_to_queue_def)
qed

section \<open>Switching tasks\<close>

lemma yield_ring:
  assumes "ring s ts" and "running_task s = Some r" and "r \<in> set ts"
  shows "scheduler_yield s = (case find (runnable s) (after ts r) of
     None \<Rightarrow> ret s
   | Some n \<Rightarrow> ret (task_switch r n (s\<lparr>running_task := Some n\<rparr>)))"
proof -
  have "n \<noteq> r" if "find (runnable s) (after ts r) = Some n" for n
  proof -
    obtain xs ys where ts: "ts = xs @ r # ys" using assms(3) by (auto simp: in_set_conv_decomp)
    then have "r \<notin> set (after ts r)" using assms(1) by (auto simp: ring_def after_split)
    then show ?thesis using that by (auto simp: find_Some_iff in_set_conv_nth)
  qed
  with next_running_ring [OF assms(1,3)] assms(2) show ?thesis
    by (auto simp: scheduler_yield_def split: option.splits)
qed

lemma ring_switch: "ring (task_switch r n (s\<lparr>running_task := x\<rparr>)) ts \<longleftrightarrow> ring s ts"
  by (simp add: ring_def)

lemma tasks_remove_regs:
  "tasks_remove t s = ret s' \<Longrightarrow> t_regs (task_at s' u) = t_regs (task_at s u)"
  by (auto simp: tasks_remove_def Let_def split: if_splits option.splits)

lemma exit_ring:
  assumes "ring s ts" and "running_task s = Some r" and "r \<in> set ts" and "ts \<noteq> [r]"
  shows "\<exists>s' n. scheduler_exit s = ret s' \<and> n = hd (after ts r) \<and> n \<in> set ts \<and> n \<noteq> r \<and> running_task s' = Some n \<and>
    ring s' (remove1 r ts) \<and> wait_at s' = wait_at s \<and> timer_queue s' = timer_queue s \<and> jiffies s' = jiffies s \<and>
    (\<forall>u. t_state (task_at s' u) = t_state (task_at s u)) \<and> cpu s' = t_regs (task_at s n) \<and>
    (\<forall>u. u \<noteq> r \<longrightarrow> t_regs (task_at s' u) = t_regs (task_at s u))"
proof -
  obtain xs ys where ts: "ts = xs @ r # ys" using assms(3) by (auto simp: in_set_conv_decomp)
  have d: "r \<notin> set xs" "r \<notin> set ys" using assms(1) ts by (auto simp: ring_def)
  have ne: "ys @ xs \<noteq> []" using assms(4) ts by auto
  obtain n where n: "tnext s r = Some n" "n = hd (ys @ xs)"
    using ring_after [OF assms(1) [unfolded ts]] ne by (cases "ys @ xs") auto
  have "n \<in> set (ys @ xs)" unfolding n(2) by (rule hd_in_set [OF ne])
  then have nr: "n \<noteq> r" "n \<in> set ts" using d ts by auto
  have "ring (s\<lparr>running_task := Some n\<rparr>) ts" using assms(1) by (simp add: ring_def)
  from tasks_remove_ring [OF this assms(3,4)] obtain s1 where rm: "tasks_remove r (s\<lparr>running_task := Some n\<rparr>) = ret s1" and s1:
      "ring s1 (remove1 r ts)" "running_task s1 = Some n" "wait_at s1 = wait_at s" "timer_queue s1 = timer_queue s"
      "jiffies s1 = jiffies s" "\<forall>u. t_state (task_at s1 u) = t_state (task_at s u)" by auto
  have "cpu (task_switch r n s1) = t_regs (task_at s n)" "\<forall>u. u \<noteq> r \<longrightarrow> t_regs (task_at (task_switch r n s1) u) = t_regs (task_at s u)"
    using tasks_remove_regs [OF rm] nr(1) by (simp_all add: task_switch_def Let_def)
  with rm s1 show ?thesis using assms(2) n nr ts d
    by (intro exI [of _ "task_switch r n s1"] exI [of _ n]) (simp add: scheduler_exit_def ring_def after_split)
qed

text \<open>\<open>k\<close> calls of \<open>scheduler_yield\<close>, each by the task that runs at that moment.\<close>

fun yields :: "nat \<Rightarrow> sched \<Rightarrow> sched run" where
  "yields 0 s = ret s"
| "yields (Suc k) s = run_bind (scheduler_yield s) (yields k)"

lemma after_nth:
  assumes "distinct ts" and "i < length ts" and "length ts > 1"
  shows "hd (after ts (ts ! i)) = ts ! (Suc i mod length ts)" and "after ts (ts ! i) \<noteq> []"
proof -
  have ts: "ts = take i ts @ ts ! i # drop (Suc i) ts" using assms(2) by (rule id_take_nth_drop)
  have "ts ! i \<notin> set (take i ts)" using assms by (metis ts distinct_append not_distinct_conv_prefix)
  then have a: "after ts (ts ! i) = drop (Suc i) ts @ take i ts" by (metis after_split ts)
  show "after ts (ts ! i) \<noteq> []" using a assms by auto
  show "hd (after ts (ts ! i)) = ts ! (Suc i mod length ts)"
  proof (cases "Suc i = length ts")
    case True
    moreover have "ts \<noteq> []" using assms by auto
    ultimately show ?thesis using a assms by (simp add: hd_conv_nth)
  next
    case False
    then show ?thesis using a assms by (simp add: hd_append hd_drop_conv_nth)
  qed
qed

lemma yield_runnable:
  assumes "ring s ts" and "\<forall>t \<in> set ts. runnable s t" and "i < length ts" and "running_task s = Some (ts ! i)"
  shows "\<exists>s'. scheduler_yield s = ret s' \<and> ring s' ts \<and> (\<forall>t \<in> set ts. runnable s' t) \<and>
    running_task s' = Some (ts ! (Suc i mod length ts))"
proof (cases "length ts > 1")
  case False
  then have i: "length ts = 1" "i = 0" using assms(3) by linarith+
  then obtain t where ts: "ts = [t]" by (auto simp: length_Suc_conv)
  then have "after ts (ts ! i) = []" using i by (simp add: after_def)
  then have "scheduler_yield s = ret s" using yield_ring [OF assms(1,4)] assms(3) by simp
  then show ?thesis using assms i by simp
next
  case True
  have d: "distinct ts" using assms(1) by (simp add: ring_def)
  note a = after_nth [OF d assms(3) True]
  let ?n = "hd (after ts (ts ! i))"
  have "?n \<in> set ts" unfolding a(1) using True by (intro nth_mem mod_less_divisor) auto
  then have "find (runnable s) (after ts (ts ! i)) = Some ?n"
    using a(2) assms(2) by (cases "after ts (ts ! i)") auto
  then have "scheduler_yield s = ret (task_switch (ts ! i) ?n (s\<lparr>running_task := Some ?n\<rparr>))"
    using yield_ring [OF assms(1,4)] assms(3) by simp
  then show ?thesis using assms(1,2) a(1) by (simp add: ring_switch runnable_def)
qed

text \<open>A ring of three runnable tasks, the second of which runs.\<close>

definition three_tasks :: sched where
  "three_tasks = \<lparr>cpu = no_regs,
     task_at = (\<lambda>t. \<lparr>t_regs = no_regs\<lparr>eip := of_nat t\<rparr>, t_next = Some (if t = 1 then 2 else if t = 2 then 3 else 1),
       t_name = [], t_state = TASK_RUNNING\<rparr>),
     tasks = Some 1, tasks_tail = Some 3, running_task = Some 2,
     wait_at = (\<lambda>_. \<lparr>w_next = None, w_task = 0\<rparr>), timer_queue = None, jiffies = 0\<rparr>"

lemma three_tasks: "ring three_tasks [1, 2, 3]" "running_task three_tasks = Some 2"
    "\<forall>t \<in> set [1, 2, 3]. runnable three_tasks t"
  by (simp_all add: ring_def three_tasks_def runnable_def)

section \<open>Properties\<close>

text \<open>C14: \<open>scheduler_yield\<close> hands the processor to the first \<open>TASK_RUNNING\<close> task after the current one
  in the ring, saves the register file in the current task and loads that of the new one, and keeps
  the ring; when no other task is runnable it returns without a switch.\<close>

theorem scheduler_yield_correct:
  assumes "ring s ts" and "running_task s = Some r" and "r \<in> set ts"
  shows "(\<exists>n s'. find (runnable s) (after ts r) = Some n \<and> n \<noteq> r \<and> scheduler_yield s = ret s' \<and>
      running_task s' = Some n \<and> t_regs (task_at s' r) = cpu s \<and> cpu s' = t_regs (task_at s n) \<and> ring s' ts) \<or>
    (find (runnable s) (after ts r) = None \<and> scheduler_yield s = ret s)"
proof (cases "find (runnable s) (after ts r)")
  case None
  then show ?thesis using yield_ring [OF assms] by simp
next
  case (Some n)
  have "n \<noteq> r"
  proof -
    obtain xs ys where ts: "ts = xs @ r # ys" using assms(3) by (auto simp: in_set_conv_decomp)
    then have "r \<notin> set (after ts r)" using assms(1) by (auto simp: ring_def after_split)
    then show ?thesis using Some by (auto simp: find_Some_iff in_set_conv_nth)
  qed
  let ?s = "task_switch r n (s\<lparr>running_task := Some n\<rparr>)"
  have "t_regs (task_at ?s r) = cpu s" "cpu ?s = t_regs (task_at s n)"
    using \<open>n \<noteq> r\<close> by (simp_all add: task_switch_def Let_def)
  then show ?thesis using Some yield_ring [OF assms] \<open>n \<noteq> r\<close> assms(1) by (simp add: ring_switch)
qed

text \<open>C15: The scheduler is a round robin: with every task of the ring runnable, \<open>k\<close> calls of
  \<open>scheduler_yield\<close> hand the processor to the task \<open>k\<close> places further on, so that every task gets
  it within as many yields as there are tasks.\<close>

theorem yield_round_robin:
  assumes "ring s ts" and "\<forall>t \<in> set ts. runnable s t" and "i < length ts" and "running_task s = Some (ts ! i)"
  shows "\<exists>s'. yields k s = ret s' \<and> ring s' ts \<and> running_task s' = Some (ts ! ((i + k) mod length ts))"
  using assms
proof (induction k arbitrary: s i)
  case 0
  then show ?case by simp
next
  case (Suc k)
  let ?j = "Suc i mod length ts"
  obtain s1 where s1: "scheduler_yield s = ret s1" "ring s1 ts" "\<forall>t \<in> set ts. runnable s1 t" "running_task s1 = Some (ts ! ?j)"
    using yield_runnable [OF Suc.prems] by blast
  have "?j < length ts" using Suc.prems(3) by (cases ts) simp_all
  from Suc.IH [OF s1(2,3) this s1(4)] s1(1) show ?case by (simp add: mod_simps)
qed

lemma create_thread_ring:
  assumes "ring s ts" and "t \<notin> set ts"
  shows "\<exists>s1. scheduler_create_thread (Some t) stack name ep s = ret s1 \<and> ring s1 (ts @ [t]) \<and> runnable s1 t \<and>
    eip (t_regs (task_at s1 t)) = ep \<and> esp (t_regs (task_at s1 t)) = stack + 4096 \<and> running_task s1 = running_task s \<and>
    (\<forall>u. u \<noteq> t \<longrightarrow> runnable s1 u = runnable s u \<and> t_regs (task_at s1 u) = t_regs (task_at s u)) \<and> timer_queue s1 = timer_queue s"
proof -
  let ?regs = "\<lparr>eax = 0, ebx = 0, ecx = 0, edx = 0, esi = 0, edi = 0, esp = stack + 4096,
         ebp = ebp (t_regs (task_at s t)), eip = ep, eflags = eflags (cpu s), cr3_reg = cr3_reg (cpu s)\<rparr>"
  let ?s = "upd_task t (\<lambda>_. \<lparr>t_regs = ?regs, t_next = None, t_name = name, t_state = TASK_RUNNING\<rparr>) s"
  have r: "ring ?s ts" using assms by (intro ring_cong [OF assms(1)]) auto
  obtain us l where ts: "ts = us @ [l]" using assms(1) by (cases ts rule: rev_cases) (auto simp: ring_def)
  obtain s1 where s1: "tasks_insert t ?s = ret s1" "ring s1 (ts @ [t])" "running_task s1 = running_task ?s"
      "\<forall>u. t_state (task_at s1 u) = t_state (task_at ?s u)"
    using tasks_insert_ring [OF r assms(2)] by blast
  have regs: "t_regs (task_at s1 u) = t_regs (task_at ?s u)" for u
  proof -
    have "l \<noteq> t" "tasks_tail ?s = Some l" using assms ts by (auto simp: ring_def)
    then show ?thesis using s1(1) by (auto simp: tasks_insert_def Let_def)
  qed
  have "timer_queue s1 = timer_queue s" using s1(1) by (auto simp: tasks_insert_def Let_def split: option.splits)
  moreover have "scheduler_create_thread (Some t) stack name ep s = ret s1"
    using s1(1) by (simp add: scheduler_create_thread_def task_inherit_def upd_task_def)
  ultimately show ?thesis using s1 regs by (intro exI [of _ s1]) (simp add: runnable_def)
qed

text \<open>Creating a thread appends a runnable task with the given entry point and stack to the ring, and
  the exit of the running task removes it again; when the new thread is the one that exits, the ring
  is as before and the task that followed it runs.\<close>

theorem create_thread_then_exit:
  assumes "ring s ts" and "running_task s = Some r" and "r \<in> set ts" and "t \<notin> set ts"
  shows "\<exists>s1 s2. scheduler_create_thread (Some t) stack name ep s = ret s1 \<and> ring s1 (ts @ [t]) \<and> runnable s1 t \<and>
      eip (t_regs (task_at s1 t)) = ep \<and> esp (t_regs (task_at s1 t)) = stack + 4096 \<and> running_task s1 = Some r \<and>
    scheduler_exit (s1\<lparr>running_task := Some t\<rparr>) = ret s2 \<and> ring s2 ts \<and> running_task s2 = Some (hd ts)"
proof -
  obtain s1 where s1: "scheduler_create_thread (Some t) stack name ep s = ret s1" "ring s1 (ts @ [t])" "runnable s1 t"
    "eip (t_regs (task_at s1 t)) = ep" "esp (t_regs (task_at s1 t)) = stack + 4096" "running_task s1 = Some r"
    using create_thread_ring [OF assms(1,4)] assms(2) by metis
  have "ring (s1\<lparr>running_task := Some t\<rparr>) (ts @ [t])" using s1(2) by (simp add: ring_def)
  moreover have "ts @ [t] \<noteq> [t]" using assms(3) by auto
  ultimately obtain s2 n where "scheduler_exit (s1\<lparr>running_task := Some t\<rparr>) = ret s2" "n = hd (after (ts @ [t]) t)"
      "running_task s2 = Some n" "ring s2 (remove1 t (ts @ [t]))"
    using exit_ring [of "s1\<lparr>running_task := Some t\<rparr>" "ts @ [t]" t] by auto
  moreover have "after (ts @ [t]) t = ts" using after_split [OF assms(4), of "[]"] by simp
  moreover have "remove1 t (ts @ [t]) = ts" using assms(4) by (simp add: remove1_append)
  ultimately show ?thesis using s1 by (intro exI [of _ s1] exI [of _ s2]) simp
qed

text \<open>C16: \<open>wait_remove_from_queue\<close> returns only when the element to remove is the first of the queue or
  the queue is empty: its loop never moves on to the next element, so for every other element it
  spins forever, with interrupts disabled.\<close>

theorem wait_remove_returns_iff:
  "(\<exists>s'. wait_remove_from_queue w s = Some s') \<longleftrightarrow> timer_queue s = None \<or> timer_queue s = Some w"
proof (cases "timer_queue s")
  case None
  then show ?thesis by (simp add: remove_empty)
next
  case (Some v)
  then show ?thesis by (cases "v = w") (simp_all add: remove_head remove_other_diverges)
qed

text \<open>Preparing twice to wait with the same element, as the wait loop does when \<open>scheduler_yield\<close>
  comes back without the task having been woken, closes the queue to a cycle: the next timer
  interrupt never returns from \<open>wait_wake_up_interruptible\<close>.\<close>

theorem prepare_twice_hangs_timer:
  assumes "running_task s = Some t"
  shows "\<exists>s1 s2. wait_prepare_to_wait w TASK_INTERRUPTIBLE s = ret s1 \<and>
    wait_prepare_to_wait w TASK_INTERRUPTIBLE s1 = ret s2 \<and> timer_handler s2 = None"
proof -
  let ?p = "\<lambda>s. wait_add_to_queue w (upd_task t (\<lambda>k. k\<lparr>t_state := TASK_INTERRUPTIBLE\<rparr>) s)"
  have p: "wait_prepare_to_wait w TASK_INTERRUPTIBLE s = ret (?p s)" if "running_task s = Some t" for s
    using that by (simp add: wait_prepare_to_wait_def task_set_state_def)
  have run: "running_task (?p s) = Some t" using assms by (simp add: wait_add_to_queue_def)
  let ?s2 = "(?p (?p s))\<lparr>jiffies := jiffies (?p (?p s)) + 1\<rparr>"
  have "timer_queue ?s2 = Some w" "wnext ?s2 w = Some w" by (simp_all add: wait_add_to_queue_def)
  then have "timer_handler (?p (?p s)) = None"
    by (simp add: timer_handler_def scheduler_timer_def wake_up_cycle)
  with p [OF assms] p [OF run] show ?thesis by blast
qed

text \<open>\<open>scheduler_exit\<close> continues with the next task of the ring whatever its state: a task that sleeps
  in the timer queue is resumed although nothing has woken it. Only when the exiting task is alone
  does it panic.\<close>

theorem scheduler_exit_ignores_state:
  assumes "ring s ts" and "running_task s = Some r" and "r \<in> set ts"
  shows "if ts = [r] then scheduler_exit s = goes_wrong (Panic ''SHUTDOWN'')
    else \<exists>s'. scheduler_exit s = ret s' \<and> running_task s' = Some (hd (after ts r)) \<and> ring s' (remove1 r ts) \<and>
      (\<forall>u. t_state (task_at s' u) = t_state (task_at s u)) \<and> timer_queue s' = timer_queue s"
proof (cases "ts = [r]")
  case True
  then have "tnext s r = Some r" using assms(1) by (simp add: ring_def)
  with True assms(2) show ?thesis by (simp add: scheduler_exit_def)
next
  case False
  then show ?thesis using exit_ring [OF assms False] by auto
qed

theorem scheduler_yield_correct_witness:
  "\<exists>s'. scheduler_yield three_tasks = ret s' \<and> running_task s' = Some 3 \<and> eip (cpu s') = 3"
  using scheduler_yield_correct [OF three_tasks(1,2)]
  by (auto simp: after_def three_tasks_def runnable_def)

theorem yield_round_robin_witness:
  "\<exists>s'. yields 5 three_tasks = ret s' \<and> running_task s' = Some 1"
  using yield_round_robin [OF three_tasks(1,3), of 1 5] three_tasks(2) by auto

theorem create_thread_then_exit_witness:
  "\<exists>s1 s2. scheduler_create_thread (Some 7) 0xC0200000 ''kash'' 0xC0101234 three_tasks = ret s1 \<and> ring s1 [1, 2, 3, 7] \<and>
    scheduler_exit (s1\<lparr>running_task := Some 7\<rparr>) = ret s2 \<and> ring s2 [1, 2, 3] \<and> running_task s2 = Some 1"
  using create_thread_then_exit [OF three_tasks(1,2), of 7 "0xC0200000" "''kash''" "0xC0101234"] by auto

theorem prepare_twice_hangs_timer_witness:
  "\<exists>s1 s2. wait_prepare_to_wait 9 TASK_INTERRUPTIBLE three_tasks = ret s1 \<and>
    wait_prepare_to_wait 9 TASK_INTERRUPTIBLE s1 = ret s2 \<and> timer_handler s2 = None"
  using prepare_twice_hangs_timer [OF three_tasks(2)] .

theorem scheduler_exit_ignores_state_witness:
  "\<exists>s'. scheduler_exit three_tasks = ret s' \<and> running_task s' = Some 3 \<and> ring s' [1, 3]"
  using scheduler_exit_ignores_state [OF three_tasks(1,2)] by (auto simp: after_def)

end
