(* ===== verification/Sched_System.thy ===== *)
theory Sched_System
  imports Tasks
begin

text \<open>
  Tasks and the timer interrupt together. A task runs kernel code until it yields or sleeps;
  \<open>scheduler_sleep\<close> is the macro \<open>WAIT_EVENT_INTERRUPTIBLE\<close> of \<^verbatim>\<open>scheduler/wait.h\<close>, cut into the
  pieces between which the timer interrupt can strike or another task can run. Each task waits
  with an element of its own (the local variable \<open>_wq\<close>), here at the address of the task. The idle
  task that \<^verbatim>\<open>kernel.c\<close> creates only yields. The lemmas show, by induction over all interleavings,
  that no call hangs and that every tick makes all sleepers runnable.
\<close>

section \<open>The system\<close>

text \<open>Where a task is in \<open>scheduler_sleep\<close>: outside, before \<open>wait_prepare_to_wait\<close>, behind it. The
  numbers are \<open>sleep_start\<close> and \<open>ms\<close>.\<close>

datatype phase = Active | Loop u64 u64 | Prepared u64 u64

record sys =
  sch :: sched
  phase_of :: "tptr \<Rightarrow> phase"

datatype event = Tick | Yield | Sleep u64 | Go | Spawn tptr string u32 u32

definition elapsed :: "sched \<Rightarrow> u64 \<Rightarrow> u64 \<Rightarrow> bool" where
  "elapsed s start ms \<longleftrightarrow> timer_range_to_ms start (ucast (jiffies s)) \<ge> ms"

text \<open>\<open>scheduler_sleep\<close> up to the loop of the macro.\<close>

definition sleep_begin :: "sched \<Rightarrow> tptr \<Rightarrow> u64 \<Rightarrow> (sched \<times> phase) run" where
  "sleep_begin s r ms =
     (let start = ucast (jiffies s)
      in if elapsed s start ms then ret (s, Active)
         else run_bind (wait_init r s) (\<lambda>s. ret (s, Loop start ms)))"

text \<open>One piece of the loop.\<close>

definition sleep_go :: "sched \<Rightarrow> tptr \<Rightarrow> phase \<Rightarrow> (sched \<times> phase) run" where
  "sleep_go s r ph = (case ph of
     Active \<Rightarrow> ret (s, Active)
   | Loop start ms \<Rightarrow> run_bind (wait_prepare_to_wait r TASK_INTERRUPTIBLE s) (\<lambda>s. ret (s, Prepared start ms))
   | Prepared start ms \<Rightarrow>
       if elapsed s start ms then run_bind (wait_finish r s) (\<lambda>s. ret (s, Active))
       else if task_signal_pending (running_task s) = 0 then
         run_bind (scheduler_yield s) (\<lambda>s. ret (s, Loop start ms))
       else ret (s, Loop start ms))"

definition sys_step :: "event \<Rightarrow> sys \<Rightarrow> sys run" where
  "sys_step e y = (let s = sch y in case running_task s of
     None \<Rightarrow> goes_wrong Null_pointer
   | Some r \<Rightarrow> (case e of
       Tick \<Rightarrow> map_option (\<lambda>s. Inr (y\<lparr>sch := s\<rparr>)) (timer_handler s)
     | Yield \<Rightarrow> run_bind (scheduler_yield s) (\<lambda>s. ret (y\<lparr>sch := s\<rparr>))
     | Sleep ms \<Rightarrow> run_bind (sleep_begin s r ms) (\<lambda>(s, ph). ret (y\<lparr>sch := s, phase_of := (phase_of y)(r := ph)\<rparr>))
     | Go \<Rightarrow> run_bind (sleep_go s r (phase_of y r)) (\<lambda>(s, ph). ret (y\<lparr>sch := s, phase_of := (phase_of y)(r := ph)\<rparr>))
     | Spawn t name ep stack \<Rightarrow> run_bind (scheduler_create_thread (Some t) stack name ep s) (\<lambda>s.
         ret (y\<lparr>sch := s, phase_of := (phase_of y)(t := Active)\<rparr>))))"

text \<open>What can happen next: the timer at any time, the running task according to where it is. The
  idle task \<open>idle\<close> never sleeps; a new task gets a fresh address.\<close>

definition enabled :: "tptr \<Rightarrow> tptr list \<Rightarrow> sys \<Rightarrow> event \<Rightarrow> bool" where
  "enabled idle ts y e = (case running_task (sch y) of
     None \<Rightarrow> False
   | Some r \<Rightarrow> (case e of
       Tick \<Rightarrow> True
     | Yield \<Rightarrow> phase_of y r = Active
     | Sleep ms \<Rightarrow> phase_of y r = Active \<and> r \<noteq> idle
     | Go \<Rightarrow> phase_of y r \<noteq> Active
     | Spawn t name ep stack \<Rightarrow> phase_of y r = Active \<and> t \<notin> set ts))"

definition ring_after_event :: "tptr list \<Rightarrow> event \<Rightarrow> tptr list" where
  "ring_after_event ts e = (case e of Spawn t _ _ _ \<Rightarrow> ts @ [t] | _ \<Rightarrow> ts)"

definition sys_init :: "tptr \<Rightarrow> tptr list \<Rightarrow> sys \<Rightarrow> bool" where
  "sys_init idle ts y \<longleftrightarrow> ring (sch y) ts \<and> idle \<in> set ts \<and> (\<exists>r \<in> set ts. running_task (sch y) = Some r) \<and>
     timer_queue (sch y) = None \<and> (\<forall>t \<in> set ts. runnable (sch y) t \<and> phase_of y t = Active)"

inductive reach :: "tptr \<Rightarrow> tptr list \<Rightarrow> sys \<Rightarrow> bool" for idle :: tptr where
  init: "sys_init idle ts y \<Longrightarrow> reach idle ts y"
| step: "reach idle ts y \<Longrightarrow> enabled idle ts y e \<Longrightarrow> sys_step e y = ret y' \<Longrightarrow> reach idle (ring_after_event ts e) y'"

section \<open>The invariant\<close>

definition prepared :: "phase \<Rightarrow> bool" where
  "prepared ph \<longleftrightarrow> (\<exists>start ms. ph = Prepared start ms)"

definition sys_inv :: "tptr \<Rightarrow> tptr list \<Rightarrow> sys \<Rightarrow> wptr list \<Rightarrow> tptr \<Rightarrow> bool" where
  "sys_inv idle ts y ws r \<longleftrightarrow> ring (sch y) ts \<and> running_task (sch y) = Some r \<and> r \<in> set ts \<and>
     idle \<in> set ts \<and> phase_of y idle = Active \<and> queue (sch y) ws \<and>
     set ws = {t \<in> set ts. \<not> runnable (sch y) t} \<and>
     (\<forall>t \<in> set ts. phase_of y t \<noteq> Active \<longrightarrow> w_task (wait_at (sch y) t) = t) \<and>
     (\<forall>t \<in> set ts. phase_of y t = Active \<longrightarrow> runnable (sch y) t) \<and>
     (\<forall>t \<in> set ts. prepared (phase_of y t) \<longrightarrow> t = r) \<and>
     (\<not> prepared (phase_of y r) \<longrightarrow> runnable (sch y) r) \<and>
     (prepared (phase_of y r) \<longrightarrow> ws = [] \<or> hd ws = r)"

lemma sys_invI:
  assumes "ring (sch y) ts" and "running_task (sch y) = Some r" and "r \<in> set ts"
    and "idle \<in> set ts" and "phase_of y idle = Active" and "queue (sch y) ws"
    and "\<And>t. t \<in> set ws \<longleftrightarrow> t \<in> set ts \<and> \<not> runnable (sch y) t"
    and "\<And>t. t \<in> set ts \<Longrightarrow> phase_of y t \<noteq> Active \<Longrightarrow> w_task (wait_at (sch y) t) = t"
    and "\<And>t. t \<in> set ts \<Longrightarrow> phase_of y t = Active \<Longrightarrow> runnable (sch y) t"
    and "\<And>t. t \<in> set ts \<Longrightarrow> prepared (phase_of y t) \<Longrightarrow> t = r"
    and "\<not> prepared (phase_of y r) \<Longrightarrow> runnable (sch y) r"
    and "prepared (phase_of y r) \<Longrightarrow> ws = [] \<or> hd ws = r"
  shows "sys_inv idle ts y ws r"
  using assms unfolding sys_inv_def by blast

lemma sys_invD:
  assumes "sys_inv idle ts y ws r"
  shows "ring (sch y) ts" and "running_task (sch y) = Some r" and "r \<in> set ts"
    and "idle \<in> set ts" and "phase_of y idle = Active" and "queue (sch y) ws"
    and "\<And>t. t \<in> set ws \<longleftrightarrow> t \<in> set ts \<and> \<not> runnable (sch y) t"
    and "\<And>t. t \<in> set ts \<Longrightarrow> phase_of y t \<noteq> Active \<Longrightarrow> w_task (wait_at (sch y) t) = t"
    and "\<And>t. t \<in> set ts \<Longrightarrow> phase_of y t = Active \<Longrightarrow> runnable (sch y) t"
    and "\<And>t. t \<in> set ts \<Longrightarrow> prepared (phase_of y t) \<Longrightarrow> t = r"
    and "\<not> prepared (phase_of y r) \<Longrightarrow> runnable (sch y) r"
    and "prepared (phase_of y r) \<Longrightarrow> ws = [] \<or> hd ws = r"
  using assms unfolding sys_inv_def by blast+

lemma prepared_simps [simp]: "\<not> prepared Active" "\<not> prepared (Loop a b)" "prepared (Prepared a b)"
  by (simp_all add: prepared_def)

lemma queue_cong: "timer_queue s' = timer_queue s \<Longrightarrow> (\<And>w. w \<in> set ws \<Longrightarrow> wnext s' w = wnext s w) \<Longrightarrow> queue s' ws = queue s ws"
  using lseg_cong [of ws "wnext s'" "wnext s"] by (simp add: queue_def)

lemma step_tick:
  assumes "sys_inv idle ts y ws r"
  shows "\<exists>y'. sys_step Tick y = ret y' \<and> sys_inv idle ts y' [] r \<and> (\<forall>t \<in> set ts. runnable (sch y') t) \<and>
    jiffies (sch y') = jiffies (sch y) + 1"
proof -
  let ?s = "(sch y)\<lparr>jiffies := jiffies (sch y) + 1\<rparr>"
  let ?s' = "wake_all (set ws) ?s"
  have inv: "ring (sch y) ts" "running_task (sch y) = Some r" "queue (sch y) ws" "set ws = {t \<in> set ts. \<not> runnable (sch y) t}"
    "\<forall>t \<in> set ts. phase_of y t \<noteq> Active \<longrightarrow> w_task (wait_at (sch y) t) = t"
    "\<forall>t \<in> set ts. phase_of y t = Active \<longrightarrow> runnable (sch y) t"
    using assms by (auto simp: sys_inv_def)
  have "queue ?s ws" using inv(3) by (simp add: queue_def)
  then have step: "sys_step Tick y = ret (y\<lparr>sch := ?s'\<rparr>)"
    using inv(2) by (simp add: sys_step_def Let_def timer_handler_def scheduler_timer_def wake_up_queue)
  have own: "w_task (wait_at (sch y) w) = w" if "w \<in> set ws" for w using that inv(4-6) by blast
  have run: "runnable ?s' t" if "t \<in> set ts" for t
  proof (cases "t \<in> set ws")
    case True
    then have "t \<in> (\<lambda>w. w_task (wait_at (sch y) w)) ` set ws" using own by force
    then show ?thesis by (simp add: runnable_def wake_all_def)
  next
    case False
    then show ?thesis using that inv(4) by (simp add: runnable_def wake_all_def)
  qed
  moreover have "tnext ?s' = tnext (sch y)" by (auto simp: wake_all_def)
  then have "ring ?s' ts" using inv(1) by (intro ring_cong [OF inv(1)]) (simp_all add: wake_all_def)
  moreover have "queue ?s' []" by (simp add: queue_def wake_all_def)
  ultimately have "sys_inv idle ts (y\<lparr>sch := ?s'\<rparr>) [] r"
    using assms by (auto simp: sys_inv_def wake_all_def)
  moreover have "jiffies ?s' = jiffies (sch y) + 1" by (simp add: wake_all_def)
  ultimately show ?thesis using step run by (intro exI [of _ "y\<lparr>sch := ?s'\<rparr>"]) simp
qed

text \<open>A yield of the running task, which may wait, to a runnable task; \<open>ph\<close> is its next phase.\<close>

lemma step_yield:
  assumes inv: "sys_inv idle ts y ws r" and ph: "\<not> prepared ph" "phase_of y r = Active \<longleftrightarrow> ph = Active"
  shows "\<exists>s' n. scheduler_yield (sch y) = ret s' \<and> sys_inv idle ts (y\<lparr>sch := s', phase_of := (phase_of y)(r := ph)\<rparr>) ws n \<and>
    jiffies s' = jiffies (sch y)"
proof -
  let ?s = "sch y"
  note i = sys_invD [OF inv]
  obtain xs ys where ts: "ts = xs @ r # ys" using i(3) by (auto simp: in_set_conv_decomp)
  then have aft: "set (after ts r) = set ts - {r}" using i(1) by (auto simp: ring_def after_split)
  show ?thesis
  proof (cases "find (runnable ?s) (after ts r)")
    case None
    then have alone: "\<not> runnable ?s t" if "t \<in> set ts" "t \<noteq> r" for t using aft that by (auto simp: find_None_iff)
    have "idle = r" using alone i(4) i(9) [OF i(4,5)] by metis
    then have "(phase_of y)(r := ph) = phase_of y" using i(5) ph(2) by auto
    then have "sys_inv idle ts (y\<lparr>sch := ?s, phase_of := (phase_of y)(r := ph)\<rparr>) ws r" using inv by simp
    then show ?thesis using None yield_ring [OF i(1-3)] by auto
  next
    case (Some n)
    let ?s' = "task_switch r n (?s\<lparr>running_task := Some n\<rparr>)"
    let ?y = "y\<lparr>sch := ?s', phase_of := (phase_of y)(r := ph)\<rparr>"
    have n: "n \<in> set ts" "n \<noteq> r" "runnable ?s n" using find_SomeD [OF Some] aft by auto
    have st: "runnable ?s' t = runnable ?s t" for t by (simp add: runnable_def)
    have "sys_inv idle ts ?y ws n"
    proof (rule sys_invI)
      show "ring (sch ?y) ts" using i(1) by (simp add: ring_switch)
      show "queue (sch ?y) ws" using i(6) by (simp add: queue_def)
      show "t \<in> set ws \<longleftrightarrow> t \<in> set ts \<and> \<not> runnable (sch ?y) t" for t using i(7) st by simp
      show "phase_of ?y idle = Active" using i(5) ph(2) by auto
      show "w_task (wait_at (sch ?y) t) = t" if "t \<in> set ts" "phase_of ?y t \<noteq> Active" for t
        using that i(8) [of t] ph(2) by (auto split: if_splits)
      show "runnable (sch ?y) t" if "t \<in> set ts" "phase_of ?y t = Active" for t
        using that i(9) [of t] ph(2) st by (auto split: if_splits)
      show "t = n" if "t \<in> set ts" "prepared (phase_of ?y t)" for t
        using that i(10) [of t] ph(1) by (auto split: if_splits)
      show "runnable (sch ?y) n" using n st by simp
      show "ws = [] \<or> hd ws = n" if "prepared (phase_of ?y n)" using that n i(10) [of n] by simp
    qed (use n i(4) in simp_all)
    then show ?thesis using Some yield_ring [OF i(1-3)] by auto
  qed
qed

lemma step_sleep:
  assumes inv: "sys_inv idle ts y ws r" and a: "phase_of y r = Active" "r \<noteq> idle"
  shows "\<exists>s' ph. sleep_begin (sch y) r ms = ret (s', ph) \<and>
    sys_inv idle ts (y\<lparr>sch := s', phase_of := (phase_of y)(r := ph)\<rparr>) ws r \<and> jiffies s' = jiffies (sch y)"
proof -
  let ?s = "sch y" and ?ph = "Loop (ucast (jiffies (sch y))) ms"
  let ?w = "upd_wait r (\<lambda>_. \<lparr>w_next = None, w_task = r\<rparr>) ?s"
  let ?y = "y\<lparr>sch := ?w, phase_of := (phase_of y)(r := ?ph)\<rparr>"
  note i = sys_invD [OF inv]
  have r: "runnable ?s r" using i(3,9) a(1) by blast
  then have "r \<notin> set ws" using i(7) by blast
  then have q: "queue ?w ws" using i(6) by (subst queue_cong [of _ ?s]) (auto split: if_splits)
  have st: "runnable ?w t = runnable ?s t" for t by (simp add: runnable_def)
  have "sys_inv idle ts ?y ws r"
  proof (rule sys_invI)
    show "ring (sch ?y) ts" using i(1) by (simp add: ring_def)
    show "t \<in> set ws \<longleftrightarrow> t \<in> set ts \<and> \<not> runnable (sch ?y) t" for t using i(7) st by simp
    show "w_task (wait_at (sch ?y) t) = t" if "t \<in> set ts" "phase_of ?y t \<noteq> Active" for t
      using that i(8) [of t] by (auto split: if_splits)
    show "runnable (sch ?y) t" if "t \<in> set ts" "phase_of ?y t = Active" for t
      using that i(9) [of t] st by (auto split: if_splits)
    show "t = r" if "t \<in> set ts" "prepared (phase_of ?y t)" for t
      using that i(10) [of t] by (auto split: if_splits)
  qed (use i(2-5) a q r st in simp_all)
  moreover have "(phase_of y)(r := Active) = phase_of y" using a(1) by auto
  then have "sys_inv idle ts (y\<lparr>sch := ?s, phase_of := (phase_of y)(r := Active)\<rparr>) ws r" using inv by simp
  ultimately show ?thesis using i(2) by (simp add: sleep_begin_def wait_init_def Let_def)
qed

lemma step_prepare:
  assumes inv: "sys_inv idle ts y ws r" and ph: "phase_of y r = Loop start ms"
  shows "\<exists>s'. wait_prepare_to_wait r TASK_INTERRUPTIBLE (sch y) = ret s' \<and>
    sys_inv idle ts (y\<lparr>sch := s', phase_of := (phase_of y)(r := Prepared start ms)\<rparr>) (r # ws) r \<and> jiffies s' = jiffies (sch y)"
proof -
  let ?s = "sch y"
  let ?s' = "wait_add_to_queue r (upd_task r (\<lambda>k. k\<lparr>t_state := TASK_INTERRUPTIBLE\<rparr>) ?s)"
  let ?y = "y\<lparr>sch := ?s', phase_of := (phase_of y)(r := Prepared start ms)\<rparr>"
  note i = sys_invD [OF inv]
  have r: "runnable ?s r" "idle \<noteq> r" using i(5,11) ph by auto
  then have "r \<notin> set ws" using i(7) by blast
  note p = prepare_queue [OF i(6) this i(2), of TASK_INTERRUPTIBLE]
  have st: "runnable ?s' t \<longleftrightarrow> t \<noteq> r \<and> runnable ?s t" for t by (simp add: runnable_def wait_add_to_queue_def)
  have wt: "w_task (wait_at ?s' t) = w_task (wait_at ?s t)" for t by (simp add: wait_add_to_queue_def)
  have "sys_inv idle ts ?y (r # ws) r"
  proof (rule sys_invI)
    show "ring (sch ?y) ts" by (rule ring_cong [OF i(1)]) (simp_all add: wait_add_to_queue_def)
    show "running_task (sch ?y) = Some r" using i(2) by (simp add: wait_add_to_queue_def)
    show "queue (sch ?y) (r # ws)" using p(2) by simp
    show "t \<in> set (r # ws) \<longleftrightarrow> t \<in> set ts \<and> \<not> runnable (sch ?y) t" for t using i(3,7) st by auto
    show "w_task (wait_at (sch ?y) t) = t" if "t \<in> set ts" "phase_of ?y t \<noteq> Active" for t
      using that i(8) [of t] ph wt by (auto split: if_splits)
    show "runnable (sch ?y) t" if "t \<in> set ts" "phase_of ?y t = Active" for t
      using that i(9) [of t] st by (auto split: if_splits)
    show "t = r" if "t \<in> set ts" "prepared (phase_of ?y t)" for t
      using that i(10) [of t] by (auto split: if_splits)
  qed (use i(3-5) r in simp_all)
  then show ?thesis using p(1) by (intro exI [of _ ?s']) (simp add: wait_add_to_queue_def)
qed

lemma step_finish:
  assumes inv: "sys_inv idle ts y ws r" and ph: "phase_of y r = Prepared start ms"
  shows "\<exists>s' ws'. wait_finish r (sch y) = ret s' \<and>
    sys_inv idle ts (y\<lparr>sch := s', phase_of := (phase_of y)(r := Active)\<rparr>) ws' r \<and> jiffies s' = jiffies (sch y)"
proof -
  let ?s = "upd_task r (\<lambda>k. k\<lparr>t_state := TASK_RUNNING\<rparr>) (sch y)"
  note i = sys_invD [OF inv]
  have hd: "ws = [] \<or> hd ws = r" using i(12) ph by simp
  have q: "queue ?s ws" using i(6) by (simp add: queue_def)
  define s' where "s' = (if ws = [] then ?s else ?s\<lparr>timer_queue := wnext ?s r\<rparr>)"
  have fin: "wait_finish r (sch y) = ret s'"
  proof (cases ws)
    case Nil
    then have "timer_queue ?s = None" using q by (simp add: queue_def)
    then show ?thesis using i(2) Nil by (simp add: wait_finish_def task_set_state_def remove_empty s'_def)
  next
    case (Cons w vs)
    then have "timer_queue ?s = Some r" using q hd by (simp add: queue_def)
    then show ?thesis using i(2) Cons by (simp add: wait_finish_def task_set_state_def remove_head s'_def)
  qed
  have "distinct ws" using i(6) lseg_None_distinct unfolding queue_def by blast
  then have set: "t \<in> set (tl ws) \<longleftrightarrow> t \<in> set ws \<and> t \<noteq> r" for t using hd i(3,7,12) ph by (cases ws) auto
  have q': "queue s' (tl ws)" using q hd by (cases ws) (simp_all add: queue_def s'_def)
  have sel: "task_at s' = task_at ?s" "wait_at s' = wait_at (sch y)" "tasks s' = tasks ?s" "tasks_tail s' = tasks_tail ?s"
    "running_task s' = Some r" using i(2) by (simp_all add: s'_def)
  have st: "runnable s' t \<longleftrightarrow> t = r \<or> runnable (sch y) t" for t by (simp add: runnable_def sel)
  let ?y = "y\<lparr>sch := s', phase_of := (phase_of y)(r := Active)\<rparr>"
  have "sys_inv idle ts ?y (tl ws) r"
  proof (rule sys_invI)
    show "ring (sch ?y) ts" by (rule ring_cong [OF i(1)]) (simp_all add: sel)
    show "t \<in> set (tl ws) \<longleftrightarrow> t \<in> set ts \<and> \<not> runnable (sch ?y) t" for t using i(7) set st by auto
    show "w_task (wait_at (sch ?y) t) = t" if "t \<in> set ts" "phase_of ?y t \<noteq> Active" for t
      using that i(8) [of t] sel by (auto split: if_splits)
    show "runnable (sch ?y) t" if "t \<in> set ts" "phase_of ?y t = Active" for t
      using that i(9) [of t] st by (auto split: if_splits)
    show "t = r" if "t \<in> set ts" "prepared (phase_of ?y t)" for t
      using that i(10) [of t] by (auto split: if_splits)
  qed (use i(3-5) q' sel st in simp_all)
  moreover have "jiffies s' = jiffies (sch y)" by (simp add: s'_def)
  ultimately show ?thesis using fin by blast
qed

lemma step_spawn:
  assumes inv: "sys_inv idle ts y ws r" and t: "t \<notin> set ts"
  shows "\<exists>s'. scheduler_create_thread (Some t) stack name ep (sch y) = ret s' \<and>
    sys_inv idle (ts @ [t]) (y\<lparr>sch := s', phase_of := (phase_of y)(t := Active)\<rparr>) ws r \<and> jiffies s' = jiffies (sch y)"
proof -
  note i = sys_invD [OF inv]
  define s1 where "s1 = fst (projr (the (task_inherit (Some t) name ep (stack + 4096) (sch y))))"
  have s1: "task_inherit (Some t) name ep (stack + 4096) (sch y) = ret (s1, t)"
      "running_task s1 = Some r" "wait_at s1 = wait_at (sch y)" "timer_queue s1 = timer_queue (sch y)" "runnable s1 t" "jiffies s1 = jiffies (sch y)"
      "\<And>u. u \<noteq> t \<Longrightarrow> runnable s1 u = runnable (sch y) u"
    using i(2) by (simp_all add: s1_def task_inherit_def runnable_def)
  have r1: "ring s1 ts"
    using t by (intro ring_cong [OF i(1)]) (auto simp: s1_def task_inherit_def)
  obtain s' where s': "tasks_insert t s1 = ret s'" "ring s' (ts @ [t])" "running_task s' = Some r"
      "wait_at s' = wait_at (sch y)" "timer_queue s' = timer_queue (sch y)" "\<And>u. runnable s' u = runnable s1 u" "jiffies s' = jiffies (sch y)"
    using tasks_insert_ring [OF r1 t] s1(2-4,6) by (auto simp: runnable_def)
  let ?y = "y\<lparr>sch := s', phase_of := (phase_of y)(t := Active)\<rparr>"
  have tw: "t \<notin> set ws" using t i(7) by blast
  have st: "runnable s' u \<longleftrightarrow> u = t \<or> runnable (sch y) u" for u using s1(5,7) s'(6) by (cases "u = t") auto
  have ne: "r \<noteq> t" "idle \<noteq> t" using i(3,4) t by auto
  have "sys_inv idle (ts @ [t]) ?y ws r"
  proof (rule sys_invI)
    show "queue (sch ?y) ws" using i(6) s'(4,5) by (simp add: queue_def)
    show "u \<in> set ws \<longleftrightarrow> u \<in> set (ts @ [t]) \<and> \<not> runnable (sch ?y) u" for u using i(7) st tw by auto
    show "w_task (wait_at (sch ?y) u) = u" if "u \<in> set (ts @ [t])" "phase_of ?y u \<noteq> Active" for u
      using that i(8) [of u] s'(4) by (auto split: if_splits)
    show "runnable (sch ?y) u" if "u \<in> set (ts @ [t])" "phase_of ?y u = Active" for u
      using that i(9) [of u] st by (auto split: if_splits)
    show "u = r" if "u \<in> set (ts @ [t])" "prepared (phase_of ?y u)" for u
      using that i(10) [of u] by (auto split: if_splits)
    show "runnable (sch ?y) r" if "\<not> prepared (phase_of ?y r)" using that i(11) ne st by simp
    show "ws = [] \<or> hd ws = r" if "prepared (phase_of ?y r)" using that i(12) ne by simp
  qed (use i(3-5) s' ne in simp_all)
  then show ?thesis using s1(1) s'(1,7) by (simp add: scheduler_create_thread_def)
qed

section \<open>All interleavings\<close>

lemma step_inv:
  assumes inv: "sys_inv idle ts y ws r" and en: "enabled idle ts y e"
  shows "\<exists>y' ws' r'. sys_step e y = ret y' \<and> sys_inv idle (ring_after_event ts e) y' ws' r' \<and>
    jiffies (sch y') = jiffies (sch y) + (if e = Tick then 1 else 0)"
proof (cases e)
  case Tick
  then show ?thesis using step_tick [OF inv] by (simp add: ring_after_event_def) blast
next
  case Yield
  have a: "phase_of y r = Active" using en Yield sys_invD(2) [OF inv] by (simp add: enabled_def)
  then have "(phase_of y)(r := Active) = phase_of y" by auto
  with step_yield [OF inv, of Active] a obtain s' n where "scheduler_yield (sch y) = ret s'" "sys_inv idle ts (y\<lparr>sch := s'\<rparr>) ws n"
    "jiffies s' = jiffies (sch y)" by auto
  then show ?thesis using Yield sys_invD(2) [OF inv]
    by (intro exI [of _ "y\<lparr>sch := s'\<rparr>"] exI [of _ ws] exI [of _ n]) (simp add: sys_step_def Let_def ring_after_event_def)
next
  case (Sleep ms)
  have "phase_of y r = Active" "r \<noteq> idle" using en Sleep sys_invD(2) [OF inv] by (simp_all add: enabled_def)
  from step_sleep [OF inv this, of ms] obtain s' ph where "sleep_begin (sch y) r ms = ret (s', ph)"
    "sys_inv idle ts (y\<lparr>sch := s', phase_of := (phase_of y)(r := ph)\<rparr>) ws r" "jiffies s' = jiffies (sch y)" by blast
  then show ?thesis using Sleep sys_invD(2) [OF inv]
    by (intro exI [of _ "y\<lparr>sch := s', phase_of := (phase_of y)(r := ph)\<rparr>"] exI [of _ ws] exI [of _ r])
      (simp add: sys_step_def Let_def ring_after_event_def)
next
  case Go
  have active: "phase_of y r \<noteq> Active" using en Go sys_invD(2) [OF inv] by (simp add: enabled_def)
  have "\<exists>s' ph ws' r'. sleep_go (sch y) r (phase_of y r) = ret (s', ph) \<and>
      sys_inv idle ts (y\<lparr>sch := s', phase_of := (phase_of y)(r := ph)\<rparr>) ws' r' \<and> jiffies s' = jiffies (sch y)"
  proof (cases "phase_of y r")
    case (Loop start ms)
    from step_prepare [OF inv Loop] obtain s' where
      "wait_prepare_to_wait r TASK_INTERRUPTIBLE (sch y) = ret s'"
      "sys_inv idle ts (y\<lparr>sch := s', phase_of := (phase_of y)(r := Prepared start ms)\<rparr>) (r # ws) r"
      "jiffies s' = jiffies (sch y)" by blast
    then show ?thesis using Loop
      by (intro exI [of _ s'] exI [of _ "Prepared start ms"] exI [of _ "r # ws"] exI [of _ r]) (simp add: sleep_go_def)
  next
    case (Prepared start ms)
    show ?thesis
    proof (cases "elapsed (sch y) start ms")
      case True
      from step_finish [OF inv Prepared] obtain s' ws' where "wait_finish r (sch y) = ret s'"
        "sys_inv idle ts (y\<lparr>sch := s', phase_of := (phase_of y)(r := Active)\<rparr>) ws' r" "jiffies s' = jiffies (sch y)" by blast
      then show ?thesis using Prepared True
        by (intro exI [of _ s'] exI [of _ Active] exI [of _ ws'] exI [of _ r]) (simp add: sleep_go_def)
    next
      case False
      from step_yield [OF inv, of "Loop start ms"] Prepared obtain s' n where "scheduler_yield (sch y) = ret s'"
        "sys_inv idle ts (y\<lparr>sch := s', phase_of := (phase_of y)(r := Loop start ms)\<rparr>) ws n" "jiffies s' = jiffies (sch y)" by auto
      then show ?thesis using Prepared False
        by (intro exI [of _ s'] exI [of _ "Loop start ms"] exI [of _ ws] exI [of _ n]) (simp add: sleep_go_def task_signal_pending_def)
    qed
  qed (use active in simp)
  then obtain s' ph ws' r' where "sleep_go (sch y) r (phase_of y r) = ret (s', ph)"
    "sys_inv idle ts (y\<lparr>sch := s', phase_of := (phase_of y)(r := ph)\<rparr>) ws' r'" "jiffies s' = jiffies (sch y)" by blast
  then show ?thesis using Go sys_invD(2) [OF inv]
    by (intro exI [of _ "y\<lparr>sch := s', phase_of := (phase_of y)(r := ph)\<rparr>"] exI [of _ ws'] exI [of _ r'])
      (simp add: sys_step_def Let_def ring_after_event_def)
next
  case (Spawn t name ep stack)
  have "t \<notin> set ts" using en Spawn sys_invD(2) [OF inv] by (simp add: enabled_def)
  from step_spawn [OF inv this, of stack name ep] obtain s' where "scheduler_create_thread (Some t) stack name ep (sch y) = ret s'"
    "sys_inv idle (ts @ [t]) (y\<lparr>sch := s', phase_of := (phase_of y)(t := Active)\<rparr>) ws r" "jiffies s' = jiffies (sch y)" by blast
  then show ?thesis using Spawn sys_invD(2) [OF inv]
    by (intro exI [of _ "y\<lparr>sch := s', phase_of := (phase_of y)(t := Active)\<rparr>"] exI [of _ ws] exI [of _ r])
      (simp add: sys_step_def Let_def ring_after_event_def)
qed

lemma reach_inv: "reach idle ts y \<Longrightarrow> \<exists>ws r. sys_inv idle ts y ws r"
proof (induction rule: reach.induct)
  case (init ts y)
  then obtain r where "r \<in> set ts" "running_task (sch y) = Some r" by (auto simp: sys_init_def)
  then have "sys_inv idle ts y [] r" using init by (intro sys_invI) (auto simp: sys_init_def queue_def)
  then show ?case by blast
next
  case (step ts y e y')
  then obtain ws r where "sys_inv idle ts y ws r" by blast
  from step_inv [OF this step.hyps(2)] step.hyps(3) show ?case by auto
qed

section \<open>Time\<close>

lemma unat_jiffies: "unat (ucast (j :: u32) :: u64) = unat j"
proof -
  have "unat j < 2 ^ 64" using unat_u32 [of j] by simp
  then show ?thesis by (simp add: unsigned_ucast_eq take_bit_nat_eq_self)
qed

lemma range_forward:
  assumes "unat start \<le> unat (j :: u32)"
  shows "unat (timer_range_to_ms start (ucast j)) = 5 * (unat j - unat start)"
proof -
  let ?d = "unat j - unat start"
  have d: "?d < 4294967296" using unat_u32 [of j] by simp
  have "unat (ucast j - start) = ?d"
    using assms by (subst unat_sub) (simp_all add: word_le_nat_alt unat_jiffies)
  then have "unat ((ucast j - start) * 1000) = ?d * 1000"
    using d by (subst unat_word_ariths(2)) simp
  then show ?thesis
    by (simp add: timer_range_to_ms_def ticks_to_ms_def HZ_def unat_div)
qed

lemma range_wrapped:
  assumes "unat (j :: u32) < unat start" and "unat start < 2 ^ 32"
  shows "2 ^ 56 \<le> unat (timer_range_to_ms start (ucast j))"
proof -
  let ?k = "unat start - unat j"
  have k: "0 < ?k" "?k < 4294967296" using assms by simp_all
  have "unat (ucast j - start) = 18446744073709551616 - ?k"
    using assms unat_jiffies [of j] by (subst unat_sub_if_size) (simp add: word_size)
  then have t: "unat ((ucast j - start) * 1000) = (18446744073709551616 - ?k) * 1000 mod 18446744073709551616"
    by (subst unat_word_ariths(2)) simp
  also have "\<dots> = 18446744073709551616 - 1000 * ?k"
  proof -
    have "(18446744073709551616 - ?k) * 1000 = (18446744073709551616 - 1000 * ?k) + 18446744073709551616 * 999"
      using k by (simp add: diff_mult_distrib)
    then have "(18446744073709551616 - ?k) * 1000 mod 18446744073709551616 = (18446744073709551616 - 1000 * ?k) mod 18446744073709551616"
      by (simp only: mod_mult_self2)
    then show ?thesis using k by simp
  qed
  finally have "unat ((ucast j - start) * 1000) \<ge> 18446739778742255616" using k by linarith
  then have "unat ((ucast j - start) * 1000) div 200 \<ge> 72057594037927936"
    by (simp add: less_eq_div_iff_mult_less_eq)
  then show ?thesis by (simp add: timer_range_to_ms_def ticks_to_ms_def HZ_def unat_div)
qed

section \<open>Histories\<close>

text \<open>\<open>history idle ts y es ts' y'\<close>: from \<open>y\<close> the events \<open>es\<close>, each of them possible when it happened, led to \<open>y'\<close>.\<close>

inductive history :: "tptr \<Rightarrow> tptr list \<Rightarrow> sys \<Rightarrow> event list \<Rightarrow> tptr list \<Rightarrow> sys \<Rightarrow> bool" for idle ts y where
  start: "history idle ts y [] ts y"
| more: "history idle ts y es ts' y' \<Longrightarrow> enabled idle ts' y' e \<Longrightarrow> sys_step e y' = ret y'' \<Longrightarrow>
    history idle ts y (es @ [e]) (ring_after_event ts' e) y''"

lemma history_reach: "history idle ts y es ts' y' \<Longrightarrow> reach idle ts y \<Longrightarrow> reach idle ts' y'"
  by (induction rule: history.induct) (auto intro: reach.step)

lemma reach_step:
  assumes "reach idle ts y" and "enabled idle ts y e" and "sys_step e y = ret y'"
  shows "jiffies (sch y') = jiffies (sch y) + (if e = Tick then 1 else 0)"
proof -
  obtain ws r where "sys_inv idle ts y ws r" using reach_inv [OF assms(1)] by blast
  from step_inv [OF this assms(2)] assms(3) show ?thesis by auto
qed

definition asleep :: "u64 \<Rightarrow> u64 \<Rightarrow> phase \<Rightarrow> bool" where
  "asleep start ms ph \<longleftrightarrow> ph = Loop start ms \<or> ph = Prepared start ms"

text \<open>One event: a task stays in its call of \<open>scheduler_sleep\<close> or leaves it because the time has elapsed.\<close>

lemma asleep_step:
  assumes "enabled idle ts y e" and "sys_step e y = ret y'" and "asleep start ms (phase_of y r)" and "r \<in> set ts"
  shows "asleep start ms (phase_of y' r) \<or> elapsed (sch y) start ms"
proof -
  obtain u where u: "running_task (sch y) = Some u" using assms(2) by (cases "running_task (sch y)") (auto simp: sys_step_def Let_def)
  show ?thesis
  proof (cases "e = Go \<and> u = r")
    case True
    then show ?thesis using assms(2,3) u
      by (auto simp: sys_step_def asleep_def sleep_go_def task_signal_pending_def run_bind_ret_iff split: if_splits)
  next
    case False
    have "phase_of y' r = phase_of y r"
    proof (cases e)
      case Tick
      then show ?thesis using assms(2) u by (auto simp: sys_step_def)
    next
      case (Sleep n)
      then have "u \<noteq> r" using assms(1,3) u by (auto simp: enabled_def asleep_def)
      then show ?thesis using assms(2) u Sleep by (auto simp: sys_step_def run_bind_ret_iff)
    next
      case (Spawn t name ep stack)
      then have "t \<noteq> r" using assms(1,4) u by (auto simp: enabled_def)
      then show ?thesis using assms(2) u Spawn by (auto simp: sys_step_def run_bind_ret_iff)
    qed (use assms(2) u False in \<open>auto simp: sys_step_def run_bind_ret_iff\<close>)
    then show ?thesis using assms(3) by simp
  qed
qed

lemma ring_after_mono: "set ts \<subseteq> set (ring_after_event ts e)"
  by (cases e) (auto simp: ring_after_event_def)

text \<open>As long as the tick counter does not wrap around, a task that was put to sleep at \<open>y\<close> is still asleep, or enough ticks have come.\<close>

lemma history_asleep:
  assumes "history idle ts y es ts' y'" and "reach idle ts y" and "asleep (ucast (jiffies (sch y))) ms (phase_of y r)" and "r \<in> set ts"
    and "unat (jiffies (sch y)) + count_list es Tick < 2 ^ 32"
  shows "unat (jiffies (sch y')) = unat (jiffies (sch y)) + count_list es Tick \<and> r \<in> set ts' \<and>
    (asleep (ucast (jiffies (sch y))) ms (phase_of y' r) \<or> unat ms \<le> 5 * count_list es Tick)"
  using assms
proof (induction rule: history.induct)
  case start
  then show ?case by simp
next
  case (more es ts' y' e y'')
  let ?j = "jiffies (sch y)"
  have count: "count_list (es @ [e]) Tick = count_list es Tick + (if e = Tick then 1 else 0)" by simp
  have IH: "unat (jiffies (sch y')) = unat ?j + count_list es Tick" "r \<in> set ts'"
    "asleep (ucast ?j) ms (phase_of y' r) \<or> unat ms \<le> 5 * count_list es Tick"
    using more.IH [OF more.prems(1-3)] more.prems(4) count by auto
  have j: "jiffies (sch y'') = jiffies (sch y') + (if e = Tick then 1 else 0)"
    using reach_step [OF history_reach [OF more.hyps(1) more.prems(1)] more.hyps(2,3)] .
  have "unat (jiffies (sch y'')) = unat ?j + count_list (es @ [e]) Tick"
  proof (cases "e = Tick")
    case True
    have "unat (jiffies (sch y') + 1) = unat (jiffies (sch y')) + 1"
      using IH(1) more.prems(4) count True by (subst unat_add_small) simp_all
    then show ?thesis using j IH(1) True count by simp
  qed (use j IH(1) count in simp)
  moreover have "r \<in> set (ring_after_event ts' e)" using IH(2) ring_after_mono by blast
  moreover have "asleep (ucast ?j) ms (phase_of y'' r) \<or> unat ms \<le> 5 * count_list (es @ [e]) Tick"
  proof (cases "asleep (ucast ?j) ms (phase_of y' r)")
    case True
    from asleep_step [OF more.hyps(2,3) True IH(2)] show ?thesis
    proof
      assume "elapsed (sch y') (ucast ?j) ms"
      then show ?thesis using range_forward [of "ucast ?j" "jiffies (sch y')"] IH(1) count
        by (simp add: elapsed_def word_le_nat_alt unat_jiffies)
    qed simp
  next
    case False
    then show ?thesis using IH(3) count by auto
  qed
  ultimately show ?case by blast
qed

lemma sleep_call:
  assumes "running_task (sch y) = Some r" and "sys_step (Sleep ms) y = ret y0"
  shows "asleep (ucast (jiffies (sch y0))) ms (phase_of y0 r) \<or> ms = 0"
proof (cases "elapsed (sch y) (ucast (jiffies (sch y))) ms")
  case True
  then have "ms = 0" using range_forward [of "ucast (jiffies (sch y))" "jiffies (sch y)"]
    by (simp add: elapsed_def word_le_nat_alt unat_jiffies unat_eq_zero)
  then show ?thesis ..
next
  case False
  then show ?thesis using assms by (auto simp: sys_step_def Let_def sleep_begin_def wait_init_def asleep_def)
qed

section \<open>Properties\<close>

text \<open>C12: In every interleaving of tasks that yield, sleep and create threads with the timer interrupt,
  starting from a ring of runnable tasks with an idle task that never sleeps, no call of the
  scheduler, of the wait queues or of the timer handler hangs or dereferences a null pointer:
  whatever can happen next returns.\<close>

theorem sched_never_hangs:
  assumes "reach idle ts y" and "enabled idle ts y e"
  shows "\<exists>y'. sys_step e y = ret y' \<and> reach idle (ring_after_event ts e) y'"
proof -
  obtain ws r where "sys_inv idle ts y ws r" using reach_inv [OF assms(1)] by blast
  from step_inv [OF this assms(2)] obtain y' where "sys_step e y = ret y'" by blast
  with reach.step [OF assms] show ?thesis by blast
qed

text \<open>C13: Nobody sleeps past a tick: in every reachable state the timer handler returns, leaves the
  timer queue empty and every task of the ring runnable.\<close>

theorem tick_wakes_every_sleeper:
  assumes "reach idle ts y"
  shows "\<exists>y'. sys_step Tick y = ret y' \<and> timer_queue (sch y') = None \<and> (\<forall>t \<in> set ts. runnable (sch y') t) \<and>
    ring (sch y') ts"
proof -
  obtain ws r where inv: "sys_inv idle ts y ws r" using reach_inv [OF assms] by blast
  obtain y' where "sys_step Tick y = ret y'" "sys_inv idle ts y' [] r" "\<forall>t \<in> set ts. runnable (sch y') t"
    using step_tick [OF inv] by blast
  then show ?thesis using sys_invD(1,6) [of idle ts y' "[]" r] by (auto simp: queue_def)
qed

text \<open>C17: Nobody wakes up early while the tick counter does not wrap around. When a task of a reachable system calls
  \<open>scheduler_sleep (ms)\<close> and any events follow, in which the counter of ticks does not overflow, the task is outside
  the call again only if at least \<open>ms / 5\<close> ticks have come since the call, that is \<open>ms\<close> milliseconds at five milliseconds per tick.\<close>

theorem sleep_lasts_long_enough:
  assumes "reach idle ts y" and "running_task (sch y) = Some r" and "enabled idle ts y (Sleep ms)" and "sys_step (Sleep ms) y = ret y0"
    and "history idle ts y0 es ts' y'" and "unat (jiffies (sch y)) + count_list es Tick < 2 ^ 32" and "phase_of y' r = Active"
  shows "unat ms \<le> 5 * count_list es Tick"
proof -
  have y0: "reach idle ts y0" "jiffies (sch y0) = jiffies (sch y)"
    using reach.step [OF assms(1,3,4)] reach_step [OF assms(1,3,4)] by (simp_all add: ring_after_event_def)
  have r: "r \<in> set ts" using reach_inv [OF assms(1)] assms(2) by (auto simp: sys_inv_def)
  from sleep_call [OF assms(2,4)] show ?thesis
  proof
    assume a: "asleep (ucast (jiffies (sch y0))) ms (phase_of y0 r)"
    have "unat (jiffies (sch y0)) + count_list es Tick < 2 ^ 32" using assms(6) y0(2) by simp
    from history_asleep [OF assms(5) y0(1) a r this] assms(7) show ?thesis by (simp add: asleep_def)
  qed simp
qed

text \<open>When the 32-bit tick counter has wrapped around since a task went to sleep, the elapsed time is
  computed as more than \<open>2^56\<close> milliseconds, and the sleep ends at once however long it should last.\<close>

theorem jiffies_wrap_ends_sleep:
  assumes "unat (jiffies s) < unat start" and "unat start < 2 ^ 32" and "unat ms \<le> 2 ^ 56"
  shows "elapsed s start ms"
  using range_wrapped [OF assms(1,2)] assms(3) by (simp add: elapsed_def word_le_nat_alt)

section \<open>Witnesses\<close>

definition three_sys :: sys where
  "three_sys = \<lparr>sch = three_tasks, phase_of = (\<lambda>_. Active)\<rparr>"

lemma three_sys: "reach 1 [1, 2, 3] three_sys"
  using three_tasks by (intro reach.init) (auto simp: sys_init_def three_sys_def three_tasks_def)

theorem sched_never_hangs_witness:
  "\<exists>y'. sys_step (Sleep 20) three_sys = ret y' \<and> reach 1 [1, 2, 3] y'"
  using sched_never_hangs [OF three_sys, of "Sleep 20"]
  by (simp add: enabled_def ring_after_event_def three_sys_def three_tasks_def)

text \<open>The second of the three tasks asks for ten milliseconds and goes as far as \<open>wait_prepare_to_wait\<close>.\<close>

definition sleepy_sys :: sys where
  "sleepy_sys = \<lparr>sch = wait_add_to_queue 2 (upd_task 2 (\<lambda>k. k\<lparr>t_state := TASK_INTERRUPTIBLE\<rparr>)
     (upd_wait 2 (\<lambda>_. \<lparr>w_next = None, w_task = 2\<rparr>) three_tasks)), phase_of = (\<lambda>_. Active)(2 := Prepared 0 10)\<rparr>"

lemma sleepy_steps:
  "sys_step (Sleep 10) three_sys = ret (three_sys\<lparr>sch := upd_wait 2 (\<lambda>_. \<lparr>w_next = None, w_task = 2\<rparr>) three_tasks, phase_of := (\<lambda>_. Active)(2 := Loop 0 10)\<rparr>)"
  "sys_step Go (three_sys\<lparr>sch := upd_wait 2 (\<lambda>_. \<lparr>w_next = None, w_task = 2\<rparr>) three_tasks, phase_of := (\<lambda>_. Active)(2 := Loop 0 10)\<rparr>) = ret sleepy_sys"
proof -
  have e: "\<not> elapsed three_tasks 0 10"
    using range_forward [of 0 0] by (simp add: elapsed_def word_le_nat_alt three_tasks_def)
  have r: "running_task three_tasks = Some 2" "jiffies three_tasks = 0" by (simp_all add: three_tasks_def)
  show "sys_step (Sleep 10) three_sys = ret (three_sys\<lparr>sch := upd_wait 2 (\<lambda>_. \<lparr>w_next = None, w_task = 2\<rparr>) three_tasks, phase_of := (\<lambda>_. Active)(2 := Loop 0 10)\<rparr>)"
    using e r by (simp add: sys_step_def sleep_begin_def three_sys_def wait_init_def Let_def)
  show "sys_step Go (three_sys\<lparr>sch := upd_wait 2 (\<lambda>_. \<lparr>w_next = None, w_task = 2\<rparr>) three_tasks, phase_of := (\<lambda>_. Active)(2 := Loop 0 10)\<rparr>) = ret sleepy_sys"
    by (simp add: sys_step_def sleep_go_def three_sys_def sleepy_sys_def Let_def wait_prepare_to_wait_def task_set_state_def three_tasks_def)
qed

lemma sleepy_sys: "reach 1 [1, 2, 3] sleepy_sys" "\<not> runnable (sch sleepy_sys) 2"
proof -
  have "enabled 1 [1, 2, 3] three_sys (Sleep 10)" by (simp add: enabled_def three_sys_def three_tasks_def)
  from reach.step [OF three_sys this sleepy_steps(1)]
  have one: "reach 1 [1, 2, 3] (three_sys\<lparr>sch := upd_wait 2 (\<lambda>_. \<lparr>w_next = None, w_task = 2\<rparr>) three_tasks, phase_of := (\<lambda>_. Active)(2 := Loop 0 10)\<rparr>)"
    by (simp add: ring_after_event_def)
  from reach.step [OF this _ sleepy_steps(2)] show "reach 1 [1, 2, 3] sleepy_sys"
    by (simp add: ring_after_event_def enabled_def three_tasks_def)
  show "\<not> runnable (sch sleepy_sys) 2" by (simp add: sleepy_sys_def runnable_def wait_add_to_queue_def)
qed

theorem tick_wakes_every_sleeper_witness:
  "\<exists>y'. \<not> runnable (sch sleepy_sys) 2 \<and> sys_step Tick sleepy_sys = ret y' \<and> timer_queue (sch y') = None \<and> runnable (sch y') 2"
  using tick_wakes_every_sleeper [OF sleepy_sys(1)] sleepy_sys(2) by auto

text \<open>Two ticks later the task leaves the loop.\<close>

theorem sleep_lasts_long_enough_witness:
  "\<exists>y0 y'. sys_step (Sleep 10) three_sys = ret y0 \<and> history 1 [1, 2, 3] y0 [Go, Tick, Tick, Go] [1, 2, 3] y' \<and> phase_of y' 2 = Active \<and>
    unat (10 :: u64) \<le> 5 * count_list [Go, Tick, Tick, Go] Tick"
proof -
  define y0 where "y0 = three_sys\<lparr>sch := upd_wait 2 (\<lambda>_. \<lparr>w_next = None, w_task = 2\<rparr>) three_tasks, phase_of := (\<lambda>_. Active)(2 := Loop 0 10)\<rparr>"
  have ts: "ring_after_event [1, 2, 3] Go = [1, 2, 3]" "ring_after_event [1, 2, 3] Tick = [1, 2, 3]" by (simp_all add: ring_after_event_def)
  have en0: "enabled 1 [1, 2, 3] three_sys (Sleep 10)" "enabled 1 [1, 2, 3] y0 Go" "running_task (sch three_sys) = Some 2"
    by (simp_all add: enabled_def three_sys_def three_tasks_def y0_def)
  have h1: "history 1 [1, 2, 3] y0 [Go] [1, 2, 3] sleepy_sys"
    using history.more [OF history.start en0(2), of sleepy_sys] sleepy_steps(2) ts by (simp add: y0_def)
  have run: "sys_inv 1 [1, 2, 3] sleepy_sys ws r \<Longrightarrow> r = 2" for ws r
    by (auto simp: sys_inv_def sleepy_sys_def wait_add_to_queue_def three_tasks_def)
  obtain ws where "sys_inv 1 [1, 2, 3] sleepy_sys ws 2" using reach_inv [OF sleepy_sys(1)] run by metis
  from step_tick [OF this] obtain y1 where y1: "sys_step Tick sleepy_sys = ret y1" "sys_inv 1 [1, 2, 3] y1 [] 2" "jiffies (sch y1) = jiffies (sch sleepy_sys) + 1" by blast
  from step_tick [OF y1(2)] obtain y2 where y2: "sys_step Tick y1 = ret y2" "sys_inv 1 [1, 2, 3] y2 [] 2" "jiffies (sch y2) = jiffies (sch y1) + 1" by blast
  have tick: "phase_of v = phase_of u" if "sys_step Tick u = ret v" for u v
    using that by (auto simp: sys_step_def Let_def split: option.splits)
  have ph: "phase_of y2 2 = Prepared 0 10" using tick [OF y1(1)] tick [OF y2(1)] by (simp add: sleepy_sys_def)
  have j: "jiffies (sch y2) = 2" using y1(3) y2(3) by (simp add: sleepy_sys_def wait_add_to_queue_def three_tasks_def)
  have "elapsed (sch y2) 0 10" using range_forward [of 0 2] j by (simp add: elapsed_def word_le_nat_alt)
  with step_finish [OF y2(2) ph] obtain y' where y': "sys_step Go y2 = ret y'" "phase_of y' 2 = Active"
    using ph sys_invD(2) [OF y2(2)] by (auto simp: sys_step_def Let_def sleep_go_def)
  have en: "enabled 1 [1, 2, 3] sleepy_sys Tick" "enabled 1 [1, 2, 3] y1 Tick" "enabled 1 [1, 2, 3] y2 Go"
    using sys_invD(2) [OF \<open>sys_inv 1 [1, 2, 3] sleepy_sys ws 2\<close>] sys_invD(2) [OF y1(2)] sys_invD(2) [OF y2(2)] ph by (simp_all add: enabled_def)
  have h: "history 1 [1, 2, 3] y0 [Go, Tick, Tick, Go] [1, 2, 3] y'"
    using history.more [OF history.more [OF history.more [OF h1 en(1) y1(1)], unfolded ts, OF en(2) y2(1)], unfolded ts, OF en(3) y'(1)] ts by simp
  have "unat (jiffies (sch three_sys)) + count_list [Go, Tick, Tick, Go] Tick < 2 ^ 32" by (simp add: three_sys_def three_tasks_def)
  from sleep_lasts_long_enough [OF three_sys en0(3,1) sleepy_steps(1) [folded y0_def] h this y'(2)] h y'(2) sleepy_steps(1) show ?thesis
    unfolding y0_def by blast
qed

theorem jiffies_wrap_ends_sleep_witness: "elapsed three_tasks 0xFFFFFFFF 60000"
  using jiffies_wrap_ends_sleep [of three_tasks "0xFFFFFFFF" 60000] by (simp add: three_tasks_def)

end
