(* ===== verification/Console.thy ===== *)
theory Console
  imports Libc_Strings
begin

text \<open>
  The text console (\<^verbatim>\<open>kernel/console/console.c\<close>, \<^verbatim>\<open>null_console.c\<close> and the VGA console driver): a
  buffer of cells with a cursor, a scanner for escape sequences in a 32-byte array, and a device
  that redraws the buffer. The 16-bit counters are natural numbers with the wrap-around written
  out where the code could reach it. \<open>redraw\<close>, the operation a console driver supplies, is an
  argument that acts on the state of the device; the bytes the code also sends to the serial
  debug port are recorded. The lemmas show that the console refines a grid of rows that scrolls,
  that no text can write outside the buffer, and which escape sequence does overrun its array.
\<close>

section \<open>Data\<close>

record console_char =
  cc_ch :: u8
  cc_attrs :: u8

record console =
  columns :: nat
  rows :: nat
  column :: nat
  row :: nat
  attrs :: u8
  flags :: u32
  escape_code_sequence :: "u8 list"
  escape_code_parameter :: "u8 list"
  escape_code_length :: nat
  buffer :: "console_char list"
  serial :: "u8 list"

definition CONSOLE_FLAG_DIRTY :: u32 where "CONSOLE_FLAG_DIRTY = 1"
definition CONSOLE_FLAG_AUTODRAW :: u32 where "CONSOLE_FLAG_AUTODRAW = 2"
definition CONSOLE_FLAG_SHOW_CURSOR :: u32 where "CONSOLE_FLAG_SHOW_CURSOR = 4"

section \<open>Colours\<close>

datatype console_color = CONS_COLOR_BLACK | CONS_COLOR_BLUE | CONS_COLOR_GREEN | CONS_COLOR_CYAN | CONS_COLOR_RED
  | CONS_COLOR_MAGENTA | CONS_COLOR_BROWN | CONS_COLOR_LIGHT_GREY | CONS_COLOR_DARK_GREY | CONS_COLOR_LIGHT_BLUE
  | CONS_COLOR_LIGHT_GREEN | CONS_COLOR_LIGHT_CYAN | CONS_COLOR_LIGHT_RED | CONS_COLOR_LIGHT_MAGENTA
  | CONS_COLOR_LIGHT_BROWN | CONS_COLOR_WHITE

fun color_value :: "console_color \<Rightarrow> u8" where
  "color_value CONS_COLOR_BLACK = 0" | "color_value CONS_COLOR_BLUE = 1" | "color_value CONS_COLOR_GREEN = 2"
| "color_value CONS_COLOR_CYAN = 3" | "color_value CONS_COLOR_RED = 4" | "color_value CONS_COLOR_MAGENTA = 5"
| "color_value CONS_COLOR_BROWN = 6" | "color_value CONS_COLOR_LIGHT_GREY = 7" | "color_value CONS_COLOR_DARK_GREY = 8"
| "color_value CONS_COLOR_LIGHT_BLUE = 9" | "color_value CONS_COLOR_LIGHT_GREEN = 10" | "color_value CONS_COLOR_LIGHT_CYAN = 11"
| "color_value CONS_COLOR_LIGHT_RED = 12" | "color_value CONS_COLOR_LIGHT_MAGENTA = 13"
| "color_value CONS_COLOR_LIGHT_BROWN = 14" | "color_value CONS_COLOR_WHITE = 15"

definition console_entry_color :: "u8 \<Rightarrow> u8 \<Rightarrow> u8" where
  "console_entry_color fg bg = fg OR push_bit 4 bg"

definition bg_from_console_color :: "u8 \<Rightarrow> u8" where
  "bg_from_console_color color = drop_bit 4 (color AND 0xF0)"

definition fg_from_console_color :: "u8 \<Rightarrow> u8" where
  "fg_from_console_color color = color AND 0x0F"

definition console_ansi_to_vga :: "u8 \<Rightarrow> u8" where
  "console_ansi_to_vga ansi =
     (if ansi = 0 then color_value CONS_COLOR_BLACK
      else if ansi = 1 then color_value CONS_COLOR_RED
      else if ansi = 2 then color_value CONS_COLOR_GREEN
      else if ansi = 3 then color_value CONS_COLOR_BROWN
      else if ansi = 4 then color_value CONS_COLOR_BLUE
      else if ansi = 5 then color_value CONS_COLOR_MAGENTA
      else if ansi = 6 then color_value CONS_COLOR_CYAN
      else if ansi = 7 then color_value CONS_COLOR_LIGHT_GREY
      else 0xD)"

definition console_set_foreground_color_ansi :: "u8 \<Rightarrow> console \<Rightarrow> console" where
  "console_set_foreground_color_ansi color s =
     (let bg = bg_from_console_color (attrs s);
          bright_bit = fg_from_console_color color AND 0x08;
          clr = console_ansi_to_vga color;
          clr = (if bright_bit \<noteq> 0 then clr OR 8 else clr)
      in s\<lparr>attrs := console_entry_color clr bg\<rparr>)"

definition console_set_foreground_color :: "u8 \<Rightarrow> console \<Rightarrow> console" where
  "console_set_foreground_color color s = s\<lparr>attrs := console_entry_color color (bg_from_console_color (attrs s))\<rparr>"

definition console_set_background_color_ansi :: "u8 \<Rightarrow> console \<Rightarrow> console" where
  "console_set_background_color_ansi color s =
     s\<lparr>attrs := console_entry_color (fg_from_console_color (attrs s)) (console_ansi_to_vga color)\<rparr>"

definition console_set_background_color :: "u8 \<Rightarrow> console \<Rightarrow> console" where
  "console_set_background_color color s = s\<lparr>attrs := console_entry_color (fg_from_console_color (attrs s)) color\<rparr>"

section \<open>Escape sequences\<close>

text \<open>The loop of \<open>console_parameter_terminator\<close>; \<open>None\<close> is the result \<open>-1\<close>.\<close>

function console_parameter_terminator :: "console \<Rightarrow> nat \<Rightarrow> nat option run" where
  "console_parameter_terminator s pos =
     (if pos < escape_code_length s then
        (if pos < length (escape_code_sequence s) then
           (if escape_code_sequence s ! pos = 59 \<or> escape_code_sequence s ! pos = 109 then ret (Some pos)
            else console_parameter_terminator s (pos + 1))
         else goes_wrong Out_of_bounds)
      else ret None)"
  by pat_completeness auto
termination
  by (relation "measure (\<lambda>(s, pos). escape_code_length s - pos)") auto

declare console_parameter_terminator.simps [simp del]

definition sgr_apply :: "int \<Rightarrow> console \<Rightarrow> console" where
  "sgr_apply value s =
     (if 30 \<le> value \<and> value \<le> 37 then console_set_foreground_color_ansi (of_int (value - 30)) s
      else if 40 \<le> value \<and> value \<le> 47 then console_set_background_color_ansi (of_int (value - 40)) s
      else if value = 1 then console_set_foreground_color (fg_from_console_color (attrs s) OR 0x08) s
      else if value = 22 then console_set_foreground_color (fg_from_console_color (attrs s) AND 0x07) s
      else s)"

definition console_sgr_consume_parameter :: "nat \<Rightarrow> console \<Rightarrow> (console \<times> nat option) run" where
  "console_sgr_consume_parameter pos s =
     (if pos \<ge> escape_code_length s then ret (s, None)
      else run_bind (console_parameter_terminator s pos) (\<lambda>t. case t of
        None \<Rightarrow> ret (s, None)
      | Some e \<Rightarrow>
          (let par = take (e - pos) (drop pos (escape_code_sequence s)) @ replicate (32 - (e - pos)) 0;
               s = s\<lparr>escape_code_parameter := par\<rparr>
           in case atoi (array_mem par) 0 of
                None \<Rightarrow> None
              | Some value \<Rightarrow> ret (sgr_apply (sint value) s, Some e))))"

partial_function (option) sgr_loop :: "nat \<Rightarrow> console \<Rightarrow> console run" where
  "sgr_loop pos s =
     run_bind (console_sgr_consume_parameter (pos + 1) s) (\<lambda>r.
       case snd r of None \<Rightarrow> ret (fst r) | Some e \<Rightarrow> sgr_loop e (fst r))"

definition console_sgr :: "console \<Rightarrow> console run" where
  "console_sgr s = sgr_loop 1 s"

section \<open>Cells\<close>

definition set_cell :: "nat \<Rightarrow> console_char \<Rightarrow> console \<Rightarrow> console run" where
  "set_cell i c s = (if i < length (buffer s) then ret (s\<lparr>buffer := (buffer s)[i := c]\<rparr>) else goes_wrong Out_of_bounds)"

definition get_cell :: "nat \<Rightarrow> console \<Rightarrow> console_char run" where
  "get_cell i s = (if i < length (buffer s) then ret (buffer s ! i) else goes_wrong Out_of_bounds)"

definition blank :: "console \<Rightarrow> console_char" where
  "blank s = \<lparr>cc_ch = 32, cc_attrs = attrs s\<rparr>"

definition debug_out :: "u8 \<Rightarrow> console \<Rightarrow> console" where
  "debug_out c s = s\<lparr>serial := serial s @ [c]\<rparr>"

definition console_clear_to_end_of_line :: "console \<Rightarrow> console run" where
  "console_clear_to_end_of_line s =
     (let index = (row s * columns s) mod 65536
      in if row s = rows s then ret s
         else run_bind (run_for [column s..<columns s] (\<lambda>i s. set_cell (index + i) (blank s) s) s) (\<lambda>s.
              ret (s\<lparr>row := (row s + 1) mod 65536, column := 0\<rparr>)))"

text \<open>The two loops that move every row up by one and blank the last one.\<close>

definition console_scroll :: "console \<Rightarrow> console run" where
  "console_scroll s =
     run_bind (run_for [1..<rows s] (\<lambda>i.
         run_for [0..<columns s] (\<lambda>j s.
           run_bind (get_cell (i * columns s + j) s) (\<lambda>c. set_cell ((i - 1) * columns s + j) c s))) s) (\<lambda>s.
     run_bind (run_for [0..<columns s] (\<lambda>i s.
         set_cell (((rows s - 1) * columns s + i) mod 65536) (blank s) s) s) (\<lambda>s.
     ret (s\<lparr>column := 0, row := (row s + 65535) mod 65536\<rparr>)))"

section \<open>Output\<close>

definition esc_append :: "u8 \<Rightarrow> console \<Rightarrow> console run" where
  "esc_append c s =
     (if escape_code_length s < length (escape_code_sequence s) then
        ret (s\<lparr>escape_code_sequence := (escape_code_sequence s)[escape_code_length s := c],
               escape_code_length := escape_code_length s + 1\<rparr>)
      else goes_wrong Out_of_bounds)"

text \<open>The branch for a character inside an escape sequence.\<close>

definition putch_escape :: "u8 \<Rightarrow> console \<Rightarrow> console run" where
  "putch_escape c s =
     (if escape_code_length s = 1 then
        (if c = 91 then esc_append c s else ret (s\<lparr>escape_code_length := 0\<rparr>))
      else if 64 \<le> c \<and> c \<le> 126 then
        run_bind (esc_append c s) (\<lambda>s.
        run_bind (if c = 75 then run_bind (console_clear_to_end_of_line s) (\<lambda>s. ret (debug_out 10 s))
                  else if c = 109 then console_sgr s
                  else ret s) (\<lambda>s.
        ret (s\<lparr>escape_code_length := 0\<rparr>)))
      else esc_append c s)"

definition putch_text :: "u8 \<Rightarrow> console \<Rightarrow> console run" where
  "putch_text c s =
     run_bind (if row s = rows s then console_scroll s else ret s) (\<lambda>s.
     if c = 10 then
       ret (debug_out 10 (s\<lparr>column := 0, row := (row s + 1) mod 65536\<rparr>))
     else
       (let s = debug_out c s
        in run_bind (set_cell (row s * columns s + column s) \<lparr>cc_ch = c, cc_attrs = attrs s\<rparr> s) (\<lambda>s.
           let s = s\<lparr>column := (column s + 1) mod 65536\<rparr>
           in ret (if column s = columns s then s\<lparr>column := 0, row := (row s + 1) mod 65536\<rparr> else s))))"

definition console_putch_raw :: "u8 \<Rightarrow> console \<Rightarrow> console run" where
  "console_putch_raw c s =
     (if c = 0x1B then
        ret (s\<lparr>escape_code_sequence := (replicate 32 0)[0 := 0x1B], escape_code_length := 1\<rparr>)
      else if escape_code_length s > 0 then putch_escape c s
      else putch_text c s)"

text \<open>\<open>dev\<close> is the state of the device the driver's \<open>redraw\<close> acts on.\<close>

type_synonym 'd driver = "console \<Rightarrow> 'd \<Rightarrow> 'd run"

definition console_redraw :: "'d driver \<Rightarrow> console \<times> 'd \<Rightarrow> (console \<times> 'd) run" where
  "console_redraw redraw = (\<lambda>(s, dev).
     if flags s AND CONSOLE_FLAG_DIRTY \<noteq> 0
     then run_bind (redraw s dev) (\<lambda>dev. ret (s\<lparr>flags := flags s AND NOT CONSOLE_FLAG_DIRTY\<rparr>, dev))
     else ret (s, dev))"

text \<open>What \<open>console_putch\<close>, \<open>console_write\<close> and \<open>__console_initialize\<close> end with.\<close>

definition console_touch :: "'d driver \<Rightarrow> console \<times> 'd \<Rightarrow> (console \<times> 'd) run" where
  "console_touch redraw = (\<lambda>(s, dev).
     let s = s\<lparr>flags := flags s OR CONSOLE_FLAG_DIRTY\<rparr>
     in if flags s AND CONSOLE_FLAG_AUTODRAW \<noteq> 0 then console_redraw redraw (s, dev) else ret (s, dev))"

definition console_putch :: "'d driver \<Rightarrow> u8 \<Rightarrow> console \<times> 'd \<Rightarrow> (console \<times> 'd) run" where
  "console_putch redraw c = (\<lambda>(s, dev). run_bind (console_putch_raw c s) (\<lambda>s. console_touch redraw (s, dev)))"

definition console_write :: "'d driver \<Rightarrow> u8 list \<Rightarrow> console \<times> 'd \<Rightarrow> (console \<times> 'd) run" where
  "console_write redraw bs = (\<lambda>(s, dev). run_bind (run_for bs console_putch_raw s) (\<lambda>s. console_touch redraw (s, dev)))"

text \<open>\<open>console_writestr\<close> writes the bytes before the terminator of a string in memory.\<close>

definition console_writestr :: "'d driver \<Rightarrow> mem \<Rightarrow> u32 \<Rightarrow> console \<times> 'd \<Rightarrow> (console \<times> 'd) run" where
  "console_writestr redraw m str x = (case strlen m str of
     None \<Rightarrow> None
   | Some len \<Rightarrow> console_write redraw (map (\<lambda>k. m (str + of_nat k)) [0..<unat len]) x)"

definition console_initialize :: "'d driver \<Rightarrow> console \<times> 'd \<Rightarrow> (console \<times> 'd) run" where
  "console_initialize redraw = (\<lambda>(s, dev).
     let s = s\<lparr>row := 0, column := 0, attrs := 0x07\<rparr>
     in run_bind (run_for [0..<rows s] (\<lambda>i.
          run_for [0..<columns s] (\<lambda>j s. set_cell (i * columns s + j) (blank s) s)) s) (\<lambda>s.
        console_touch redraw (s, dev)))"

definition console_debug :: "'d driver \<Rightarrow> console \<times> 'd \<Rightarrow> (console \<times> 'd) run" where
  "console_debug redraw = (\<lambda>(s, dev). run_bind (redraw s dev) (\<lambda>dev. ret (s, dev)))"

text \<open>The calls of the C library that write to the console; they return the length and the character.\<close>

definition puts :: "'d driver \<Rightarrow> mem \<Rightarrow> u32 \<Rightarrow> console \<times> 'd \<Rightarrow> (u32 \<times> console \<times> 'd) run" where
  "puts redraw m str x = (case strlen m str of
     None \<Rightarrow> None
   | Some len \<Rightarrow> run_bind (console_write redraw (map (\<lambda>k. m (str + of_nat k)) [0..<unat len]) x) (\<lambda>x. ret (len, x)))"

definition putchar :: "'d driver \<Rightarrow> u32 \<Rightarrow> console \<times> 'd \<Rightarrow> (u32 \<times> console \<times> 'd) run" where
  "putchar redraw ic x = run_bind (console_write redraw [ucast ic] x) (\<lambda>x. ret (ic, x))"

section \<open>Drivers\<close>

definition null_console_redraw :: "unit driver" where
  "null_console_redraw cons dev = ret dev"

text \<open>A fresh console structure, zeroed by \<open>memset\<close>; its cell buffer holds whatever was there.\<close>

definition new_console :: "nat \<Rightarrow> nat \<Rightarrow> console_char list \<Rightarrow> console" where
  "new_console cols rws buf = \<lparr>columns = cols, rows = rws, column = 0, row = 0, attrs = 0,
     flags = CONSOLE_FLAG_AUTODRAW OR CONSOLE_FLAG_SHOW_CURSOR, escape_code_sequence = replicate 32 0,
     escape_code_parameter = replicate 32 0, escape_code_length = 0, buffer = buf, serial = []\<rparr>"

text \<open>The two allocations are arguments: did \<open>malloc\<close> find room for the structure, and for the cells.\<close>

definition init_null_console :: "bool \<Rightarrow> console_char list option \<Rightarrow> (console \<times> unit) run" where
  "init_null_console cons_allocated cells =
     (if \<not> cons_allocated then goes_wrong Null_pointer
      else case cells of None \<Rightarrow> goes_wrong Null_pointer
           | Some buf \<Rightarrow> console_initialize null_console_redraw (new_console 80 25 buf, ()))"

text \<open>The VGA driver: cursor position and visibility as last programmed, and the port writes.\<close>

record vga_state =
  cursor_column :: nat
  cursor_row :: nat
  cursor_visible :: bool
  vga_ports :: "(u16 \<times> u8) list"

definition vga_enable_cursor :: "vga_state \<Rightarrow> vga_state" where
  "vga_enable_cursor v = v\<lparr>cursor_visible := True, vga_ports := vga_ports v @ [(0x3D4, 0x0A), (0x3D5, 0x1F)]\<rparr>"

definition vga_disable_cursor :: "vga_state \<Rightarrow> vga_state" where
  "vga_disable_cursor v = v\<lparr>cursor_visible := False, vga_ports := vga_ports v @ [(0x3D4, 0x0A), (0x3D5, 0x3F)]\<rparr>"

definition vga_set_cursor :: "nat \<Rightarrow> nat \<Rightarrow> vga_state \<Rightarrow> vga_state" where
  "vga_set_cursor x y v =
     (let pos = (y * 80 + x) mod 65536
      in v\<lparr>cursor_column := x, cursor_row := y,
           vga_ports := vga_ports v @ [(0x3D4, 0x0F), (0x3D5, of_nat (pos mod 256)), (0x3D4, 0x0E), (0x3D5, of_nat (pos div 256))]\<rparr>)"

definition vga_console_redraw :: "vga_state driver" where
  "vga_console_redraw cons v =
     (let show_cursor = (flags cons AND CONSOLE_FLAG_SHOW_CURSOR \<noteq> 0);
          v = (if column cons \<noteq> cursor_column v \<or> row cons \<noteq> cursor_row v
               then vga_set_cursor (column cons) (row cons) v else v)
      in ret (if show_cursor \<noteq> cursor_visible v
              then (if show_cursor then vga_enable_cursor v else vga_disable_cursor v) else v))"

definition init_vga_console :: "bool \<Rightarrow> console_char list \<Rightarrow> nat \<Rightarrow> nat \<Rightarrow> (console \<times> vga_state) run" where
  "init_vga_console cons_allocated vga_memory cols rws =
     (if \<not> cons_allocated then goes_wrong Null_pointer
      else console_initialize vga_console_redraw
       (new_console (cols mod 65536) (rws mod 65536) vga_memory,
        \<lparr>cursor_column = 0, cursor_row = 0, cursor_visible = True, vga_ports = []\<rparr>))"

section \<open>The invariant\<close>

text \<open>
  The cell array has the size the dimensions promise, the cursor is in it or at the start of the
  row below the last one, and the escape arrays have their 32 bytes. Sizes are bounded so that
  the 16-bit index of the last row does not wrap.
\<close>

definition cons_inv :: "console \<Rightarrow> bool" where
  "cons_inv s \<longleftrightarrow> 0 < rows s \<and> 0 < columns s \<and> rows s * columns s < 65536 \<and>
     length (buffer s) = rows s * columns s \<and> row s \<le> rows s \<and> column s < columns s \<and>
     (row s = rows s \<longrightarrow> column s = 0) \<and> length (escape_code_sequence s) = 32 \<and> escape_code_length s \<le> 32"

lemma cons_inv_sizes:
  assumes "cons_inv s"
  shows "rows s < 65536" and "columns s < 65536"
proof -
  have "rows s * 1 \<le> rows s * columns s" "1 * columns s \<le> rows s * columns s"
    using assms by (auto simp: cons_inv_def intro!: mult_le_mono)
  moreover have "rows s * columns s < 65536" using assms by (simp add: cons_inv_def)
  ultimately show "rows s < 65536" "columns s < 65536" by linarith+
qed

lemma cell_in_range: "i < r \<Longrightarrow> j < c \<Longrightarrow> i * c + j < r * (c :: nat)"
  by (metis add_less_cancel_left less_le_trans mult_Suc mult_le_mono1 Suc_leI add.commute)

text \<open>Filling a stretch of cells with blanks.\<close>

definition fill :: "nat \<Rightarrow> nat \<Rightarrow> 'a \<Rightarrow> 'a list \<Rightarrow> 'a list" where
  "fill lo hi x xs = map (\<lambda>k. if lo \<le> k \<and> k < hi then x else xs ! k) [0..<length xs]"

lemma length_fill [simp]: "length (fill lo hi x xs) = length xs"
  by (simp add: fill_def)

lemma nth_fill [simp]: "k < length xs \<Longrightarrow> fill lo hi x xs ! k = (if lo \<le> k \<and> k < hi then x else xs ! k)"
  by (simp add: fill_def)

lemma fill_empty [simp]: "hi \<le> lo \<Longrightarrow> fill lo hi x xs = xs"
  by (rule nth_equalityI) auto

lemma fill_Suc: "lo \<le> k \<Longrightarrow> (fill lo k x xs)[k := x] = fill lo (Suc k) x xs"
  by (cases "k < length xs") (auto simp: nth_list_update intro!: nth_equalityI)

lemma blank_loop:
  assumes "a \<le> b" and "base + b \<le> length (buffer s)"
    and "\<And>i t. f i t = set_cell (base + i) (blank t) t"
  shows "run_for [a..<b] f s = ret (s\<lparr>buffer := fill (base + a) (base + b) (blank s) (buffer s)\<rparr>)"
proof -
  have "\<exists>s'. run_for [a..<b] f s = ret s' \<and> s' = s\<lparr>buffer := fill (base + a) (base + b) (blank s) (buffer s)\<rparr>"
    using assms by (intro run_for_upt) (auto simp: set_cell_def blank_def fill_Suc)
  then show ?thesis by simp
qed

text \<open>Moving row \<open>i\<close> up by one row.\<close>

definition rows_up :: "nat \<Rightarrow> nat \<Rightarrow> 'a list \<Rightarrow> 'a list" where
  "rows_up c n xs = map (\<lambda>k. if k < n then xs ! (k + c) else xs ! k) [0..<length xs]"

lemma length_rows_up [simp]: "length (rows_up c n xs) = length xs"
  by (simp add: rows_up_def)

lemma nth_rows_up [simp]: "k < length xs \<Longrightarrow> rows_up c n xs ! k = (if k < n then xs ! (k + c) else xs ! k)"
  by (simp add: rows_up_def)

lemma rows_up_0 [simp]: "rows_up c 0 xs = xs"
  by (rule nth_equalityI) auto

lemma rows_up_Suc:
  "0 < c \<Longrightarrow> n + c < length xs \<Longrightarrow> (rows_up c n xs)[n := xs ! (n + c)] = rows_up c (Suc n) xs"
  by (rule nth_equalityI) (auto simp: nth_list_update)

lemma scroll_copy:
  assumes "cons_inv s"
  shows "run_for [1..<rows s] (\<lambda>i. run_for [0..<columns s] (\<lambda>j s.
           run_bind (get_cell (i * columns s + j) s) (\<lambda>c. set_cell ((i - 1) * columns s + j) c s))) s
         = ret (s\<lparr>buffer := rows_up (columns s) ((rows s - 1) * columns s) (buffer s)\<rparr>)"
proof -
  let ?up = "\<lambda>n. s\<lparr>buffer := rows_up (columns s) n (buffer s)\<rparr>"
  let ?body = "\<lambda>i j s. run_bind (get_cell (i * columns s + j) s) (\<lambda>c. set_cell ((i - 1) * columns s + j) c s)"
  have pos: "0 < columns s" and len: "length (buffer s) = rows s * columns s"
    using assms by (auto simp: cons_inv_def)
  have one: "\<exists>s'. ?body i j (?up ((i - 1) * columns s + j)) = ret s' \<and> s' = ?up ((i - 1) * columns s + Suc j)"
    if "1 \<le> i" "i < rows s" "j < columns s" for i j
  proof -
    define n where "n = (i - 1) * columns s + j"
    have dst: "(i - Suc 0) * columns s + j = n" by (simp add: n_def)
    have src: "i * columns s + j = n + columns s" using that by (cases i) (auto simp: n_def)
    have "n + columns s < length (buffer s)" using cell_in_range that len src by metis
    with pos show ?thesis
      by (simp add: get_cell_def set_cell_def rows_up_Suc src dst)
  qed
  have row: "\<exists>s'. run_for [0..<columns s] (?body i) (?up ((i - 1) * columns s)) = ret s' \<and> s' = ?up (i * columns s)"
    if "1 \<le> i" "i < rows s" for i
  proof -
    have "\<exists>s'. run_for [0..<columns s] (?body i) (?up ((i - 1) * columns s)) = ret s' \<and>
        s' = ?up ((i - 1) * columns s + columns s)"
    proof (rule run_for_upt [where P = "\<lambda>j t. t = ?up ((i - 1) * columns s + j)"])
      show "\<exists>s'. ?body i j t = ret s' \<and> s' = ?up ((i - 1) * columns s + Suc j)"
        if "j < columns s" "t = ?up ((i - 1) * columns s + j)" for j t
        unfolding that(2) using \<open>1 \<le> i\<close> \<open>i < rows s\<close> that(1) by (rule one)
    qed simp_all
    moreover have "(i - 1) * columns s + columns s = i * columns s" using that by (cases i) auto
    ultimately show ?thesis by simp
  qed
  have "\<exists>s'. run_for [1..<rows s] (\<lambda>i. run_for [0..<columns s] (?body i)) s = ret s' \<and> s' = ?up ((rows s - 1) * columns s)"
  proof (rule run_for_upt [where P = "\<lambda>i t. t = ?up ((i - 1) * columns s)"])
    show "1 \<le> rows s" using assms by (simp add: cons_inv_def)
    show "\<exists>s'. run_for [0..<columns s] (?body i) t = ret s' \<and> s' = ?up ((Suc i - 1) * columns s)"
      if "1 \<le> i" "i < rows s" "t = ?up ((i - 1) * columns s)" for i t
      unfolding that(3) diff_Suc_1 using that(1,2) by (rule row)
  qed simp
  then show ?thesis by blast
qed

section \<open>The console as a terminal\<close>

text \<open>
  The abstract view: a list of lines, a cursor that may stand below the last line, and the
  attributes of what is written next. Writing below the last line drops the first line.
\<close>

record terminal =
  tlines :: "console_char list list"
  trow :: nat
  tcol :: nat
  tattrs :: u8

definition grid :: "nat \<Rightarrow> nat \<Rightarrow> 'a list \<Rightarrow> 'a list list" where
  "grid r c xs = map (\<lambda>i. map (\<lambda>j. xs ! (i * c + j)) [0..<c]) [0..<r]"

definition term_of :: "console \<Rightarrow> terminal" where
  "term_of s = \<lparr>tlines = grid (rows s) (columns s) (buffer s), trow = row s, tcol = column s, tattrs = attrs s\<rparr>"

definition term_scroll :: "terminal \<Rightarrow> terminal" where
  "term_scroll t =
     (if trow t = length (tlines t)
      then t\<lparr>tlines := tl (tlines t) @ [replicate (length (hd (tlines t))) \<lparr>cc_ch = 32, cc_attrs = tattrs t\<rparr>],
             trow := trow t - 1, tcol := 0\<rparr>
      else t)"

definition term_newline :: "terminal \<Rightarrow> terminal" where
  "term_newline t = t\<lparr>tcol := 0, trow := trow t + 1\<rparr>"

definition term_put :: "u8 \<Rightarrow> terminal \<Rightarrow> terminal" where
  "term_put c t =
     (let t = term_scroll t
      in if c = 10 then term_newline t
         else let t' = t\<lparr>tlines := (tlines t)[trow t := (tlines t ! trow t)[tcol t := \<lparr>cc_ch = c, cc_attrs = tattrs t\<rparr>]],
                         tcol := tcol t + 1\<rparr>
              in if tcol t' = length (hd (tlines t')) then term_newline t' else t')"

lemma length_grid [simp]: "length (grid r c xs) = r"
  by (simp add: grid_def)

lemma nth_grid: "i < r \<Longrightarrow> grid r c xs ! i = map (\<lambda>j. xs ! (i * c + j)) [0..<c]"
  by (simp add: grid_def)

lemma nth_nth_grid [simp]: "i < r \<Longrightarrow> j < c \<Longrightarrow> grid r c xs ! i ! j = xs ! (i * c + j)"
  by (simp add: grid_def)

lemma length_nth_grid [simp]: "i < r \<Longrightarrow> length (grid r c xs ! i) = c"
  by (simp add: grid_def)

lemma length_hd_grid [simp]: "0 < r \<Longrightarrow> length (hd (grid r c xs)) = c"
  by (metis hd_conv_nth length_grid length_nth_grid list.size(3) less_numeral_extra(3))

lemma grid_index_eq:
  assumes "j < c" and "j' < c" and "i * c + j = i' * c + (j' :: nat)"
  shows "i = i' \<and> j = j'"
proof -
  have "(i * c + j) div c = i" "(i' * c + j') div c = i'" using assms(1,2) by auto
  then have "i = i'" using assms(3) by metis
  with assms(3) show ?thesis by simp
qed

lemma grid_eqI:
  assumes "length ls = r" and "\<And>i. i < r \<Longrightarrow> length (ls ! i) = c"
    and "\<And>i j. i < r \<Longrightarrow> j < c \<Longrightarrow> xs ! (i * c + j) = ls ! i ! j"
  shows "grid r c xs = ls"
  using assms by (intro nth_equalityI) (auto intro!: nth_equalityI)

lemma grid_update:
  assumes "i < r" and "j < c" and "length xs = r * c"
  shows "grid r c (xs[i * c + j := x]) = (grid r c xs)[i := (grid r c xs ! i)[j := x]]"
proof (rule grid_eqI)
  show "xs[i * c + j := x] ! (i' * c + j') = (grid r c xs)[i := (grid r c xs ! i)[j := x]] ! i' ! j'"
    if "i' < r" "j' < c" for i' j'
    using assms that cell_in_range [of i r j c] grid_index_eq [of j c j' i i']
    by (auto simp: nth_list_update)
qed (use assms in \<open>auto simp: nth_list_update\<close>)

lemma grid_scroll:
  assumes "0 < r" and "0 < c" and "length xs = r * c"
  shows "grid r c (fill ((r - 1) * c) (r * c) x (rows_up c ((r - 1) * c) xs)) = tl (grid r c xs) @ [replicate c x]"
proof (rule grid_eqI)
  let ?ys = "fill ((r - 1) * c) (r * c) x (rows_up c ((r - 1) * c) xs)"
  show "?ys ! (i * c + j) = (tl (grid r c xs) @ [replicate c x]) ! i ! j" if "i < r" "j < c" for i j
  proof (cases "i < r - 1")
    case True
    then have "i * c + j < (r - 1) * c" "i * c + j < r * c" using that by (simp_all add: cell_in_range)
    with True that assms(3) show ?thesis by (simp add: nth_append nth_tl add_ac)
  next
    case False
    then have i: "i = r - 1" using that by simp
    have "i * c + j < r * c" using that by (simp add: cell_in_range)
    with i that assms show ?thesis by (simp add: nth_append)
  qed
qed (use assms in \<open>auto simp: nth_append nth_tl\<close>)

lemma console_scroll_eq:
  assumes "cons_inv s" and "row s = rows s"
  shows "console_scroll s = ret (s\<lparr>buffer := fill ((rows s - 1) * columns s) (rows s * columns s) (blank s)
           (rows_up (columns s) ((rows s - 1) * columns s) (buffer s)), column := 0, row := row s - 1\<rparr>)"
proof -
  let ?s = "s\<lparr>buffer := rows_up (columns s) ((rows s - 1) * columns s) (buffer s)\<rparr>"
  have i: "0 < rows s" "rows s * columns s < 65536" "length (buffer s) = rows s * columns s"
    using assms(1) by (auto simp: cons_inv_def)
  then have last: "(rows s - 1) * columns s + columns s = rows s * columns s" by (cases "rows s") auto
  have loop: "\<exists>t. run_for [0..<columns s] (\<lambda>i s. set_cell (((rows s - 1) * columns s + i) mod 65536) (blank s) s) ?s = ret t \<and>
      t = ?s\<lparr>buffer := fill ((rows s - 1) * columns s) ((rows s - 1) * columns s + columns s) (blank s) (buffer ?s)\<rparr>"
  proof (rule run_for_upt [where P = "\<lambda>j t. t = ?s\<lparr>buffer := fill ((rows s - 1) * columns s)
      ((rows s - 1) * columns s + j) (blank s) (buffer ?s)\<rparr>"])
    fix j t
    assume j: "j < columns s" and t: "t = ?s\<lparr>buffer := fill ((rows s - 1) * columns s)
      ((rows s - 1) * columns s + j) (blank s) (buffer ?s)\<rparr>"
    have "(rows s - 1) * columns s + j < rows s * columns s" using j last by simp
    then show "\<exists>s'. set_cell (((rows t - 1) * columns t + j) mod 65536) (blank t) t = ret s' \<and>
        s' = ?s\<lparr>buffer := fill ((rows s - 1) * columns s) ((rows s - 1) * columns s + Suc j) (blank s) (buffer ?s)\<rparr>"
      using i by (simp add: t set_cell_def blank_def fill_Suc)
  qed simp_all
  have "row s + 65535 = row s - 1 + 65536" "row s - 1 < 65536"
    using assms(2) i(1) cons_inv_sizes [OF assms(1)] by simp_all
  then have "(row s + 65535) mod 65536 = row s - 1" by (metis mod_add_self2 mod_less)
  with loop scroll_copy [OF assms(1)] last show ?thesis
    by (auto simp: console_scroll_def blank_def)
qed

lemma putch_text_refines:
  assumes "cons_inv s"
  shows "\<exists>s'. putch_text c s = ret s' \<and> cons_inv s' \<and> term_of s' = term_put c (term_of s) \<and>
    escape_code_length s' = escape_code_length s \<and> flags s' = flags s \<and> serial s' = serial s @ [c] \<and>
    rows s' = rows s \<and> columns s' = columns s"
proof -
  define t where "t = (if row s = rows s then s\<lparr>buffer := fill ((rows s - 1) * columns s) (rows s * columns s) (blank s)
           (rows_up (columns s) ((rows s - 1) * columns s) (buffer s)), column := 0, row := row s - 1\<rparr> else s)"
  have i: "0 < rows s" "0 < columns s" "length (buffer s) = rows s * columns s" "row s \<le> rows s" "column s < columns s"
    using assms by (auto simp: cons_inv_def)
  have first: "(if row s = rows s then console_scroll s else ret s) = ret t"
    using assms by (simp add: t_def console_scroll_eq)
  have t: "cons_inv t" "row t < rows t" "term_of t = term_scroll (term_of s)"
    "escape_code_length t = escape_code_length s" "flags t = flags s" "serial t = serial s"
    "rows t = rows s" "columns t = columns s"
    using assms i by (auto simp: t_def cons_inv_def term_of_def term_scroll_def grid_scroll [unfolded One_nat_def] blank_def)
  note sz = cons_inv_sizes [OF t(1)]
  have ti: "0 < rows t" "column t < columns t" "length (buffer t) = rows t * columns t"
    using t(1) by (auto simp: cons_inv_def)
  have row: "Suc (row t) mod 65536 = Suc (row t)" using t(2) sz by simp
  show ?thesis
  proof (cases "c = 10")
    case True
    then have "putch_text c s = ret (debug_out 10 (t\<lparr>column := 0, row := row t + 1\<rparr>))"
      by (simp add: putch_text_def first row)
    moreover have "term_of (debug_out 10 (t\<lparr>column := 0, row := row t + 1\<rparr>)) = term_put c (term_of s)"
      unfolding term_put_def t(3) [symmetric]
      using True by (simp add: term_newline_def term_of_def debug_out_def)
    ultimately show ?thesis using True t ti
      by (auto simp: debug_out_def cons_inv_def)
  next
    case False
    let ?u = "t\<lparr>serial := serial t @ [c], buffer := (buffer t)[row t * columns t + column t := \<lparr>cc_ch = c, cc_attrs = attrs t\<rparr>],
       column := column t + 1\<rparr>"
    have idx: "row t * columns t + column t < length (buffer t)"
      using cell_in_range [OF t(2) ti(2)] ti(3) by simp
    have col: "Suc (column t) mod 65536 = Suc (column t)" using ti(2) sz by simp
    have "putch_text c s = ret (if column t + 1 = columns t then ?u\<lparr>column := 0, row := row t + 1\<rparr> else ?u)"
      using False idx row col by (simp add: putch_text_def first debug_out_def set_cell_def)
    moreover have "term_of (if column t + 1 = columns t then ?u\<lparr>column := 0, row := row t + 1\<rparr> else ?u) = term_put c (term_of s)"
      unfolding term_put_def t(3) [symmetric]
      using False ti t(2) by (auto simp: Let_def term_newline_def term_of_def grid_update [symmetric])
    ultimately show ?thesis using t ti
      by (auto simp: cons_inv_def)
  qed
qed

section \<open>Escape sequences\<close>

lemma terminator_found:
  assumes "drop pos (take (escape_code_length s) (escape_code_sequence s)) = p @ t # rest"
    and "59 \<notin> set p" and "109 \<notin> set p" and "t = 59 \<or> t = 109"
  shows "console_parameter_terminator s pos = ret (Some (pos + length p))"
  using assms
proof (induction p arbitrary: pos)
  case Nil
  let ?l = "take (escape_code_length s) (escape_code_sequence s)"
  from Nil(1) have l: "pos < length ?l" by (metis append_Nil drop_all list.distinct(1) not_le)
  then have "?l ! pos = t" using Nil(1) by (metis append_Nil hd_drop_conv_nth list.sel(1))
  with l Nil show ?case by (subst console_parameter_terminator.simps) auto
next
  case (Cons x p)
  let ?l = "take (escape_code_length s) (escape_code_sequence s)"
  from Cons(2) have l: "pos < length ?l" by (metis append_Cons drop_all list.distinct(1) not_le)
  then have x: "?l ! pos = x" "drop (pos + 1) ?l = p @ t # rest"
    using Cons(2) by (metis append_Cons hd_drop_conv_nth list.sel(1)) (metis Cons(2) append_Cons drop_Suc list.sel(3) tl_drop Suc_eq_plus1)
  have "console_parameter_terminator s (pos + 1) = ret (Some (pos + 1 + length p))"
    using x(2) Cons by (intro Cons.IH) auto
  with l x(1) Cons show ?case by (subst console_parameter_terminator.simps) auto
qed

lemma terminator_returns:
  assumes "escape_code_length s \<le> length (escape_code_sequence s)"
  shows "\<exists>t. console_parameter_terminator s pos = ret t \<and> (\<forall>e. t = Some e \<longrightarrow> pos \<le> e \<and> e < escape_code_length s)"
  using assms
proof (induction s pos rule: console_parameter_terminator.induct)
  case (1 s pos)
  show ?case
  proof (cases "pos < escape_code_length s \<and> \<not> (escape_code_sequence s ! pos = 59 \<or> escape_code_sequence s ! pos = 109)")
    case True
    with 1 obtain t where "console_parameter_terminator s (pos + 1) = ret t"
      "\<forall>e. t = Some e \<longrightarrow> pos + 1 \<le> e \<and> e < escape_code_length s" by auto
    with True 1 show ?thesis by (subst console_parameter_terminator.simps) auto
  next
    case False
    with 1 show ?thesis by (subst console_parameter_terminator.simps) auto
  qed
qed

text \<open>Colour changes touch the attributes only.\<close>

lemmas sgr_defs = sgr_apply_def console_set_foreground_color_def console_set_background_color_ansi_def
  console_set_foreground_color_ansi_def Let_def

definition sgr_attrs :: "int \<Rightarrow> u8 \<Rightarrow> u8" where
  "sgr_attrs v a =
     (if 30 \<le> v \<and> v \<le> 37 then console_entry_color (console_ansi_to_vga (of_int (v - 30))) (bg_from_console_color a)
      else if 40 \<le> v \<and> v \<le> 47 then console_entry_color (fg_from_console_color a) (console_ansi_to_vga (of_int (v - 40)))
      else if v = 1 then a OR 8
      else if v = 22 then a AND 0xF7
      else a)"

lemma entry_split [simp]: "console_entry_color (fg_from_console_color a) (bg_from_console_color a) = a"
  unfolding console_entry_color_def fg_from_console_color_def bg_from_console_color_def
proof (rule bit_word_eqI)
  fix k assume "k < LENGTH(8)"
  then consider "k = 0" | "k = 1" | "k = 2" | "k = 3" | "k = 4" | "k = 5" | "k = 6" | "k = 7" by force
  then show "bit ((a AND 0xF) OR push_bit 4 (drop_bit 4 (a AND 0xF0))) k = bit a k"
    by cases (simp_all add: bit_simps)
qed

lemma entry_bright:
  "console_entry_color (fg_from_console_color a OR 8) (bg_from_console_color a) = a OR 8"
  "console_entry_color (fg_from_console_color a AND 7) (bg_from_console_color a) = a AND 0xF7"
  unfolding console_entry_color_def fg_from_console_color_def bg_from_console_color_def
proof -
  have k: "k = 0 \<or> k = 1 \<or> k = 2 \<or> k = 3 \<or> k = 4 \<or> k = 5 \<or> k = 6 \<or> k = 7" if "k < LENGTH(8)" for k
    using that by force
  show "(a AND 0xF OR 8) OR push_bit 4 (drop_bit 4 (a AND 0xF0)) = a OR 8"
    by (rule bit_word_eqI) (drule k, elim disjE; simp add: bit_simps)
  show "((a AND 0xF) AND 7) OR push_bit 4 (drop_bit 4 (a AND 0xF0)) = a AND 0xF7"
    by (rule bit_word_eqI) (drule k, elim disjE; simp add: bit_simps)
qed

lemma ansi_not_bright:
  assumes "30 \<le> v" and "v \<le> (37 :: int)"
  shows "fg_from_console_color (of_int (v - 30)) AND 8 = 0"
proof -
  have "v = 30 \<or> v = 31 \<or> v = 32 \<or> v = 33 \<or> v = 34 \<or> v = 35 \<or> v = 36 \<or> v = 37" using assms by arith
  then show ?thesis by (elim disjE) (simp_all add: fg_from_console_color_def)
qed

lemma sgr_apply_eq: "sgr_apply v s = s\<lparr>attrs := sgr_attrs v (attrs s)\<rparr>"
  using ansi_not_bright [of v]
  by (cases "30 \<le> v \<and> v \<le> 37") (auto simp: sgr_defs sgr_attrs_def entry_bright)

lemma consume_found:
  assumes "drop pos (take (escape_code_length s) (escape_code_sequence s)) = p @ t # rest"
    and "59 \<notin> set p" and "109 \<notin> set p" and "t = 59 \<or> t = 109" and "0 \<notin> set p"
    and "escape_code_length s \<le> 32"
  shows "\<exists>q. console_sgr_consume_parameter pos s =
    ret (s\<lparr>escape_code_parameter := q, attrs := sgr_attrs (sint (atoi_value p)) (attrs s)\<rparr>, Some (pos + length p))"
proof -
  let ?l = "take (escape_code_length s) (escape_code_sequence s)"
  have len: "length ?l - pos = Suc (length p + length rest)"
    using arg_cong [OF assms(1), of length] by simp
  then have "pos + length p < length ?l" by linarith
  then have lt: "pos < escape_code_length s" "length p < 32" "pos + length p < escape_code_length s"
    using assms(6) by auto
  have "take (length p) (drop pos ?l) = p" using assms(1) by simp
  then have p: "take (length p) (drop pos (escape_code_sequence s)) = p"
    using lt by (simp add: take_drop min_def)
  have "takeWhile (\<lambda>b. b \<noteq> 0) p = p" using assms(5) by (auto simp: takeWhile_eq_all_conv)
  with array_cstring [of p 32] lt have "cstring (array_mem (p @ replicate (32 - length p) 0)) 0 p" by simp
  then have "atoi (array_mem (p @ replicate (32 - length p) 0)) 0 = Some (atoi_value p)" by (rule atoi_cstring)
  with lt p terminator_found [OF assms(1-4)] show ?thesis
    by (auto simp: console_sgr_consume_parameter_def Let_def sgr_apply_eq)
qed

lemma consume_returns:
  assumes "escape_code_length s \<le> 32" and "length (escape_code_sequence s) = 32" and "2 \<le> pos"
  shows "\<exists>q a t. console_sgr_consume_parameter pos s = ret (s\<lparr>escape_code_parameter := q, attrs := a\<rparr>, t) \<and>
    (\<forall>e. t = Some e \<longrightarrow> pos \<le> e \<and> e < escape_code_length s)"
proof (cases "pos < escape_code_length s")
  case False
  then have "console_sgr_consume_parameter pos s = ret (s\<lparr>escape_code_parameter := escape_code_parameter s, attrs := attrs s\<rparr>, None)"
    by (simp add: console_sgr_consume_parameter_def)
  then show ?thesis by blast
next
  case True
  obtain t where t: "console_parameter_terminator s pos = ret t"
    "\<forall>e. t = Some e \<longrightarrow> pos \<le> e \<and> e < escape_code_length s"
    using terminator_returns [of s pos] assms by auto
  show ?thesis
  proof (cases t)
    case None
    with t True have "console_sgr_consume_parameter pos s = ret (s\<lparr>escape_code_parameter := escape_code_parameter s, attrs := attrs s\<rparr>, None)"
      by (simp add: console_sgr_consume_parameter_def)
    then show ?thesis by blast
  next
    case (Some e)
    let ?p = "take (e - pos) (drop pos (escape_code_sequence s))"
    have len: "length ?p = e - pos" "length ?p < 32" using t(2) Some assms by auto
    have "atoi (array_mem (?p @ replicate (32 - length ?p) 0)) 0 = Some (atoi_value (takeWhile (\<lambda>b. b \<noteq> 0) ?p))"
      by (rule atoi_cstring, rule array_cstring) (use len(2) in simp_all)
    then have "console_sgr_consume_parameter pos s = ret (s\<lparr>escape_code_parameter := ?p @ replicate (32 - (e - pos)) 0,
        attrs := sgr_attrs (sint (atoi_value (takeWhile (\<lambda>b. b \<noteq> 0) ?p))) (attrs s)\<rparr>, Some e)"
      using t True Some len(1) by (simp add: console_sgr_consume_parameter_def sgr_apply_eq)
    with t(2) Some show ?thesis by blast
  qed
qed

lemma sgr_returns:
  assumes "escape_code_length s \<le> 32" and "length (escape_code_sequence s) = 32" and "1 \<le> pos"
  shows "\<exists>q a. sgr_loop pos s = ret (s\<lparr>escape_code_parameter := q, attrs := a\<rparr>)"
  using assms
proof (induction "32 - pos" arbitrary: pos s rule: less_induct)
  case less
  obtain q a t where c: "console_sgr_consume_parameter (pos + 1) s = ret (s\<lparr>escape_code_parameter := q, attrs := a\<rparr>, t)"
    and e: "\<forall>e. t = Some e \<longrightarrow> pos + 1 \<le> e \<and> e < escape_code_length s"
    using consume_returns [of s "pos + 1"] less.prems by auto
  show ?case
  proof (cases t)
    case None
    with c show ?thesis by (subst sgr_loop.simps) auto
  next
    case (Some e')
    let ?s = "s\<lparr>escape_code_parameter := q, attrs := a\<rparr>"
    have "\<exists>q a. sgr_loop e' ?s = ret (?s\<lparr>escape_code_parameter := q, attrs := a\<rparr>)"
      by (rule less.hyps) (use e Some less.prems in auto)
    with c Some show ?thesis by (subst sgr_loop.simps) auto
  qed
qed

section \<open>Safety of the console\<close>

lemma clear_eq:
  assumes "cons_inv s" and "row s < rows s"
  shows "console_clear_to_end_of_line s = ret (s\<lparr>buffer := fill (row s * columns s + column s)
    (row s * columns s + columns s) (blank s) (buffer s), row := row s + 1, column := 0\<rparr>)"
proof -
  have i: "length (buffer s) = rows s * columns s" "rows s * columns s < 65536" "column s < columns s"
    using assms by (auto simp: cons_inv_def)
  have le: "row s * columns s + columns s \<le> rows s * columns s"
    using assms(2) by (metis Suc_leI add.commute mult_Suc mult_le_mono1)
  then have idx: "row s * columns s mod 65536 = row s * columns s" using i by simp
  have "run_for [column s..<columns s] (\<lambda>i t. set_cell (row s * columns s + i) (blank t) t) s =
      ret (s\<lparr>buffer := fill (row s * columns s + column s) (row s * columns s + columns s) (blank s) (buffer s)\<rparr>)"
    using i le by (intro blank_loop) auto
  moreover have "Suc (row s) mod 65536 = Suc (row s)" using assms(2) cons_inv_sizes [OF assms(1)] by simp
  ultimately show ?thesis using assms(2) idx by (simp add: console_clear_to_end_of_line_def Let_def)
qed

lemma clear_keeps_inv:
  assumes "cons_inv s"
  shows "\<exists>s'. console_clear_to_end_of_line s = ret s' \<and> cons_inv s'"
proof (cases "row s = rows s")
  case True
  with assms show ?thesis by (simp add: console_clear_to_end_of_line_def)
next
  case False
  with assms have "row s < rows s" by (simp add: cons_inv_def)
  with assms clear_eq [OF assms] show ?thesis by (auto simp: cons_inv_def)
qed

lemma esc_append_inv:
  assumes "cons_inv s" and "escape_code_length s < 32"
  shows "\<exists>s'. esc_append c s = ret s' \<and> cons_inv s'"
  using assms by (simp add: esc_append_def cons_inv_def)

lemma putch_escape_inv:
  assumes "cons_inv s" and "escape_code_length s < 32"
  shows "\<exists>s'. putch_escape c s = ret s' \<and> cons_inv s'"
proof -
  obtain t where t: "esc_append c s = ret t" "cons_inv t" using esc_append_inv [OF assms] by blast
  have reset: "cons_inv (u\<lparr>escape_code_length := 0\<rparr>)" if "cons_inv u" for u
    using that by (simp add: cons_inv_def)
  obtain k where k: "console_clear_to_end_of_line t = ret k" "cons_inv k"
    using clear_keeps_inv [OF t(2)] by blast
  then have "cons_inv (debug_out 10 k)" by (simp add: debug_out_def cons_inv_def)
  moreover obtain m where "console_sgr t = ret m" "cons_inv m"
  proof -
    have "\<exists>q a. sgr_loop 1 t = ret (t\<lparr>escape_code_parameter := q, attrs := a\<rparr>)"
      using t(2) by (intro sgr_returns) (auto simp: cons_inv_def)
    then obtain q a where "console_sgr t = ret (t\<lparr>escape_code_parameter := q, attrs := a\<rparr>)"
      by (auto simp: console_sgr_def)
    moreover have "cons_inv (t\<lparr>escape_code_parameter := q, attrs := a\<rparr>)" using t(2) by (simp add: cons_inv_def)
    ultimately show ?thesis by (rule that)
  qed
  ultimately show ?thesis
    using assms(1) t k(1) reset esc_append_inv [OF assms, of 91] by (simp add: putch_escape_def)
qed

lemma putch_inv:
  assumes "cons_inv s" and "escape_code_length s < 32 \<or> c = 0x1B"
  shows "\<exists>s'. console_putch_raw c s = ret s' \<and> cons_inv s'"
proof (cases "c = 0x1B \<or> 0 < escape_code_length s")
  case True
  then show ?thesis
    using assms putch_escape_inv [OF assms(1), of c] by (auto simp: console_putch_raw_def cons_inv_def)
next
  case False
  then show ?thesis using putch_text_refines [OF assms(1), of c] by (auto simp: console_putch_raw_def)
qed

lemma putch_overrun:
  assumes "cons_inv s" and "escape_code_length s = 32" and "c \<noteq> 0x1B"
  shows "console_putch_raw c s = goes_wrong Out_of_bounds"
  using assms by (simp add: console_putch_raw_def putch_escape_def esc_append_def cons_inv_def)

section \<open>Sequences of characters\<close>

lemma text_run:
  assumes "cons_inv s" and "escape_code_length s = 0" and "0x1B \<notin> set bs"
  shows "\<exists>s'. run_for bs console_putch_raw s = ret s' \<and> cons_inv s' \<and> escape_code_length s' = 0 \<and>
    flags s' = flags s \<and> term_of s' = fold term_put bs (term_of s) \<and> serial s' = serial s @ bs \<and>
    rows s' = rows s \<and> columns s' = columns s"
  using assms
proof (induction bs arbitrary: s)
  case Nil
  then show ?case by simp
next
  case (Cons c bs)
  obtain t where t: "putch_text c s = ret t" "cons_inv t" "term_of t = term_put c (term_of s)"
    "escape_code_length t = escape_code_length s" "flags t = flags s" "serial t = serial s @ [c]"
    "rows t = rows s" "columns t = columns s"
    using putch_text_refines [OF Cons.prems(1), of c] by blast
  obtain s' where "run_for bs console_putch_raw t = ret s' \<and> cons_inv s' \<and> escape_code_length s' = 0 \<and>
    flags s' = flags t \<and> term_of s' = fold term_put bs (term_of t) \<and> serial s' = serial t @ bs \<and>
    rows s' = rows t \<and> columns s' = columns t"
    using Cons.IH [of t] t Cons.prems by auto
  moreover have "console_putch_raw c s = ret t" using Cons.prems t by (auto simp: console_putch_raw_def)
  ultimately show ?case using t by simp
qed

text \<open>Characters that are collected into the escape sequence.\<close>

lemma collect_run:
  assumes "length (escape_code_sequence s) = 32" and "2 \<le> escape_code_length s"
    and "escape_code_length s + length bs \<le> 32" and "\<forall>b \<in> set bs. b < 64 \<and> b \<noteq> 0x1B"
  shows "\<exists>q. run_for bs console_putch_raw s = ret (s\<lparr>escape_code_sequence := q, escape_code_length := escape_code_length s + length bs\<rparr>)
    \<and> length q = 32 \<and> take (escape_code_length s + length bs) q = take (escape_code_length s) (escape_code_sequence s) @ bs"
  using assms
proof (induction bs arbitrary: s)
  case Nil
  have "run_for [] console_putch_raw s = ret (s\<lparr>escape_code_sequence := escape_code_sequence s, escape_code_length := escape_code_length s + length []\<rparr>)"
    by simp
  with Nil show ?case by (intro exI [of _ "escape_code_sequence s"]) simp
next
  case (Cons b bs)
  let ?n = "escape_code_length s"
  let ?t = "s\<lparr>escape_code_sequence := (escape_code_sequence s)[?n := b], escape_code_length := ?n + 1\<rparr>"
  have "?n < 32" using Cons.prems by simp
  then have step: "console_putch_raw b s = ret ?t"
    using Cons.prems by (auto simp: console_putch_raw_def putch_escape_def esc_append_def word_le_nat_alt word_less_nat_alt)
  obtain q where q: "run_for bs console_putch_raw ?t = ret (?t\<lparr>escape_code_sequence := q, escape_code_length := escape_code_length ?t + length bs\<rparr>)"
    "length q = 32" "take (escape_code_length ?t + length bs) q = take (escape_code_length ?t) (escape_code_sequence ?t) @ bs"
    using Cons.IH [of ?t] Cons.prems by auto
  have "take (Suc ?n) ((escape_code_sequence s)[?n := b]) = take ?n (escape_code_sequence s) @ [b]"
    using \<open>?n < 32\<close> Cons.prems(1) by (simp add: take_Suc_conv_app_nth)
  with q step show ?case by (intro exI [of _ q]) simp
qed

text \<open>The parameters of a colour sequence, separated and terminated.\<close>

fun sgr_bytes :: "u8 list list \<Rightarrow> u8 list" where
  "sgr_bytes [] = [109]"
| "sgr_bytes [p] = p @ [109]"
| "sgr_bytes (p # q # ps) = p @ 59 # sgr_bytes (q # ps)"

definition sgr_param :: "u8 list \<Rightarrow> bool" where
  "sgr_param p \<longleftrightarrow> (\<forall>b \<in> set p. 48 \<le> b \<and> b \<le> 57)"

lemma sgr_paramD:
  assumes "sgr_param p"
  shows "59 \<notin> set p" and "109 \<notin> set p" and "0 \<notin> set p"
  using assms by (auto simp: sgr_param_def)

lemma sgr_loop_params:
  assumes "drop (pos + 1) (take (escape_code_length s) (escape_code_sequence s)) = sgr_bytes ps"
    and "ps \<noteq> []" and "\<forall>p \<in> set ps. sgr_param p" and "escape_code_length s \<le> length (escape_code_sequence s)"
    and "length (escape_code_sequence s) = 32"
  shows "\<exists>q. sgr_loop pos s = ret (s\<lparr>escape_code_parameter := q,
    attrs := fold (\<lambda>p. sgr_attrs (sint (atoi_value p))) ps (attrs s)\<rparr>)"
  using assms
proof (induction ps arbitrary: pos s rule: sgr_bytes.induct)
  case 1
  then show ?case by simp
next
  case (2 p)
  let ?a = "sgr_attrs (sint (atoi_value p)) (attrs s)"
  obtain q where c: "console_sgr_consume_parameter (pos + 1) s =
      ret (s\<lparr>escape_code_parameter := q, attrs := ?a\<rparr>, Some (pos + 1 + length p))"
    using consume_found [of "pos + 1" s p 109 "[]"] 2 sgr_paramD [of p] by auto
  have "escape_code_length s = pos + 1 + length p + 1"
    using arg_cong [OF 2(1), of length] 2 by simp
  then have "sgr_loop (pos + 1 + length p) (s\<lparr>escape_code_parameter := q, attrs := ?a\<rparr>) = ret (s\<lparr>escape_code_parameter := q, attrs := ?a\<rparr>)"
    by (subst sgr_loop.simps) (simp add: console_sgr_consume_parameter_def)
  with c show ?case by (subst sgr_loop.simps) auto
next
  case (3 p p' ps)
  let ?a = "sgr_attrs (sint (atoi_value p)) (attrs s)"
  obtain q where c: "console_sgr_consume_parameter (pos + 1) s =
      ret (s\<lparr>escape_code_parameter := q, attrs := ?a\<rparr>, Some (pos + 1 + length p))"
    using consume_found [of "pos + 1" s p 59 "sgr_bytes (p' # ps)"] 3 sgr_paramD [of p] by auto
  let ?t = "s\<lparr>escape_code_parameter := q, attrs := ?a\<rparr>"
  have "drop (length p + 1) (drop (pos + 1) (take (escape_code_length s) (escape_code_sequence s))) = sgr_bytes (p' # ps)"
    unfolding 3(2) by simp
  then have "drop (pos + 1 + length p + 1) (take (escape_code_length ?t) (escape_code_sequence ?t)) = sgr_bytes (p' # ps)"
    by (simp add: add_ac)
  then obtain q' where "sgr_loop (pos + 1 + length p) ?t = ret (?t\<lparr>escape_code_parameter := q',
      attrs := fold (\<lambda>p. sgr_attrs (sint (atoi_value p))) (p' # ps) (attrs ?t)\<rparr>)"
    using 3(1) [of "pos + 1 + length p" ?t] 3(3-6) by auto
  with c show ?case by (subst sgr_loop.simps) auto
qed

lemma sgr_bytes_split:
  assumes "ps \<noteq> []" and "\<forall>p \<in> set ps. sgr_param p"
  shows "\<exists>body. sgr_bytes ps = body @ [109] \<and> (\<forall>b \<in> set body. b < 64 \<and> b \<noteq> 0x1B)"
  using assms
proof (induction ps rule: sgr_bytes.induct)
  case (2 p)
  have "\<forall>b \<in> set p. b < 64 \<and> b \<noteq> 0x1B" using 2 by (auto simp: sgr_param_def word_le_nat_alt word_less_nat_alt)
  then show ?case by simp
next
  case (3 p p' ps)
  have p: "\<forall>b \<in> set p. b < 64 \<and> b \<noteq> 0x1B" using 3 by (auto simp: sgr_param_def word_le_nat_alt word_less_nat_alt)
  obtain body where "sgr_bytes (p' # ps) = body @ [109]" "\<forall>b \<in> set body. b < 64 \<and> b \<noteq> 0x1B" using 3 by auto
  with p show ?case by (intro exI [of _ "p @ 59 # body"]) auto
qed simp

lemma sgr_run:
  assumes inv: "cons_inv s" and ps: "ps \<noteq> []" "\<forall>p \<in> set ps. sgr_param p" and len: "length (sgr_bytes ps) \<le> 30"
  shows "\<exists>q r. run_for (0x1B # 91 # sgr_bytes ps) console_putch_raw s = ret (s\<lparr>escape_code_sequence := q,
    escape_code_parameter := r, escape_code_length := 0, attrs := fold (\<lambda>p. sgr_attrs (sint (atoi_value p))) ps (attrs s)\<rparr>) \<and> length q = 32"
proof -
  obtain body where body: "sgr_bytes ps = body @ [109]" "\<forall>b \<in> set body. b < 64 \<and> b \<noteq> 0x1B"
    using sgr_bytes_split [OF ps] by blast
  let ?q = "(replicate 32 (0 :: u8))[0 := 0x1B, Suc 0 := 91]"
  let ?t = "s\<lparr>escape_code_sequence := ?q, escape_code_length := 2\<rparr>"
  have start: "run_bind (console_putch_raw 0x1B s) (console_putch_raw 91) = ret ?t"
    by (simp add: console_putch_raw_def putch_escape_def esc_append_def)
  have pre: "take 2 ?q = [0x1B, 91]" by (simp add: eval_nat_numeral)
  have "length (escape_code_sequence ?t) = 32" "2 \<le> escape_code_length ?t" "escape_code_length ?t + length body \<le> 32"
    using body(1) len by simp_all
  from collect_run [OF this body(2)] obtain q where
    "run_for body console_putch_raw ?t = ret (?t\<lparr>escape_code_sequence := q, escape_code_length := escape_code_length ?t + length body\<rparr>)"
    "length q = 32" "take (escape_code_length ?t + length body) q = take (escape_code_length ?t) (escape_code_sequence ?t) @ body"
    by blast
  then have q: "run_for body console_putch_raw ?t = ret (?t\<lparr>escape_code_sequence := q, escape_code_length := 2 + length body\<rparr>)"
    "length q = 32" "take (2 + length body) q = [0x1B, 91] @ body"
    using pre by simp_all
  let ?u = "?t\<lparr>escape_code_sequence := q[2 + length body := 109], escape_code_length := Suc (2 + length body)\<rparr>"
  have "take (Suc (2 + length body)) (q[2 + length body := 109]) = [0x1B, 91] @ body @ [109]"
    using q(2,3) len body(1) by (simp add: take_Suc_conv_app_nth)
  then have "drop (1 + 1) (take (escape_code_length ?u) (escape_code_sequence ?u)) = sgr_bytes ps"
    by (simp add: body(1))
  then obtain r where "sgr_loop 1 ?u = ret (?u\<lparr>escape_code_parameter := r,
      attrs := fold (\<lambda>p. sgr_attrs (sint (atoi_value p))) ps (attrs s)\<rparr>)"
    using sgr_loop_params [of 1 ?u ps] ps len body(1) q(2) by auto
  then have "console_putch_raw 109 (?t\<lparr>escape_code_sequence := q, escape_code_length := 2 + length body\<rparr>) =
      ret (?u\<lparr>escape_code_parameter := r, attrs := fold (\<lambda>p. sgr_attrs (sint (atoi_value p))) ps (attrs s), escape_code_length := 0\<rparr>)"
    using len body(1) q(2) by (simp add: console_putch_raw_def putch_escape_def esc_append_def console_sgr_def)
  moreover have "run_for (0x1B # 91 # sgr_bytes ps) console_putch_raw s =
      run_bind (run_bind (console_putch_raw 0x1B s) (console_putch_raw 91)) (run_for (sgr_bytes ps) console_putch_raw)"
    by (simp add: run_for_Cons run_bind_assoc)
  ultimately have "run_for (0x1B # 91 # sgr_bytes ps) console_putch_raw s =
      ret (?u\<lparr>escape_code_parameter := r, attrs := fold (\<lambda>p. sgr_attrs (sint (atoi_value p))) ps (attrs s), escape_code_length := 0\<rparr>)"
    by (simp add: start body(1) run_for_append q(1))
  then show ?thesis using q(2) by (intro exI [of _ "q[2 + length body := 109]"] exI [of _ r]) simp
qed

lemma blank_screen:
  assumes "length (buffer s) = rows s * columns s"
  shows "run_for [0..<rows s] (\<lambda>i. run_for [0..<columns s] (\<lambda>j s. set_cell (i * columns s + j) (blank s) s)) s =
    ret (s\<lparr>buffer := replicate (rows s * columns s) (blank s)\<rparr>)"
proof -
  let ?f = "\<lambda>n. s\<lparr>buffer := fill 0 n (blank s) (buffer s)\<rparr>"
  let ?body = "\<lambda>i j s. set_cell (i * columns s + j) (blank s) s"
  have row: "\<exists>s'. run_for [0..<columns s] (?body i) (?f (i * columns s)) = ret s' \<and> s' = ?f (i * columns s + columns s)"
    if "i < rows s" for i
  proof (rule run_for_upt [where P = "\<lambda>j t. t = ?f (i * columns s + j)"])
    fix j t assume "j < columns s" and t: "t = ?f (i * columns s + j)"
    then have "i * columns s + j < length (buffer s)" using that assms by (simp add: cell_in_range)
    then show "\<exists>s'. set_cell (i * columns t + j) (blank t) t = ret s' \<and> s' = ?f (i * columns s + Suc j)"
      by (simp add: t set_cell_def blank_def fill_Suc)
  qed simp_all
  have "\<exists>s'. run_for [0..<rows s] (\<lambda>i. run_for [0..<columns s] (?body i)) s = ret s' \<and> s' = ?f (rows s * columns s)"
  proof (rule run_for_upt [where P = "\<lambda>i t. t = ?f (i * columns s)"])
    show "\<exists>s'. run_for [0..<columns s] (?body i) t = ret s' \<and> s' = ?f (Suc i * columns s)"
      if "i < rows s" "t = ?f (i * columns s)" for i t
      using row [OF that(1)] that(2) by (simp add: add.commute)
  qed simp_all
  moreover have "fill 0 (rows s * columns s) (blank s) (buffer s) = replicate (rows s * columns s) (blank s)"
    using assms by (intro nth_equalityI) auto
  ultimately show ?thesis by auto
qed

section \<open>The contract of a console device\<close>

text \<open>
  What the console relies on when it calls \<open>redraw\<close>: on a good device the call returns a good
  device that shows the console, and showing does not depend on the dirty flag. In exchange, after
  every operation of a console that draws automatically, the device shows the console.
\<close>

locale console_device =
  fixes redraw :: "'d driver" and dev_ok :: "'d \<Rightarrow> bool" and shows_console :: "console \<Rightarrow> 'd \<Rightarrow> bool"
    and fits :: "console \<Rightarrow> bool"
  assumes redraw_shows: "\<lbrakk>cons_inv s; fits s; dev_ok dev\<rbrakk> \<Longrightarrow> \<exists>dev'. redraw s dev = ret dev' \<and> dev_ok dev' \<and> shows_console s dev'"
    and shows_flags: "shows_console (s\<lparr>flags := flags s AND NOT CONSOLE_FLAG_DIRTY\<rparr>) dev = shows_console s dev"
    and fits_cong: "\<lbrakk>rows s' = rows s; columns s' = columns s\<rbrakk> \<Longrightarrow> fits s' = fits s"
begin

lemma touch_shows:
  assumes "cons_inv s" and "fits s" and "dev_ok dev" and "flags s AND CONSOLE_FLAG_AUTODRAW \<noteq> 0"
  shows "\<exists>fl dev'. console_touch redraw (s, dev) = ret (s\<lparr>flags := fl\<rparr>, dev') \<and> dev_ok dev' \<and>
    shows_console (s\<lparr>flags := fl\<rparr>) dev' \<and> fl AND CONSOLE_FLAG_AUTODRAW \<noteq> 0"
proof -
  let ?s = "s\<lparr>flags := flags s OR CONSOLE_FLAG_DIRTY\<rparr>"
  let ?fl = "(flags s OR CONSOLE_FLAG_DIRTY) AND NOT CONSOLE_FLAG_DIRTY"
  have "bit (flags s) 1" using assms(4) bit_and_exp [of "flags s" 1] by (simp add: CONSOLE_FLAG_AUTODRAW_def)
  then have on: "bit (?fl AND CONSOLE_FLAG_AUTODRAW) 1" "bit ((flags s OR CONSOLE_FLAG_DIRTY) AND CONSOLE_FLAG_AUTODRAW) 1"
    by (simp_all add: CONSOLE_FLAG_AUTODRAW_def CONSOLE_FLAG_DIRTY_def bit_simps bit_numeral_rec bit_1_iff)
  have auto: "?fl AND CONSOLE_FLAG_AUTODRAW \<noteq> 0" "(flags s OR CONSOLE_FLAG_DIRTY) AND CONSOLE_FLAG_AUTODRAW \<noteq> 0"
    using on [THEN bit_nonzero] by simp_all
  have "bit ((flags s OR CONSOLE_FLAG_DIRTY) AND CONSOLE_FLAG_DIRTY) 0"
    by (simp add: CONSOLE_FLAG_DIRTY_def bit_simps)
  then have dirty: "(flags s OR CONSOLE_FLAG_DIRTY) AND CONSOLE_FLAG_DIRTY \<noteq> 0" by (rule bit_nonzero)
  have "cons_inv ?s" "fits ?s" using assms fits_cong [of ?s s] by (auto simp: cons_inv_def)
  then obtain dev' where d: "redraw ?s dev = ret dev'" "dev_ok dev'" "shows_console ?s dev'"
    using redraw_shows assms(3) by blast
  have "shows_console (s\<lparr>flags := ?fl\<rparr>) dev'" using shows_flags [of ?s dev'] d(3) by simp
  with d auto dirty show ?thesis
    by (intro exI [of _ ?fl] exI [of _ dev']) (simp add: console_touch_def console_redraw_def)
qed

lemma write_shows:
  assumes "cons_inv s" and "escape_code_length s = 0" and "0x1B \<notin> set bs"
    and "fits s" and "dev_ok dev" and "flags s AND CONSOLE_FLAG_AUTODRAW \<noteq> 0"
  shows "\<exists>s' dev'. console_write redraw bs (s, dev) = ret (s', dev') \<and> cons_inv s' \<and>
    term_of s' = fold term_put bs (term_of s) \<and> serial s' = serial s @ bs \<and> dev_ok dev' \<and> shows_console s' dev'"
proof -
  obtain t where t: "run_for bs console_putch_raw s = ret t" "cons_inv t" "flags t = flags s"
    "term_of t = fold term_put bs (term_of s)" "serial t = serial s @ bs" "rows t = rows s" "columns t = columns s"
    using text_run [OF assms(1-3)] by blast
  have "fits t" using assms(4) fits_cong t by blast
  then obtain fl dev' where "console_touch redraw (t, dev) = ret (t\<lparr>flags := fl\<rparr>, dev')" "dev_ok dev'" "shows_console (t\<lparr>flags := fl\<rparr>) dev'"
    using touch_shows [of t dev] t assms by auto
  with t show ?thesis
    by (intro exI [of _ "t\<lparr>flags := fl\<rparr>"] exI [of _ dev']) (auto simp: console_write_def cons_inv_def term_of_def)
qed

lemma initialize_shows:
  assumes "0 < rows s" and "0 < columns s" and "rows s * columns s < 65536" and "length (buffer s) = rows s * columns s"
    and "length (escape_code_sequence s) = 32" and "escape_code_length s = 0"
    and "fits s" and "dev_ok dev" and "flags s AND CONSOLE_FLAG_AUTODRAW \<noteq> 0"
  shows "\<exists>s' dev'. console_initialize redraw (s, dev) = ret (s', dev') \<and> cons_inv s' \<and> escape_code_length s' = 0 \<and>
    flags s' AND CONSOLE_FLAG_AUTODRAW \<noteq> 0 \<and>
    term_of s' = \<lparr>tlines = replicate (rows s) (replicate (columns s) \<lparr>cc_ch = 32, cc_attrs = 7\<rparr>), trow = 0, tcol = 0, tattrs = 7\<rparr> \<and>
    dev_ok dev' \<and> shows_console s' dev'"
proof -
  let ?t = "s\<lparr>row := 0, column := 0, attrs := 7\<rparr>"
  let ?u = "?t\<lparr>buffer := replicate (rows s * columns s) (blank ?t)\<rparr>"
  have loop: "run_for [0..<rows s] (\<lambda>i. run_for [0..<columns s] (\<lambda>j s. set_cell (i * columns s + j) (blank s) s)) ?t = ret ?u"
    using blank_screen [of ?t] assms by simp
  have u: "cons_inv ?u" "fits ?u" using assms fits_cong [of ?u s] by (auto simp: cons_inv_def)
  have "term_of ?u = \<lparr>tlines = replicate (rows s) (replicate (columns s) \<lparr>cc_ch = 32, cc_attrs = 7\<rparr>), trow = 0, tcol = 0, tattrs = 7\<rparr>"
    by (simp add: term_of_def blank_def) (intro grid_eqI, auto simp: cell_in_range)
  moreover obtain fl dev' where "console_touch redraw (?u, dev) = ret (?u\<lparr>flags := fl\<rparr>, dev')" "dev_ok dev'"
    "shows_console (?u\<lparr>flags := fl\<rparr>) dev'" "fl AND CONSOLE_FLAG_AUTODRAW \<noteq> 0"
    using touch_shows [OF u assms(8)] assms(9) by auto
  ultimately show ?thesis using loop u(1) assms(6)
    by (intro exI [of _ "?u\<lparr>flags := fl\<rparr>"] exI [of _ dev']) (auto simp: console_initialize_def cons_inv_def term_of_def)
qed

end

text \<open>
  The VGA driver. The cursor registers of the controller follow from the port writes: a write to
  port 0x3D4 selects a register, a write to 0x3D5 sets it. The driver is in order when the
  registers agree with what it remembers of the cursor.
\<close>

definition vga_write :: "u16 \<times> u8 \<Rightarrow> u8 \<times> (u8 \<Rightarrow> u8) \<Rightarrow> u8 \<times> (u8 \<Rightarrow> u8)" where
  "vga_write w r = (if fst w = 0x3D4 then (snd w, snd r) else if fst w = 0x3D5 then (fst r, (snd r)(fst r := snd w)) else r)"

definition vga_registers :: "u8 \<times> (u8 \<Rightarrow> u8) \<Rightarrow> vga_state \<Rightarrow> u8 \<Rightarrow> u8" where
  "vga_registers r0 v = snd (fold vga_write (vga_ports v) r0)"

definition vga_ok :: "u8 \<times> (u8 \<Rightarrow> u8) \<Rightarrow> vga_state \<Rightarrow> bool" where
  "vga_ok r0 v \<longleftrightarrow>
     (let r = vga_registers r0 v; pos = (cursor_row v * 80 + cursor_column v) mod 65536
      in r 0x0F = of_nat (pos mod 256) \<and> r 0x0E = of_nat (pos div 256) \<and> (r 0x0A AND 0x20 = 0 \<longleftrightarrow> cursor_visible v))"

definition vga_shows :: "console \<Rightarrow> vga_state \<Rightarrow> bool" where
  "vga_shows s v \<longleftrightarrow> cursor_column v = column s \<and> cursor_row v = row s \<and>
     cursor_visible v = (flags s AND CONSOLE_FLAG_SHOW_CURSOR \<noteq> 0)"

lemma vga_set_cursor_ok: "vga_ok r0 v \<Longrightarrow> vga_ok r0 (vga_set_cursor x y v)"
  by (simp add: vga_ok_def vga_set_cursor_def vga_registers_def vga_write_def Let_def)

lemma vga_cursor_visible_ok:
  "vga_ok r0 v \<Longrightarrow> vga_ok r0 (vga_enable_cursor v)" "vga_ok r0 v \<Longrightarrow> vga_ok r0 (vga_disable_cursor v)"
  by (simp_all add: vga_ok_def vga_enable_cursor_def vga_disable_cursor_def vga_registers_def vga_write_def Let_def)

lemma vga_redraw_shows:
  assumes "vga_ok r0 v"
  shows "\<exists>v'. vga_console_redraw s v = ret v' \<and> vga_ok r0 v' \<and> vga_shows s v'"
proof -
  define w where "w = (if column s \<noteq> cursor_column v \<or> row s \<noteq> cursor_row v then vga_set_cursor (column s) (row s) v else v)"
  have w: "vga_ok r0 w" "cursor_column w = column s" "cursor_row w = row s" "cursor_visible w = cursor_visible v"
    using assms by (simp_all add: w_def vga_set_cursor_ok) (simp_all add: vga_set_cursor_def Let_def)
  define show_cursor where "show_cursor = (flags s AND CONSOLE_FLAG_SHOW_CURSOR \<noteq> 0)"
  define u where "u = (if show_cursor \<noteq> cursor_visible w then (if show_cursor then vga_enable_cursor w else vga_disable_cursor w) else w)"
  have "vga_console_redraw s v = ret u"
    unfolding vga_console_redraw_def u_def w_def show_cursor_def Let_def by (rule refl)
  moreover have "vga_ok r0 u" using w(1) by (simp add: u_def vga_cursor_visible_ok)
  moreover have "vga_shows s u"
    using w(2,3) by (auto simp: u_def vga_shows_def show_cursor_def vga_enable_cursor_def vga_disable_cursor_def)
  ultimately show ?thesis by blast
qed

interpretation vga: console_device vga_console_redraw "vga_ok r0" vga_shows "\<lambda>s. True" for r0
proof unfold_locales
  show "\<exists>v'. vga_console_redraw s v = ret v' \<and> vga_ok r0 v' \<and> vga_shows s v'" if "vga_ok r0 v" for s v
    using that by (rule vga_redraw_shows)
  have "(x AND NOT CONSOLE_FLAG_DIRTY) AND CONSOLE_FLAG_SHOW_CURSOR = x AND CONSOLE_FLAG_SHOW_CURSOR" for x
    by (simp add: CONSOLE_FLAG_DIRTY_def CONSOLE_FLAG_SHOW_CURSOR_def and.assoc)
  then show "vga_shows (s\<lparr>flags := flags s AND NOT CONSOLE_FLAG_DIRTY\<rparr>) v = vga_shows s v" for s v
    by (simp add: vga_shows_def)
qed simp

text \<open>The driver without a device.\<close>

interpretation null: console_device null_console_redraw "\<lambda>d. True" "\<lambda>s d. True" "\<lambda>s. True"
  by unfold_locales (auto simp: null_console_redraw_def)

section \<open>Properties\<close>

text \<open>A small console with blank cells, on which the properties are applied.\<close>

definition small_console :: console where
  "small_console = new_console 4 2 (replicate 8 \<lparr>cc_ch = 32, cc_attrs = 0\<rparr>)"

lemma small_console_inv: "cons_inv small_console" "escape_code_length small_console = 0"
  "flags small_console AND CONSOLE_FLAG_AUTODRAW \<noteq> 0" "attrs small_console = 0"
  by (simp_all add: small_console_def new_console_def cons_inv_def CONSOLE_FLAG_AUTODRAW_def CONSOLE_FLAG_SHOW_CURSOR_def)

definition idle_vga :: vga_state where
  "idle_vga = \<lparr>cursor_column = 0, cursor_row = 0, cursor_visible = True, vga_ports = []\<rparr>"

lemma idle_vga_ok: "vga_ok (0, \<lambda>_. 0) idle_vga"
  by (simp add: vga_ok_def idle_vga_def vga_registers_def)

text \<open>C18: \<open>console_write\<close> on the VGA console refines a scrolling terminal: text without escape characters
  is written without leaving the cell buffer, wraps at the last column and scrolls at the last row
  exactly as the terminal does, goes to the serial port byte by byte, and afterwards the cursor
  registers of the controller show the position and visibility of the cursor.\<close>

theorem console_write_refines_terminal:
  assumes "cons_inv s" and "escape_code_length s = 0" and "0x1B \<notin> set bs"
    and "vga_ok r0 v" and "flags s AND CONSOLE_FLAG_AUTODRAW \<noteq> 0"
  shows "\<exists>s' v'. console_write vga_console_redraw bs (s, v) = ret (s', v') \<and> cons_inv s' \<and>
    term_of s' = fold term_put bs (term_of s) \<and> serial s' = serial s @ bs \<and> vga_ok r0 v' \<and> vga_shows s' v'"
  using vga.write_shows [OF assms(1-3) TrueI assms(4,5)] .

theorem console_write_refines_terminal_witness:
  "\<exists>s' v'. console_write vga_console_redraw [72, 105, 10, 33] (small_console, idle_vga) = ret (s', v') \<and> cons_inv s' \<and>
    term_of s' = fold term_put [72, 105, 10, 33] (term_of small_console) \<and>
    serial s' = serial small_console @ [72, 105, 10, 33] \<and> vga_ok (0, \<lambda>_. 0) v' \<and> vga_shows s' v'"
  by (rule console_write_refines_terminal) (simp_all add: small_console_inv idle_vga_ok)

text \<open>C19: one character, escape sequences included, never leaves the cell buffer and keeps the
  invariant of the console; the only way to go wrong is a 33rd byte of an escape sequence, which
  is written behind the 32-byte array that collects the sequence.\<close>

theorem console_putch_safe:
  assumes "cons_inv s"
  shows "if escape_code_length s = 32 \<and> c \<noteq> 0x1B then console_putch_raw c s = goes_wrong Out_of_bounds
         else \<exists>s'. console_putch_raw c s = ret s' \<and> cons_inv s'"
  using putch_overrun [OF assms, of c] putch_inv [OF assms, of c] assms by (auto simp: cons_inv_def)

theorem console_putch_safe_witness:
  "console_putch_raw 48 (small_console\<lparr>escape_code_length := 32\<rparr>) = goes_wrong Out_of_bounds \<and>
   (\<exists>s'. console_putch_raw 48 small_console = ret s' \<and> cons_inv s')"
proof -
  have "cons_inv (small_console\<lparr>escape_code_length := 32\<rparr>)" using small_console_inv(1) by (simp add: cons_inv_def)
  from console_putch_safe [OF this, of 48] console_putch_safe [OF small_console_inv(1), of 48] show ?thesis
    by (simp add: small_console_inv)
qed

text \<open>C20: a colour sequence \<open>ESC [ p1 ; ... ; pn m\<close> of decimal parameters that fits the 32-byte array applies
  the parameters from left to right to the attributes (30-37 foreground, 40-47 background, 1
  bright, 22 normal) and leaves the cells, the cursor and the serial port alone.\<close>

theorem console_sgr_sequence:
  assumes "cons_inv s" and "ps \<noteq> []" and "\<forall>p \<in> set ps. sgr_param p" and "length (sgr_bytes ps) \<le> 30"
  shows "\<exists>s'. run_for (0x1B # 91 # sgr_bytes ps) console_putch_raw s = ret s' \<and> cons_inv s' \<and>
    escape_code_length s' = 0 \<and> serial s' = serial s \<and>
    term_of s' = (term_of s)\<lparr>tattrs := fold (\<lambda>p. sgr_attrs (sint (atoi_value p))) ps (attrs s)\<rparr>"
  using sgr_run [OF assms] assms(1) by (auto simp: cons_inv_def term_of_def)

theorem console_sgr_sequence_witness:
  "\<exists>s'. run_for [0x1B, 91, 51, 49, 59, 49, 109] console_putch_raw small_console = ret s' \<and> attrs s' = 0x0C"
proof -
  have p: "sgr_bytes [[51, 49], [49]] = [51, 49, 59, 49, 109]" "\<forall>p \<in> set [[51, 49], [49 :: u8]]. sgr_param p"
    by (simp_all add: sgr_param_def)
  have "fold (\<lambda>p. sgr_attrs (sint (atoi_value p))) [[51, 49], [49]] (attrs small_console) = 0x0C"
    by (simp add: small_console_inv atoi_value_def decimal_def sgr_attrs_def console_entry_color_def console_ansi_to_vga_def
        bg_from_console_color_def)
  with console_sgr_sequence [OF small_console_inv(1) _ p(2)] p(1) show ?thesis
    by (auto simp: term_of_def)
qed

text \<open>Initialising the VGA console over video memory of the right size yields a console with
  blank rows, the cursor in the first cell and light grey on black, ready for text; only a failed
  allocation of the console structure goes wrong.\<close>

theorem init_vga_console_correct:
  assumes "0 < cols" and "0 < rws" and "rws * cols < 65536" and "length vga_memory = rws * cols" and "vga_ok r0 idle_vga"
  shows "init_vga_console False vga_memory cols rws = goes_wrong Null_pointer \<and>
    (\<exists>s v. init_vga_console True vga_memory cols rws = ret (s, v) \<and> cons_inv s \<and> escape_code_length s = 0 \<and>
      flags s AND CONSOLE_FLAG_AUTODRAW \<noteq> 0 \<and>
      term_of s = \<lparr>tlines = replicate rws (replicate cols \<lparr>cc_ch = 32, cc_attrs = 7\<rparr>), trow = 0, tcol = 0, tattrs = 7\<rparr> \<and>
      vga_ok r0 v \<and> vga_shows s v)"
proof
  show "init_vga_console False vga_memory cols rws = goes_wrong Null_pointer" by (simp add: init_vga_console_def)
  let ?s = "new_console cols rws vga_memory"
  have "rws * 1 \<le> rws * cols" "1 * cols \<le> rws * cols" using assms(1,2) by (auto intro!: mult_le_mono)
  then have "rws < 65536" "cols < 65536" using assms(3) by linarith+
  then have small: "rws mod 65536 = rws" "cols mod 65536 = cols" by simp_all
  have s: "rows ?s = rws" "columns ?s = cols" "buffer ?s = vga_memory" "length (escape_code_sequence ?s) = 32"
    "escape_code_length ?s = 0" "flags ?s AND CONSOLE_FLAG_AUTODRAW \<noteq> 0"
    by (simp_all add: new_console_def CONSOLE_FLAG_AUTODRAW_def CONSOLE_FLAG_SHOW_CURSOR_def)
  have "\<exists>s v. console_initialize vga_console_redraw (?s, idle_vga) = ret (s, v) \<and> cons_inv s \<and> escape_code_length s = 0 \<and>
      flags s AND CONSOLE_FLAG_AUTODRAW \<noteq> 0 \<and>
      term_of s = \<lparr>tlines = replicate (rows ?s) (replicate (columns ?s) \<lparr>cc_ch = 32, cc_attrs = 7\<rparr>), trow = 0, tcol = 0, tattrs = 7\<rparr> \<and>
      vga_ok r0 v \<and> vga_shows s v"
    by (rule vga.initialize_shows) (use assms s in simp_all)
  then show "\<exists>s v. init_vga_console True vga_memory cols rws = ret (s, v) \<and> cons_inv s \<and> escape_code_length s = 0 \<and>
      flags s AND CONSOLE_FLAG_AUTODRAW \<noteq> 0 \<and>
      term_of s = \<lparr>tlines = replicate rws (replicate cols \<lparr>cc_ch = 32, cc_attrs = 7\<rparr>), trow = 0, tcol = 0, tattrs = 7\<rparr> \<and>
      vga_ok r0 v \<and> vga_shows s v"
    by (simp only: s small init_vga_console_def idle_vga_def if_False not_True_eq_False)
qed

theorem init_vga_console_correct_witness:
  "\<exists>s v. init_vga_console True (replicate 2000 \<lparr>cc_ch = 0, cc_attrs = 0\<rparr>) 80 25 = ret (s, v) \<and> cons_inv s"
  using init_vga_console_correct [of 80 25 "replicate 2000 \<lparr>cc_ch = 0, cc_attrs = 0\<rparr>" "(0, \<lambda>_. 0)"] idle_vga_ok
  by auto

end
