(* ===== verification/Fbconsole.thy ===== *)
theory Fbconsole
  imports Console
begin

text \<open>
  The framebuffer console (\<^verbatim>\<open>kernel/console/fbconsole.c\<close>): the table of colour pairs built from the
  pixel format, the drawing of glyphs, and the driver operation that redraws every cell. The pixel
  memory is a byte list and every access is checked. The font, a binary linked into the kernel, is
  an argument. The lemmas show which byte each pixel of the console gets.
\<close>

section \<open>Data\<close>

record palette_entry =
  pal_r :: u8
  pal_g :: u8
  pal_b :: u8

record color_fmt =
  red_mask_size :: u8
  red_position :: u8
  green_mask_size :: u8
  green_position :: u8
  blue_mask_size :: u8
  blue_position :: u8

record framebuffer =
  fb_width :: u32
  fb_height :: u32
  fb_pitch :: u32
  fb_bpp :: u8
  fb_flags :: u8
  fb_data :: "u8 list"
  fb_private :: "u8 list"
  fb_palette_num :: u8
  fb_format :: color_fmt
  fb_palette :: "palette_entry list"

definition FB_CONSOLE_FLAG_RGB :: u8 where "FB_CONSOLE_FLAG_RGB = 1"

text \<open>A PSF font: two magic bytes, a mode byte, the bytes per glyph, the glyphs.\<close>

record psf_font =
  psf_magic0 :: u8
  psf_magic1 :: u8
  psf_charsize :: u8
  psf_glyphs :: "u8 list"

definition PSF1_MAGIC0 :: u8 where "PSF1_MAGIC0 = 0x36"
definition PSF1_MAGIC1 :: u8 where "PSF1_MAGIC1 = 0x04"

text \<open>The palette filled in by \<open>__init_font\<close>.\<close>

definition vga_palette_colors :: "palette_entry list" where
  "vga_palette_colors =
    [\<lparr>pal_r = 0, pal_g = 0, pal_b = 0\<rparr>, \<lparr>pal_r = 0, pal_g = 0, pal_b = 170\<rparr>,
     \<lparr>pal_r = 0, pal_g = 170, pal_b = 0\<rparr>, \<lparr>pal_r = 0, pal_g = 170, pal_b = 170\<rparr>,
     \<lparr>pal_r = 170, pal_g = 0, pal_b = 0\<rparr>, \<lparr>pal_r = 170, pal_g = 0, pal_b = 170\<rparr>,
     \<lparr>pal_r = 170, pal_g = 85, pal_b = 0\<rparr>, \<lparr>pal_r = 170, pal_g = 170, pal_b = 170\<rparr>,
     \<lparr>pal_r = 85, pal_g = 85, pal_b = 85\<rparr>, \<lparr>pal_r = 85, pal_g = 85, pal_b = 255\<rparr>,
     \<lparr>pal_r = 85, pal_g = 255, pal_b = 85\<rparr>, \<lparr>pal_r = 85, pal_g = 255, pal_b = 255\<rparr>,
     \<lparr>pal_r = 255, pal_g = 85, pal_b = 85\<rparr>, \<lparr>pal_r = 255, pal_g = 85, pal_b = 255\<rparr>,
     \<lparr>pal_r = 255, pal_g = 255, pal_b = 255\<rparr>, \<lparr>pal_r = 255, pal_g = 255, pal_b = 255\<rparr>]"

text \<open>\<open>Inl\<close> is the halt of a machine whose font is not a PSF font.\<close>

definition init_font :: "psf_font \<Rightarrow> (palette_entry list \<times> u8 list) run" where
  "init_font font =
     (if psf_magic0 font \<noteq> PSF1_MAGIC0 \<or> psf_magic1 font \<noteq> PSF1_MAGIC1 then goes_wrong (Panic ''cli; hlt'')
      else ret (vga_palette_colors, psf_glyphs font))"

section \<open>Drawing\<close>

definition put_byte :: "nat \<Rightarrow> u8 \<Rightarrow> framebuffer \<Rightarrow> framebuffer run" where
  "put_byte a b fb = (if a < length (fb_data fb) then ret (fb\<lparr>fb_data := (fb_data fb)[a := b]\<rparr>) else goes_wrong Out_of_bounds)"

definition get_byte :: "'a list \<Rightarrow> nat \<Rightarrow> 'a run" where
  "get_byte bs a = (if a < length bs then ret (bs ! a) else goes_wrong Out_of_bounds)"

text \<open>The test \<open>row & (1 << (8-j))\<close>, an \<open>int\<close> expression.\<close>

definition pixel_set :: "u8 \<Rightarrow> nat \<Rightarrow> bool" where
  "pixel_set r j \<longleftrightarrow> (ucast r :: u32) AND push_bit (8 - j) 1 \<noteq> 0"

text \<open>
  The three loops of \<open>fb_console_draw_glyph\<close>, innermost first. \<open>pair\<close> is the offset of the colour
  pair in the table; positions have 16 bits, byte offsets 32.
\<close>

definition fb_draw_pixel :: "nat \<Rightarrow> nat \<Rightarrow> nat \<Rightarrow> nat \<Rightarrow> framebuffer \<Rightarrow> framebuffer run" where
  "fb_draw_pixel px py color lut_size fb =
     (let p = unat (fb_pitch fb * of_nat py + of_nat (px * lut_size))
      in run_for [0..<lut_size] (\<lambda>k fb.
           run_bind (get_byte (fb_private fb) (color + k)) (\<lambda>b. put_byte (p + k) b fb)) fb)"

definition fb_draw_row :: "u8 \<Rightarrow> nat \<Rightarrow> nat \<Rightarrow> nat \<Rightarrow> nat \<Rightarrow> framebuffer \<Rightarrow> framebuffer run" where
  "fb_draw_row r fb_x py pair lut_size fb =
     run_for [0..<8] (\<lambda>j fb.
       fb_draw_pixel (fb_x + j) py (if pixel_set r j then pair else pair + lut_size) lut_size fb) fb"

definition fb_console_draw_glyph ::
  "psf_font \<Rightarrow> u8 \<Rightarrow> nat \<Rightarrow> nat \<Rightarrow> nat \<Rightarrow> nat \<Rightarrow> framebuffer \<Rightarrow> framebuffer run" where
  "fb_console_draw_glyph font ch x y pair lut_size fb =
     (let fb_x = (x * 8) mod 65536; fb_y = (y * 16) mod 65536
      in run_for [0..<16] (\<lambda>i fb.
           run_bind (get_byte (psf_glyphs font) (unat (psf_charsize font) * unat ch + i)) (\<lambda>r.
           fb_draw_row r fb_x (fb_y + i) pair lut_size fb)) fb)"

definition pixel_size :: "framebuffer \<Rightarrow> nat" where
  "pixel_size fb = (unat (fb_bpp fb) + 7) div 8"

definition fb_console_redraw :: "psf_font \<Rightarrow> framebuffer driver" where
  "fb_console_redraw font cons fb =
     (let psize = pixel_size fb; pair_size = psize * 2
      in run_for [0..<rows cons] (\<lambda>i.
           run_for [0..<columns cons] (\<lambda>j fb.
             run_bind (get_byte (buffer cons) (i * columns cons + j)) (\<lambda>c.
             fb_console_draw_glyph font (cc_ch c) j i (unat (cc_attrs c) * pair_size) psize fb))) fb)"

section \<open>The table of colours\<close>

definition fb_palette_match :: "palette_entry \<Rightarrow> nat \<Rightarrow> bool" where
  "fb_palette_match pal color \<longleftrightarrow> pal_r pal = pal_r (vga_palette_colors ! color) \<and>
     pal_g pal = pal_g (vga_palette_colors ! color) \<and> pal_b pal = pal_b (vga_palette_colors ! color)"

text \<open>The loop over the palette, from entry \<open>i\<close>, and the byte it stores.\<close>

fun lut_indexed_loop :: "palette_entry list \<Rightarrow> nat \<Rightarrow> nat \<Rightarrow> nat" where
  "lut_indexed_loop [] i color = color"
| "lut_indexed_loop (p # ps) i color = (if fb_palette_match p color then i else lut_indexed_loop ps (i + 1) color)"

definition fb_console_lut_indexed :: "framebuffer \<Rightarrow> nat \<Rightarrow> u8 list run" where
  "fb_console_lut_indexed fb color =
     (if unat (fb_palette_num fb) \<le> length (fb_palette fb)
      then ret [of_nat (lut_indexed_loop (take (unat (fb_palette_num fb)) (fb_palette fb)) 0 color)]
      else goes_wrong Out_of_bounds)"

fun bitmask_loop :: "nat \<Rightarrow> nat \<Rightarrow> u8 \<Rightarrow> u8" where
  "bitmask_loop i 0 m = m"
| "bitmask_loop i (Suc n) m = bitmask_loop (i + 1) n (m OR push_bit i 1)"

definition bitmask :: "nat \<Rightarrow> u8" where
  "bitmask x = bitmask_loop 0 x 0"

definition fb_color :: "color_fmt \<Rightarrow> palette_entry \<Rightarrow> u32" where
  "fb_color fmt pal =
     push_bit (unat (red_position fmt)) (ucast (pal_r pal AND bitmask (unat (red_mask_size fmt)))) OR
     push_bit (unat (green_position fmt)) (ucast (pal_g pal AND bitmask (unat (green_mask_size fmt)))) OR
     push_bit (unat (blue_position fmt)) (ucast (pal_b pal AND bitmask (unat (blue_mask_size fmt))))"

text \<open>The bytes of the colour; more than four of them would be read behind the variable.\<close>

definition fb_console_lut_rgb :: "framebuffer \<Rightarrow> nat \<Rightarrow> u8 list run" where
  "fb_console_lut_rgb fb color =
     (if pixel_size fb \<le> 4
      then ret (map (\<lambda>i. byte_of (fb_color (fb_format fb) (vga_palette_colors ! color)) i) [0..<pixel_size fb])
      else goes_wrong Out_of_bounds)"

definition fb_console_lut :: "framebuffer \<Rightarrow> nat \<Rightarrow> u8 list run" where
  "fb_console_lut fb color =
     (if fb_flags fb AND FB_CONSOLE_FLAG_RGB \<noteq> 0 then fb_console_lut_rgb fb color else fb_console_lut_indexed fb color)"

text \<open>Copying bytes into an array at an offset.\<close>

definition store :: "nat \<Rightarrow> u8 list \<Rightarrow> u8 list \<Rightarrow> u8 list run" where
  "store off bs arr = (if off + length bs \<le> length arr
     then ret (take off arr @ bs @ drop (off + length bs) arr) else goes_wrong Out_of_bounds)"

definition load :: "nat \<Rightarrow> nat \<Rightarrow> u8 list \<Rightarrow> u8 list run" where
  "load off n arr = (if off + n \<le> length arr then ret (take n (drop off arr)) else goes_wrong Out_of_bounds)"

text \<open>
  \<open>stack\<close> is what the 64-byte array holds before it is written, \<open>table\<close> what the allocated table
  holds (\<open>None\<close> when the allocation fails).
\<close>

definition fb_console_create_lut :: "u8 list \<Rightarrow> u8 list option \<Rightarrow> framebuffer \<Rightarrow> framebuffer run" where
  "fb_console_create_lut stack table fb =
     (let psize = pixel_size fb; pair_size = psize * 2
      in run_bind (run_for [0..<16] (\<lambda>i arr. run_bind (fb_console_lut fb i) (\<lambda>bs. store (i * psize) bs arr)) stack) (\<lambda>arr.
         case table of None \<Rightarrow> goes_wrong Null_pointer
         | Some lut \<Rightarrow>
             run_bind (run_for [0..<256] (\<lambda>i lut.
               run_bind (load ((i mod 16) * psize) psize arr) (\<lambda>fg.
               run_bind (store (i * pair_size) fg lut) (\<lambda>lut.
               run_bind (load ((i div 16) * psize) psize arr) (\<lambda>bg.
               store (i * pair_size + psize) bg lut)))) lut) (\<lambda>lut.
             ret (fb\<lparr>fb_private := lut\<rparr>))))"

definition init_fb_console ::
  "psf_font \<Rightarrow> bool \<Rightarrow> console_char list option \<Rightarrow> u8 list \<Rightarrow> u8 list option \<Rightarrow> framebuffer \<Rightarrow> (console \<times> framebuffer) run" where
  "init_fb_console font cons_allocated cells stack table fb =
     (if \<not> cons_allocated then goes_wrong Null_pointer
      else let cols = (unat (fb_width fb) div 8) mod 65536; rws = (unat (fb_height fb) div 16) mod 65536
           in run_bind (fb_console_create_lut stack table fb) (\<lambda>fb.
              case cells of None \<Rightarrow> goes_wrong Null_pointer
              | Some buf \<Rightarrow> console_initialize (fb_console_redraw font) (new_console cols rws buf, fb)))"

section \<open>What a redraw paints\<close>

definition pixel_byte :: "psf_font \<Rightarrow> u8 list \<Rightarrow> nat \<Rightarrow> console_char \<Rightarrow> nat \<Rightarrow> nat \<Rightarrow> nat \<Rightarrow> u8" where
  "pixel_byte font table ps c gy gx k =
     table ! (unat (cc_attrs c) * (ps * 2) +
       (if pixel_set (psf_glyphs font ! (unat (psf_charsize font) * unat (cc_ch c) + gy)) gx then 0 else ps) + k)"

text \<open>The geometry: the console fits into the pixel memory, the table and the font are complete.\<close>

definition fb_ok :: "nat \<Rightarrow> nat \<Rightarrow> psf_font \<Rightarrow> u8 list \<Rightarrow> framebuffer \<Rightarrow> bool" where
  "fb_ok R C font table fb \<longleftrightarrow> fb_private fb = table \<and> length table = 512 * pixel_size fb \<and> 0 < pixel_size fb \<and>
     C * 8 * pixel_size fb \<le> unat (fb_pitch fb) \<and> R * 16 * unat (fb_pitch fb) \<le> length (fb_data fb) \<and>
     length (fb_data fb) < 2 ^ 32 \<and> R * 16 < 65536 \<and> C * 8 < 65536 \<and>
     255 * unat (psf_charsize font) + 16 \<le> length (psf_glyphs font)"

definition fb_shows :: "psf_font \<Rightarrow> u8 list \<Rightarrow> console \<Rightarrow> framebuffer \<Rightarrow> bool" where
  "fb_shows font table s fb \<longleftrightarrow> (\<forall>i < rows s. \<forall>j < columns s. \<forall>gy < 16. \<forall>gx < 8. \<forall>k < pixel_size fb.
     fb_data fb ! ((i * 16 + gy) * unat (fb_pitch fb) + ((j * 8 + gx) * pixel_size fb + k)) =
     pixel_byte font table (pixel_size fb) (buffer s ! (i * columns s + j)) gy gx k)"

text \<open>The byte that belongs at an offset, and the relation every drawing step keeps.\<close>

definition want :: "psf_font \<Rightarrow> u8 list \<Rightarrow> console \<Rightarrow> nat \<Rightarrow> nat \<Rightarrow> nat \<Rightarrow> u8" where
  "want font table s P ps n =
     (let y = n div P; x = (n mod P) div ps
      in pixel_byte font table ps (buffer s ! ((y div 16) * columns s + x div 8)) (y mod 16) (x mod 8) ((n mod P) mod ps))"

definition painting :: "(nat \<Rightarrow> u8) \<Rightarrow> framebuffer \<Rightarrow> framebuffer \<Rightarrow> bool" where
  "painting w fb fb' \<longleftrightarrow> (\<exists>d. fb' = fb\<lparr>fb_data := d\<rparr> \<and> length d = length (fb_data fb) \<and>
     (\<forall>n. fb_data fb ! n = w n \<longrightarrow> d ! n = w n))"

lemma painting_refl: "painting w fb fb"
  by (auto simp: painting_def intro!: exI [of _ "fb_data fb"])

lemma painting_trans: "painting w a b \<Longrightarrow> painting w b c \<Longrightarrow> painting w a c"
  by (auto simp: painting_def)

lemma painting_keeps: "fb_data fb ! n = w n \<Longrightarrow> painting w fb fb' \<Longrightarrow> fb_data fb' ! n = w n"
  by (auto simp: painting_def)

lemma painting_fields:
  assumes "painting w fb fb'"
  shows "fb_pitch fb' = fb_pitch fb" "pixel_size fb' = pixel_size fb" "fb_private fb' = fb_private fb"
    "length (fb_data fb') = length (fb_data fb)"
  using assms by (auto simp: painting_def pixel_size_def)

lemma put_byte_painting:
  assumes "n < length (fb_data fb)" and "b = w n"
  shows "\<exists>fb'. put_byte n b fb = ret fb' \<and> painting w fb fb' \<and> fb_data fb' ! n = w n"
  using assms by (auto simp: put_byte_def painting_def nth_list_update)

lemma offset_decode:
  assumes "k < ps" and "gx < 8" and "gy < 16" and "(j * 8 + gx) * ps + k < (P :: nat)"
    and "n = (i * 16 + gy) * P + ((j * 8 + gx) * ps + k)"
  shows "n div P div 16 = i" "n div P mod 16 = gy" "n mod P div ps div 8 = j" "n mod P div ps mod 8 = gx" "n mod P mod ps = k"
proof -
  have "n div P = i * 16 + gy" "n mod P = (j * 8 + gx) * ps + k" using assms by simp_all
  moreover have "((j * 8 + gx) * ps + k) div ps = j * 8 + gx" "((j * 8 + gx) * ps + k) mod ps = k"
    using assms(1) by simp_all
  ultimately show "n div P div 16 = i" "n div P mod 16 = gy" "n mod P div ps div 8 = j" "n mod P div ps mod 8 = gx" "n mod P mod ps = k"
    using assms(2,3) by simp_all
qed

lemma want_eq:
  assumes "k < ps" and "gx < 8" and "gy < 16" and "(j * 8 + gx) * ps + k < P"
  shows "want font table s P ps ((i * 16 + gy) * P + ((j * 8 + gx) * ps + k)) =
    pixel_byte font table ps (buffer s ! (i * columns s + j)) gy gx k"
  unfolding want_def Let_def offset_decode [OF assms refl] ..

lemma pixel_in_range:
  assumes "fb_ok R C font table fb" and "i < R" and "j < C" and "gy < 16" and "gx < 8" and "k < pixel_size fb"
  shows "(j * 8 + gx) * pixel_size fb + k < unat (fb_pitch fb)"
    and "(i * 16 + gy) * unat (fb_pitch fb) + ((j * 8 + gx) * pixel_size fb + k) < length (fb_data fb)"
proof -
  have "j * 8 + gx < C * 8" using assms(3,5) by simp
  then have "(j * 8 + gx) * pixel_size fb + k < C * 8 * pixel_size fb" using assms(6) by (rule cell_in_range)
  then show x: "(j * 8 + gx) * pixel_size fb + k < unat (fb_pitch fb)" using assms(1) by (simp add: fb_ok_def)
  have "i * 16 + gy < R * 16" using assms(2,4) by simp
  then have "(i * 16 + gy) * unat (fb_pitch fb) + ((j * 8 + gx) * pixel_size fb + k) < R * 16 * unat (fb_pitch fb)"
    using x by (rule cell_in_range)
  then show "(i * 16 + gy) * unat (fb_pitch fb) + ((j * 8 + gx) * pixel_size fb + k) < length (fb_data fb)"
    using assms(1) by (simp add: fb_ok_def)
qed

lemma fb_ok_painting: "painting w fb fb' \<Longrightarrow> fb_ok R C font table fb' = fb_ok R C font table fb"
  using painting_fields [of w fb fb'] by (simp add: fb_ok_def)

text \<open>Everything below is about one cell \<open>(i, j)\<close> of one console.\<close>

definition cell_byte :: "nat \<Rightarrow> nat \<Rightarrow> framebuffer \<Rightarrow> nat \<Rightarrow> nat \<Rightarrow> nat \<Rightarrow> nat" where
  "cell_byte i j fb gy gx k = (i * 16 + gy) * unat (fb_pitch fb) + ((j * 8 + gx) * pixel_size fb + k)"

lemma cell_byte_painting: "painting w fb fb' \<Longrightarrow> cell_byte i j fb' = cell_byte i j fb"
  using painting_fields [of w fb fb'] by (simp add: cell_byte_def fun_eq_iff)

lemma unat_pixel_offset:
  assumes "fb_ok R C font table fb" and "i < R" and "j < C" and "gy < 16" and "gx < 8"
  shows "unat (fb_pitch fb * of_nat (i * 16 + gy) + of_nat ((j * 8 + gx) * pixel_size fb)) = cell_byte i j fb gy gx 0"
proof -
  have ps: "0 < pixel_size fb" and le: "length (fb_data fb) < 2 ^ 32"
    using assms(1) by (auto simp: fb_ok_def)
  have r: "(i * 16 + gy) * unat (fb_pitch fb) + (j * 8 + gx) * pixel_size fb < 2 ^ 32"
    using pixel_in_range(2) [OF assms ps] le by simp
  have eq: "fb_pitch fb * of_nat (i * 16 + gy) + of_nat ((j * 8 + gx) * pixel_size fb) =
      of_nat ((i * 16 + gy) * unat (fb_pitch fb) + (j * 8 + gx) * pixel_size fb)"
    by (simp add: mult.commute)
  show ?thesis unfolding cell_byte_def eq unat_of_nat using r by simp
qed

text \<open>The bytes of pixel \<open>(gx, gy)\<close> of the cell are as wanted; no later painting undoes that.\<close>

definition pixel_done :: "(nat \<Rightarrow> u8) \<Rightarrow> nat \<Rightarrow> nat \<Rightarrow> nat \<Rightarrow> nat \<Rightarrow> framebuffer \<Rightarrow> bool" where
  "pixel_done w i j gy gx fb \<longleftrightarrow>
     (\<forall>k < pixel_size fb. fb_data fb ! cell_byte i j fb gy gx k = w (cell_byte i j fb gy gx k))"

lemma pixel_done_keeps: "pixel_done w i j gy gx a \<Longrightarrow> painting w a b \<Longrightarrow> pixel_done w i j gy gx b"
  using painting_fields [of w a b] cell_byte_painting [of w a b i j]
  by (auto simp: pixel_done_def intro: painting_keeps)

lemma draw_pixel_paints:
  assumes ok: "fb_ok R C font table fb" and ij: "i < R" "j < C" and g: "gy < 16" "gx < 8"
    and w: "\<And>k. k < pixel_size fb \<Longrightarrow> table ! (color + k) = w (cell_byte i j fb gy gx k)"
    and color: "color + pixel_size fb \<le> length table"
  shows "\<exists>fb'. fb_draw_pixel (j * 8 + gx) (i * 16 + gy) color (pixel_size fb) fb = ret fb' \<and>
    painting w fb fb' \<and> pixel_done w i j gy gx fb'"
proof -
  let ?f = "\<lambda>k u. run_bind (get_byte (fb_private u) (color + k)) (\<lambda>b. put_byte (cell_byte i j fb gy gx 0 + k) b u)"
  have "\<exists>fb'. run_for [0..<pixel_size fb] ?f fb = ret fb' \<and> painting w fb fb' \<and>
    (\<forall>k \<in> set [0..<pixel_size fb]. fb_data fb' ! cell_byte i j fb gy gx k = w (cell_byte i j fb gy gx k))"
  proof (rule run_for_each)
    fix k t assume "k \<in> set [0..<pixel_size fb]" and t: "painting w fb t"
    then have k: "k < pixel_size fb" by simp
    have "fb_private t = table" using ok painting_fields [OF t] by (simp add: fb_ok_def)
    moreover have "cell_byte i j fb gy gx k < length (fb_data t)"
      using pixel_in_range(2) [OF ok ij g k] painting_fields [OF t] by (simp add: cell_byte_def)
    ultimately show "\<exists>t'. ?f k t = ret t' \<and> painting w t t' \<and> fb_data t' ! cell_byte i j fb gy gx k = w (cell_byte i j fb gy gx k)"
      using put_byte_painting [of "cell_byte i j fb gy gx k" t "table ! (color + k)" w] w [OF k] k color
      by (simp add: get_byte_def) (simp add: cell_byte_def add.assoc)
  qed (use painting_refl painting_trans painting_keeps in blast)+
  then obtain fb' where f: "run_for [0..<pixel_size fb] ?f fb = ret fb'" "painting w fb fb'"
    "\<forall>k < pixel_size fb. fb_data fb' ! cell_byte i j fb gy gx k = w (cell_byte i j fb gy gx k)" by auto
  then have "pixel_done w i j gy gx fb'"
    using painting_fields [OF f(2)] cell_byte_painting [OF f(2)] by (simp add: pixel_done_def)
  with f show ?thesis unfolding fb_draw_pixel_def unat_pixel_offset [OF ok ij g] Let_def by blast
qed

lemma draw_row_paints:
  assumes ok: "fb_ok R C font table fb" and ij: "i < R" "j < C" and gy: "gy < 16"
    and w: "\<And>gx k. gx < 8 \<Longrightarrow> k < pixel_size fb \<Longrightarrow>
      table ! ((if pixel_set r gx then pair else pair + pixel_size fb) + k) = w (cell_byte i j fb gy gx k)"
    and pair: "pair + pixel_size fb * 2 \<le> length table"
  shows "\<exists>fb'. fb_draw_row r (j * 8) (i * 16 + gy) pair (pixel_size fb) fb = ret fb' \<and>
    painting w fb fb' \<and> (\<forall>gx \<in> set [0..<8]. pixel_done w i j gy gx fb')"
  unfolding fb_draw_row_def
proof (rule run_for_each)
  fix gx t assume "gx \<in> set [0..<8]" and t: "painting w fb t"
  then have gx: "gx < 8" by simp
  have tok: "fb_ok R C font table t" using ok fb_ok_painting [OF t] by simp
  have "\<exists>t'. fb_draw_pixel (j * 8 + gx) (i * 16 + gy) (if pixel_set r gx then pair else pair + pixel_size t) (pixel_size t) t = ret t' \<and>
      painting w t t' \<and> pixel_done w i j gy gx t'"
    using tok ij gy gx
  proof (rule draw_pixel_paints)
    show "table ! ((if pixel_set r gx then pair else pair + pixel_size t) + k) = w (cell_byte i j t gy gx k)"
      if "k < pixel_size t" for k
      using that unfolding painting_fields(2) [OF t] cell_byte_painting [OF t] by (rule w [OF gx])
    show "(if pixel_set r gx then pair else pair + pixel_size t) + pixel_size t \<le> length table"
      using pair painting_fields [OF t] by simp
  qed
  then show "\<exists>t'. fb_draw_pixel (j * 8 + gx) (i * 16 + gy) (if pixel_set r gx then pair else pair + pixel_size fb) (pixel_size fb) t = ret t' \<and>
      painting w t t' \<and> pixel_done w i j gy gx t'"
    unfolding painting_fields(2) [OF t] .
qed (use painting_refl painting_trans pixel_done_keeps in blast)+

lemma draw_glyph_paints:
  assumes ok: "fb_ok R C font table fb" and ij: "i < R" "j < C" and dim: "columns s = C"
    and c: "c = buffer s ! (i * C + j)"
    and w: "w = want font table s (unat (fb_pitch fb)) (pixel_size fb)"
  shows "\<exists>fb'. fb_console_draw_glyph font (cc_ch c) j i (unat (cc_attrs c) * (pixel_size fb * 2)) (pixel_size fb) fb = ret fb' \<and>
    painting w fb fb' \<and> (\<forall>gy \<in> set [0..<16]. \<forall>gx \<in> set [0..<8]. pixel_done w i j gy gx fb')"
proof -
  have le: "R * 16 < 65536" "C * 8 < 65536" using ok by (auto simp: fb_ok_def)
  have m: "i * 16 mod 65536 = i * 16" "j * 8 mod 65536 = j * 8" using le ij by simp_all
  show ?thesis
    unfolding fb_console_draw_glyph_def Let_def m
  proof (rule run_for_each)
    fix gy t assume "gy \<in> set [0..<16]" and t: "painting w fb t"
    then have gy: "gy < 16" by simp
    let ?g = "unat (psf_charsize font) * unat (cc_ch c) + gy"
    have "unat (psf_charsize font) * unat (cc_ch c) \<le> 255 * unat (psf_charsize font)"
      using byte_le [of "cc_ch c"] by (simp add: mult.commute)
    moreover have "255 * unat (psf_charsize font) + 16 \<le> length (psf_glyphs font)" using ok by (simp add: fb_ok_def)
    ultimately have g: "?g < length (psf_glyphs font)" using gy by linarith
    have tok: "fb_ok R C font table t" using ok fb_ok_painting [OF t] by simp
    have "\<exists>t'. fb_draw_row (psf_glyphs font ! ?g) (j * 8) (i * 16 + gy) (unat (cc_attrs c) * (pixel_size t * 2)) (pixel_size t) t = ret t' \<and>
        painting w t t' \<and> (\<forall>gx \<in> set [0..<8]. pixel_done w i j gy gx t')"
      using tok ij gy
    proof (rule draw_row_paints)
      fix gx k assume gx: "gx < (8 :: nat)" and k: "k < pixel_size t"
      have "w (cell_byte i j t gy gx k) = pixel_byte font table (pixel_size t) c gy gx k"
        unfolding w cell_byte_def painting_fields [OF t, symmetric]
        using want_eq [OF k gx gy pixel_in_range(1) [OF tok ij gy gx k], of font table s i] c dim by simp
      then show "table ! ((if pixel_set (psf_glyphs font ! ?g) gx then unat (cc_attrs c) * (pixel_size t * 2)
          else unat (cc_attrs c) * (pixel_size t * 2) + pixel_size t) + k) = w (cell_byte i j t gy gx k)"
        by (simp add: pixel_byte_def)
    next
      have "unat (cc_attrs c) * (pixel_size t * 2) \<le> 255 * (pixel_size t * 2)" using byte_le by (intro mult_le_mono1)
      moreover have "length table = 512 * pixel_size t" using tok by (simp add: fb_ok_def)
      ultimately show "unat (cc_attrs c) * (pixel_size t * 2) + pixel_size t * 2 \<le> length table" by simp
    qed
    then show "\<exists>t'. run_bind (get_byte (psf_glyphs font) ?g) (\<lambda>r.
        fb_draw_row r (j * 8) (i * 16 + gy) (unat (cc_attrs c) * (pixel_size fb * 2)) (pixel_size fb) t) = ret t' \<and>
        painting w t t' \<and> (\<forall>gx \<in> set [0..<8]. pixel_done w i j gy gx t')"
      using g painting_fields [OF t] by (simp add: get_byte_def)
  qed (use painting_refl painting_trans pixel_done_keeps in blast)+
qed

lemma fb_redraw_shows:
  assumes inv: "cons_inv s" and dim: "rows s = R" "columns s = C" and ok: "fb_ok R C font table fb"
  shows "\<exists>fb'. fb_console_redraw font s fb = ret fb' \<and> fb_ok R C font table fb' \<and> fb_shows font table s fb'"
proof -
  define w where "w = want font table s (unat (fb_pitch fb)) (pixel_size fb)"
  have len: "length (buffer s) = R * C" using inv dim by (simp add: cons_inv_def)
  have "\<exists>fb'. run_for [0..<R] (\<lambda>i. run_for [0..<C] (\<lambda>j u. run_bind (get_byte (buffer s) (i * C + j)) (\<lambda>c.
      fb_console_draw_glyph font (cc_ch c) j i (unat (cc_attrs c) * (pixel_size fb * 2)) (pixel_size fb) u))) fb = ret fb' \<and>
    painting w fb fb' \<and> (\<forall>i \<in> set [0..<R]. \<forall>j \<in> set [0..<C]. \<forall>gy \<in> set [0..<16]. \<forall>gx \<in> set [0..<8]. pixel_done w i j gy gx fb')"
  proof (rule run_for_each)
    fix i t assume i: "i \<in> set [0..<R]" and t: "painting w fb t"
    show "\<exists>t'. run_for [0..<C] (\<lambda>j u. run_bind (get_byte (buffer s) (i * C + j)) (\<lambda>c.
        fb_console_draw_glyph font (cc_ch c) j i (unat (cc_attrs c) * (pixel_size fb * 2)) (pixel_size fb) u)) t = ret t' \<and>
      painting w t t' \<and> (\<forall>j \<in> set [0..<C]. \<forall>gy \<in> set [0..<16]. \<forall>gx \<in> set [0..<8]. pixel_done w i j gy gx t')"
    proof (rule run_for_each)
      fix j u assume j: "j \<in> set [0..<C]" and "painting w t u"
      then have u: "painting w fb u" using t painting_trans by blast
      have "i * C + j < length (buffer s)" using i j len by (simp add: cell_in_range)
      moreover have "\<exists>u'. fb_console_draw_glyph font (cc_ch (buffer s ! (i * C + j))) j i
          (unat (cc_attrs (buffer s ! (i * C + j))) * (pixel_size u * 2)) (pixel_size u) u = ret u' \<and>
          painting w u u' \<and> (\<forall>gy \<in> set [0..<16]. \<forall>gx \<in> set [0..<8]. pixel_done w i j gy gx u')"
        by (rule draw_glyph_paints [of R C font table u i j s])
          (use i j dim ok fb_ok_painting [OF u] painting_fields [OF u] in \<open>auto simp: w_def\<close>)
      ultimately show "\<exists>u'. run_bind (get_byte (buffer s) (i * C + j)) (\<lambda>c.
          fb_console_draw_glyph font (cc_ch c) j i (unat (cc_attrs c) * (pixel_size fb * 2)) (pixel_size fb) u) = ret u' \<and>
          painting w u u' \<and> (\<forall>gy \<in> set [0..<16]. \<forall>gx \<in> set [0..<8]. pixel_done w i j gy gx u')"
        using painting_fields [OF u] by (simp add: get_byte_def)
    qed (use painting_refl painting_trans pixel_done_keeps in blast)+
  qed (use painting_refl painting_trans pixel_done_keeps in blast)+
  then obtain fb' where f: "fb_console_redraw font s fb = ret fb'" "painting w fb fb'"
    "\<And>i j gy gx. \<lbrakk>i < R; j < C; gy < 16; gx < 8\<rbrakk> \<Longrightarrow> pixel_done w i j gy gx fb'"
    using dim by (auto simp: fb_console_redraw_def Let_def)
  have ok': "fb_ok R C font table fb'" using ok fb_ok_painting [OF f(2)] by simp
  have "fb_data fb' ! ((i * 16 + gy) * unat (fb_pitch fb') + ((j * 8 + gx) * pixel_size fb' + k)) =
      pixel_byte font table (pixel_size fb') (buffer s ! (i * columns s + j)) gy gx k"
    if "i < R" "j < C" "gy < 16" "gx < 8" "k < pixel_size fb'" for i j gy gx k
  proof -
    have "fb_data fb' ! cell_byte i j fb' gy gx k = w (cell_byte i j fb' gy gx k)"
      using f(3) [OF that(1-4)] that(5) by (simp add: pixel_done_def)
    then show ?thesis
      unfolding cell_byte_def w_def painting_fields [OF f(2), symmetric]
      using want_eq [OF that(5,4,3) pixel_in_range(1) [OF ok' that], of font table s i] by simp
  qed
  then have "fb_shows font table s fb'" using dim by (simp add: fb_shows_def)
  with f(1) ok' show ?thesis by blast
qed

text \<open>The framebuffer driver keeps the contract of a console device.\<close>

interpretation fb: console_device "fb_console_redraw font" "fb_ok R C font table" "fb_shows font table"
  "\<lambda>s. rows s = R \<and> columns s = C" for R C font table
proof unfold_locales
  show "\<exists>fb'. fb_console_redraw font s fb = ret fb' \<and> fb_ok R C font table fb' \<and> fb_shows font table s fb'"
    if "cons_inv s" "rows s = R \<and> columns s = C" "fb_ok R C font table fb" for s fb
    using that fb_redraw_shows by blast
qed (auto simp: fb_shows_def)

section \<open>What the table holds\<close>

definition filling :: "(nat \<Rightarrow> 'a) \<Rightarrow> 'a list \<Rightarrow> 'a list \<Rightarrow> bool" where
  "filling w a b \<longleftrightarrow> length b = length a \<and> (\<forall>n. a ! n = w n \<longrightarrow> b ! n = w n)"

lemma filling_preorder: "filling w a a" "filling w a b \<Longrightarrow> filling w b c \<Longrightarrow> filling w a c"
  by (auto simp: filling_def)

lemma store_fills:
  assumes "off + length bs \<le> length arr" and "\<And>k. k < length bs \<Longrightarrow> bs ! k = w (off + k)"
  shows "\<exists>arr'. store off bs arr = ret arr' \<and> filling w arr arr' \<and> (\<forall>k < length bs. arr' ! (off + k) = w (off + k))"
proof -
  let ?a = "take off arr @ bs @ drop (off + length bs) arr"
  have n: "?a ! n = (if off \<le> n \<and> n < off + length bs then bs ! (n - off) else arr ! n)" if "n < length arr" for n
    using assms(1) that by (auto simp: nth_append min_def)
  have "?a ! n = w n" if "arr ! n = w n" for n
  proof (cases "n < length arr")
    case True
    then show ?thesis using n [of n] assms(2) [of "n - off"] that by auto
  next
    case False
    then obtain d where d: "n = length arr + d" using le_Suc_ex not_less by blast
    have "length ?a = length arr" using assms(1) by simp
    then have "?a ! n = arr ! n"
      unfolding d using nth_append_length_plus [of ?a "[]" d] nth_append_length_plus [of arr "[]" d] by simp
    then show ?thesis using that by simp
  qed
  moreover have "?a ! (off + k) = w (off + k)" if "k < length bs" for k
    using n [of "off + k"] assms that by simp
  ultimately show ?thesis using assms(1) by (auto simp: store_def filling_def)
qed

definition rgb_byte :: "color_fmt \<Rightarrow> nat \<Rightarrow> nat \<Rightarrow> u8" where
  "rgb_byte fmt color k = byte_of (fb_color fmt (vga_palette_colors ! color)) k"

definition lut_byte :: "color_fmt \<Rightarrow> nat \<Rightarrow> nat \<Rightarrow> u8" where
  "lut_byte fmt ps n =
     (let i = n div (ps * 2); r = n mod (ps * 2)
      in if r < ps then rgb_byte fmt (i mod 16) r else rgb_byte fmt (i div 16) (r - ps))"

lemma lut_byte_eq:
  assumes "k < ps"
  shows "lut_byte fmt ps (i * (ps * 2) + k) = rgb_byte fmt (i mod 16) k"
    and "lut_byte fmt ps (i * (ps * 2) + (ps + k)) = rgb_byte fmt (i div 16) k"
proof -
  have "(i * (ps * 2) + k) div (ps * 2) = i" "(i * (ps * 2) + k) mod (ps * 2) = k" using assms by simp_all
  moreover have "(i * (ps * 2) + (ps + k)) div (ps * 2) = i" "(i * (ps * 2) + (ps + k)) mod (ps * 2) = ps + k"
    using assms by simp_all
  ultimately show "lut_byte fmt ps (i * (ps * 2) + k) = rgb_byte fmt (i mod 16) k"
    "lut_byte fmt ps (i * (ps * 2) + (ps + k)) = rgb_byte fmt (i div 16) k"
    using assms by (simp_all add: lut_byte_def Let_def)
qed

lemma color_array:
  assumes rgb: "fb_flags fb AND FB_CONSOLE_FLAG_RGB \<noteq> 0" and ps: "0 < pixel_size fb" "pixel_size fb \<le> 4" and st: "length stack = 64"
  shows "\<exists>arr. run_for [0..<16] (\<lambda>i arr. run_bind (fb_console_lut fb i) (\<lambda>bs. store (i * pixel_size fb) bs arr)) stack = ret arr \<and>
    length arr = 64 \<and> (\<forall>c < 16. \<forall>k < pixel_size fb. arr ! (c * pixel_size fb + k) = rgb_byte (fb_format fb) c k)"
proof -
  let ?ps = "pixel_size fb"
  let ?w = "\<lambda>n. rgb_byte (fb_format fb) (n div ?ps) (n mod ?ps)"
  let ?bs = "\<lambda>i. map (rgb_byte (fb_format fb) i) [0..<?ps]"
  have lut: "fb_console_lut fb i = ret (?bs i)" for i
    using rgb ps by (simp add: fb_console_lut_def fb_console_lut_rgb_def rgb_byte_def)
  have "\<exists>arr. run_for [0..<16] (\<lambda>i arr. run_bind (fb_console_lut fb i) (\<lambda>bs. store (i * ?ps) bs arr)) stack = ret arr \<and>
    filling ?w stack arr \<and> (\<forall>c \<in> set [0..<16]. \<forall>k < ?ps. arr ! (c * ?ps + k) = ?w (c * ?ps + k))"
  proof (rule run_for_each)
    fix i t assume i: "i \<in> set [0..<16]" and t: "filling ?w stack t"
    have "(i + 1) * ?ps \<le> 16 * 4" using i ps by (intro mult_le_mono) auto
    then have "\<exists>t'. store (i * ?ps) (?bs i) t = ret t' \<and> filling ?w t t' \<and> (\<forall>k < length (?bs i). t' ! (i * ?ps + k) = ?w (i * ?ps + k))"
      using t st ps by (intro store_fills) (auto simp: filling_def)
    then show "\<exists>t'. run_bind (fb_console_lut fb i) (\<lambda>bs. store (i * ?ps) bs t) = ret t' \<and> filling ?w t t' \<and>
        (\<forall>k < ?ps. t' ! (i * ?ps + k) = ?w (i * ?ps + k))"
      by (simp add: lut)
  qed (auto simp: filling_def)
  then obtain arr where "run_for [0..<16] (\<lambda>i arr. run_bind (fb_console_lut fb i) (\<lambda>bs. store (i * ?ps) bs arr)) stack = ret arr"
    "filling ?w stack arr" "\<forall>c < 16. \<forall>k < ?ps. arr ! (c * ?ps + k) = ?w (c * ?ps + k)" by auto
  with st show ?thesis by (intro exI [of _ arr]) (auto simp: filling_def)
qed

lemma create_lut_rgb:
  assumes rgb: "fb_flags fb AND FB_CONSOLE_FLAG_RGB \<noteq> 0" and ps: "0 < pixel_size fb" "pixel_size fb \<le> 4" and st: "length stack = 64"
    and len: "length lut0 = 512 * pixel_size fb"
  shows "\<exists>table. fb_console_create_lut stack (Some lut0) fb = ret (fb\<lparr>fb_private := table\<rparr>) \<and> length table = length lut0 \<and>
    (\<forall>n < length lut0. table ! n = lut_byte (fb_format fb) (pixel_size fb) n)"
proof -
  let ?ps = "pixel_size fb" and ?w = "lut_byte (fb_format fb) (pixel_size fb)"
  obtain arr where arr: "run_for [0..<16] (\<lambda>i arr. run_bind (fb_console_lut fb i) (\<lambda>bs. store (i * ?ps) bs arr)) stack = ret arr"
    "length arr = 64" "\<And>c k. c < 16 \<Longrightarrow> k < ?ps \<Longrightarrow> arr ! (c * ?ps + k) = rgb_byte (fb_format fb) c k"
    using color_array [OF rgb ps st] by blast
  let ?bs = "\<lambda>c. take ?ps (drop (c * ?ps) arr)"
  let ?body = "\<lambda>i lut. run_bind (load ((i mod 16) * ?ps) ?ps arr) (\<lambda>fg. run_bind (store (i * (?ps * 2)) fg lut) (\<lambda>lut.
      run_bind (load ((i div 16) * ?ps) ?ps arr) (\<lambda>bg. store (i * (?ps * 2) + ?ps) bg lut)))"
  have bs: "load (c * ?ps) ?ps arr = ret (?bs c)" "length (?bs c) = ?ps"
    "\<And>k. k < ?ps \<Longrightarrow> ?bs c ! k = rgb_byte (fb_format fb) c k" if "c < 16" for c
  proof -
    have "(c + 1) * ?ps \<le> 16 * 4" using that ps by (intro mult_le_mono) auto
    then show "load (c * ?ps) ?ps arr = ret (?bs c)" "length (?bs c) = ?ps" using arr(2) by (simp_all add: load_def)
    then show "\<And>k. k < ?ps \<Longrightarrow> ?bs c ! k = rgb_byte (fb_format fb) c k"
      using arr(2,3) that by simp
  qed
  have "\<exists>lut. run_for [0..<256] ?body lut0 = ret lut \<and> filling ?w lut0 lut \<and>
    (\<forall>i \<in> set [0..<256]. \<forall>r < ?ps * 2. lut ! (i * (?ps * 2) + r) = ?w (i * (?ps * 2) + r))"
  proof (rule run_for_each)
    fix i t assume "i \<in> set [0..<256]" and t: "filling ?w lut0 t"
    then have i: "i < 256" by simp
    then have c: "i mod 16 < 16" "i div 16 < 16" by auto
    have "(i + 1) * (?ps * 2) \<le> 256 * (?ps * 2)" using i by (intro mult_le_mono) auto
    then have room: "i * (?ps * 2) + ?ps * 2 \<le> length t" using t len by (simp add: filling_def)
    have "\<exists>u. store (i * (?ps * 2)) (?bs (i mod 16)) t = ret u \<and> filling ?w t u \<and>
        (\<forall>k < length (?bs (i mod 16)). u ! (i * (?ps * 2) + k) = ?w (i * (?ps * 2) + k))"
      using room bs(2,3) [OF c(1)] by (intro store_fills) (auto simp: lut_byte_eq)
    then obtain u where u: "store (i * (?ps * 2)) (?bs (i mod 16)) t = ret u" "filling ?w t u"
      "\<And>k. k < ?ps \<Longrightarrow> u ! (i * (?ps * 2) + k) = ?w (i * (?ps * 2) + k)" using bs(2) [OF c(1)] by auto
    have "\<exists>v. store (i * (?ps * 2) + ?ps) (?bs (i div 16)) u = ret v \<and> filling ?w u v \<and>
        (\<forall>k < length (?bs (i div 16)). v ! (i * (?ps * 2) + ?ps + k) = ?w (i * (?ps * 2) + ?ps + k))"
      using room u(2) bs(2,3) [OF c(2)] by (intro store_fills) (auto simp: lut_byte_eq add.assoc filling_def)
    then obtain v where v: "store (i * (?ps * 2) + ?ps) (?bs (i div 16)) u = ret v" "filling ?w u v"
      "\<And>k. k < ?ps \<Longrightarrow> v ! (i * (?ps * 2) + (?ps + k)) = ?w (i * (?ps * 2) + (?ps + k))"
      using bs(2) [OF c(2)] by (auto simp: add.assoc)
    have "v ! (i * (?ps * 2) + r) = ?w (i * (?ps * 2) + r)" if "r < ?ps * 2" for r
    proof (cases "r < ?ps")
      case True
      then show ?thesis using u(3) [of r] v(2) by (simp add: filling_def)
    next
      case False
      then show ?thesis using v(3) [of "r - ?ps"] that by simp
    qed
    with u v bs(1) [OF c(1)] bs(1) [OF c(2)] show "\<exists>t'. ?body i t = ret t' \<and> filling ?w t t' \<and>
        (\<forall>r < ?ps * 2. t' ! (i * (?ps * 2) + r) = ?w (i * (?ps * 2) + r))"
      by (intro exI [of _ v]) (auto intro: filling_preorder)
  qed (auto simp: filling_def)
  then obtain lut where lut: "run_for [0..<256] ?body lut0 = ret lut" "filling ?w lut0 lut"
    "\<And>i r. i < 256 \<Longrightarrow> r < ?ps * 2 \<Longrightarrow> lut ! (i * (?ps * 2) + r) = ?w (i * (?ps * 2) + r)" by auto
  have "lut ! n = ?w n" if "n < length lut0" for n
  proof -
    have "n div (?ps * 2) < 256" using that len ps(1) by (simp add: div_less_iff_less_mult mult.commute)
    moreover have "n mod (?ps * 2) < ?ps * 2" using ps(1) by simp
    ultimately show ?thesis using lut(3) [of "n div (?ps * 2)" "n mod (?ps * 2)"] by (simp only: div_mult_mod_eq)
  qed
  with lut arr(1) show ?thesis
    by (intro exI [of _ lut]) (auto simp: fb_console_create_lut_def Let_def filling_def)
qed

section \<open>Properties\<close>

lemma pixel_set_iff: "pixel_set r j \<longleftrightarrow> 0 < j \<and> j \<le> 8 \<and> bit r (8 - j) \<or> 8 < j \<and> bit r 0"
proof -
  have "pixel_set r j \<longleftrightarrow> bit (ucast r :: u32) (8 - j)"
    using bit_and_exp [of "ucast r" "8 - j"] by (auto simp: pixel_set_def)
  also have "\<dots> \<longleftrightarrow> 8 - j < 8 \<and> bit r (8 - j)" by (auto simp: bit_simps dest: bit_imp_le_length)
  finally show ?thesis by (cases "j \<le> 8") auto
qed

text \<open>A framebuffer of 16 by 32 pixels, four bytes each, for a console of two by two cells.\<close>

definition small_fb :: framebuffer where
  "small_fb = \<lparr>fb_width = 16, fb_height = 32, fb_pitch = 64, fb_bpp = 32, fb_flags = 1, fb_data = replicate 2048 0,
     fb_private = [], fb_palette_num = 0, fb_format = \<lparr>red_mask_size = 8, red_position = 16, green_mask_size = 8,
     green_position = 8, blue_mask_size = 8, blue_position = 0\<rparr>, fb_palette = []\<rparr>"

definition small_font :: psf_font where
  "small_font = \<lparr>psf_magic0 = 0x36, psf_magic1 = 4, psf_charsize = 16, psf_glyphs = replicate 4096 0xFF\<rparr>"

lemma small_fb_ok: "length table = 2048 \<Longrightarrow> fb_ok 2 2 small_font table (small_fb\<lparr>fb_private := table\<rparr>)"
  by (simp add: fb_ok_def small_fb_def small_font_def pixel_size_def)

lemma init_fb_console_run:
  assumes "R = unat (fb_height fb) div 16" and "C = unat (fb_width fb) div 8" and "0 < R" and "0 < C" and "R * C < 65536"
    and "fb_flags fb AND FB_CONSOLE_FLAG_RGB \<noteq> 0" and "pixel_size fb \<le> 4"
    and "length stack = 64" and "length lut0 = 512 * pixel_size fb" and "length cells = R * C"
    and "fb_ok R C font lut0 (fb\<lparr>fb_private := lut0\<rparr>)"
  shows "\<exists>s fb' table. init_fb_console font True (Some cells) stack (Some lut0) fb = ret (s, fb') \<and>
    cons_inv s \<and> escape_code_length s = 0 \<and> flags s AND CONSOLE_FLAG_AUTODRAW \<noteq> 0 \<and>
    term_of s = \<lparr>tlines = replicate R (replicate C \<lparr>cc_ch = 32, cc_attrs = 7\<rparr>), trow = 0, tcol = 0, tattrs = 7\<rparr> \<and>
    (\<forall>a < 256. \<forall>k < pixel_size fb. table ! (a * (pixel_size fb * 2) + k) = rgb_byte (fb_format fb) (a mod 16) k \<and>
      table ! (a * (pixel_size fb * 2) + (pixel_size fb + k)) = rgb_byte (fb_format fb) (a div 16) k) \<and>
    fb_ok R C font table fb' \<and> fb_shows font table s fb'"
proof -
  let ?s = "new_console C R cells" and ?ps = "pixel_size fb"
  have ps: "0 < ?ps" using assms(11) by (simp add: fb_ok_def pixel_size_def)
  obtain table where t: "fb_console_create_lut stack (Some lut0) fb = ret (fb\<lparr>fb_private := table\<rparr>)" "length table = length lut0"
    "\<And>n. n < length lut0 \<Longrightarrow> table ! n = lut_byte (fb_format fb) ?ps n"
    using create_lut_rgb [OF assms(6) ps assms(7-9)] by blast
  have tab: "table ! (a * (?ps * 2) + k) = rgb_byte (fb_format fb) (a mod 16) k \<and>
      table ! (a * (?ps * 2) + (?ps + k)) = rgb_byte (fb_format fb) (a div 16) k" if "a < 256" "k < ?ps" for a k
  proof -
    have "a * (?ps * 2) + (?ps + k) < 256 * (?ps * 2)" using that by (intro cell_in_range) auto
    then show ?thesis using that t(3) assms(9) by (simp add: lut_byte_eq)
  qed
  have ok: "fb_ok R C font table (fb\<lparr>fb_private := table\<rparr>)"
    using assms(11) t(2) by (simp add: fb_ok_def pixel_size_def)
  have "R * 1 \<le> R * C" "1 * C \<le> R * C" using assms(3,4) by (auto intro!: mult_le_mono)
  then have "R < 65536" "C < 65536" using assms(5) by linarith+
  then have small: "unat (fb_height fb) div 16 mod 65536 = R" "unat (fb_width fb) div 8 mod 65536 = C" using assms(1,2) by simp_all
  have s: "rows ?s = R" "columns ?s = C" "buffer ?s = cells" "length (escape_code_sequence ?s) = 32"
    "escape_code_length ?s = 0" "flags ?s AND CONSOLE_FLAG_AUTODRAW \<noteq> 0"
    by (simp_all add: new_console_def CONSOLE_FLAG_AUTODRAW_def CONSOLE_FLAG_SHOW_CURSOR_def)
  have "\<exists>s fb'. console_initialize (fb_console_redraw font) (?s, fb\<lparr>fb_private := table\<rparr>) = ret (s, fb') \<and> cons_inv s \<and>
      escape_code_length s = 0 \<and> flags s AND CONSOLE_FLAG_AUTODRAW \<noteq> 0 \<and>
      term_of s = \<lparr>tlines = replicate (rows ?s) (replicate (columns ?s) \<lparr>cc_ch = 32, cc_attrs = 7\<rparr>), trow = 0, tcol = 0, tattrs = 7\<rparr> \<and>
      fb_ok R C font table fb' \<and> fb_shows font table s fb'"
    by (rule fb.initialize_shows) (use assms(3,4,5,10) s ok in simp_all)
  then obtain s fb' where "console_initialize (fb_console_redraw font) (?s, fb\<lparr>fb_private := table\<rparr>) = ret (s, fb')"
    "cons_inv s" "escape_code_length s = 0" "flags s AND CONSOLE_FLAG_AUTODRAW \<noteq> 0"
    "term_of s = \<lparr>tlines = replicate R (replicate C \<lparr>cc_ch = 32, cc_attrs = 7\<rparr>), trow = 0, tcol = 0, tattrs = 7\<rparr>"
    "fb_ok R C font table fb'" "fb_shows font table s fb'"
    unfolding s by blast
  with t(1) tab small show ?thesis
    by (intro exI [of _ s] exI [of _ fb'] exI [of _ table]) (simp add: init_fb_console_def Let_def)
qed

text \<open>C21: initialising the framebuffer console on an RGB framebuffer of at most four bytes per pixel
  yields a console of width / 8 columns and height / 16 rows with blank cells; the table of colour
  pairs holds for each attribute the pixel bytes of its foreground and its background colour, the
  pixel memory is not left, and every pixel of the console has the bytes the table gives its cell.\<close>

theorem init_fb_console_correct:
  assumes "R = unat (fb_height fb) div 16" and "C = unat (fb_width fb) div 8" and "0 < R" and "0 < C" and "R * C < 65536"
    and "fb_flags fb AND FB_CONSOLE_FLAG_RGB \<noteq> 0" and "pixel_size fb \<le> 4"
    and "length stack = 64" and "length lut0 = 512 * pixel_size fb" and "length cells = R * C"
    and "fb_ok R C font lut0 (fb\<lparr>fb_private := lut0\<rparr>)"
  shows "\<exists>s fb' table. init_fb_console font True (Some cells) stack (Some lut0) fb = ret (s, fb') \<and>
    cons_inv s \<and> escape_code_length s = 0 \<and> flags s AND CONSOLE_FLAG_AUTODRAW \<noteq> 0 \<and>
    term_of s = \<lparr>tlines = replicate R (replicate C \<lparr>cc_ch = 32, cc_attrs = 7\<rparr>), trow = 0, tcol = 0, tattrs = 7\<rparr> \<and>
    (\<forall>a < 256. \<forall>k < pixel_size fb. table ! (a * (pixel_size fb * 2) + k) = rgb_byte (fb_format fb) (a mod 16) k \<and>
      table ! (a * (pixel_size fb * 2) + (pixel_size fb + k)) = rgb_byte (fb_format fb) (a div 16) k) \<and>
    fb_ok R C font table fb' \<and> fb_shows font table s fb'"
  by (rule init_fb_console_run [OF assms])

theorem init_fb_console_correct_witness:
  "\<exists>s fb' table. init_fb_console small_font True (Some (replicate 4 \<lparr>cc_ch = 0, cc_attrs = 0\<rparr>)) (replicate 64 0)
     (Some (replicate 2048 0)) small_fb = ret (s, fb') \<and> cons_inv s \<and> fb_shows small_font table s fb'"
proof -
  let ?lut = "replicate 2048 (0 :: u8)" and ?cells = "replicate 4 \<lparr>cc_ch = 0, cc_attrs = 0\<rparr>"
  have ok: "fb_ok 2 2 small_font ?lut (small_fb\<lparr>fb_private := ?lut\<rparr>)" by (rule small_fb_ok) simp
  have dim: "2 = unat (fb_height small_fb) div 16" "2 = unat (fb_width small_fb) div 8" "fb_flags small_fb AND FB_CONSOLE_FLAG_RGB \<noteq> 0"
    "pixel_size small_fb \<le> 4" "length ?lut = 512 * pixel_size small_fb"
    by (simp_all add: small_fb_def FB_CONSOLE_FLAG_RGB_def pixel_size_def)
  have sz: "0 < (2 :: nat)" "(2 :: nat) * 2 < 65536" "length (replicate 64 (0 :: u8)) = 64" "length ?cells = 2 * 2" by simp_all
  show ?thesis using init_fb_console_correct [OF dim(1,2) sz(1) sz(1) sz(2) dim(3,4) sz(3) dim(5) sz(4) ok] by blast
qed

text \<open>C22: text written to the framebuffer console refines the scrolling terminal, stays inside the pixel
  memory, and afterwards every pixel of every cell is drawn; but the glyph is drawn one pixel too
  far right: the leftmost pixel column of every cell has the background colour whatever the font
  says, and pixel \<open>gx\<close> shows bit \<open>8 - gx\<close> of the glyph row, so that bit 0 is never drawn.\<close>

theorem fb_console_write_shows:
  assumes "cons_inv s" and "escape_code_length s = 0" and "0x1B \<notin> set bs"
    and "fb_ok (rows s) (columns s) font table fb" and "flags s AND CONSOLE_FLAG_AUTODRAW \<noteq> 0"
  shows "\<exists>s' fb'. console_write (fb_console_redraw font) bs (s, fb) = ret (s', fb') \<and> cons_inv s' \<and>
    term_of s' = fold term_put bs (term_of s) \<and>
    (\<forall>i < rows s'. \<forall>j < columns s'. \<forall>gy < 16. \<forall>gx < 8. \<forall>k < pixel_size fb'.
      let c = buffer s' ! (i * columns s' + j); r = psf_glyphs font ! (unat (psf_charsize font) * unat (cc_ch c) + gy)
      in fb_data fb' ! ((i * 16 + gy) * unat (fb_pitch fb') + ((j * 8 + gx) * pixel_size fb' + k)) =
         table ! (unat (cc_attrs c) * (pixel_size fb' * 2) + (if gx \<noteq> 0 \<and> bit r (8 - gx) then 0 else pixel_size fb') + k))"
proof -
  obtain s' fb' where w: "console_write (fb_console_redraw font) bs (s, fb) = ret (s', fb')" "cons_inv s'"
    "term_of s' = fold term_put bs (term_of s)" "fb_shows font table s' fb'"
    using fb.write_shows [OF assms(1-3) _ assms(4,5)] by blast
  moreover have "fb_data fb' ! ((i * 16 + gy) * unat (fb_pitch fb') + ((j * 8 + gx) * pixel_size fb' + k)) =
      table ! (unat (cc_attrs c) * (pixel_size fb' * 2) + (if gx \<noteq> 0 \<and> bit r (8 - gx) then 0 else pixel_size fb') + k)"
    if "i < rows s'" "j < columns s'" "gy < 16" "gx < 8" "k < pixel_size fb'" "c = buffer s' ! (i * columns s' + j)"
      "r = psf_glyphs font ! (unat (psf_charsize font) * unat (cc_ch c) + gy)" for i j gy gx k c r
    using w(4) that by (simp add: fb_shows_def pixel_byte_def pixel_set_iff)
  ultimately show ?thesis by (intro exI [of _ s'] exI [of _ fb']) (simp add: Let_def)
qed

theorem fb_console_write_shows_witness:
  "\<exists>s' fb'. console_write (fb_console_redraw small_font) [72, 105]
     (new_console 2 2 (replicate 4 \<lparr>cc_ch = 32, cc_attrs = 7\<rparr>), small_fb\<lparr>fb_private := replicate 2048 0\<rparr>) = ret (s', fb') \<and> cons_inv s'"
proof -
  let ?s = "new_console 2 2 (replicate 4 \<lparr>cc_ch = 32, cc_attrs = 7\<rparr>)"
  have "cons_inv ?s" "escape_code_length ?s = 0" "flags ?s AND CONSOLE_FLAG_AUTODRAW \<noteq> 0" "rows ?s = 2" "columns ?s = 2"
    by (simp_all add: new_console_def cons_inv_def CONSOLE_FLAG_AUTODRAW_def CONSOLE_FLAG_SHOW_CURSOR_def)
  note s = this
  have ok: "fb_ok (rows ?s) (columns ?s) small_font (replicate 2048 0) (small_fb\<lparr>fb_private := replicate 2048 0\<rparr>)"
    unfolding s by (rule small_fb_ok) simp
  have plain: "0x1B \<notin> set [72, 105 :: u8]" by simp
  show ?thesis using fb_console_write_shows [OF s(1,2) plain ok s(3)] by blast
qed

end
