(* ===== verification/Snprintf.thy ===== *)
theory Snprintf
  imports Libc_Strings
begin

text \<open>
  Formatted output (\<^verbatim>\<open>libc/stdio/snprintf.c\<close>, with \<^verbatim>\<open>puts.c\<close>): the state machine \<open>dopr\<close> that reads a
  format, one definition per state, the routines that print a string and an integer, and the entry
  points built on them. Output goes through a printer, as in the code: a function that takes a
  character, and the length counted so far. The variadic arguments are the 32-bit stack slots of
  the i386 calling convention. The arithmetic of \<open>double\<close>, which the compiler and the processor provide, is an
  argument of the functions: a record with the operations that \<open>fmtfp\<close> and its helpers use. The lemmas relate a run that writes
  into a buffer to a run that collects its text, and describe the text of integers.
\<close>

section \<open>Data\<close>

datatype dp_state = DP_S_DEFAULT | DP_S_FLAGS | DP_S_MIN | DP_S_DOT | DP_S_MAX | DP_S_MOD | DP_S_CONV | DP_S_DONE

definition DP_F_MINUS :: u32 where "DP_F_MINUS = 1"
definition DP_F_PLUS :: u32 where "DP_F_PLUS = 2"
definition DP_F_SPACE :: u32 where "DP_F_SPACE = 4"
definition DP_F_NUM :: u32 where "DP_F_NUM = 8"
definition DP_F_ZERO :: u32 where "DP_F_ZERO = 16"
definition DP_F_UP :: u32 where "DP_F_UP = 32"
definition DP_F_UNSIGNED :: u32 where "DP_F_UNSIGNED = 64"

datatype dp_cflags = DP_C_NONE | DP_C_SHORT | DP_C_LONG | DP_C_LDOUBLE | DP_C_LLONG

text \<open>A printer (\<open>printch_t\<close>): what one character does to the output, and the count \<open>currlen\<close>.\<close>

record 'p printer =
  printch :: "u8 \<Rightarrow> 'p \<Rightarrow> 'p run"
  currlen_of :: "'p \<Rightarrow> nat"

text \<open>The local variables of \<open>dopr\<close>; \<open>int\<close> values are integers, reduced to 32 bits where they are computed.\<close>

record 'p dopr =
  d_ch :: u8
  d_format :: u32
  d_args :: "u32 list"
  d_min :: int
  d_max :: int
  d_state :: dp_state
  d_flags :: u32
  d_cflags :: dp_cflags
  d_mem :: mem
  d_out :: 'p

definition wrap32 :: "int \<Rightarrow> int" where
  "wrap32 i = sint (of_int i :: u32)"

definition isdigit :: "u8 \<Rightarrow> bool" where
  "isdigit c \<longleftrightarrow> c - 48 \<le> 9"

definition char_to_int :: "u8 \<Rightarrow> int" where
  "char_to_int c = sint c - 48"

section \<open>Strings and integers\<close>

text \<open>A loop that prints the same character \<open>n\<close> times.\<close>

definition print_times :: "'p printer \<Rightarrow> nat \<Rightarrow> u8 \<Rightarrow> 'p \<Rightarrow> 'p run" where
  "print_times pr n c = run_for (replicate n c) (printch pr)"

function pad_left_loop :: "'p printer \<Rightarrow> int \<Rightarrow> int \<Rightarrow> int \<Rightarrow> 'p \<Rightarrow> (int \<times> int \<times> 'p) run" where
  "pad_left_loop pr padlen cnt mx s =
     (if padlen > 0 \<and> cnt < mx
      then run_bind (printch pr 32 s) (\<lambda>s. pad_left_loop pr (padlen - 1) (cnt + 1) mx s)
      else ret (padlen, cnt, s))"
  by pat_completeness auto
termination
  by (relation "measure (\<lambda>(pr, padlen, cnt, mx, s). nat padlen)") auto

function copy_loop :: "'p printer \<Rightarrow> (nat \<Rightarrow> u8) \<Rightarrow> nat \<Rightarrow> int \<Rightarrow> int \<Rightarrow> 'p \<Rightarrow> (int \<times> 'p) run" where
  "copy_loop pr val i cnt mx s =
     (if val i \<noteq> 0 \<and> cnt < mx
      then run_bind (printch pr (val i) s) (\<lambda>s. copy_loop pr val (i + 1) (cnt + 1) mx s)
      else ret (cnt, s))"
  by pat_completeness auto
termination
  by (relation "measure (\<lambda>(pr, val, i, cnt, mx, s). nat (mx - cnt))") auto

function pad_right_loop :: "'p printer \<Rightarrow> int \<Rightarrow> int \<Rightarrow> int \<Rightarrow> 'p \<Rightarrow> 'p run" where
  "pad_right_loop pr padlen cnt mx s =
     (if padlen < 0 \<and> cnt < mx
      then run_bind (printch pr 32 s) (\<lambda>s. pad_right_loop pr (padlen + 1) (cnt + 1) mx s)
      else ret s)"
  by pat_completeness auto
termination
  by (relation "measure (\<lambda>(pr, padlen, cnt, mx, s). nat (- padlen))") auto

declare pad_left_loop.simps [simp del] copy_loop.simps [simp del] pad_right_loop.simps [simp del]

text \<open>The bytes of \<open>"<NULL>"\<close>, which stands for the null pointer.\<close>

definition null_text :: "u8 list" where
  "null_text = [60, 78, 85, 76, 76, 62]"

definition fmtstr :: "'p printer \<Rightarrow> mem \<Rightarrow> u32 \<Rightarrow> u32 \<Rightarrow> int \<Rightarrow> int \<Rightarrow> 'p \<Rightarrow> 'p run" where
  "fmtstr pr m ptr flags mn mx s =
     (let val = (if ptr = 0 then (\<lambda>i. if i < length null_text then null_text ! i else 0) else (\<lambda>i. m (ptr + of_nat i)))
      in case (if ptr = 0 then Some (of_nat (length null_text)) else strlen m ptr) of
           None \<Rightarrow> None
         | Some len \<Rightarrow>
             (let strln = sint len;
                  padlen = wrap32 (mn - strln);
                  padlen = (if padlen < 0 then 0 else padlen);
                  padlen = (if flags AND DP_F_MINUS \<noteq> 0 then - padlen else padlen)
              in run_bind (pad_left_loop pr padlen 0 mx s) (\<lambda>(padlen, cnt, s).
                 run_bind (copy_loop pr val 0 cnt mx s) (\<lambda>(cnt, s).
                 pad_right_loop pr padlen cnt mx s))))"

definition digit_char :: "bool \<Rightarrow> u32 \<Rightarrow> u8" where
  "digit_char caps d = (if d < 10 then 48 + ucast d else if caps then 55 + ucast d else 87 + ucast d)"

text \<open>The \<open>do\<close> loop that fills \<open>convert\<close> with the digits, the last one first.\<close>

function convert_loop :: "bool \<Rightarrow> u32 \<Rightarrow> u32 \<Rightarrow> u8 list \<Rightarrow> u8 list" where
  "convert_loop caps base uvalue convert =
     (let convert = convert @ [digit_char caps (uvalue mod base)]; uvalue = uvalue div base
      in if uvalue \<noteq> 0 \<and> length convert < 20 then convert_loop caps base uvalue convert else convert)"
  by pat_completeness auto
termination
  by (relation "measure (\<lambda>(caps, base, uvalue, convert). 20 - length convert)") auto

declare convert_loop.simps [simp del]

definition int_sign :: "u32 \<Rightarrow> u32 \<Rightarrow> u8 option" where
  "int_sign value flags =
     (if flags AND DP_F_UNSIGNED \<noteq> 0 then None
      else if sint value < 0 then Some 45
      else if flags AND DP_F_PLUS \<noteq> 0 then Some 43
      else if flags AND DP_F_SPACE \<noteq> 0 then Some 32
      else None)"

definition fmtint :: "'p printer \<Rightarrow> u32 \<Rightarrow> u32 \<Rightarrow> int \<Rightarrow> int \<Rightarrow> u32 \<Rightarrow> 'p \<Rightarrow> 'p run" where
  "fmtint pr value base mn mx flags s =
     (let mx = (if mx < 0 then 0 else mx);
          signvalue = int_sign value flags;
          uvalue = (if flags AND DP_F_UNSIGNED = 0 \<and> sint value < 0 then - value else value);
          convert = convert_loop (flags AND DP_F_UP \<noteq> 0) base uvalue [];
          convert = (if length convert = 20 then take 19 convert else convert);
          place = int (length convert);
          zpadlen = mx - place;
          spadlen = wrap32 (mn - (if mx \<ge> place then mx else place) - (if signvalue = None then 0 else 1));
          zpadlen = (if zpadlen < 0 then 0 else zpadlen);
          spadlen = (if spadlen < 0 then 0 else spadlen);
          zpadlen' = (if flags AND DP_F_ZERO \<noteq> 0 then (if zpadlen \<ge> spadlen then zpadlen else spadlen) else zpadlen);
          spadlen = (if flags AND DP_F_ZERO \<noteq> 0 then 0 else spadlen);
          spadlen = (if flags AND DP_F_MINUS \<noteq> 0 then - spadlen else spadlen)
      in run_bind (print_times pr (nat spadlen) 32 s) (\<lambda>s.
         run_bind (case signvalue of None \<Rightarrow> ret s | Some c \<Rightarrow> printch pr c s) (\<lambda>s.
         run_bind (print_times pr (nat zpadlen') 48 s) (\<lambda>s.
         run_bind (run_for (rev convert) (printch pr) s) (\<lambda>s.
         print_times pr (nat (- spadlen)) 32 s)))))"

section \<open>Floating-point numbers\<close>

text \<open>
  The operations on \<open>double\<close> that the code uses, over the 64 bits of its representation: sums, products, comparisons, the
  conversions from and to \<open>long\<close>, and the literals \<open>0.1\<close>, \<open>0.05\<close> and \<open>0.5\<close>. \<open>LDOUBLE\<close> is \<open>double\<close> and \<open>LLONG\<close> is \<open>long\<close> on
  this target.
\<close>

record fp_ops =
  fp_add :: "u64 \<Rightarrow> u64 \<Rightarrow> u64"
  fp_sub :: "u64 \<Rightarrow> u64 \<Rightarrow> u64"
  fp_mul :: "u64 \<Rightarrow> u64 \<Rightarrow> u64"
  fp_neg :: "u64 \<Rightarrow> u64"
  fp_less :: "u64 \<Rightarrow> u64 \<Rightarrow> bool"
  fp_le :: "u64 \<Rightarrow> u64 \<Rightarrow> bool"
  fp_eq :: "u64 \<Rightarrow> u64 \<Rightarrow> bool"
  fp_of_long :: "u32 \<Rightarrow> u64"
  fp_to_long :: "u64 \<Rightarrow> u32"
  fp_tenth :: u64
  fp_twentieth :: u64
  fp_half :: u64

definition abs_val :: "fp_ops \<Rightarrow> u64 \<Rightarrow> u64" where
  "abs_val fp value = (if fp_less fp value (fp_of_long fp 0) then fp_neg fp value else value)"

fun POW10 :: "fp_ops \<Rightarrow> nat \<Rightarrow> u64" where
  "POW10 fp 0 = fp_of_long fp 1"
| "POW10 fp (Suc n) = fp_mul fp (POW10 fp n) (fp_of_long fp 10)"

definition ROUND :: "fp_ops \<Rightarrow> u64 \<Rightarrow> u32" where
  "ROUND fp value =
     (let intpart = fp_to_long fp value;
          value = fp_sub fp value (fp_of_long fp intpart)
      in if fp_le fp (fp_half fp) value then intpart + 1 else intpart)"

text \<open>The loop of \<open>my_modf\<close>: \<open>n\<close> rounds are left, \<open>i\<close> have been made. The result is \<open>i\<close>, \<open>l\<close>, \<open>x\<close> and \<open>f\<close> at the \<open>break\<close>.\<close>

fun modf_loop :: "fp_ops \<Rightarrow> nat \<Rightarrow> nat \<Rightarrow> u64 \<Rightarrow> u64 \<Rightarrow> (nat \<times> u32 \<times> u64 \<times> u64) option" where
  "modf_loop fp 0 i x f = None"
| "modf_loop fp (Suc n) i x f =
     (let l = fp_to_long fp x; one = fp_of_long fp 1
      in if fp_le fp (fp_of_long fp l) (fp_add fp x one) \<and> fp_le fp (fp_sub fp x one) (fp_of_long fp l) then Some (i, l, x, f)
         else modf_loop fp n (i + 1) (fp_mul fp x (fp_tenth fp)) (fp_mul fp f (fp_of_long fp 10)))"

text \<open>The result is the value returned and \<open>*iptr\<close>.\<close>

partial_function (option) my_modf :: "fp_ops \<Rightarrow> u64 \<Rightarrow> (u64 \<times> u64) run" where
  "my_modf fp x0 = (case modf_loop fp 100 0 x0 (fp_of_long fp 1) of
     None \<Rightarrow> ret (fp_of_long fp 0, fp_of_long fp 0)
   | Some r \<Rightarrow>
       (let i = fst r; l = fst (snd r); x = fst (snd (snd r)); f = snd (snd (snd r))
        in if i \<noteq> 0 then
             run_bind (my_modf fp (fp_sub fp x0 (fp_mul fp (fp_of_long fp l) f))) (\<lambda>q.
               ret (fst q, fp_add fp (fp_mul fp (fp_of_long fp l) f) (snd q)))
           else ret (fp_sub fp x (fp_of_long fp l), fp_of_long fp l)))"

text \<open>The loops that fill \<open>iconvert\<close> and \<open>fconvert\<close> with the digits of \<open>v\<close>, the last one first; \<open>n\<close> bytes of the array are
  left. The table of the digits is a string of sixteen characters and a NUL.\<close>

definition hex_table :: "u8 list" where
  "hex_table = [48, 49, 50, 51, 52, 53, 54, 55, 56, 57, 97, 98, 99, 100, 101, 102, 0]"

fun fp_digits :: "fp_ops \<Rightarrow> nat \<Rightarrow> u64 \<Rightarrow> u8 list run" where
  "fp_digits fp 0 v = ret []"
| "fp_digits fp (Suc n) v =
     run_bind (my_modf fp (fp_mul fp v (fp_tenth fp))) (\<lambda>(_, ip).
     let temp = fp_mul fp v (fp_tenth fp);
         index = sint (fp_to_long fp (fp_mul fp (fp_add fp (fp_sub fp temp ip) (fp_twentieth fp)) (fp_of_long fp 10)))
     in if 0 \<le> index \<and> index < int (length hex_table) then
          (if fp_eq fp ip (fp_of_long fp 0) then ret [hex_table ! nat index]
           else run_bind (fp_digits fp n ip) (\<lambda>cs. ret (hex_table ! nat index # cs)))
        else goes_wrong Out_of_bounds)"

definition fp_sign :: "fp_ops \<Rightarrow> u64 \<Rightarrow> u32 \<Rightarrow> u8 option" where
  "fp_sign fp fvalue flags =
     (if fp_less fp fvalue (fp_of_long fp 0) then Some 45
      else if flags AND DP_F_PLUS \<noteq> 0 then Some 43
      else if flags AND DP_F_SPACE \<noteq> 0 then Some 32
      else None)"

text \<open>All characters are printed after the conversion; the result is what the last part of \<open>fmtfp\<close> hands to \<open>printch\<close>.\<close>

definition fp_output :: "u8 option \<Rightarrow> u8 list \<Rightarrow> u8 list \<Rightarrow> int \<Rightarrow> int \<Rightarrow> u32 \<Rightarrow> u8 list" where
  "fp_output signvalue iconvert fconvert mn mx flags =
     (let padlen = wrap32 (mn - int (length iconvert) - mx - 1 - (if signvalue = None then 0 else 1));
          zpadlen = mx - int (length fconvert);
          zpadlen = (if zpadlen < 0 then 0 else zpadlen);
          padlen = (if padlen < 0 then 0 else padlen);
          padlen = (if flags AND DP_F_MINUS \<noteq> 0 then - padlen else padlen);
          sign = (case signvalue of None \<Rightarrow> [] | Some c \<Rightarrow> [c]);
          zero = flags AND DP_F_ZERO \<noteq> 0 \<and> padlen > 0;
          front = (if zero then sign @ replicate (nat (padlen - (if signvalue = None then 0 else 1))) 48 else []);
          sign = (if zero then [] else sign);
          padlen = (if zero then 0 else padlen)
      in front @ replicate (nat padlen) 32 @ sign @ rev iconvert @ (if mx > 0 then 46 # rev fconvert else []) @
         replicate (nat zpadlen) 48 @ replicate (nat (- padlen)) 32)"

definition fmtfp :: "fp_ops \<Rightarrow> u32 \<Rightarrow> u32 \<Rightarrow> int \<Rightarrow> int \<Rightarrow> u32 \<Rightarrow> u8 list run" where
  "fmtfp fp lo hi mn mx flags =
     (let fvalue = push_bit 32 (ucast hi) OR ucast lo;
          mx = (if mx < 0 then 6 else mx);
          ufvalue = abs_val fp fvalue;
          signvalue = fp_sign fp fvalue flags;
          mx = (if mx > 16 then 16 else mx);
          scale = POW10 fp (nat mx)
      in run_bind (my_modf fp ufvalue) (\<lambda>(_, intpart).
         let fracpart = fp_of_long fp (ROUND fp (fp_mul fp scale (fp_sub fp ufvalue intpart)));
             carry = fp_le fp scale fracpart;
             intpart = (if carry then fp_add fp intpart (fp_of_long fp 1) else intpart);
             fracpart = (if carry then fp_sub fp fracpart scale else fracpart)
         in run_bind (fp_digits fp 311 intpart) (\<lambda>iconvert.
            run_bind (if fp_eq fp fracpart (fp_of_long fp 0) then ret [] else fp_digits fp 311 fracpart) (\<lambda>fconvert.
            ret (fp_output signvalue (take 310 iconvert) (take 310 fconvert) mn mx flags)))))"

text \<open>A stand-in for runs that print no floating-point number: the arithmetic of 64-bit integers.\<close>

definition word_fp :: fp_ops where
  "word_fp = \<lparr>fp_add = (+), fp_sub = (-), fp_mul = (*), fp_neg = uminus, fp_less = (<), fp_le = (\<le>), fp_eq = (=),
     fp_of_long = scast, fp_to_long = ucast, fp_tenth = 0, fp_twentieth = 0, fp_half = 0\<rparr>"

section \<open>The states of the format reader\<close>

definition next_ch :: "'p dopr \<Rightarrow> 'p dopr" where
  "next_ch d = d\<lparr>d_ch := d_mem d (d_format d), d_format := d_format d + 1\<rparr>"

definition va_word :: "'p dopr \<Rightarrow> (u32 \<Rightarrow> 'p dopr \<Rightarrow> 'a run) \<Rightarrow> 'a run" where
  "va_word d k = (case d_args d of [] \<Rightarrow> goes_wrong Bad_argument | a # as \<Rightarrow> k a (d\<lparr>d_args := as\<rparr>))"

text \<open>A \<open>double\<close> takes two slots, the low one first.\<close>

definition va_double :: "'p dopr \<Rightarrow> (u32 \<Rightarrow> u32 \<Rightarrow> 'p dopr \<Rightarrow> 'a run) \<Rightarrow> 'a run" where
  "va_double d k = va_word d (\<lambda>lo d. va_word d (\<lambda>hi d. k lo hi d))"

definition emit :: "'p dopr \<Rightarrow> ('p \<Rightarrow> 'p run) \<Rightarrow> 'p dopr run" where
  "emit d f = run_bind (f (d_out d)) (\<lambda>s. ret (d\<lparr>d_out := s\<rparr>))"

definition step_default :: "'p printer \<Rightarrow> 'p dopr \<Rightarrow> 'p dopr run" where
  "step_default pr d =
     run_bind (if d_ch d = 37 then ret (d\<lparr>d_state := DP_S_FLAGS\<rparr>) else emit d (printch pr (d_ch d))) (\<lambda>d.
     ret (next_ch d))"

definition step_flags :: "'p dopr \<Rightarrow> 'p dopr" where
  "step_flags d =
     (if d_ch d = 45 then next_ch (d\<lparr>d_flags := d_flags d OR DP_F_MINUS\<rparr>)
      else if d_ch d = 43 then next_ch (d\<lparr>d_flags := d_flags d OR DP_F_PLUS\<rparr>)
      else if d_ch d = 32 then next_ch (d\<lparr>d_flags := d_flags d OR DP_F_SPACE\<rparr>)
      else if d_ch d = 35 then next_ch (d\<lparr>d_flags := d_flags d OR DP_F_NUM\<rparr>)
      else if d_ch d = 48 then next_ch (d\<lparr>d_flags := d_flags d OR DP_F_ZERO\<rparr>)
      else d\<lparr>d_state := DP_S_MIN\<rparr>)"

definition step_min :: "'p dopr \<Rightarrow> 'p dopr run" where
  "step_min d =
     (if isdigit (d_ch d) then ret (next_ch (d\<lparr>d_min := wrap32 (10 * d_min d + char_to_int (d_ch d))\<rparr>))
      else if d_ch d = 42 then va_word d (\<lambda>a d. ret ((next_ch (d\<lparr>d_min := sint a\<rparr>))\<lparr>d_state := DP_S_DOT\<rparr>))
      else ret (d\<lparr>d_state := DP_S_DOT\<rparr>))"

definition step_dot :: "'p dopr \<Rightarrow> 'p dopr" where
  "step_dot d = (if d_ch d = 46 then next_ch (d\<lparr>d_state := DP_S_MAX\<rparr>) else d\<lparr>d_state := DP_S_MOD\<rparr>)"

definition step_max :: "'p dopr \<Rightarrow> 'p dopr run" where
  "step_max d =
     (if isdigit (d_ch d) then
        ret (next_ch (d\<lparr>d_max := wrap32 (10 * (if d_max d < 0 then 0 else d_max d) + char_to_int (d_ch d))\<rparr>))
      else if d_ch d = 42 then va_word d (\<lambda>a d. ret ((next_ch (d\<lparr>d_max := sint a\<rparr>))\<lparr>d_state := DP_S_MOD\<rparr>))
      else ret (d\<lparr>d_state := DP_S_MOD\<rparr>))"

definition step_mod :: "'p dopr \<Rightarrow> 'p dopr" where
  "step_mod d =
     (let d = (if d_ch d = 104 then next_ch (d\<lparr>d_cflags := DP_C_SHORT\<rparr>)
               else if d_ch d = 108 then
                 (let d = next_ch (d\<lparr>d_cflags := DP_C_LONG\<rparr>)
                  in if d_ch d = 108 then next_ch (d\<lparr>d_cflags := DP_C_LLONG\<rparr>) else d)
               else if d_ch d = 76 then next_ch (d\<lparr>d_cflags := DP_C_LDOUBLE\<rparr>)
               else d)
      in d\<lparr>d_state := DP_S_CONV\<rparr>)"

text \<open>
  The conversions. \<open>int\<close>, \<open>long\<close> and \<open>LLONG\<close>, which is \<open>long\<close> on this target, all take one slot, so
  the size modifiers make no difference to what is read.
\<close>

definition conv_int :: "'p printer \<Rightarrow> u32 \<Rightarrow> u32 \<Rightarrow> 'p dopr \<Rightarrow> 'p dopr run" where
  "conv_int pr base set_flags d =
     va_word (d\<lparr>d_flags := d_flags d OR set_flags\<rparr>) (\<lambda>value d.
       emit d (fmtint pr value base (d_min d) (d_max d) (d_flags d)))"

definition conv_str :: "'p printer \<Rightarrow> 'p dopr \<Rightarrow> 'p dopr run" where
  "conv_str pr d =
     va_word d (\<lambda>strvalue d.
       run_bind (if d_max d = -1
                 then (if strvalue = 0 then goes_wrong Null_pointer
                       else case strlen (d_mem d) strvalue of None \<Rightarrow> None | Some n \<Rightarrow> ret (d\<lparr>d_max := sint n\<rparr>))
                 else ret d) (\<lambda>d.
       let d = (if d_min d > 0 \<and> d_max d \<ge> 0 \<and> d_min d > d_max d then d\<lparr>d_max := d_min d\<rparr> else d)
       in emit d (fmtstr pr (d_mem d) strvalue (d_flags d) (d_min d) (d_max d))))"

text \<open>\<open>%n\<close> stores the count through a pointer: two bytes of it for \<open>short\<close>, else four.\<close>

definition conv_count :: "'p printer \<Rightarrow> 'p dopr \<Rightarrow> 'p dopr run" where
  "conv_count pr d =
     va_word d (\<lambda>num d.
       if num = 0 then goes_wrong Null_pointer
       else let n = of_nat (currlen_of pr (d_out d)) :: u32
            in ret (d\<lparr>d_mem := (if d_cflags d = DP_C_SHORT then (d_mem d)(num := byte_of n 0, num + 1 := byte_of n 1)
                                else st32 (d_mem d) num n)\<rparr>))"

definition convert_ch :: "fp_ops \<Rightarrow> 'p printer \<Rightarrow> 'p dopr \<Rightarrow> 'p dopr run" where
  "convert_ch fp pr d =
     (if d_ch d = 100 \<or> d_ch d = 105 then conv_int pr 10 0 d
      else if d_ch d = 111 then conv_int pr 8 DP_F_UNSIGNED d
      else if d_ch d = 117 then conv_int pr 10 DP_F_UNSIGNED d
      else if d_ch d = 88 then conv_int pr 16 (DP_F_UP OR DP_F_UNSIGNED) d
      else if d_ch d = 120 then conv_int pr 16 DP_F_UNSIGNED d
      else if d_ch d = 102 then
        va_double d (\<lambda>lo hi d. emit d (\<lambda>s.
          run_bind (fmtfp fp lo hi (d_min d) (d_max d) (d_flags d)) (\<lambda>cs. run_for cs (printch pr) s)))
      else if d_ch d = 69 \<or> d_ch d = 101 \<or> d_ch d = 71 \<or> d_ch d = 103 then va_double d (\<lambda>lo hi d. ret d)
      else if d_ch d = 99 then va_word d (\<lambda>a d. emit d (printch pr (ucast a)))
      else if d_ch d = 115 then conv_str pr d
      else if d_ch d = 112 then conv_int pr 16 0 d
      else if d_ch d = 110 then conv_count pr d
      else if d_ch d = 37 then emit d (printch pr (d_ch d))
      else if d_ch d = 119 then ret (next_ch d)
      else ret d)"

definition step_conv :: "fp_ops \<Rightarrow> 'p printer \<Rightarrow> 'p dopr \<Rightarrow> 'p dopr run" where
  "step_conv fp pr d =
     run_bind (convert_ch fp pr d) (\<lambda>d.
     ret ((next_ch d)\<lparr>d_state := DP_S_DEFAULT, d_flags := 0, d_cflags := DP_C_NONE, d_min := 0, d_max := -1\<rparr>))"

definition dopr_step :: "fp_ops \<Rightarrow> 'p printer \<Rightarrow> 'p dopr \<Rightarrow> 'p dopr run" where
  "dopr_step fp pr d =
     (if d_ch d = 0 then ret (d\<lparr>d_state := DP_S_DONE\<rparr>)
      else case d_state d of
        DP_S_DEFAULT \<Rightarrow> step_default pr d
      | DP_S_FLAGS \<Rightarrow> ret (step_flags d)
      | DP_S_MIN \<Rightarrow> step_min d
      | DP_S_DOT \<Rightarrow> ret (step_dot d)
      | DP_S_MAX \<Rightarrow> step_max d
      | DP_S_MOD \<Rightarrow> ret (step_mod d)
      | DP_S_CONV \<Rightarrow> step_conv fp pr d
      | DP_S_DONE \<Rightarrow> ret d)"

partial_function (option) dopr_loop ::
  "fp_ops \<Rightarrow> 'p printer \<Rightarrow> 'p dopr \<Rightarrow> 'p dopr run" where
  "dopr_loop fp pr d =
     (if d_state d = DP_S_DONE then ret d
      else run_bind (dopr_step fp pr d) (dopr_loop fp pr))"

text \<open>The run of the loop from the start of a format; the result also carries the memory \<open>%n\<close> writes to.\<close>

definition dopr_start :: "mem \<Rightarrow> u32 \<Rightarrow> u32 list \<Rightarrow> 'p \<Rightarrow> 'p dopr" where
  "dopr_start m format args s = \<lparr>d_ch = m format, d_format = format + 1, d_args = args, d_min = 0, d_max = -1,
     d_state = DP_S_DEFAULT, d_flags = 0, d_cflags = DP_C_NONE, d_mem = m, d_out = s\<rparr>"

section \<open>Printing into a buffer\<close>

record out =
  obuf :: "u8 list"
  currlen :: nat

definition dopr_outch :: "nat \<Rightarrow> u8 \<Rightarrow> out \<Rightarrow> out run" where
  "dopr_outch maxlen c s =
     run_bind (if currlen s < maxlen
               then (if currlen s < length (obuf s) then ret (s\<lparr>obuf := (obuf s)[currlen s := c]\<rparr>) else goes_wrong Out_of_bounds)
               else ret s) (\<lambda>s.
     ret (s\<lparr>currlen := (currlen s + 1) mod 2 ^ 32\<rparr>))"

definition buffer_printer :: "nat \<Rightarrow> out printer" where
  "buffer_printer maxlen = \<lparr>printch = dopr_outch maxlen, currlen_of = currlen\<rparr>"

text \<open>The terminator written at the end of \<open>dopr\<close>.\<close>

definition terminate_buffer :: "nat \<Rightarrow> out \<Rightarrow> out run" where
  "terminate_buffer maxlen s =
     (if maxlen = 0 then ret s
      else let at = (if currlen s < maxlen - 1 then currlen s else maxlen - 1)
           in if at < length (obuf s) then ret (s\<lparr>obuf := (obuf s)[at := 0]\<rparr>) else goes_wrong Out_of_bounds)"

definition vsnprintf ::
  "fp_ops \<Rightarrow> mem \<Rightarrow> u8 list \<Rightarrow> nat \<Rightarrow> u32 \<Rightarrow> u32 list \<Rightarrow> (nat \<times> u8 list \<times> mem) run" where
  "vsnprintf fp m str count fmt args =
     run_bind (dopr_loop fp (buffer_printer count) (dopr_start m fmt args \<lparr>obuf = str, currlen = 0\<rparr>)) (\<lambda>d.
     run_bind (terminate_buffer count (d_out d)) (\<lambda>s.
     ret (currlen s, obuf s, d_mem d)))"

definition snprintf ::
  "fp_ops \<Rightarrow> mem \<Rightarrow> u8 list \<Rightarrow> nat \<Rightarrow> u32 \<Rightarrow> u32 list \<Rightarrow> (nat \<times> u8 list \<times> mem) run" where
  "snprintf fp m str count fmt args = vsnprintf fp m str count fmt args"

definition sprintf ::
  "fp_ops \<Rightarrow> mem \<Rightarrow> u8 list \<Rightarrow> u32 \<Rightarrow> u32 list \<Rightarrow> (nat \<times> u8 list \<times> mem) run" where
  "sprintf fp m ptr format args = vsnprintf fp m ptr (2 ^ 32 - 1) format args"

text \<open>
  \<open>vprintf\<close> formats into 256 bytes on the stack and hands the string in them to \<open>puts\<close>; the bytes
  written to the console are returned with the result.
\<close>

definition vprintf ::
  "fp_ops \<Rightarrow> mem \<Rightarrow> u8 list \<Rightarrow> u32 \<Rightarrow> u32 list \<Rightarrow> (nat \<times> u8 list \<times> mem) run" where
  "vprintf fp m stack fmt args =
     run_bind (vsnprintf fp m stack 256 fmt args) (\<lambda>(x, b, m).
     if 0 \<in> set b then ret (x, takeWhile (\<lambda>c. c \<noteq> 0) b, m) else goes_wrong Out_of_bounds)"

definition printf ::
  "fp_ops \<Rightarrow> mem \<Rightarrow> u8 list \<Rightarrow> u32 \<Rightarrow> u32 list \<Rightarrow> (nat \<times> u8 list \<times> mem) run" where
  "printf fp m stack fmt args = vprintf fp m stack fmt args"

text \<open>
  \<open>vasprintf\<close> measures, allocates and prints. \<open>alloc n\<close> is what \<open>malloc n\<close> gives: the bytes of the
  block, or \<open>None\<close>. The result \<open>-1\<close> of a failed allocation is \<open>None\<close>. On this target \<open>va_list\<close> is a
  pointer passed by value, so that both runs see the same arguments.
\<close>

definition vasprintf ::
  "fp_ops \<Rightarrow> (nat \<Rightarrow> u8 list option) \<Rightarrow> mem \<Rightarrow> u32 \<Rightarrow> u32 list \<Rightarrow>
     (nat option \<times> u8 list option \<times> mem) run" where
  "vasprintf fp alloc m format args =
     run_bind (vsnprintf fp m [] 0 format args) (\<lambda>(n, b, m).
     if (n + 1) mod 2 ^ 32 \<le> 1 then ret (Some n, None, m)
     else case alloc ((n + 1) mod 2 ^ 32) of
            None \<Rightarrow> ret (None, None, m)
          | Some blk \<Rightarrow>
              run_bind (vsnprintf fp m blk (n + 1) format args) (\<lambda>(n, b, m). ret (Some n, Some b, m)))"

section \<open>Runs with different printers\<close>

abbreviation rel_run :: "('a \<Rightarrow> 'b \<Rightarrow> bool) \<Rightarrow> 'a run \<Rightarrow> 'b run \<Rightarrow> bool" where
  "rel_run S \<equiv> rel_option (rel_sum (=) S)"

lemma rel_run_bind:
  assumes "rel_run S x y" and "\<And>a b. S a b \<Longrightarrow> rel_run T (k a) (l b)"
  shows "rel_run T (run_bind x k) (run_bind y l)"
  using assms by (cases x; cases y) (auto simp: run_bind_def split: sum.splits elim!: rel_sum.cases)

text \<open>
  Two printers that simulate each other: they print from related states to related states and
  count alike. Then \<open>dopr\<close> behaves alike with both, whatever the format and the arguments.
\<close>

locale printer_sim =
  fixes p :: "'a printer" and q :: "'b printer" and R :: "'a \<Rightarrow> 'b \<Rightarrow> bool"
  assumes print_sim: "R a b \<Longrightarrow> rel_run R (printch p c a) (printch q c b)"
    and count_sim: "R a b \<Longrightarrow> currlen_of p a = currlen_of q b"
begin

definition dsim :: "'a dopr \<Rightarrow> 'b dopr \<Rightarrow> bool" where
  "dsim d e \<longleftrightarrow> d_ch d = d_ch e \<and> d_format d = d_format e \<and> d_args d = d_args e \<and> d_min d = d_min e \<and> d_max d = d_max e \<and>
     d_state d = d_state e \<and> d_flags d = d_flags e \<and> d_cflags d = d_cflags e \<and> d_mem d = d_mem e \<and> R (d_out d) (d_out e)"

lemma run_for_sim: "R a b \<Longrightarrow> rel_run R (run_for cs (printch p) a) (run_for cs (printch q) b)"
proof (induction cs arbitrary: a b)
  case (Cons c cs)
  show ?case unfolding run_for.simps
    by (rule rel_run_bind [OF print_sim [OF Cons.prems]]) (rule Cons.IH)
qed simp

lemma print_times_sim: "R a b \<Longrightarrow> rel_run R (print_times p n c a) (print_times q n c b)"
  unfolding print_times_def by (rule run_for_sim)

lemma pad_left_sim:
  "R a b \<Longrightarrow> rel_run (rel_prod (=) (rel_prod (=) R)) (pad_left_loop p padlen cnt mx a) (pad_left_loop q padlen cnt mx b)"
proof (induction "nat padlen" arbitrary: padlen cnt a b rule: less_induct)
  case less
  show ?case
  proof (cases "padlen > 0 \<and> cnt < mx")
    case True
    then show ?thesis
      by (simp add: pad_left_loop.simps [of _ padlen])
        (rule rel_run_bind [OF print_sim [OF less.prems]], rule less.hyps, auto)
  next
    case False
    then show ?thesis using less.prems by (subst (1 2) pad_left_loop.simps) auto
  qed
qed

lemma copy_sim: "R a b \<Longrightarrow> rel_run (rel_prod (=) R) (copy_loop p val i cnt mx a) (copy_loop q val i cnt mx b)"
proof (induction "nat (mx - cnt)" arbitrary: i cnt a b rule: less_induct)
  case less
  show ?case
  proof (cases "val i \<noteq> 0 \<and> cnt < mx")
    case True
    then show ?thesis
      by (simp add: copy_loop.simps [of _ val i cnt])
        (rule rel_run_bind [OF print_sim [OF less.prems]], rule less.hyps, auto)
  next
    case False
    then show ?thesis using less.prems by (subst (1 2) copy_loop.simps) auto
  qed
qed

lemma pad_right_sim: "R a b \<Longrightarrow> rel_run R (pad_right_loop p padlen cnt mx a) (pad_right_loop q padlen cnt mx b)"
proof (induction "nat (- padlen)" arbitrary: padlen cnt a b rule: less_induct)
  case less
  show ?case
  proof (cases "padlen < 0 \<and> cnt < mx")
    case True
    then show ?thesis
      by (simp add: pad_right_loop.simps [of _ padlen])
        (rule rel_run_bind [OF print_sim [OF less.prems]], rule less.hyps, auto)
  next
    case False
    then show ?thesis using less.prems by (subst (1 2) pad_right_loop.simps) auto
  qed
qed

lemma fmtstr_sim: "R a b \<Longrightarrow> rel_run R (fmtstr p m ptr fl mn mx a) (fmtstr q m ptr fl mn mx b)"
  unfolding fmtstr_def Let_def
  by (cases "if ptr = 0 then Some (of_nat (length null_text)) else strlen m ptr")
    (auto intro!: rel_run_bind [OF pad_left_sim] rel_run_bind [OF copy_sim] pad_right_sim split: option.splits)

lemma fmtint_sim: "R a b \<Longrightarrow> rel_run R (fmtint p v base mn mx fl a) (fmtint q v base mn mx fl b)"
  unfolding fmtint_def Let_def
  apply (rule rel_run_bind [OF print_times_sim], assumption)
  apply (rule rel_run_bind [where S = R])
   apply (auto split: option.splits intro: print_sim) [1]
  apply (rule rel_run_bind [OF print_times_sim], assumption)
  apply (rule rel_run_bind [OF run_for_sim], assumption)
  apply (rule print_times_sim, assumption)
  done

lemma emit_sim: "dsim d e \<Longrightarrow> (\<And>a b. R a b \<Longrightarrow> rel_run R (f a) (g b)) \<Longrightarrow> rel_run dsim (emit d f) (emit e g)"
  unfolding emit_def by (rule rel_run_bind [where S = R]) (auto simp: dsim_def)

lemma next_ch_sim: "dsim d e \<Longrightarrow> dsim (next_ch d) (next_ch e)"
  by (simp add: dsim_def next_ch_def)

lemma va_word_sim:
  "dsim d e \<Longrightarrow> (\<And>a d e. dsim d e \<Longrightarrow> rel_run S (k a d) (l a e)) \<Longrightarrow> rel_run S (va_word d k) (va_word e l)"
  by (auto simp: va_word_def dsim_def split: list.splits)

lemma conv_int_sim: "dsim d e \<Longrightarrow> rel_run dsim (conv_int p base fl d) (conv_int q base fl e)"
  unfolding conv_int_def
proof (rule va_word_sim)
  fix a d e assume "dsim d e"
  then show "rel_run dsim (emit d (fmtint p a base (d_min d) (d_max d) (d_flags d))) (emit e (fmtint q a base (d_min e) (d_max e) (d_flags e)))"
    using fmtint_sim by (auto simp: dsim_def intro!: emit_sim)
qed (simp add: dsim_def)

lemma dsimD:
  assumes "dsim d e"
  shows "d_ch d = d_ch e" "d_format d = d_format e" "d_args d = d_args e" "d_min d = d_min e" "d_max d = d_max e"
    "d_state d = d_state e" "d_flags d = d_flags e" "d_cflags d = d_cflags e" "d_mem d = d_mem e" "R (d_out d) (d_out e)"
  using assms by (simp_all add: dsim_def)

lemma conv_str_sim:
  assumes "dsim d e"
  shows "rel_run dsim (conv_str p d) (conv_str q e)"
  unfolding conv_str_def
proof (rule va_word_sim [OF assms])
  fix a d e assume de: "dsim d e"
  have start: "rel_run dsim
      (if d_max d = -1 then if a = 0 then goes_wrong Null_pointer
         else case strlen (d_mem d) a of None \<Rightarrow> None | Some n \<Rightarrow> ret (d\<lparr>d_max := sint n\<rparr>) else ret d)
      (if d_max e = -1 then if a = 0 then goes_wrong Null_pointer
         else case strlen (d_mem e) a of None \<Rightarrow> None | Some n \<Rightarrow> ret (e\<lparr>d_max := sint n\<rparr>) else ret e)"
    using de dsimD [OF de] by (auto simp: dsim_def split: option.splits)
  show "rel_run dsim
      (run_bind (if d_max d = -1 then if a = 0 then goes_wrong Null_pointer
         else case strlen (d_mem d) a of None \<Rightarrow> None | Some n \<Rightarrow> ret (d\<lparr>d_max := sint n\<rparr>) else ret d) (\<lambda>d.
       let d = (if d_min d > 0 \<and> d_max d \<ge> 0 \<and> d_min d > d_max d then d\<lparr>d_max := d_min d\<rparr> else d)
       in emit d (fmtstr p (d_mem d) a (d_flags d) (d_min d) (d_max d))))
      (run_bind (if d_max e = -1 then if a = 0 then goes_wrong Null_pointer
         else case strlen (d_mem e) a of None \<Rightarrow> None | Some n \<Rightarrow> ret (e\<lparr>d_max := sint n\<rparr>) else ret e) (\<lambda>d.
       let d = (if d_min d > 0 \<and> d_max d \<ge> 0 \<and> d_min d > d_max d then d\<lparr>d_max := d_min d\<rparr> else d)
       in emit d (fmtstr q (d_mem d) a (d_flags d) (d_min d) (d_max d))))"
    by (rule rel_run_bind [OF start]) (auto simp: Let_def dsim_def intro!: emit_sim fmtstr_sim)
qed

lemma conv_count_sim:
  assumes "dsim d e"
  shows "rel_run dsim (conv_count p d) (conv_count q e)"
  unfolding conv_count_def
proof (rule va_word_sim [OF assms])
  fix a d e assume de: "dsim d e"
  then show "rel_run dsim
      (if a = 0 then goes_wrong Null_pointer else let n = of_nat (currlen_of p (d_out d)) :: u32 in
         ret (d\<lparr>d_mem := if d_cflags d = DP_C_SHORT then (d_mem d)(a := byte_of n 0, a + 1 := byte_of n 1) else st32 (d_mem d) a n\<rparr>))
      (if a = 0 then goes_wrong Null_pointer else let n = of_nat (currlen_of q (d_out e)) :: u32 in
         ret (e\<lparr>d_mem := if d_cflags e = DP_C_SHORT then (d_mem e)(a := byte_of n 0, a + 1 := byte_of n 1) else st32 (d_mem e) a n\<rparr>))"
    using count_sim [OF dsimD(10) [OF de]] by (simp add: Let_def dsim_def)
qed

lemma va_double_sim:
  "dsim d e \<Longrightarrow> (\<And>a b d e. dsim d e \<Longrightarrow> rel_run S (k a b d) (l a b e)) \<Longrightarrow> rel_run S (va_double d k) (va_double e l)"
  unfolding va_double_def by (rule va_word_sim, assumption, rule va_word_sim, assumption)

lemma convert_ch_sim:
  assumes "dsim d e"
  shows "rel_run dsim (convert_ch fp p d) (convert_ch fp q e)"
proof -
  have same: "rel_run (=) x x" for x :: "u8 list run" by (simp add: option.rel_eq sum.rel_eq)
  have "rel_run dsim
      (va_double d (\<lambda>lo hi d. emit d (\<lambda>s. run_bind (fmtfp fp lo hi (d_min d) (d_max d) (d_flags d)) (\<lambda>cs. run_for cs (printch p) s))))
      (va_double e (\<lambda>lo hi e. emit e (\<lambda>s. run_bind (fmtfp fp lo hi (d_min e) (d_max e) (d_flags e)) (\<lambda>cs. run_for cs (printch q) s))))"
    by (rule va_double_sim [OF assms], rule emit_sim) (auto simp: dsim_def intro!: rel_run_bind [OF same] intro: run_for_sim)
  moreover have "rel_run dsim (va_double d (\<lambda>lo hi d. ret d)) (va_double e (\<lambda>lo hi e. ret e))"
    by (rule va_double_sim [OF assms]) simp
  moreover have "rel_run dsim (va_word d (\<lambda>a d. emit d (printch p (ucast a)))) (va_word e (\<lambda>a e. emit e (printch q (ucast a))))"
    by (rule va_word_sim [OF assms], rule emit_sim) (auto intro: print_sim)
  moreover have "rel_run dsim (emit d (printch p c)) (emit e (printch q c))" for c
    by (rule emit_sim [OF assms]) (rule print_sim)
  ultimately show ?thesis
    unfolding convert_ch_def dsimD(1) [OF assms, symmetric]
    using assms by (simp add: conv_int_sim conv_str_sim conv_count_sim next_ch_sim)
qed

lemma step_sim:
  assumes "dsim d e"
  shows "rel_run dsim (dopr_step fp p d) (dopr_step fp q e)"
proof -
  note [simp] = dsimD [OF assms]
  have "rel_run dsim (step_default p d) (step_default q e)"
    unfolding step_default_def
    by (rule rel_run_bind [where S = dsim])
      (auto intro!: emit_sim [OF assms] print_sim simp: assms [unfolded dsim_def] dsim_def next_ch_def)
  moreover have "dsim (step_flags d) (step_flags e)" "dsim (step_dot d) (step_dot e)" "dsim (step_mod d) (step_mod e)"
    using assms by (simp_all add: step_flags_def step_dot_def step_mod_def Let_def next_ch_def dsim_def)
  moreover have "rel_run dsim (step_min d) (step_min e)" "rel_run dsim (step_max d) (step_max e)"
    using assms by (auto simp: step_min_def step_max_def dsim_def next_ch_def va_word_def split: list.splits)
  moreover have "rel_run dsim (step_conv fp p d) (step_conv fp q e)"
    unfolding step_conv_def
    by (rule rel_run_bind [OF convert_ch_sim [OF assms]]) (simp add: dsim_def next_ch_def)
  moreover have "dsim (d\<lparr>d_state := DP_S_DONE\<rparr>) (e\<lparr>d_state := DP_S_DONE\<rparr>)" using assms by (simp add: dsim_def)
  ultimately show ?thesis using assms by (cases "d_state d") (simp_all add: dopr_step_def)
qed

lemma loop_sim:
  assumes "dopr_loop fp p d = Some r" and "dsim d e"
  shows "\<exists>r'. dopr_loop fp q e = Some r' \<and> rel_sum (=) dsim r r'"
proof -
  let ?P = "\<lambda>fp' p' d r. p' = p \<longrightarrow> fp' = fp \<longrightarrow> (\<forall>e. dsim d e \<longrightarrow>
        (\<exists>r'. dopr_loop fp q e = Some r' \<and> rel_sum (=) dsim r r'))"
  have "?P fp p d r"
  proof (rule dopr_loop.raw_induct [where P = ?P, OF _ assms(1)], intro impI allI)
    fix loop fp' p' d r e
    assume IH: "\<And>fp' p' d r. loop fp' p' d = Some r \<Longrightarrow> ?P fp' p' d r" and eqs: "p' = p" "fp' = fp" and de: "dsim d e"
      and r: "(if d_state d = DP_S_DONE then ret d else run_bind (dopr_step fp' p' d) (loop fp' p')) = Some r"
    then have r: "(if d_state d = DP_S_DONE then ret d else run_bind (dopr_step fp p d) (loop fp p)) = Some r"
      unfolding eqs by blast
    show "\<exists>r'. dopr_loop fp q e = Some r' \<and> rel_sum (=) dsim r r'"
    proof (cases "d_state d = DP_S_DONE")
      case True
      then show ?thesis using r de dsimD(6) [OF de] by (subst dopr_loop.simps) auto
    next
      case False
      then have e: "dopr_loop fp q e = run_bind (dopr_step fp q e) (dopr_loop fp q)"
        using dsimD(6) [OF de] by (subst dopr_loop.simps) simp
      from False r obtain x where x: "dopr_step fp p d = Some x" by (cases "dopr_step fp p d") auto
      with step_sim [OF de, of fp] obtain y where y: "dopr_step fp q e = Some y" "rel_sum (=) dsim x y"
        by (cases "dopr_step fp q e") auto
      show ?thesis
      proof (cases x)
        case (Inl f)
        with x y False r e show ?thesis by (cases y) auto
      next
        case (Inr d')
        with y obtain e' where e': "y = Inr e'" "dsim d' e'" by (cases y) auto
        have "loop fp p d' = Some r" using False r x Inr by simp
        then show ?thesis using IH e e' y(1) by simp
      qed
    qed
  qed
  then show ?thesis using assms(2) by blast
qed

end

section \<open>The text of a format\<close>

text \<open>The printer that collects the characters.\<close>

definition text_printer :: "u8 list printer" where
  "text_printer = \<lparr>printch = (\<lambda>c t. ret (t @ [c])), currlen_of = (\<lambda>t. length t mod 2 ^ 32)\<rparr>"

definition format_text ::
  "fp_ops \<Rightarrow> mem \<Rightarrow> u32 \<Rightarrow> u32 list \<Rightarrow> u8 list dopr run" where
  "format_text fp m fmt args = dopr_loop fp text_printer (dopr_start m fmt args [])"

text \<open>What a buffer of which \<open>maxlen\<close> bytes may be used holds once the text \<open>t\<close> has been printed.\<close>

definition holds_text :: "nat \<Rightarrow> u8 list \<Rightarrow> u8 list \<Rightarrow> out \<Rightarrow> bool" where
  "holds_text maxlen b t s \<longleftrightarrow> maxlen \<le> length b \<and> length (obuf s) = length b \<and> currlen s = length t mod 2 ^ 32 \<and>
     (length t < 2 ^ 32 \<longrightarrow> obuf s = take maxlen t @ drop (length (take maxlen t)) b)"

lemma outch_holds:
  assumes "holds_text maxlen b t s"
  shows "\<exists>s'. dopr_outch maxlen c s = ret s' \<and> holds_text maxlen b (t @ [c]) s'"
proof -
  have h: "maxlen \<le> length b" "length (obuf s) = length b" "currlen s = length t mod 2 ^ 32"
    "length t < 2 ^ 32 \<Longrightarrow> obuf s = take maxlen t @ drop (length (take maxlen t)) b"
    using assms by (auto simp: holds_text_def)
  define s' where "s' = s\<lparr>obuf := if currlen s < maxlen then (obuf s)[currlen s := c] else obuf s, currlen := (currlen s + 1) mod 2 ^ 32\<rparr>"
  have "dopr_outch maxlen c s = ret s'"
    using h(1,2) by (auto simp: dopr_outch_def s'_def)
  moreover have "obuf s' = take maxlen (t @ [c]) @ drop (length (take maxlen (t @ [c]))) b" if "length (t @ [c]) < 2 ^ 32"
  proof -
    have t: "currlen s = length t" "obuf s = take maxlen t @ drop (length (take maxlen t)) b" using h(3,4) that by simp_all
    show ?thesis
    proof (cases "length t < maxlen")
      case True
      then have "drop (length t) b = b ! length t # drop (Suc (length t)) b" using h(1) by (simp add: Cons_nth_drop_Suc)
      with True t show ?thesis by (simp add: s'_def list_update_append)
    next
      case False
      then show ?thesis using t by (simp add: s'_def)
    qed
  qed
  moreover have "currlen s' = length (t @ [c]) mod 2 ^ 32" using h(3) by (simp add: s'_def mod_Suc_eq)
  moreover have "length (obuf s') = length b" using h(2) by (simp add: s'_def)
  ultimately show ?thesis using h(1) by (auto simp: holds_text_def)
qed

interpretation text_to_buffer: printer_sim text_printer "buffer_printer maxlen" "holds_text maxlen b" for maxlen b
proof unfold_locales
  fix t s c assume r: "holds_text maxlen b t s"
  show "rel_run (holds_text maxlen b) (printch text_printer c t) (printch (buffer_printer maxlen) c s)"
    using outch_holds [OF r, of c] by (auto simp: text_printer_def buffer_printer_def)
  show "currlen_of text_printer t = currlen_of (buffer_printer maxlen) s"
    using r by (simp add: text_printer_def buffer_printer_def holds_text_def)
qed

lemma vsnprintf_text:
  assumes "format_text fp m fmt args = ret d" and "length (d_out d) < 2 ^ 32" and "count \<le> length str"
  shows "vsnprintf fp m str count fmt args = ret (length (d_out d),
    if count = 0 then str else (let n = min (length (d_out d)) (count - 1) in take n (d_out d) @ [0] @ drop (n + 1) str), d_mem d)"
proof -
  let ?t = "d_out d"
  have "text_to_buffer.dsim count str (dopr_start m fmt args []) (dopr_start m fmt args \<lparr>obuf = str, currlen = 0\<rparr>)"
    using assms(3) by (simp add: text_to_buffer.dsim_def dopr_start_def holds_text_def)
  then obtain r where "dopr_loop fp (buffer_printer count) (dopr_start m fmt args \<lparr>obuf = str, currlen = 0\<rparr>) = Some r"
    "rel_sum (=) (text_to_buffer.dsim count str) (Inr d) r"
    using text_to_buffer.loop_sim [OF assms(1) [unfolded format_text_def]] by blast
  then obtain e where e: "dopr_loop fp (buffer_printer count) (dopr_start m fmt args \<lparr>obuf = str, currlen = 0\<rparr>) = ret e"
    "text_to_buffer.dsim count str d e" by (cases r) auto
  have h: "holds_text count str ?t (d_out e)" "d_mem e = d_mem d" using text_to_buffer.dsimD(9,10) [OF e(2)] by simp_all
  then have o: "currlen (d_out e) = length ?t" "obuf (d_out e) = take count ?t @ drop (length (take count ?t)) str"
    using assms(2) by (simp_all add: holds_text_def)
  show ?thesis
  proof (cases "count = 0")
    case True
    then show ?thesis using e(1) o h(2) by (simp add: vsnprintf_def terminate_buffer_def)
  next
    case False
    define n where "n = min (length ?t) (count - 1)"
    have n: "n < count" "n \<le> length ?t" "(if length ?t < count - 1 then length ?t else count - 1) = n"
      using False by (auto simp: n_def)
    have "(obuf (d_out e))[n := 0] = take n ?t @ [0] @ drop (n + 1) str"
    proof (rule nth_equalityI)
      show "length ((obuf (d_out e))[n := 0]) = length (take n ?t @ [0] @ drop (n + 1) str)"
        using n assms(3) by (simp add: o(2))
      show "(obuf (d_out e))[n := 0] ! i = (take n ?t @ [0] @ drop (n + 1) str) ! i" if "i < length ((obuf (d_out e))[n := 0])" for i
      proof -
        have i: "i < length str" using that n assms(3) by (simp add: o(2))
        have b: "obuf (d_out e) ! i = (if i < min (length ?t) count then ?t ! i else str ! i)"
          using i by (auto simp: o(2) nth_append min_def)
        consider "i < n" | "i = n" | "n < i" by linarith
        then show ?thesis
        proof cases
          case 1
          then show ?thesis using n b by (simp add: nth_append)
        next
          case 2
          then show ?thesis using n i o(2) assms(3) by (simp add: nth_append)
        next
          case 3
          then have "\<not> i < min (length ?t) count" by (auto simp: n_def)
          with 3 n i b show ?thesis by (auto simp: nth_append nth_Cons')
        qed
      qed
    qed
    moreover have "terminate_buffer count (d_out e) = ret ((d_out e)\<lparr>obuf := (obuf (d_out e))[n := 0]\<rparr>)"
      unfolding terminate_buffer_def Let_def o(1) n(3) using False n(1) assms(3) h(1) by (simp add: holds_text_def)
    ultimately show ?thesis
      unfolding vsnprintf_def e(1) Let_def n_def [symmetric] using False o(1) h(2) by simp
  qed
qed

section \<open>The text of an integer\<close>

lemma text_run_for: "run_for cs (printch text_printer) t = ret (t @ cs)"
  by (induction cs arbitrary: t) (simp_all add: text_printer_def)

lemma text_printch: "printch text_printer c t = ret (t @ [c])"
  by (simp add: text_printer_def)

lemma text_print_times: "print_times text_printer n c t = ret (t @ replicate n c)"
  by (simp add: print_times_def text_run_for)

text \<open>The digits of a number, the last one first.\<close>

fun digits :: "nat \<Rightarrow> nat \<Rightarrow> nat list" where
  "digits b n = (if b \<le> 1 \<or> n < b then [n] else n mod b # digits b (n div b))"

declare digits.simps [simp del]

lemma digits_bound: "1 < b \<Longrightarrow> n < b ^ Suc k \<Longrightarrow> length (digits b n) \<le> Suc k"
proof (induction k arbitrary: n)
  case (Suc k)
  show ?case
  proof (cases "n < b")
    case True
    then show ?thesis by (simp add: digits.simps)
  next
    case False
    have "n div b < b ^ Suc k" using Suc.prems by (simp add: div_less_iff_less_mult mult.commute)
    with Suc False show ?thesis by (subst digits.simps) simp
  qed
qed (simp add: digits.simps)

lemma digits_less: "1 < b \<Longrightarrow> d \<in> set (digits b n) \<Longrightarrow> d < b"
proof (induction b n rule: digits.induct)
  case (1 b n)
  then show ?case by (subst (asm) (2) digits.simps) (auto split: if_splits)
qed

text \<open>\<open>foldr\<close> reads the digits back.\<close>

lemma digits_value: "1 < b \<Longrightarrow> foldr (\<lambda>d r. r * b + d) (digits b n) 0 = n"
proof (induction b n rule: digits.induct)
  case (1 b n)
  then show ?case by (subst digits.simps) auto
qed

lemma convert_loop_digits:
  assumes "1 < unat base" and "length acc + length (digits (unat base) (unat u)) \<le> 20"
  shows "convert_loop caps base u acc = acc @ map (\<lambda>d. digit_char caps (of_nat d)) (digits (unat base) (unat u))"
  using assms
proof (induction "unat u" arbitrary: u acc rule: less_induct)
  case less
  let ?b = "unat base"
  have m: "u mod base = of_nat (unat u mod ?b)" "unat (u div base) = unat u div ?b"
    by (simp_all flip: unat_mod_distrib unat_div_distrib)
  show ?case
  proof (cases "unat u < ?b")
    case True
    then have "u div base = 0" using m(2) by (simp add: unat_eq_zero)
    with True m(1) show ?thesis by (subst convert_loop.simps, subst digits.simps) (simp add: Let_def)
  next
    case False
    then have d: "digits ?b (unat u) = unat u mod ?b # digits ?b (unat u div ?b)"
      using less.prems(1) by (subst digits.simps) simp
    have "0 < unat u div ?b" using False less.prems(1) by (simp add: div_greater_zero_iff)
    then have nz: "u div base \<noteq> 0" using m(2) by auto
    have "digits ?b (unat u div ?b) \<noteq> []" by (subst digits.simps) simp
    then have "Suc (length acc) < 20" using less.prems(2) d by (cases "digits ?b (unat u div ?b)") auto
    moreover have "convert_loop caps base (u div base) (acc @ [digit_char caps (u mod base)]) =
        (acc @ [digit_char caps (u mod base)]) @ map (\<lambda>d. digit_char caps (of_nat d)) (digits ?b (unat (u div base)))"
    proof (rule less.hyps)
      show "unat (u div base) < unat u" unfolding m(2) using False less.prems(1) by (intro div_less_dividend) auto
      show "length (acc @ [digit_char caps (u mod base)]) + length (digits ?b (unat (u div base))) \<le> 20"
        using less.prems(2) d m(2) by simp
    qed (rule less.prems(1))
    ultimately show ?thesis using nz d m by (subst convert_loop.simps) (simp add: Let_def)
  qed
qed

text \<open>The characters of an integer conversion: padding, sign, zeros, digits, padding.\<close>

definition int_digits :: "bool \<Rightarrow> u32 \<Rightarrow> u32 \<Rightarrow> u8 list" where
  "int_digits caps base u = rev (map (\<lambda>d. digit_char caps (of_nat d)) (digits (unat base) (unat u)))"

definition int_text :: "u32 \<Rightarrow> u32 \<Rightarrow> int \<Rightarrow> int \<Rightarrow> u32 \<Rightarrow> u8 list" where
  "int_text v base mn mx fl =
     (let sign = (case int_sign v fl of None \<Rightarrow> [] | Some c \<Rightarrow> [c]);
          ds = int_digits (fl AND DP_F_UP \<noteq> 0) base (if fl AND DP_F_UNSIGNED = 0 \<and> sint v < 0 then - v else v);
          zeros = max 0 (max 0 mx - int (length ds));
          blanks = max 0 (wrap32 (mn - max (max 0 mx) (int (length ds)) - int (length sign)));
          left = (if fl AND DP_F_ZERO \<noteq> 0 \<or> fl AND DP_F_MINUS \<noteq> 0 then 0 else nat blanks);
          zeros = nat (if fl AND DP_F_ZERO \<noteq> 0 then max zeros blanks else zeros);
          right = (if fl AND DP_F_ZERO = 0 \<and> fl AND DP_F_MINUS \<noteq> 0 then nat blanks else 0)
      in replicate left 32 @ sign @ replicate zeros 48 @ ds @ replicate right 32)"

lemma length_digits_word:
  assumes "8 \<le> b"
  shows "length (digits b (unat (u :: u32))) \<le> 11"
proof -
  have "unat u < 2 ^ 32" using unsigned_less [of u] by simp
  also have "\<dots> \<le> (8 :: nat) ^ Suc 10" by simp
  also have "\<dots> \<le> b ^ Suc 10" using assms by (rule power_mono) simp
  finally show ?thesis using digits_bound [of b "unat u" 10] assms by simp
qed

lemma fmtint_text:
  assumes "8 \<le> unat base"
  shows "fmtint text_printer v base mn mx fl t = ret (t @ int_text v base mn mx fl)"
proof -
  let ?u = "if fl AND DP_F_UNSIGNED = 0 \<and> sint v < 0 then - v else v"
  let ?c = "convert_loop (fl AND DP_F_UP \<noteq> 0) base ?u []"
  have len: "length (digits (unat base) (unat ?u)) \<le> 11" by (rule length_digits_word [OF assms])
  have c: "?c = map (\<lambda>d. digit_char (fl AND DP_F_UP \<noteq> 0) (of_nat d)) (digits (unat base) (unat ?u))"
    using convert_loop_digits [of base "[]" ?u] assms len by simp
  then have ds: "int_digits (fl AND DP_F_UP \<noteq> 0) base ?u = rev ?c" "length ?c \<noteq> 20"
    using len by (simp_all only: int_digits_def length_map)
  define cv where "cv = ?c"
  have cv: "length cv \<noteq> 20" using ds(2) unfolding cv_def .
  have m: "(if a \<ge> b then a else b) = max a b" "(if a < 0 then 0 else a) = max 0 a" for a b :: int
    by (auto simp: max_def)
  show ?thesis
    unfolding fmtint_def int_text_def ds(1) Let_def m if_not_P [OF ds(2)] cv_def [symmetric]
    using cv by (cases "fl AND DP_F_ZERO = 0"; cases "fl AND DP_F_MINUS = 0"; cases "int_sign v fl")
      (simp_all add: text_print_times text_run_for text_printch)
qed

text \<open>Running the state machine for a bounded number of rounds; on a concrete format this evaluates.\<close>

fun dopr_rounds ::
  "fp_ops \<Rightarrow> 'p printer \<Rightarrow> nat \<Rightarrow> 'p dopr \<Rightarrow> 'p dopr run" where
  "dopr_rounds fp pr 0 d = ret d"
| "dopr_rounds fp pr (Suc n) d = run_bind (dopr_step fp pr d) (dopr_rounds fp pr n)"

lemma rounds_loop:
  assumes "dopr_rounds fp pr n d = ret d'" and "d_state d' = DP_S_DONE"
  shows "\<exists>d''. dopr_loop fp pr d = ret d'' \<and> d_out d'' = d_out d' \<and> d_mem d'' = d_mem d'"
  using assms(1)
proof (induction n arbitrary: d)
  case 0
  then show ?case using assms(2) by (subst dopr_loop.simps) simp
next
  case (Suc n)
  show ?case
  proof (cases "d_state d = DP_S_DONE")
    case True
    have "dopr_rounds fp pr k d = ret e \<Longrightarrow> d_out e = d_out d \<and> d_mem e = d_mem d" if "d_state d = DP_S_DONE" for k d e
      using that
    proof (induction k arbitrary: d)
      case (Suc k)
      have "dopr_step fp pr d = ret (d\<lparr>d_state := DP_S_DONE\<rparr>)" using Suc.prems(2) by (simp add: dopr_step_def)
      then show ?case using Suc by simp
    qed simp
    from this [OF True Suc.prems] show ?thesis using True by (subst dopr_loop.simps) simp
  next
    case False
    from Suc.prems obtain e where e: "dopr_step fp pr d = ret e" "dopr_rounds fp pr n e = ret d'"
      by (auto simp: run_bind_ret_iff)
    from Suc.IH [OF e(2)] False e(1) show ?thesis by (subst dopr_loop.simps) simp
  qed
qed

lemma step_DEFAULT_percent: "d_state d = DP_S_DEFAULT \<Longrightarrow> d_ch d = 37 \<Longrightarrow> dopr_step fp pr d = ret (next_ch (d\<lparr>d_state := DP_S_FLAGS\<rparr>))"
  by (simp add: dopr_step_def step_default_def)

lemma step_DEFAULT_text: "d_state d = DP_S_DEFAULT \<Longrightarrow> d_ch d \<noteq> 37 \<Longrightarrow> d_ch d \<noteq> 0 \<Longrightarrow>
    dopr_step fp text_printer d = ret (next_ch (d\<lparr>d_out := d_out d @ [d_ch d]\<rparr>))"
  by (simp add: dopr_step_def step_default_def emit_def text_printer_def)

lemma step_FLAGS: "d_state d = DP_S_FLAGS \<Longrightarrow> d_ch d \<noteq> 0 \<Longrightarrow> dopr_step fp pr d = ret (step_flags d)"
  by (simp add: dopr_step_def)

lemma step_MIN: "d_state d = DP_S_MIN \<Longrightarrow> d_ch d \<noteq> 0 \<Longrightarrow> dopr_step fp pr d = step_min d"
  by (simp add: dopr_step_def)

lemma step_DOT: "d_state d = DP_S_DOT \<Longrightarrow> d_ch d \<noteq> 0 \<Longrightarrow> dopr_step fp pr d = ret (step_dot d)"
  by (simp add: dopr_step_def)

lemma step_MOD: "d_state d = DP_S_MOD \<Longrightarrow> d_ch d \<noteq> 0 \<Longrightarrow> dopr_step fp pr d = ret (step_mod d)"
  by (simp add: dopr_step_def)

lemma step_CONV: "d_state d = DP_S_CONV \<Longrightarrow> d_ch d \<noteq> 0 \<Longrightarrow> dopr_step fp pr d = step_conv fp pr d"
  by (simp add: dopr_step_def)

lemma step_END: "d_ch d = 0 \<Longrightarrow> dopr_step fp pr d = ret (d\<lparr>d_state := DP_S_DONE\<rparr>)"
  by (simp add: dopr_step_def)

lemmas dopr_eval = step_DEFAULT_percent step_FLAGS step_MIN step_DOT step_MOD step_CONV step_END
  dopr_start_def next_ch_def step_flags_def step_min_def step_dot_def step_mod_def isdigit_def Let_def
  step_conv_def convert_ch_def conv_int_def va_word_def emit_def fmtint_text

text \<open>The formats \<open>%d\<close>, \<open>%u\<close> and \<open>%p\<close>, and the \<open>%08X\<close> with which the kernel prints addresses.\<close>

lemma text_percent:
  assumes "cstring m fmt [37, c]" and "c = 100 \<or> c = 117 \<or> c = 112"
  shows "\<exists>d. format_text fp m fmt (v # args) = ret d \<and>
    d_out d = int_text v (if c = 112 then 16 else 10) 0 (-1) (if c = 117 then DP_F_UNSIGNED else 0) \<and> d_mem d = m"
proof -
  have m: "m fmt = 37" "m (1 + fmt) = c" "m (2 + fmt) = 0"
    using cstring_nth [OF assms(1), of 0] cstring_nth [OF assms(1), of 1] cstring_nth [OF assms(1), of 2]
    by (simp_all add: add.commute)
  have "\<exists>d. dopr_rounds fp text_printer (Suc (Suc (Suc (Suc (Suc (Suc (Suc 0))))))) (dopr_start m fmt (v # args) []) = ret d \<and>
    d_state d = DP_S_DONE \<and> d_out d = int_text v (if c = 112 then 16 else 10) 0 (-1) (if c = 117 then DP_F_UNSIGNED else 0) \<and> d_mem d = m"
    using assms(2) m by (elim disjE) (simp_all add: dopr_eval add.commute [of fmt])
  then show ?thesis unfolding format_text_def using rounds_loop by metis
qed

lemma text_percent_08X:
  assumes "cstring m fmt [37, 48, 56, 88]"
  shows "\<exists>d. format_text fp m fmt (v # args) = ret d \<and>
    d_out d = int_text v 16 8 (-1) (DP_F_ZERO OR (DP_F_UP OR DP_F_UNSIGNED)) \<and> d_mem d = m"
proof -
  have m: "m fmt = 37" "m (1 + fmt) = 48" "m (2 + fmt) = 56" "m (3 + fmt) = 88" "m (4 + fmt) = 0"
    using cstring_nth [OF assms(1), of 0] cstring_nth [OF assms(1), of 1] cstring_nth [OF assms(1), of 2]
      cstring_nth [OF assms(1), of 3] cstring_nth [OF assms(1), of 4]
    by (simp_all add: add.commute)
  have "\<exists>d. dopr_rounds fp text_printer (Suc (Suc (Suc (Suc (Suc (Suc (Suc (Suc (Suc 0))))))))) (dopr_start m fmt (v # args) []) = ret d \<and>
    d_state d = DP_S_DONE \<and> d_out d = int_text v 16 8 (-1) (DP_F_ZERO OR (DP_F_UP OR DP_F_UNSIGNED)) \<and> d_mem d = m"
    using m by (simp add: dopr_eval add.commute [of fmt] char_to_int_def wrap32_def)
  then show ?thesis unfolding format_text_def using rounds_loop by metis
qed

lemma text_w_percent_d:
  assumes "cstring m fmt [119, 37, 100]"
  shows "\<exists>d. format_text fp m fmt (v # args) = ret d \<and> d_out d = 119 # int_text v 10 0 (-1) 0 \<and> d_mem d = m"
proof -
  have m: "m fmt = 119" "m (1 + fmt) = 37" "m (2 + fmt) = 100" "m (3 + fmt) = 0"
    using cstring_nth [OF assms(1), of 0] cstring_nth [OF assms(1), of 1] cstring_nth [OF assms(1), of 2] cstring_nth [OF assms(1), of 3]
    by (simp_all add: add.commute)
  have "\<exists>d. dopr_rounds fp text_printer (Suc (Suc (Suc (Suc (Suc (Suc (Suc (Suc 0)))))))) (dopr_start m fmt (v # args) []) = ret d \<and>
    d_state d = DP_S_DONE \<and> d_out d = 119 # int_text v 10 0 (-1) 0 \<and> d_mem d = m"
    using m by (simp add: dopr_eval step_DEFAULT_text add.commute [of fmt])
  then show ?thesis unfolding format_text_def using rounds_loop by metis
qed

section \<open>Reading the text back\<close>

lemma digit_char_decimal:
  assumes "d < 10"
  shows "scast (digit_char caps (of_nat d)) - 48 = (of_nat d :: u32)" and "digit_char caps (of_nat d) \<noteq> 45"
    and "digit_char caps (of_nat d) \<noteq> 0"
proof -
  have "d = 0 \<or> d = 1 \<or> d = 2 \<or> d = 3 \<or> d = 4 \<or> d = 5 \<or> d = 6 \<or> d = 7 \<or> d = 8 \<or> d = 9" using assms by auto
  then show "scast (digit_char caps (of_nat d)) - 48 = (of_nat d :: u32)" "digit_char caps (of_nat d) \<noteq> 45"
    "digit_char caps (of_nat d) \<noteq> 0"
    by (elim disjE; simp add: digit_char_def)+
qed

lemma foldr_decimal:
  assumes "\<forall>d \<in> set ds. d < 10"
  shows "foldr (\<lambda>d res. res * 10 + (scast (digit_char caps (of_nat d)) - 48)) ds 0 = (of_nat (foldr (\<lambda>d r. r * 10 + d) ds 0) :: u32)"
  using assms
proof (induction ds)
  case (Cons d ds)
  then have "scast (digit_char caps (of_nat d)) - 48 = (of_nat d :: u32)" by (intro digit_char_decimal(1)) simp
  with Cons show ?case by (simp del: of_nat_add add: of_nat_add [symmetric]) simp
qed simp

lemma decimal_digits: "decimal 0 (int_digits caps 10 u) = u"
proof -
  have "decimal 0 (int_digits caps 10 u) =
      foldr (\<lambda>d res. res * 10 + (scast (digit_char caps (of_nat d)) - 48)) (digits 10 (unat u)) 0"
    by (simp add: decimal_def int_digits_def foldl_conv_foldr rev_map foldr_map comp_def add_diff_eq)
  also have "\<dots> = of_nat (foldr (\<lambda>d r. r * 10 + d) (digits 10 (unat u)) 0)"
    using digits_less [of 10] by (intro foldr_decimal) simp
  also have "\<dots> = u" using digits_value [of 10 "unat u"] by simp
  finally show ?thesis .
qed

lemma int_digits_not_nil: "int_digits caps base u \<noteq> []"
  by (subst int_digits_def, subst digits.simps) simp

lemma int_digits_chars:
  assumes "c \<in> set (int_digits caps 10 u)"
  shows "c \<noteq> 45" and "c \<noteq> 0"
proof -
  from assms obtain d where "c = digit_char caps (of_nat d)" "d \<in> set (digits 10 (unat u))" by (auto simp: int_digits_def)
  then show "c \<noteq> 45" "c \<noteq> 0" using digit_char_decimal [of d caps] digits_less [of 10 d] by auto
qed

lemma length_int_digits: "8 \<le> unat base \<Longrightarrow> length (int_digits caps base u) \<le> 11"
  using length_digits_word [of "unat base" u] by (simp add: int_digits_def)

lemma wrap32_small: "- (2 ^ 31) \<le> i \<Longrightarrow> i < 2 ^ 31 \<Longrightarrow> wrap32 i = i"
  by (simp add: wrap32_def sint_sbintrunc' signed_take_bit_int_eq_self)

lemma int_text_plain:
  assumes "8 \<le> unat base"
  shows "int_text v base 0 (-1) 0 = (if sint v < 0 then 45 # int_digits False base (- v) else int_digits False base v)"
proof -
  have "wrap32 (- int k) \<le> 0" "wrap32 (- int k - 1) \<le> 0" if "k \<le> 11" for k
    using that wrap32_small [of "- int k"] wrap32_small [of "- int k - 1"] by simp_all
  moreover have "length (int_digits False base u) \<le> 11" for u using assms by (rule length_int_digits)
  ultimately have "wrap32 (- int (length (int_digits False base u))) \<le> 0" "wrap32 (- int (length (int_digits False base u)) - 1) \<le> 0" for u
    by blast+
  then show ?thesis by (simp add: int_text_def Let_def int_sign_def max_def)
qed

text \<open>The value of upper-case hexadecimal digits.\<close>

definition hex_value :: "u8 list \<Rightarrow> nat" where
  "hex_value = foldl (\<lambda>r c. r * 16 + (if c < 58 then unat c - 48 else unat c - 55)) 0"

lemma digit_char_hex:
  assumes "d < 16"
  shows "(if digit_char True (of_nat d) < 58 then unat (digit_char True (of_nat d)) - 48 else unat (digit_char True (of_nat d)) - 55) = d"
proof -
  have "d = 0 \<or> d = 1 \<or> d = 2 \<or> d = 3 \<or> d = 4 \<or> d = 5 \<or> d = 6 \<or> d = 7 \<or> d = 8 \<or> d = 9 \<or> d = 10 \<or> d = 11 \<or> d = 12 \<or>
    d = 13 \<or> d = 14 \<or> d = 15" using assms by presburger
  then show ?thesis by (elim disjE; simp add: digit_char_def)
qed

lemma foldr_hex:
  assumes "\<forall>d \<in> set ds. d < 16"
  shows "foldr (\<lambda>d r. r * 16 + (if digit_char True (of_nat d) < 58 then unat (digit_char True (of_nat d)) - 48
      else unat (digit_char True (of_nat d)) - 55)) ds 0 = foldr (\<lambda>d r. r * 16 + d) ds 0"
  using assms
proof (induction ds)
  case (Cons d ds)
  then show ?case using digit_char_hex [of d] by (simp split del: if_split)
qed simp

lemma hex_digits: "hex_value (replicate n 48 @ int_digits True 16 u) = unat u"
proof -
  have zeros: "foldl (\<lambda>r c. r * 16 + (if c < 58 then unat c - 48 else unat c - 55)) 0 (replicate n (48 :: u8)) = (0 :: nat)"
    by (induction n) (simp_all add: replicate_append_same [symmetric] del: replicate_append_same)
  have "hex_value (replicate n 48 @ int_digits True 16 u) = foldr (\<lambda>d r. r * 16 + (if digit_char True (of_nat d) < 58
      then unat (digit_char True (of_nat d)) - 48 else unat (digit_char True (of_nat d)) - 55)) (digits 16 (unat u)) 0"
    unfolding hex_value_def foldl_append zeros
    by (simp add: int_digits_def foldl_conv_foldr rev_map foldr_map comp_def)
  also have "\<dots> = foldr (\<lambda>d r. r * 16 + d) (digits 16 (unat u)) 0" using digits_less [of 16] by (intro foldr_hex) simp
  also have "\<dots> = unat u" by (rule digits_value) simp
  finally show ?thesis .
qed

lemma int_text_08X:
  "\<exists>n. int_text v 16 8 (-1) (DP_F_ZERO OR (DP_F_UP OR DP_F_UNSIGNED)) = replicate n 48 @ int_digits True 16 v \<and>
    n + length (int_digits True 16 v) = 8"
proof -
  let ?f = "DP_F_ZERO OR (DP_F_UP OR DP_F_UNSIGNED)" and ?n = "length (int_digits True 16 v)"
  have f: "?f AND DP_F_ZERO \<noteq> 0" "?f AND DP_F_UP \<noteq> 0" "?f AND DP_F_UNSIGNED \<noteq> 0"
    by (simp_all add: DP_F_ZERO_def DP_F_UP_def DP_F_UNSIGNED_def)
  have "unat v < 16 ^ Suc 7" using unsigned_less [of v] by simp
  then have n: "?n \<le> 8" using digits_bound [of 16 "unat v" 7] by (simp add: int_digits_def)
  have "?n \<noteq> 0" using int_digits_not_nil by simp
  then have w: "wrap32 (8 - int ?n) = 8 - int ?n" using n by (intro wrap32_small) auto
  have "int_text v 16 8 (-1) ?f = replicate (nat (8 - int ?n)) 48 @ int_digits True 16 v"
    using f n w by (simp add: int_text_def Let_def int_sign_def max_def)
  then show ?thesis using n by (intro exI [of _ "nat (8 - int ?n)"]) auto
qed

section \<open>Every run ends\<close>

text \<open>
  The reader stands at character \<open>k\<close> of a format \<open>bs\<close> in unchanged memory. Every round reads on,
  ends, or moves to a later state; the modifiers and the conversions are the places where several
  characters are read.
\<close>

definition reads_at :: "mem \<Rightarrow> u32 \<Rightarrow> u8 list \<Rightarrow> nat \<Rightarrow> 'p dopr \<Rightarrow> bool" where
  "reads_at m fmt bs k d \<longleftrightarrow> k \<le> length bs \<and> d_mem d = m \<and> d_format d = fmt + of_nat (Suc k) \<and>
     d_ch d = (if k < length bs then bs ! k else 0)"

text \<open>The conversion characters of a format, in the order in which they stand: behind each \<open>%\<close> come flags, a width, a
  precision and a size modifier, all of which may be missing, and then the character that selects the conversion.\<close>

definition is_flag :: "u8 \<Rightarrow> bool" where
  "is_flag c \<longleftrightarrow> c \<in> {45, 43, 32, 35, 48}"

definition skip_number :: "u8 list \<Rightarrow> u8 list" where
  "skip_number cs = (case dropWhile isdigit cs of [] \<Rightarrow> [] | c # rs \<Rightarrow> if c = 42 then rs else c # rs)"

definition skip_precision :: "u8 list \<Rightarrow> u8 list" where
  "skip_precision cs = (case cs of [] \<Rightarrow> [] | c # rs \<Rightarrow> if c = 46 then skip_number rs else c # rs)"

definition skip_modifier :: "u8 list \<Rightarrow> u8 list" where
  "skip_modifier cs = (case cs of [] \<Rightarrow> []
     | c # rs \<Rightarrow> if c = 104 \<or> c = 76 then rs
        else if c = 108 then (case rs of [] \<Rightarrow> [] | c' # rs' \<Rightarrow> if c' = 108 then rs' else rs)
        else c # rs)"

lemma skip_length:
  "length (skip_number cs) \<le> length cs" "length (skip_precision cs) \<le> length cs" "length (skip_modifier cs) \<le> length cs"
proof -
  have num: "length (skip_number cs) \<le> length cs" for cs
    using length_dropWhile_le [of isdigit cs] by (auto simp: skip_number_def split: list.splits)
  show "length (skip_number cs) \<le> length cs" by (rule num)
  show "length (skip_precision cs) \<le> length cs" using num [of "tl cs"] by (auto simp: skip_precision_def split: list.splits)
  show "length (skip_modifier cs) \<le> length cs" by (auto simp: skip_modifier_def split: list.splits)
qed

lemma skip_all_length: "length (skip_modifier (skip_precision (skip_number (dropWhile is_flag cs)))) \<le> length cs"
  using skip_length(3) [of "skip_precision (skip_number (dropWhile is_flag cs))"] skip_length(2) [of "skip_number (dropWhile is_flag cs)"]
    skip_length(1) [of "dropWhile is_flag cs"] length_dropWhile_le [of is_flag cs] by linarith

function conversions :: "u8 list \<Rightarrow> u8 list" where
  "conversions cs = (case cs of [] \<Rightarrow> []
     | c # rs \<Rightarrow> if c = 37
         then (case skip_modifier (skip_precision (skip_number (dropWhile is_flag rs))) of [] \<Rightarrow> [] | c' # rs' \<Rightarrow> c' # conversions rs')
         else conversions rs)"
  by pat_completeness auto
termination
proof (relation "measure length")
  fix cs c rs c' rs' assume "cs = c # rs" "skip_modifier (skip_precision (skip_number (dropWhile is_flag rs))) = c' # (rs' :: u8 list)"
  then show "(rs', cs) \<in> measure length" using skip_all_length [of rs] by simp
qed simp_all

declare conversions.simps [simp del]

fun dp_rank :: "dp_state \<Rightarrow> nat" where
  "dp_rank DP_S_DEFAULT = 7" | "dp_rank DP_S_FLAGS = 6" | "dp_rank DP_S_MIN = 5" | "dp_rank DP_S_DOT = 4"
| "dp_rank DP_S_MAX = 3" | "dp_rank DP_S_MOD = 2" | "dp_rank DP_S_CONV = 1" | "dp_rank DP_S_DONE = 0"

text \<open>A result of a round is fine when it went wrong for want of an argument or for a null pointer, or stands further on.\<close>

definition fine :: "mem \<Rightarrow> u32 \<Rightarrow> u8 list \<Rightarrow> (nat \<Rightarrow> 'p dopr \<Rightarrow> bool) \<Rightarrow> 'p dopr run \<Rightarrow> bool" where
  "fine m fmt bs P r \<longleftrightarrow> (case r of None \<Rightarrow> False | Some (Inl f) \<Rightarrow> f = Bad_argument \<or> f = Null_pointer
     | Some (Inr d) \<Rightarrow> \<exists>k. reads_at m fmt bs k d \<and> P k d)"

lemma reads_next:
  assumes "cstring m fmt bs" and "reads_at m fmt bs k d" and "k < length bs"
  shows "reads_at m fmt bs (Suc k) (next_ch d)"
  using assms cstring_nth [OF assms(1), of "Suc k"] by (auto simp: reads_at_def next_ch_def)

lemma reads_fields:
  "reads_at m fmt bs k (d\<lparr>d_state := st\<rparr>) = reads_at m fmt bs k d" "reads_at m fmt bs k (d\<lparr>d_flags := fl\<rparr>) = reads_at m fmt bs k d"
  "reads_at m fmt bs k (d\<lparr>d_cflags := cf\<rparr>) = reads_at m fmt bs k d" "reads_at m fmt bs k (d\<lparr>d_min := mn\<rparr>) = reads_at m fmt bs k d"
  "reads_at m fmt bs k (d\<lparr>d_max := mx\<rparr>) = reads_at m fmt bs k d" "reads_at m fmt bs k (d\<lparr>d_args := as\<rparr>) = reads_at m fmt bs k d"
  "reads_at m fmt bs k (d\<lparr>d_out := s\<rparr>) = reads_at m fmt bs k d"
  by (simp_all add: reads_at_def)

lemma reads_next_fields:
  "next_ch (d\<lparr>d_state := st\<rparr>) = (next_ch d)\<lparr>d_state := st\<rparr>" "next_ch (d\<lparr>d_flags := fl\<rparr>) = (next_ch d)\<lparr>d_flags := fl\<rparr>"
  "next_ch (d\<lparr>d_cflags := cf\<rparr>) = (next_ch d)\<lparr>d_cflags := cf\<rparr>" "next_ch (d\<lparr>d_min := mn\<rparr>) = (next_ch d)\<lparr>d_min := mn\<rparr>"
  "next_ch (d\<lparr>d_max := mx\<rparr>) = (next_ch d)\<lparr>d_max := mx\<rparr>" "next_ch (d\<lparr>d_args := as\<rparr>) = (next_ch d)\<lparr>d_args := as\<rparr>"
  "next_ch (d\<lparr>d_out := s\<rparr>) = (next_ch d)\<lparr>d_out := s\<rparr>" "d_state (next_ch d) = d_state d"
  by (simp_all add: next_ch_def)

lemma fine_bind:
  assumes "fine m fmt bs P r" and "\<And>k d. reads_at m fmt bs k d \<Longrightarrow> P k d \<Longrightarrow> fine m fmt bs Q (f d)"
  shows "fine m fmt bs Q (run_bind r f)"
proof (cases "\<exists>d. r = ret d")
  case True
  then obtain d where "r = ret d" by blast
  then show ?thesis using assms by (auto simp: fine_def [of _ _ _ P])
next
  case False
  then show ?thesis using assms(1) by (auto simp: fine_def split: option.splits sum.splits)
qed

lemma fine_ret: "reads_at m fmt bs k d \<Longrightarrow> P k d \<Longrightarrow> fine m fmt bs P (ret d)"
  by (auto simp: fine_def)

lemma fine_va_word:
  assumes "reads_at m fmt bs k d" and "\<And>a as. fine m fmt bs P (f a (d\<lparr>d_args := as\<rparr>))"
  shows "fine m fmt bs P (va_word d f)"
  using assms by (cases "d_args d") (auto simp: va_word_def fine_def)

text \<open>With the collecting printer the printing routines return.\<close>

lemma text_pad_left: "\<exists>r. pad_left_loop text_printer padlen cnt mx t = ret r"
proof (induction "nat padlen" arbitrary: padlen cnt t rule: less_induct)
  case less
  show ?case
  proof (cases "padlen > 0 \<and> cnt < mx")
    case True
    then have "\<exists>r. pad_left_loop text_printer (padlen - 1) (cnt + 1) mx (t @ [32]) = ret r" by (intro less.hyps) simp
    with True show ?thesis by (subst pad_left_loop.simps) (simp add: text_printch)
  next
    case False
    then show ?thesis by (subst pad_left_loop.simps) auto
  qed
qed

lemma text_copy: "\<exists>r. copy_loop text_printer val i cnt mx t = ret r"
proof (induction "nat (mx - cnt)" arbitrary: i cnt t rule: less_induct)
  case less
  show ?case
  proof (cases "val i \<noteq> 0 \<and> cnt < mx")
    case True
    then have "\<exists>r. copy_loop text_printer val (i + 1) (cnt + 1) mx (t @ [val i]) = ret r" by (intro less.hyps) simp
    with True show ?thesis by (subst copy_loop.simps) (simp add: text_printch)
  next
    case False
    then show ?thesis by (subst copy_loop.simps) auto
  qed
qed

lemma text_pad_right: "\<exists>r. pad_right_loop text_printer padlen cnt mx t = ret r"
proof (induction "nat (- padlen)" arbitrary: padlen cnt t rule: less_induct)
  case less
  show ?case
  proof (cases "padlen < 0 \<and> cnt < mx")
    case True
    then have "\<exists>r. pad_right_loop text_printer (padlen + 1) (cnt + 1) mx (t @ [32]) = ret r" by (intro less.hyps) simp
    with True show ?thesis by (subst pad_right_loop.simps) (simp add: text_printch)
  next
    case False
    then show ?thesis by (subst pad_right_loop.simps) auto
  qed
qed

lemma text_fmtstr:
  assumes "m z = 0"
  shows "\<exists>r. fmtstr text_printer m ptr fl mn mx t = ret r"
proof -
  obtain len where len: "(if ptr = 0 then Some (of_nat (length null_text)) else strlen m ptr) = Some len"
    using strlen_returns [of m z ptr] assms by (cases "ptr = 0") auto
  define val where "val = (if ptr = 0 then (\<lambda>i. if i < length null_text then null_text ! i else 0) else (\<lambda>i. m (ptr + of_nat i)))"
  have "\<exists>r. run_bind (pad_left_loop text_printer p 0 mx t) (\<lambda>(padlen, cnt, s). run_bind (copy_loop text_printer val 0 cnt mx s)
      (\<lambda>(cnt, s). pad_right_loop text_printer padlen cnt mx s)) = ret r" for p
  proof -
    obtain a b c where 1: "pad_left_loop text_printer p 0 mx t = ret (a, b, c)"
      using text_pad_left [of p 0 mx t] by (metis prod_cases3)
    obtain d e where 2: "copy_loop text_printer val 0 b mx c = ret (d, e)" using text_copy [of val 0 b mx c] by (metis surj_pair)
    show ?thesis using text_pad_right [of a d mx e] by (simp add: 1 2)
  qed
  then show ?thesis unfolding fmtstr_def len Let_def val_def option.case .
qed

lemma fine_emit_state:
  assumes "reads_at m fmt bs k d" and "\<exists>s. f (d_out d) = ret s"
  shows "fine m fmt bs (\<lambda>k' d'. k' = k \<and> d_state d' = d_state d) (emit d f)"
  using assms by (auto simp: emit_def fine_def reads_fields)

lemma fine_emit:
  assumes "reads_at m fmt bs k d" and "\<exists>s. f (d_out d) = ret s"
  shows "fine m fmt bs (\<lambda>k' d'. k' = k) (emit d f)"
  using assms by (auto simp: emit_def fine_def reads_fields)

lemma convert_fine:
  assumes z: "m z = 0" and r: "reads_at m fmt bs k d" and ch: "d_ch d \<noteq> 102" "d_ch d \<noteq> 110" "d_ch d \<noteq> 119"
  shows "fine m fmt bs (\<lambda>k' d'. k' = k) (convert_ch fp text_printer d)"
proof -
  let ?F = "fine m fmt bs (\<lambda>k' d'. k' = k)"
  have int: "?F (conv_int text_printer base fl d)" if "8 \<le> unat base" for base fl
    unfolding conv_int_def using r that
    by (intro fine_va_word [where k = k] fine_emit) (auto simp: reads_fields fmtint_text)
  have double: "?F (va_double d f)" if "\<And>lo hi as. ?F (f lo hi (d\<lparr>d_args := as\<rparr>))" for f
    unfolding va_double_def using r that by (intro fine_va_word [where k = k]) (auto simp: reads_fields)
  have skip: "?F (va_double d (\<lambda>lo hi d. ret d))" using r by (intro double fine_ret) (auto simp: reads_fields)
  have chr: "?F (va_word d (\<lambda>a d. emit d (printch text_printer (ucast a))))"
    using r by (intro fine_va_word [where k = k] fine_emit) (auto simp: reads_fields text_printch)
  have str: "?F (conv_str text_printer d)"
    unfolding conv_str_def
  proof (rule fine_va_word [OF r])
    fix a as
    let ?d = "d\<lparr>d_args := as\<rparr>"
    have "d_mem d = m" using r by (simp add: reads_at_def)
    then have "?F (if d_max ?d = -1 then if a = 0 then goes_wrong Null_pointer
         else case strlen (d_mem ?d) a of None \<Rightarrow> None | Some n \<Rightarrow> ret (?d\<lparr>d_max := sint n\<rparr>) else ret ?d)"
      using r strlen_returns [of m z a] z by (auto simp: fine_def reads_fields)
    then show "?F (run_bind (if d_max ?d = -1 then if a = 0 then goes_wrong Null_pointer
         else case strlen (d_mem ?d) a of None \<Rightarrow> None | Some n \<Rightarrow> ret (?d\<lparr>d_max := sint n\<rparr>) else ret ?d) (\<lambda>d.
       let d = (if d_min d > 0 \<and> d_max d \<ge> 0 \<and> d_min d > d_max d then d\<lparr>d_max := d_min d\<rparr> else d)
       in emit d (fmtstr text_printer (d_mem d) a (d_flags d) (d_min d) (d_max d))))"
    proof (rule fine_bind)
      fix k' and d' :: "u8 list dopr" assume r': "reads_at m fmt bs k' d'" and "k' = k"
      let ?e = "if d_min d' > 0 \<and> d_max d' \<ge> 0 \<and> d_min d' > d_max d' then d'\<lparr>d_max := d_min d'\<rparr> else d'"
      have e: "reads_at m fmt bs k ?e" using r' \<open>k' = k\<close> by (simp add: reads_fields)
      then have "d_mem ?e = m" by (simp only: reads_at_def)
      then have "\<exists>s. fmtstr text_printer (d_mem ?e) a (d_flags ?e) (d_min ?e) (d_max ?e) (d_out ?e) = ret s"
        using text_fmtstr [of m z] z by metis
      with e show "?F (let d = ?e in emit d (fmtstr text_printer (d_mem d) a (d_flags d) (d_min d) (d_max d)))"
        unfolding Let_def by (rule fine_emit)
    qed
  qed
  have percent: "?F (emit d (printch text_printer c))" for c using r by (intro fine_emit) (auto simp: text_printch)
  have nop: "?F (ret d)" using r by (intro fine_ret) auto
  show ?thesis
    unfolding convert_ch_def using int skip chr str percent nop ch by simp
qed

text \<open>The conversions that are left when the reader stands in a state before the characters \<open>rs\<close>.\<close>

definition conversion_here :: "u8 list \<Rightarrow> u8 list" where
  "conversion_here rs = (case rs of [] \<Rightarrow> [] | c # rs \<Rightarrow> c # conversions rs)"

fun conversions_left :: "dp_state \<Rightarrow> u8 list \<Rightarrow> u8 list" where
  "conversions_left DP_S_DEFAULT rs = conversions rs"
| "conversions_left DP_S_FLAGS rs = conversion_here (skip_modifier (skip_precision (skip_number (dropWhile is_flag rs))))"
| "conversions_left DP_S_MIN rs = conversion_here (skip_modifier (skip_precision (skip_number rs)))"
| "conversions_left DP_S_DOT rs = conversion_here (skip_modifier (skip_precision rs))"
| "conversions_left DP_S_MAX rs = conversion_here (skip_modifier (skip_number rs))"
| "conversions_left DP_S_MOD rs = conversion_here (skip_modifier rs)"
| "conversions_left DP_S_CONV rs = conversion_here rs"
| "conversions_left DP_S_DONE rs = []"

definition plain_conversions :: "dp_state \<Rightarrow> u8 list \<Rightarrow> bool" where
  "plain_conversions st rs \<longleftrightarrow> set (conversions_left st rs) \<inter> {102, 110, 119} = {}"

lemma plain_default:
  "plain_conversions DP_S_DEFAULT (37 # rs) = plain_conversions DP_S_FLAGS rs"
  "c \<noteq> 37 \<Longrightarrow> plain_conversions DP_S_DEFAULT (c # rs) = plain_conversions DP_S_DEFAULT rs"
  by (simp_all add: plain_conversions_def conversions.simps [of "_ # _"] conversion_here_def)

lemma plain_flags:
  "is_flag c \<Longrightarrow> plain_conversions DP_S_FLAGS (c # rs) = plain_conversions DP_S_FLAGS rs"
  "\<not> is_flag c \<Longrightarrow> plain_conversions DP_S_FLAGS (c # rs) = plain_conversions DP_S_MIN (c # rs)"
  by (simp_all add: plain_conversions_def)

lemma plain_number:
  "isdigit c \<Longrightarrow> plain_conversions DP_S_MIN (c # rs) = plain_conversions DP_S_MIN rs"
  "plain_conversions DP_S_MIN (42 # rs) = plain_conversions DP_S_DOT rs"
  "\<not> isdigit c \<Longrightarrow> c \<noteq> 42 \<Longrightarrow> plain_conversions DP_S_MIN (c # rs) = plain_conversions DP_S_DOT (c # rs)"
  "isdigit c \<Longrightarrow> plain_conversions DP_S_MAX (c # rs) = plain_conversions DP_S_MAX rs"
  "plain_conversions DP_S_MAX (42 # rs) = plain_conversions DP_S_MOD rs"
  "\<not> isdigit c \<Longrightarrow> c \<noteq> 42 \<Longrightarrow> plain_conversions DP_S_MAX (c # rs) = plain_conversions DP_S_MOD (c # rs)"
  by (simp_all add: plain_conversions_def skip_number_def isdigit_def)

lemma plain_dot:
  "plain_conversions DP_S_DOT (46 # rs) = plain_conversions DP_S_MAX rs"
  "c \<noteq> 46 \<Longrightarrow> plain_conversions DP_S_DOT (c # rs) = plain_conversions DP_S_MOD (c # rs)"
  by (simp_all add: plain_conversions_def skip_precision_def)

lemma plain_mod:
  "c = 104 \<or> c = 76 \<Longrightarrow> plain_conversions DP_S_MOD (c # rs) = plain_conversions DP_S_CONV rs"
  "plain_conversions DP_S_MOD (108 # 108 # rs) = plain_conversions DP_S_CONV rs"
  "rs = [] \<or> hd rs \<noteq> 108 \<Longrightarrow> plain_conversions DP_S_MOD (108 # rs) = plain_conversions DP_S_CONV rs"
  "c \<noteq> 104 \<Longrightarrow> c \<noteq> 76 \<Longrightarrow> c \<noteq> 108 \<Longrightarrow> plain_conversions DP_S_MOD (c # rs) = plain_conversions DP_S_CONV (c # rs)"
  by (cases rs; auto simp: plain_conversions_def skip_modifier_def)+

lemma plain_conv:
  "plain_conversions DP_S_CONV (c # rs) \<longleftrightarrow> c \<notin> {102, 110, 119} \<and> plain_conversions DP_S_DEFAULT rs"
  by (auto simp: plain_conversions_def conversion_here_def)

lemma step_fine:
  assumes c: "cstring m fmt bs" and w: "plain_conversions (d_state d) (drop k bs)" and r: "reads_at m fmt bs k d" and st: "d_state d \<noteq> DP_S_DONE"
  shows "fine m fmt bs (\<lambda>k' d'. (length bs - k') * 8 + dp_rank (d_state d') < (length bs - k) * 8 + dp_rank (d_state d) \<and>
      plain_conversions (d_state d') (drop k' bs))
    (dopr_step fp text_printer d)"
proof (cases "d_ch d = 0")
  case True
  have "reads_at m fmt bs k (d\<lparr>d_state := DP_S_DONE\<rparr>)" using r by (simp add: reads_fields)
  moreover have "0 < dp_rank (d_state d)" using st by (cases "d_state d") auto
  moreover have "plain_conversions DP_S_DONE (drop k bs)" by (simp add: plain_conversions_def)
  ultimately show ?thesis using True by (auto simp: dopr_step_def fine_def)
next
  case False
  define P where "P = (\<lambda>k' (d' :: u8 list dopr). (length bs - k') * 8 + dp_rank (d_state d') < (length bs - k) * 8 + dp_rank (d_state d) \<and>
    plain_conversions (d_state d') (drop k' bs))"
  let ?F = "fine m fmt bs P"
  have k: "k < length bs" "d_ch d = bs ! k" using False r by (auto simp: reads_at_def split: if_splits)
  define rs where "rs = drop (Suc k) bs"
  have dr: "drop k bs = d_ch d # rs" using k by (simp add: rs_def Cons_nth_drop_Suc)
  have z: "m (fmt + of_nat (length bs)) = 0" using cstring_nth [OF c, of "length bs"] by simp
  have n: "reads_at m fmt bs (Suc k) (next_ch d)" using reads_next [OF c r k(1)] .
  have rank: "0 < dp_rank (d_state d)" using st by (cases "d_state d") auto
  have adv: "?F (ret e)" if "reads_at m fmt bs k' e" "k < k'" "plain_conversions (d_state e) (drop k' bs)" for k' e
  proof -
    have "k' \<le> length bs" "dp_rank (d_state e) \<le> 7" using that(1) by (auto simp: reads_at_def) (cases "d_state e"; simp)
    then have "(length bs - k') * 8 + dp_rank (d_state e) < (length bs - k) * 8 + dp_rank (d_state d)"
      using that(2) rank by linarith
    with that(1,3) show ?thesis unfolding P_def by (intro fine_ret) simp_all
  qed
  have adv1: "?F (ret e)" if "reads_at m fmt bs (Suc k) e" "plain_conversions (d_state e) rs" for e
    using adv [OF that(1)] that(2) by (simp add: rs_def)
  have stay: "?F (ret e)" if "reads_at m fmt bs k e" "dp_rank (d_state e) < dp_rank (d_state d)" "plain_conversions (d_state e) (d_ch d # rs)" for e
    unfolding P_def using that dr by (intro fine_ret) auto
  note w = w [unfolded dr]
  have "?F (dopr_step fp text_printer d)"
  proof (cases "d_state d")
    case DP_S_DEFAULT
    have "fine m fmt bs (\<lambda>k' d'. k' = k \<and> d_state d' = (if d_ch d = 37 then DP_S_FLAGS else DP_S_DEFAULT)) (if d_ch d = 37 then ret (d\<lparr>d_state := DP_S_FLAGS\<rparr>) else emit d (printch text_printer (d_ch d)))"
      using r fine_emit_state [OF r, of "printch text_printer (d_ch d)"] DP_S_DEFAULT by (auto intro!: fine_ret simp: text_printch reads_fields)
    then have "?F (step_default text_printer d)"
      unfolding step_default_def
    proof (rule fine_bind)
      show "?F (ret (next_ch e))" if "reads_at m fmt bs k' e" "k' = k \<and> d_state e = (if d_ch d = 37 then DP_S_FLAGS else DP_S_DEFAULT)" for k' e
      proof (rule adv1)
        show "reads_at m fmt bs (Suc k) (next_ch e)" using reads_next [OF c, of k e] that k(1) by auto
        show "plain_conversions (d_state (next_ch e)) rs"
          using w that(2) DP_S_DEFAULT by (cases "d_ch d = 37") (simp_all add: reads_next_fields plain_default)
      qed
    qed
    then show ?thesis using DP_S_DEFAULT False by (simp add: dopr_step_def)
  next
    case DP_S_FLAGS
    have "?F (ret (step_flags d))"
      using n r DP_S_FLAGS w plain_flags [of "d_ch d" rs] unfolding step_flags_def reads_next_fields
      by (auto intro: adv1 stay simp: reads_fields reads_next_fields is_flag_def)
    then show ?thesis using DP_S_FLAGS False by (simp add: dopr_step_def)
  next
    case DP_S_MIN
    have "?F (step_min d)"
      using n r DP_S_MIN w plain_number(1,3) [of "d_ch d" rs] unfolding step_min_def reads_next_fields
      by (auto intro: adv1 stay intro!: fine_va_word [OF r] simp: reads_fields reads_next_fields plain_number)
    then show ?thesis using DP_S_MIN False by (simp add: dopr_step_def)
  next
    case DP_S_DOT
    have "?F (ret (step_dot d))"
      using n r DP_S_DOT w plain_dot(2) [of "d_ch d" rs] unfolding step_dot_def reads_next_fields
      by (auto intro: adv1 stay simp: reads_fields plain_dot)
    then show ?thesis using DP_S_DOT False by (simp add: dopr_step_def)
  next
    case DP_S_MAX
    have "?F (step_max d)"
      using n r DP_S_MAX w plain_number(4,6) [of "d_ch d" rs] unfolding step_max_def reads_next_fields
      by (auto intro: adv1 stay intro!: fine_va_word [OF r] simp: reads_fields reads_next_fields plain_number)
    then show ?thesis using DP_S_MAX False by (simp add: dopr_step_def)
  next
    case DP_S_MOD
    have w: "plain_conversions DP_S_MOD (d_ch d # rs)" using w DP_S_MOD by simp
    have rest: "d_ch (next_ch d) = (if rs = [] then 0 else hd rs)"
      using n by (auto simp: reads_at_def rs_def hd_drop_conv_nth)
    have "?F (ret (step_mod d))"
    proof (cases "d_ch d = 108 \<and> d_ch (next_ch d) = 108")
      case True
      then have ne: "rs \<noteq> []" "hd rs = 108" using rest by (auto split: if_splits)
      then have rs: "rs = 108 # tl rs" by (metis list.collapse)
      have sk: "Suc k < length bs" using ne(1) by (simp add: rs_def)
      have n2: "reads_at m fmt bs (Suc (Suc k)) (next_ch (next_ch d))" using reads_next [OF c n sk] .
      have "tl rs = drop (Suc (Suc k)) bs" by (simp add: rs_def tl_drop drop_Suc)
      then have p: "plain_conversions DP_S_CONV (drop (Suc (Suc k)) bs)" using w True rs plain_mod(2) [of "tl rs"] by simp
      show ?thesis using True n2 p unfolding step_mod_def Let_def reads_next_fields
        by (auto intro!: adv [of "Suc (Suc k)"] simp: reads_fields reads_next_fields)
    next
      case False
      have l: "plain_conversions DP_S_CONV rs" if "d_ch d = 108"
        using w that False rest plain_mod(3) [of rs] by (auto split: if_splits)
      show ?thesis using False n r w plain_mod(1,4) [of "d_ch d" rs] l unfolding step_mod_def Let_def reads_next_fields
        by (auto intro: adv1 stay simp: reads_fields reads_next_fields DP_S_MOD)
    qed
    then show ?thesis using DP_S_MOD False by (simp add: dopr_step_def)
  next
    case DP_S_CONV
    have ch: "d_ch d \<noteq> 102" "d_ch d \<noteq> 110" "d_ch d \<noteq> 119" "plain_conversions DP_S_DEFAULT rs" using w DP_S_CONV by (auto simp: plain_conv)
    have "?F (step_conv fp text_printer d)"
      unfolding step_conv_def
    proof (rule fine_bind [OF convert_fine [OF z r ch(1-3)]])
      show "?F (ret ((next_ch e)\<lparr>d_state := DP_S_DEFAULT, d_flags := 0, d_cflags := DP_C_NONE, d_min := 0, d_max := -1\<rparr>))"
        if "reads_at m fmt bs k' e" "k' = k" for k' e
        using reads_next [OF c, of k e] that k(1) ch(4) by (intro adv1) (auto simp: reads_fields)
    qed
    then show ?thesis using DP_S_CONV False by (simp add: dopr_step_def)
  qed (use st in simp)
  then show ?thesis unfolding P_def .
qed

lemma loop_fine:
  assumes c: "cstring m fmt bs" and "plain_conversions (d_state d) (drop k bs)" and "reads_at m fmt bs k d"
  shows "\<exists>r. dopr_loop fp text_printer d = Some r \<and> (\<forall>f. r = Inl f \<longrightarrow> f = Bad_argument \<or> f = Null_pointer)"
  using assms(2,3)
proof (induction "(length bs - k) * 8 + dp_rank (d_state d)" arbitrary: k d rule: less_induct)
  case less
  show ?case
  proof (cases "d_state d = DP_S_DONE")
    case True
    then show ?thesis by (subst dopr_loop.simps) auto
  next
    case False
    from step_fine [OF c less.prems False, of fp] show ?thesis
    proof (cases "\<exists>e. dopr_step fp text_printer d = ret e")
      case True
      then obtain e where e: "dopr_step fp text_printer d = ret e" by blast
      with step_fine [OF c less.prems False, of fp] obtain k' where
        "reads_at m fmt bs k' e" "(length bs - k') * 8 + dp_rank (d_state e) < (length bs - k) * 8 + dp_rank (d_state d)"
        "plain_conversions (d_state e) (drop k' bs)"
        by (auto simp: fine_def)
      with less.hyps [of k' e] e False show ?thesis by (subst dopr_loop.simps) simp
    next
      case no: False
      with step_fine [OF c less.prems False, of fp] obtain f where
        "dopr_step fp text_printer d = goes_wrong f" "f = Bad_argument \<or> f = Null_pointer"
        by (auto simp: fine_def split: option.splits sum.splits)
      with False show ?thesis by (subst dopr_loop.simps) auto
    qed
  qed
qed

section \<open>Properties\<close>

text \<open>A memory that holds one string, for the applications of the properties.\<close>

definition string_mem :: "u8 list \<Rightarrow> mem" where
  "string_mem bs = array_mem (bs @ [0])"

lemma string_mem_cstring: "0 \<notin> set bs \<Longrightarrow> length bs < 1000 \<Longrightarrow> cstring (string_mem bs) 0 bs"
proof -
  assume "0 \<notin> set bs" and len: "length bs < 1000"
  then have "takeWhile (\<lambda>b. b \<noteq> 0) bs = bs" by (auto simp: takeWhile_eq_all_conv)
  with array_cstring [of bs "Suc (length bs)"] len show ?thesis by (simp add: string_mem_def)
qed

text \<open>C23: \<open>vsnprintf\<close> has the C99 behaviour: when the format produces a text, it returns the length of that
  whole text whatever the size \<open>count\<close> of the buffer; the buffer gets the first \<open>count - 1\<close>
  characters of the text at most and a terminating NUL right behind them, nothing behind the NUL
  is touched, and nothing at all is written when \<open>count\<close> is 0.\<close>

theorem vsnprintf_truncates:
  assumes "format_text fp m fmt args = ret d" and "length (d_out d) < 2 ^ 32" and "count \<le> length str"
  shows "vsnprintf fp m str count fmt args = ret (length (d_out d),
    if count = 0 then str else (let n = min (length (d_out d)) (count - 1) in take n (d_out d) @ [0] @ drop (n + 1) str), d_mem d)"
  using assms by (rule vsnprintf_text)

theorem vsnprintf_truncates_witness:
  "\<exists>m'. vsnprintf word_fp (string_mem [37, 48, 56, 88]) (replicate 6 1) 5 0 [0xBEEF] = ret (8, [48, 48, 48, 48, 0, 1], m')"
proof -
  obtain d where d: "format_text word_fp (string_mem [37, 48, 56, 88]) 0 [0xBEEF] = ret d"
    "d_out d = int_text 0xBEEF 16 8 (-1) (DP_F_ZERO OR (DP_F_UP OR DP_F_UNSIGNED))"
    using text_percent_08X [OF string_mem_cstring [of "[37, 48, 56, 88]"], of word_fp "0xBEEF" "[]"] by auto
  have "replicate 4 (48 :: u8) = [48, 48, 48, 48]" by (simp add: numeral_eq_Suc)
  then have "d_out d = [48, 48, 48, 48, 66, 69, 69, 70]"
    by (simp add: d(2) int_text_def Let_def int_sign_def int_digits_def digits.simps digit_char_def wrap32_def
        DP_F_ZERO_def DP_F_UP_def DP_F_UNSIGNED_def DP_F_MINUS_def)
  moreover have "replicate 6 1 = [1, 1, 1, 1, 1, 1 :: u8]" by (simp add: numeral_eq_Suc)
  ultimately show ?thesis using vsnprintf_truncates [OF d(1), of 5 "[1, 1, 1, 1, 1, 1]"] by (simp add: Let_def)
qed

text \<open>C24: For every NUL-terminated format none of whose conversions is \<open>%f\<close>, \<open>%n\<close> or \<open>%w\<close> (letters elsewhere in the text do not
  matter), and whatever the arguments, \<open>vsnprintf\<close> returns, and it never writes outside a buffer of at least \<open>count\<close> bytes:
  the only ways to go wrong are a missing argument and a null pointer for \<open>%s\<close>. (\<open>%n\<close> writes through an argument, \<open>%w\<close>
  steps over the character behind it even if that is the NUL, and \<open>%f\<close> depends on the arithmetic of \<open>double\<close>.)\<close>

theorem vsnprintf_safe:
  assumes "cstring m fmt bs" and "set (conversions bs) \<inter> {102, 110, 119} = {}" and "count \<le> length str"
  shows "\<exists>r. vsnprintf fp m str count fmt args = Some r \<and> (\<forall>f. r = Inl f \<longrightarrow> f = Bad_argument \<or> f = Null_pointer)"
proof -
  have "reads_at m fmt bs 0 (dopr_start m fmt args [])"
    using cstring_nth [OF assms(1), of 0] by (auto simp: reads_at_def dopr_start_def)
  then obtain r where r: "dopr_loop fp text_printer (dopr_start m fmt args []) = Some r"
    "\<forall>f. r = Inl f \<longrightarrow> f = Bad_argument \<or> f = Null_pointer"
    using loop_fine [OF assms(1), of "dopr_start m fmt args []" 0 fp] assms(2) by (auto simp: plain_conversions_def dopr_start_def)
  have "text_to_buffer.dsim count str (dopr_start m fmt args []) (dopr_start m fmt args \<lparr>obuf = str, currlen = 0\<rparr>)"
    using assms(3) by (simp add: text_to_buffer.dsim_def dopr_start_def holds_text_def)
  then obtain r' where r': "dopr_loop fp (buffer_printer count) (dopr_start m fmt args \<lparr>obuf = str, currlen = 0\<rparr>) = Some r'"
    "rel_sum (=) (text_to_buffer.dsim count str) r r'"
    using text_to_buffer.loop_sim [OF r(1)] by blast
  show ?thesis
  proof (cases r')
    case (Inl f)
    then show ?thesis using r r' by (cases r) (auto simp: vsnprintf_def)
  next
    case (Inr e)
    then obtain d where "text_to_buffer.dsim count str d e" using r'(2) by (cases r) auto
    then have "length (obuf (d_out e)) = length str" "count \<le> length str"
      using text_to_buffer.dsimD(10) [of count str d e] by (simp_all add: holds_text_def)
    then have "\<exists>s. terminate_buffer count (d_out e) = ret s" by (auto simp: terminate_buffer_def Let_def)
    then show ?thesis using r'(1) Inr by (auto simp: vsnprintf_def)
  qed
qed

text \<open>The format \<open>w%d\<close>: the letter \<open>w\<close> of the text is no conversion.\<close>

theorem vsnprintf_safe_witness:
  "\<exists>r m'. vsnprintf word_fp (string_mem [119, 37, 100]) [7, 7, 7, 7, 7] 5 0 [42] = Some r \<and>
    (\<forall>f. r = Inl f \<longrightarrow> f = Bad_argument \<or> f = Null_pointer) \<and> r = Inr (3, [119, 52, 50, 0, 7], m')"
proof -
  let ?m = "string_mem [119, 37, 100]"
  have c: "cstring ?m 0 [119, 37, 100]" by (intro string_mem_cstring) simp_all
  have "conversions [119, 37, 100] = [100]"
    by (simp add: conversions.simps is_flag_def skip_number_def skip_precision_def skip_modifier_def isdigit_def)
  then have "\<exists>r. vsnprintf word_fp ?m [7, 7, 7, 7, 7] 5 0 [42] = Some r \<and> (\<forall>f. r = Inl f \<longrightarrow> f = Bad_argument \<or> f = Null_pointer)"
    by (intro vsnprintf_safe [OF c]) simp_all
  moreover obtain d where d: "format_text word_fp ?m 0 [42] = ret d" "d_out d = 119 # int_text 42 10 0 (-1) 0" "d_mem d = ?m"
    using text_w_percent_d [OF c, of word_fp 42 "[]"] by auto
  moreover have o: "d_out d = [119, 52, 50]"
    using d(2) int_text_plain [of 10 42] by (simp add: int_digits_def digits.simps digit_char_def)
  have "vsnprintf word_fp ?m [7, 7, 7, 7, 7] 5 0 [42] = ret (3, [119, 52, 50, 0, 7], d_mem d)"
    using vsnprintf_text [OF d(1), of 5 "[7, 7, 7, 7, 7]"] unfolding o by (simp add: Let_def)
  ultimately show ?thesis by auto
qed

text \<open>C25: printing a 32-bit integer with \<open>%d\<close> and reading it back with \<open>atoi\<close> gives the integer, for every
  integer and every buffer of at least 13 bytes.\<close>

theorem snprintf_atoi_roundtrip:
  assumes "cstring m fmt [37, 100]" and "13 \<le> count" and "count \<le> length str" and "length str < 2 ^ 32"
  shows "\<exists>n str'. snprintf fp m str count fmt [v] = ret (n, str', m) \<and> length str' = length str \<and> atoi (array_mem str') 0 = Some v"
proof -
  obtain d where d: "format_text fp m fmt [v] = ret d" "d_out d = int_text v 10 0 (-1) 0" "d_mem d = m"
    using text_percent [OF assms(1), of fp v "[]"] by auto
  let ?t = "d_out d"
  have t: "?t = (if sint v < 0 then 45 # int_digits False 10 (- v) else int_digits False 10 v)"
    using int_text_plain [of 10 v] d(2) by simp
  have len: "length ?t \<le> 12" using length_int_digits [of 10 False v] length_int_digits [of 10 False "- v"] by (simp add: t)
  have "c \<noteq> 0" if "c \<in> set ?t" for c
    using that int_digits_chars(2) by (auto simp: t split: if_splits)
  then have nz: "0 \<notin> set ?t" by blast
  let ?s = "?t @ [0] @ drop (length ?t + 1) str"
  have "min (length ?t) (count - 1) = length ?t" using len assms(2) by simp
  then have s: "snprintf fp m str count fmt [v] = ret (length ?t, ?s, m)"
    using vsnprintf_text [OF d(1) _ assms(3)] len assms(2) d(3) by (simp add: snprintf_def Let_def)
  have r: "array_mem ?s (of_nat k) = (if k < length ?t then ?t ! k else 0)" if "k \<le> length ?t" for k
  proof -
    have "k < 2 ^ 32" using that len by simp
    then have "unat (of_nat k :: u32) = k" by (simp add: unat_of_nat)
    then show ?thesis using that by (auto simp: array_mem_def nth_append)
  qed
  then have "cstring (array_mem ?s) 0 ?t" using nz len by (auto simp: cstring_def)
  then have "atoi (array_mem ?s) 0 = Some (atoi_value ?t)" by (rule atoi_cstring)
  also have "atoi_value ?t = v"
  proof (cases "sint v < 0")
    case True
    then show ?thesis by (simp add: t atoi_value_def decimal_digits)
  next
    case False
    have "hd ?t \<noteq> 45" using False int_digits_not_nil int_digits_chars(1) [of "hd ?t" False v] by (simp add: t)
    with False show ?thesis by (simp add: t atoi_value_def decimal_digits)
  qed
  finally show ?thesis using s len assms(2,3) by (intro exI [of _ "length ?t"] exI [of _ ?s]) simp
qed

theorem snprintf_atoi_roundtrip_witness:
  "\<exists>n str'. snprintf word_fp (string_mem [37, 100]) (replicate 13 7) 13 0 [0xFFFFFFD6] = ret (n, str', string_mem [37, 100]) \<and>
     atoi (array_mem str') 0 = Some 0xFFFFFFD6"
  using snprintf_atoi_roundtrip [OF string_mem_cstring [of "[37, 100]"], of 13 "replicate 13 7" word_fp "0xFFFFFFD6"] by auto

text \<open>\<open>%08X\<close>, with which the kernel prints addresses and registers, prints exactly eight upper-case
  hexadecimal digits whose value is the argument.\<close>

theorem printf_hex8:
  assumes "cstring m fmt [37, 48, 56, 88]" and "9 \<le> count" and "count \<le> length str"
  shows "\<exists>t. length t = 8 \<and> hex_value t = unat v \<and> snprintf fp m str count fmt [v] = ret (8, t @ [0] @ drop 9 str, m)"
proof -
  obtain d where d: "format_text fp m fmt [v] = ret d"
    "d_out d = int_text v 16 8 (-1) (DP_F_ZERO OR (DP_F_UP OR DP_F_UNSIGNED))" "d_mem d = m"
    using text_percent_08X [OF assms(1), of fp v "[]"] by auto
  obtain n where n: "d_out d = replicate n 48 @ int_digits True 16 v" "n + length (int_digits True 16 v) = 8"
    using int_text_08X [of v] d(2) by auto
  then have len: "length (d_out d) = 8" by simp
  have "hex_value (d_out d) = unat v" using n(1) by (simp add: hex_digits)
  moreover have "min 8 (count - 1) = 8" using assms(2) by simp
  then have "snprintf fp m str count fmt [v] = ret (8, d_out d @ [0] @ drop 9 str, m)"
    using vsnprintf_text [OF d(1) _ assms(3)] len assms(2) d(3) by (simp add: snprintf_def Let_def)
  ultimately show ?thesis using len by blast
qed

theorem printf_hex8_witness:
  "\<exists>t. length t = 8 \<and> hex_value t = 0xC0000000 \<and>
     snprintf word_fp (string_mem [37, 48, 56, 88]) (replicate 9 0) 9 0 [0xC0000000] = ret (8, t @ [0], string_mem [37, 48, 56, 88])"
  using printf_hex8 [OF string_mem_cstring [of "[37, 48, 56, 88]"], of 9 "replicate 9 0" "0xC0000000" word_fp] by auto

text \<open>\<open>%p\<close> prints a pointer as a signed number: every address of the upper half of the address
  space, where the kernel lives, comes out as a minus sign and the digits of its negation.\<close>

theorem printf_pointer_signed:
  assumes "cstring m fmt [37, 112]" and "0x80000000 \<le> ptr"
  shows "\<exists>d. format_text fp m fmt [ptr] = ret d \<and> d_out d = 45 # int_digits False 16 (- ptr)"
proof -
  have "unat ptr < 2 ^ LENGTH(32)" by (rule unsigned_less)
  then have "unat ptr div 2 ^ 31 = 1" using assms(2) by (simp add: word_le_nat_alt)
  then have "bit (unat ptr) 31" by (simp add: bit_iff_odd)
  then have "sint ptr < 0" using bit_last_iff [of ptr] by (simp add: bit_unsigned_iff)
  with text_percent [OF assms(1), of fp ptr "[]"] int_text_plain [of 16 ptr] show ?thesis by auto
qed

theorem printf_pointer_signed_witness:
  "\<exists>d. format_text word_fp (string_mem [37, 112]) 0 [0xC0100000] = ret d \<and> d_out d = [45, 51, 102, 102, 48, 48, 48, 48, 48]"
proof -
  have "45 # int_digits False 16 (- 0xC0100000) = [45, 51, 102, 102, 48, 48, 48, 48, 48 :: u8]"
    by (simp add: int_digits_def digits.simps digit_char_def)
  with printf_pointer_signed [OF string_mem_cstring [of "[37, 112]"], of "0xC0100000" word_fp] show ?thesis by auto
qed

end
