(* ===== verification/Isr.thy ===== *)
theory Isr
  imports Ikaros_Base
begin

text \<open>
  The interrupt entry stubs of \<^verbatim>\<open>irq/irq.c\<close>: the macros \<open>DEFIRQWRAPPER\<close>, \<open>DEFINTWRAPPER\<close> and
  \<open>DEFINTWRAPPER_ERR\<close> instruction by instruction, over the registers and the stack. All stack accesses
  are aligned double words, so that the stack is a map from addresses to double words. The C
  function that a stub calls is an argument; the calling convention of the compiler is the
  hypothesis \<open>cdecl\<close>.
\<close>

section \<open>Instructions\<close>

record x86 =
  eax_r :: u32
  ebx_r :: u32
  ecx_r :: u32
  edx_r :: u32
  esi_r :: u32
  edi_r :: u32
  esp_r :: u32
  ebp_r :: u32
  eip_r :: u32
  cs_r :: u16
  eflags_r :: u32
  ds_r :: u16
  es_r :: u16
  direction :: bool
  stack :: "u32 \<Rightarrow> u32"

definition pushl :: "u32 \<Rightarrow> x86 \<Rightarrow> x86" where
  "pushl v c = c\<lparr>esp_r := esp_r c - 4, stack := (stack c)(esp_r c - 4 := v)\<rparr>"

definition popl :: "x86 \<Rightarrow> u32 \<times> x86" where
  "popl c = (stack c (esp_r c), c\<lparr>esp_r := esp_r c + 4\<rparr>)"

definition pushal :: "x86 \<Rightarrow> x86" where
  "pushal c = (let top = esp_r c
     in fold pushl [eax_r c, ecx_r c, edx_r c, ebx_r c, top, ebp_r c, esi_r c, edi_r c] c)"

definition popal :: "x86 \<Rightarrow> x86" where
  "popal c =
     (let sp = esp_r c
      in c\<lparr>edi_r := stack c sp, esi_r := stack c (sp + 4), ebp_r := stack c (sp + 8), ebx_r := stack c (sp + 16),
           edx_r := stack c (sp + 20), ecx_r := stack c (sp + 24), eax_r := stack c (sp + 28), esp_r := sp + 32\<rparr>)"

definition leave :: "x86 \<Rightarrow> x86" where
  "leave c = (let (v, c) = popl (c\<lparr>esp_r := ebp_r c\<rparr>) in c\<lparr>ebp_r := v\<rparr>)"

text \<open>Loading a segment register takes the low half of the operand and checks it against the descriptor table that
  \<^verbatim>\<open>init_gdt\<close> has set up: a null descriptor, a readable code segment, a data segment, both of privilege level 0, and the
  task state segment. \<open>ds\<close> and \<open>es\<close> accept a null selector and the selectors 8 and 16, \<open>cs\<close> on a return to the same
  privilege level the selector 8 alone (a return to an outer level needs a code segment of that level, and there is
  none); every other selector raises a general protection fault. The return to virtual 8086 mode, which needs a flag
  the kernel never sets, is left out.\<close>

definition data_selector :: "u32 \<Rightarrow> u16 run" where
  "data_selector v = (if (ucast v :: u16) \<in> set [0, 1, 2, 3, 8, 16] then ret (ucast v) else goes_wrong General_protection)"

definition code_selector :: "u32 \<Rightarrow> u16 run" where
  "code_selector v = (if (ucast v :: u16) = 8 then ret (ucast v) else goes_wrong General_protection)"

definition iret :: "x86 \<Rightarrow> x86 run" where
  "iret c =
     (let (ip, c) = popl c; (v, c) = popl c; (fl, c) = popl c
      in run_bind (code_selector v) (\<lambda>sel. ret (c\<lparr>eip_r := ip, cs_r := sel, eflags_r := fl\<rparr>)))"

text \<open>\<open>rep movsl\<close>: \<open>ecx\<close> double words, downwards when the direction flag is set.\<close>

fun rep_movsl :: "nat \<Rightarrow> x86 \<Rightarrow> x86" where
  "rep_movsl 0 c = c\<lparr>ecx_r := 0\<rparr>"
| "rep_movsl (Suc n) c =
     (let d = (if direction c then - 4 else 4)
      in rep_movsl n (c\<lparr>stack := (stack c)(edi_r c := stack c (esi_r c)), esi_r := esi_r c + d, edi_r := edi_r c + d\<rparr>))"

text \<open>\<open>movw $16, %cx; movw %cx, %ds; movw %cx, %es\<close>\<close>

definition load_segments :: "x86 \<Rightarrow> x86" where
  "load_segments c = c\<lparr>ecx_r := (ecx_r c AND 0xFFFF0000) OR 16, ds_r := 16, es_r := 16\<rparr>"

text \<open>What the processor does on an interrupt without change of privilege level: it pushes the flags,
  the code segment, the address to return to and, for some exceptions, an error code.\<close>

definition interrupt_entry :: "x86 \<Rightarrow> x86" where
  "interrupt_entry c = fold pushl [eflags_r c, ucast (cs_r c), eip_r c] c"

definition exception_entry :: "u32 \<Rightarrow> x86 \<Rightarrow> x86" where
  "exception_entry err c = pushl err (interrupt_entry c)"

section \<open>The stubs\<close>

text \<open>\<open>func\<close> is the effect of the C function \<open>irqfunc\<close> or \<open>intfunc\<close>, \<open>addr\<close> its address.\<close>

definition call_handler :: "(x86 \<Rightarrow> x86) \<Rightarrow> u32 \<Rightarrow> u32 \<Rightarrow> x86 \<Rightarrow> x86" where
  "call_handler func addr num c =
     (let c = c\<lparr>eax_r := addr, ebx_r := num\<rparr>;
          c = pushl (ucast (ds_r c)) c;
          c = pushl (ucast (es_r c)) c;
          c = load_segments c;
          c = pushl (ebp_r c) c;
          c = c\<lparr>stack := (stack c)(esp_r c := stack c (esp_r c) + 4)\<rparr>;
          c = pushl (ebx_r c) c;
          c = func c
      in c\<lparr>esp_r := esp_r c + 8\<rparr>)"

definition leave_stub :: "x86 \<Rightarrow> x86 run" where
  "leave_stub c =
     (let (v, c) = popl c
      in run_bind (data_selector v) (\<lambda>sel.
         let (v, c) = popl (c\<lparr>es_r := sel\<rparr>)
         in run_bind (data_selector v) (\<lambda>sel. iret (popal (leave (c\<lparr>ds_r := sel\<rparr>))))))"

definition enter_stub :: "x86 \<Rightarrow> x86" where
  "enter_stub c = (let c = pushal c; c = pushl (ebp_r c) c in c\<lparr>ebp_r := esp_r c\<rparr>)"

definition DEFIRQWRAPPER :: "(x86 \<Rightarrow> x86) \<Rightarrow> u32 \<Rightarrow> u32 \<Rightarrow> x86 \<Rightarrow> x86 run" where
  "DEFIRQWRAPPER irqfunc addr irqnum c =
     leave_stub (call_handler irqfunc addr irqnum ((enter_stub c)\<lparr>direction := False\<rparr>))"

definition DEFINTWRAPPER :: "(x86 \<Rightarrow> x86) \<Rightarrow> u32 \<Rightarrow> u32 \<Rightarrow> x86 \<Rightarrow> x86 run" where
  "DEFINTWRAPPER intfunc addr intnum c =
     leave_stub (call_handler intfunc addr intnum ((enter_stub c)\<lparr>direction := False\<rparr>))"

text \<open>The stub for exceptions with an error code first moves the eleven saved double words up by
  one, over the error code.\<close>

definition shift_frame :: "x86 \<Rightarrow> x86" where
  "shift_frame c =
     (let c = pushl (ucast (ds_r c)) c;
          c = pushl (ucast (es_r c)) c;
          c = load_segments c;
          c = c\<lparr>edx_r := stack c (ebp_r c + 36)\<rparr>;
          c = c\<lparr>esi_r := ebp_r c + 32\<rparr>;
          c = c\<lparr>edi_r := esi_r c + 4, ecx_r := 11, direction := True\<rparr>;
          c = rep_movsl (unat (ecx_r c)) c
      in c\<lparr>esp_r := esp_r c + 4, direction := False\<rparr>)"

definition DEFINTWRAPPER_ERR :: "(x86 \<Rightarrow> x86) \<Rightarrow> u32 \<Rightarrow> u32 \<Rightarrow> x86 \<Rightarrow> x86 run" where
  "DEFINTWRAPPER_ERR intfunc_err addr intnum c =
     (let c = shift_frame (enter_stub c);
          c = c\<lparr>eax_r := addr, ebx_r := intnum\<rparr>;
          c = pushl (edx_r c) c;
          c = pushl (ebp_r c) c;
          c = c\<lparr>stack := (stack c)(esp_r c := stack c (esp_r c) + 8)\<rparr>;
          c = pushl (ebx_r c) c;
          c = intfunc_err c
      in leave_stub (c\<lparr>esp_r := esp_r c + 12\<rparr>))"

section \<open>What the stubs do\<close>

text \<open>The calling convention: a function keeps the stack pointer, the registers \<open>ebx\<close>, \<open>esi\<close>, \<open>edi\<close>,
  \<open>ebp\<close>, the segment registers, and the stack above its \<open>args\<close> arguments.\<close>

definition cdecl :: "nat \<Rightarrow> (x86 \<Rightarrow> x86) \<Rightarrow> bool" where
  "cdecl args func \<longleftrightarrow> (\<forall>c. esp_r (func c) = esp_r c \<and> ebx_r (func c) = ebx_r c \<and> esi_r (func c) = esi_r c \<and>
     edi_r (func c) = edi_r c \<and> ebp_r (func c) = ebp_r c \<and> ds_r (func c) = ds_r c \<and> es_r (func c) = es_r c \<and>
     (\<forall>k. args \<le> k \<and> k < 32 \<longrightarrow> stack (func c) (esp_r c + 4 * of_nat k) = stack c (esp_r c + 4 * of_nat k)))"

lemma cdeclD:
  assumes "cdecl args func"
  shows "esp_r (func c) = esp_r c" "ebx_r (func c) = ebx_r c" "esi_r (func c) = esi_r c" "edi_r (func c) = edi_r c"
    "ebp_r (func c) = ebp_r c" "ds_r (func c) = ds_r c" "es_r (func c) = es_r c"
    "args \<le> k \<Longrightarrow> k < 32 \<Longrightarrow> stack (func c) (esp_r c + 4 * of_nat k) = stack c (esp_r c + 4 * of_nat k)"
  using assms by (simp_all add: cdecl_def)

lemma cdecl_stack:
  assumes "cdecl args func" and "a = esp_r c + 4 * of_nat k" and "args \<le> k" and "k < 32"
  shows "stack (func c) a = stack c a"
  using cdeclD(8) [OF assms(1,3,4)] assms(2) by simp

lemma interrupt_entry_eq: "interrupt_entry c = c\<lparr>esp_r := esp_r c - 12,
   stack := (stack c)(esp_r c - 4 := eflags_r c, esp_r c - 8 := ucast (cs_r c), esp_r c - 12 := eip_r c)\<rparr>"
  by (simp add: interrupt_entry_def pushl_def)

lemma pushal_eq: "pushal c = c\<lparr>esp_r := esp_r c - 32,
   stack := (stack c)(esp_r c - 4 := eax_r c, esp_r c - 8 := ecx_r c, esp_r c - 12 := edx_r c, esp_r c - 16 := ebx_r c,
     esp_r c - 20 := esp_r c, esp_r c - 24 := ebp_r c, esp_r c - 28 := esi_r c, esp_r c - 32 := edi_r c)\<rparr>"
  by (simp add: pushal_def pushl_def)

lemma enter_eq: "enter_stub c = c\<lparr>esp_r := esp_r c - 36, ebp_r := esp_r c - 36,
   stack := (stack c)(esp_r c - 4 := eax_r c, esp_r c - 8 := ecx_r c, esp_r c - 12 := edx_r c, esp_r c - 16 := ebx_r c,
     esp_r c - 20 := esp_r c, esp_r c - 24 := ebp_r c, esp_r c - 28 := esi_r c, esp_r c - 32 := edi_r c, esp_r c - 36 := ebp_r c)\<rparr>"
  by (simp add: enter_stub_def pushal_eq pushl_def Let_def)

lemma call_eq: "call_handler func addr num c =
   (let f = func (c\<lparr>eax_r := addr, ebx_r := num, ecx_r := (ecx_r c AND 0xFFFF0000) OR 16, ds_r := 16, es_r := 16, esp_r := esp_r c - 16,
     stack := (stack c)(esp_r c - 4 := ucast (ds_r c), esp_r c - 8 := ucast (es_r c), esp_r c - 12 := ebp_r c + 4, esp_r c - 16 := num)\<rparr>)
    in f\<lparr>esp_r := esp_r f + 8\<rparr>)"
  by (simp add: call_handler_def pushl_def load_segments_def Let_def)
lemma rep_movsl_Suc: "direction c \<Longrightarrow> rep_movsl (Suc n) c =
    rep_movsl n (c\<lparr>stack := (stack c)(edi_r c := stack c (esi_r c)), esi_r := esi_r c - 4, edi_r := edi_r c - 4\<rparr>)"
  by simp

lemma rep_movsl_sel:
  "direction c \<Longrightarrow> esp_r (rep_movsl n c) = esp_r c \<and> ebp_r (rep_movsl n c) = ebp_r c \<and> edx_r (rep_movsl n c) = edx_r c"
  by (induction n arbitrary: c) (simp_all add: rep_movsl_Suc del: rep_movsl.simps(2))

text \<open>Moving downwards, every double word is read before it is overwritten.\<close>

lemma rep_movsl_stack:
  assumes "direction c" and "edi_r c = esi_r c + 4" and "n < 1000"
  shows "stack (rep_movsl n c) x = (if \<exists>k<n. x = esi_r c + 4 - 4 * of_nat k then stack c (x - 4) else stack c x)"
  using assms
proof (induction n arbitrary: c)
  case 0
  then show ?case by simp
next
  case (Suc n)
  let ?c = "c\<lparr>stack := (stack c)(edi_r c := stack c (esi_r c)), esi_r := esi_r c - 4, edi_r := edi_r c - 4\<rparr>"
  have far: "esi_r c + 4 \<noteq> x - 4" if "k < n" "x = esi_r c - 4 * of_nat k" for k
  proof
    assume "esi_r c + 4 = x - 4"
    then have "(of_nat (8 + 4 * k) :: u32) = 0" using that(2) by (simp add: algebra_simps)
    moreover have "unat (of_nat (8 + 4 * k) :: u32) = 8 + 4 * k" using that Suc.prems(3) by (intro unat_of_nat_small) simp
    ultimately show False by simp
  qed
  define P where "P \<longleftrightarrow> (\<exists>k<n. x = esi_r c - 4 * of_nat k)"
  have far: "P \<Longrightarrow> x - 4 \<noteq> esi_r c + 4" using far unfolding P_def by metis
  have img: "(\<exists>k<Suc n. x = esi_r c + 4 - 4 * of_nat k) \<longleftrightarrow> x = esi_r c + 4 \<or> P"
    unfolding P_def by (auto simp: less_Suc_eq_0_disj algebra_simps)
  have "stack (rep_movsl (Suc n) c) x = stack (rep_movsl n ?c) x" using Suc.prems(1) by simp
  also have "\<dots> = (if P then stack ?c (x - 4) else stack ?c x)"
    unfolding P_def using Suc.IH [of ?c] Suc.prems by simp
  also have "\<dots> = (if \<exists>k<Suc n. x = esi_r c + 4 - 4 * of_nat k then stack c (x - 4) else stack c x)"
    unfolding img using far Suc.prems(2) by auto
  finally show ?case .
qed

lemma shift_frame_sel:
  fixes c :: x86
  defines "w \<equiv> (stack c)(esp_r c - 4 := ucast (ds_r c), esp_r c - 8 := ucast (es_r c))"
  shows "esp_r (shift_frame c) = esp_r c - 4" "ebp_r (shift_frame c) = ebp_r c"
    "stack (shift_frame c) x = (if \<exists>k<11. x = ebp_r c + 36 - 4 * of_nat k then w (x - 4) else w x)"
proof -
  define c2 where "c2 = (load_segments (pushl (ucast (es_r c)) (pushl (ucast (ds_r c)) c)))\<lparr>edx_r := w (ebp_r c + 36), esi_r := ebp_r c + 32,
    edi_r := ebp_r c + 32 + 4, ecx_r := 11, direction := True\<rparr>"
  have c2: "stack c2 = w" "esp_r c2 = esp_r c - 8" "ebp_r c2 = ebp_r c" "direction c2" "esi_r c2 = ebp_r c + 32" "edi_r c2 = esi_r c2 + 4"
    by (simp_all add: c2_def w_def pushl_def load_segments_def)
  have shift: "shift_frame c = (rep_movsl 11 c2)\<lparr>esp_r := esp_r (rep_movsl 11 c2) + 4, direction := False\<rparr>"
    by (simp add: shift_frame_def c2_def w_def pushl_def load_segments_def Let_def)
  show "esp_r (shift_frame c) = esp_r c - 4" "ebp_r (shift_frame c) = ebp_r c"
    using rep_movsl_sel [OF c2(4), of 11] c2(2,3) by (simp_all add: shift)
  show "stack (shift_frame c) x = (if \<exists>k<11. x = ebp_r c + 36 - 4 * of_nat k then w (x - 4) else w x)"
    using rep_movsl_stack [OF c2(4,6), of 11 x] c2(1,5) by (simp add: shift add.commute [of "ebp_r c" 36] split del: if_split cong: if_cong)
qed

lemma leave_frame:
  fixes f :: x86
  defines "q \<equiv> ebp_r f" and "w \<equiv> stack f"
  assumes "data_selector (w (esp_r f)) = ret es" and "data_selector (w (esp_r f + 4)) = ret ds"
  shows "leave_stub f = run_bind (code_selector (w (q + 40))) (\<lambda>sel. ret (f\<lparr>es_r := es, ds_r := ds, edi_r := w (q + 4), esi_r := w (q + 8),
    ebp_r := w (q + 12), ebx_r := w (q + 20), edx_r := w (q + 24), ecx_r := w (q + 28), eax_r := w (q + 32),
    esp_r := q + 48, eip_r := w (q + 36), cs_r := sel, eflags_r := w (q + 44)\<rparr>))"
  using assms by (simp add: leave_stub_def popl_def leave_def popal_def iret_def Let_def q_def w_def add.commute [of "ebp_r f"])

lemma cdecl_frame:
  assumes "cdecl args func" and "esp_r c = sp - 4 * of_nat m" and "j + args \<le> m" and "1 \<le> j" and "m < 32"
  shows "stack (func c) (sp - 4 * of_nat j) = stack c (sp - 4 * of_nat j)"
  by (rule cdecl_stack [OF assms(1), of _ _ "m - j"]) (use assms in \<open>simp_all add: of_nat_diff algebra_simps\<close>)

definition same_context :: "x86 \<Rightarrow> x86 \<Rightarrow> bool" where
  "same_context c' c \<longleftrightarrow> eax_r c' = eax_r c \<and> ebx_r c' = ebx_r c \<and> ecx_r c' = ecx_r c \<and> edx_r c' = edx_r c \<and>
     esi_r c' = esi_r c \<and> edi_r c' = edi_r c \<and> esp_r c' = esp_r c \<and> ebp_r c' = ebp_r c \<and> eip_r c' = eip_r c \<and>
     cs_r c' = cs_r c \<and> eflags_r c' = eflags_r c \<and> ds_r c' = ds_r c \<and> es_r c' = es_r c"

text \<open>What the segment registers of kernel code can hold.\<close>

definition kernel_segments :: "x86 \<Rightarrow> bool" where
  "kernel_segments c \<longleftrightarrow> cs_r c = 8 \<and> ds_r c \<in> set [0, 1, 2, 3, 8, 16] \<and> es_r c \<in> set [0, 1, 2, 3, 8, 16]"

lemma half_of_selector [simp]: "(ucast (ucast (v :: u16) :: u32) :: u16) = v"
  by (rule bit_eqI) (auto simp: bit_simps)

lemma kernel_selectors:
  assumes "kernel_segments c"
  shows "data_selector (ucast (ds_r c)) = ret (ds_r c)" "data_selector (ucast (es_r c)) = ret (es_r c)" "code_selector (ucast (cs_r c)) = ret (cs_r c)"
  using assms unfolding kernel_segments_def data_selector_def code_selector_def half_of_selector by simp_all

lemma stub_transparent:
  assumes "cdecl 2 func" and seg: "kernel_segments c"
  shows "\<exists>c'. leave_stub (call_handler func addr num ((enter_stub (interrupt_entry c))\<lparr>direction := False\<rparr>)) = ret c' \<and> same_context c' c"
proof -
  define sp where "sp = esp_r c"
  define c0 where "c0 = (enter_stub (interrupt_entry c))\<lparr>direction := False\<rparr>"
  have c0: "esp_r c0 = sp - 48" "ebp_r c0 = sp - 48" "ds_r c0 = ds_r c" "es_r c0 = es_r c"
    "stack c0 (sp - 4) = eflags_r c" "stack c0 (sp - 8) = ucast (cs_r c)" "stack c0 (sp - 12) = eip_r c" "stack c0 (sp - 16) = eax_r c"
    "stack c0 (sp - 20) = ecx_r c" "stack c0 (sp - 24) = edx_r c" "stack c0 (sp - 28) = ebx_r c" "stack c0 (sp - 36) = ebp_r c"
    "stack c0 (sp - 40) = esi_r c" "stack c0 (sp - 44) = edi_r c"
    by (simp_all add: c0_def enter_eq interrupt_entry_eq sp_def)
  obtain c1 where c1: "call_handler func addr num c0 = (func c1)\<lparr>esp_r := esp_r (func c1) + 8\<rparr>"
    "esp_r c1 = sp - 64" "ebp_r c1 = sp - 48"
    "stack c1 (sp - 4) = eflags_r c" "stack c1 (sp - 8) = ucast (cs_r c)" "stack c1 (sp - 12) = eip_r c" "stack c1 (sp - 16) = eax_r c"
    "stack c1 (sp - 20) = ecx_r c" "stack c1 (sp - 24) = edx_r c" "stack c1 (sp - 28) = ebx_r c" "stack c1 (sp - 36) = ebp_r c"
    "stack c1 (sp - 40) = esi_r c" "stack c1 (sp - 44) = edi_r c" "stack c1 (sp - 52) = ucast (ds_r c)" "stack c1 (sp - 56) = ucast (es_r c)"
    by (rule that [OF call_eq [of func addr num c0, unfolded Let_def]]) (simp_all add: c0)
  have keep: "stack (func c1) (sp - 4 * of_nat j) = stack c1 (sp - 4 * of_nat j)" if "1 \<le> j" "j \<le> 14" for j
    by (rule cdecl_frame [OF assms(1), of _ _ 16]) (use that c1(2) in simp_all)
  have f: "stack (func c1) (sp - 4) = eflags_r c" "stack (func c1) (sp - 8) = ucast (cs_r c)" "stack (func c1) (sp - 12) = eip_r c"
    "stack (func c1) (sp - 16) = eax_r c" "stack (func c1) (sp - 20) = ecx_r c" "stack (func c1) (sp - 24) = edx_r c"
    "stack (func c1) (sp - 28) = ebx_r c" "stack (func c1) (sp - 36) = ebp_r c" "stack (func c1) (sp - 40) = esi_r c"
    "stack (func c1) (sp - 44) = edi_r c" "stack (func c1) (sp - 52) = ucast (ds_r c)" "stack (func c1) (sp - 56) = ucast (es_r c)"
    using keep [of 1] keep [of 2] keep [of 3] keep [of 4] keep [of 5] keep [of 6] keep [of 7] keep [of 9] keep [of 10]
      keep [of 11] keep [of 13] keep [of 14] c1(4-15) by simp_all
  let ?f = "(func c1)\<lparr>esp_r := esp_r (func c1) + 8\<rparr>"
  have q: "esp_r ?f = sp - 56" "ebp_r ?f = sp - 48" by (simp_all add: cdeclD(1-7) [OF assms(1)] c1(2,3))
  have "data_selector (stack ?f (esp_r ?f)) = ret (es_r c)" "data_selector (stack ?f (esp_r ?f + 4)) = ret (ds_r c)"
    unfolding q using f(11,12) kernel_selectors [OF seg] by simp_all
  note leave = leave_frame [OF this, unfolded q]
  show ?thesis
    unfolding same_context_def c0_def [symmetric] c1(1) leave
    using f kernel_selectors(3) [OF seg] by (simp add: sp_def [symmetric])
qed

section \<open>Properties\<close>

text \<open>C30: The stubs for hardware interrupts and for exceptions without an error code are transparent: when kernel code
  is interrupted, whatever handler they call, if it obeys the calling convention, the stub returns without a fault and
  the interrupted code continues with all its registers, its stack pointer, segments and flags.\<close>

theorem interrupt_stubs_transparent:
  assumes "cdecl 2 func" and "kernel_segments c"
  shows "(\<exists>c'. DEFIRQWRAPPER func addr num (interrupt_entry c) = ret c' \<and> same_context c' c) \<and>
    (\<exists>c'. DEFINTWRAPPER func addr num (interrupt_entry c) = ret c' \<and> same_context c' c)"
  unfolding DEFIRQWRAPPER_def DEFINTWRAPPER_def using stub_transparent [OF assms] by blast

text \<open>C31: The stub for exceptions with an error code never resumes the interrupted code. It moves the saved frame up by
  a double word but leaves \<open>ebp\<close> where it was, so that everything is restored from one slot too low: the \<open>iret\<close> takes the
  interrupted code's \<open>eax\<close> for the return address and the low half of the return address for the code selector. The
  result is a general protection fault, unless that half is 8 by chance, when the processor jumps to the address in
  \<open>eax\<close>.\<close>

theorem error_stub_never_resumes:
  assumes "cdecl 3 func" and "kernel_segments c"
  shows "if (ucast (eip_r c) :: u16) = 8
    then \<exists>c'. DEFINTWRAPPER_ERR func addr num (exception_entry err c) = ret c' \<and> eip_r c' = eax_r c \<and> eax_r c' = ecx_r c
    else DEFINTWRAPPER_ERR func addr num (exception_entry err c) = goes_wrong General_protection"
proof -
  define sp where "sp = esp_r c"
  define c0 where "c0 = enter_stub (exception_entry err c)"
  have c0: "esp_r c0 = sp - 52" "ebp_r c0 = sp - 52" "stack c0 (sp - 20) = eax_r c" "stack c0 (sp - 24) = ecx_r c"
    "stack c0 (sp - 12) = eip_r c" "ds_r c0 = ds_r c" "es_r c0 = es_r c"
    by (simp_all add: c0_def exception_entry_def enter_eq interrupt_entry_eq pushl_def sp_def)
  define w where "w = (stack c0)(esp_r c0 - 4 := ucast (ds_r c0), esp_r c0 - 8 := ucast (es_r c0))"
  have w: "w (sp - 20) = eax_r c" "w (sp - 24) = ecx_r c" "w (sp - 12) = eip_r c" "w (sp - 56) = ucast (ds_r c)" "w (sp - 60) = ucast (es_r c)"
    using c0 by (simp_all add: w_def)
  define c1 where "c1 = shift_frame c0"
  have c1: "esp_r c1 = sp - 56" "ebp_r c1 = sp - 52"
    using c0 by (simp_all add: c1_def shift_frame_sel)
  have s1: "stack c1 x = (if \<exists>k<11. x = sp - 16 - 4 * of_nat k then w (x - 4) else w x)" for x
    using shift_frame_sel(3) [of c0 x] c0(2) by (simp add: c1_def w_def del: fun_upd_apply split del: if_split cong: if_cong)
  have "\<exists>k<11. sp - 16 = sp - 16 - 4 * (of_nat k :: u32)" by (rule exI [of _ 0]) simp
  moreover have "\<exists>k<11. sp - 20 = sp - 16 - 4 * (of_nat k :: u32)" by (rule exI [of _ 1]) simp
  moreover have "\<exists>k<11. sp - 52 = sp - 16 - 4 * (of_nat k :: u32)" by (rule exI [of _ 9]) simp
  moreover have "\<exists>k<11. sp - 56 = sp - 16 - 4 * (of_nat k :: u32)" by (rule exI [of _ 10]) simp
  moreover have "\<nexists>k. k < 11 \<and> sp - 12 = sp - 16 - 4 * (of_nat k :: u32)"
  proof (intro notI, elim exE conjE)
    fix k :: nat assume k: "k < 11" and "sp - 12 = sp - 16 - 4 * of_nat k"
    then have "(of_nat (4 + 4 * k) :: u32) = 0" by (simp add: algebra_simps)
    moreover have "unat (of_nat (4 + 4 * k) :: u32) = 4 + 4 * k" using k by (intro unat_of_nat_small) simp
    ultimately show False by simp
  qed
  ultimately have slots: "stack c1 (sp - 16) = eax_r c" "stack c1 (sp - 20) = ecx_r c" "stack c1 (sp - 12) = eip_r c"
    "stack c1 (sp - 52) = ucast (ds_r c)" "stack c1 (sp - 56) = ucast (es_r c)"
    unfolding s1 using w by auto
  obtain c2 where c2: "DEFINTWRAPPER_ERR func addr num (exception_entry err c) = leave_stub ((func c2)\<lparr>esp_r := esp_r (func c2) + 12\<rparr>)"
    "esp_r c2 = sp - 68" "ebp_r c2 = sp - 52"
    "stack c2 (sp - 16) = eax_r c" "stack c2 (sp - 20) = ecx_r c" "stack c2 (sp - 12) = eip_r c"
    "stack c2 (sp - 52) = ucast (ds_r c)" "stack c2 (sp - 56) = ucast (es_r c)"
    by (rule that [OF DEFINTWRAPPER_ERR_def [of func addr num "exception_entry err c", unfolded Let_def, folded c0_def, folded c1_def]])
      (simp_all add: pushl_def c1 slots)
  have keep: "stack (func c2) (sp - 4 * of_nat j) = stack c2 (sp - 4 * of_nat j)" if "1 \<le> j" "j \<le> 14" for j
    by (rule cdecl_frame [OF assms(1), of _ _ 17]) (use that c2(2) in simp_all)
  have f: "stack (func c2) (sp - 16) = eax_r c" "stack (func c2) (sp - 12) = eip_r c" "stack (func c2) (sp - 20) = ecx_r c"
    "stack (func c2) (sp - 52) = ucast (ds_r c)" "stack (func c2) (sp - 56) = ucast (es_r c)"
    using keep [of 3] keep [of 4] keep [of 5] keep [of 13] keep [of 14] c2(4-8) by simp_all
  let ?f = "(func c2)\<lparr>esp_r := esp_r (func c2) + 12\<rparr>"
  have q: "esp_r ?f = sp - 56" "ebp_r ?f = sp - 52" by (simp_all add: cdeclD(1-7) [OF assms(1)] c2(2,3))
  have "data_selector (stack ?f (esp_r ?f)) = ret (es_r c)" "data_selector (stack ?f (esp_r ?f + 4)) = ret (ds_r c)"
    unfolding q using f(4,5) kernel_selectors [OF assms(2)] by simp_all
  note leave = leave_frame [OF this, unfolded q]
  show ?thesis unfolding c2(1) leave using f(1-3) by (simp add: code_selector_def)
qed

section \<open>A concrete handler\<close>

text \<open>A handler that scratches the registers and stack slots it may scratch.\<close>

definition scratch_handler :: "x86 \<Rightarrow> x86" where
  "scratch_handler c = c\<lparr>eax_r := 0, ecx_r := 1, edx_r := 2, stack := (stack c)(esp_r c := 3, esp_r c - 4 := 4)\<rparr>"

definition some_context :: x86 where
  "some_context = \<lparr>eax_r = 1, ebx_r = 2, ecx_r = 3, edx_r = 4, esi_r = 5, edi_r = 6, esp_r = 0xC0100000, ebp_r = 0xC0100040,
     eip_r = 0xC0101234, cs_r = 8, eflags_r = 0x202, ds_r = 0x10, es_r = 0x10, direction = False, stack = (\<lambda>_. 0)\<rparr>"

lemma scratch_cdecl:
  assumes "1 \<le> n"
  shows "cdecl n scratch_handler"
proof -
  have "(4 :: u32) * of_nat k \<noteq> 0 \<and> 4 * of_nat k \<noteq> (- 4 :: u32)" if "1 \<le> k" "k < 32" for k
  proof -
    have "unat (of_nat (4 * k) :: u32) = 4 * k" using that by (intro unat_of_nat_small) simp
    moreover have "unat (- 4 :: u32) = 4294967292" by simp
    ultimately show ?thesis using that by (auto simp: word_unat_eq_iff)
  qed
  then show ?thesis using assms by (auto simp: cdecl_def scratch_handler_def)
qed

lemma some_context: "kernel_segments some_context"
  by (simp add: kernel_segments_def some_context_def)

theorem interrupt_stubs_transparent_witness:
  "\<exists>c'. DEFIRQWRAPPER scratch_handler 0xC0105000 1 (interrupt_entry some_context) = ret c' \<and> same_context c' some_context"
  using interrupt_stubs_transparent [OF scratch_cdecl [of 2] some_context, of "0xC0105000" 1] by simp

theorem error_stub_never_resumes_witness:
  "DEFINTWRAPPER_ERR scratch_handler 0xC0105000 14 (exception_entry 2 some_context) = goes_wrong General_protection"
  using error_stub_never_resumes [OF scratch_cdecl [of 3] some_context, of "0xC0105000" 14 2]
  by (simp add: some_context_def)

end
