(* ===== verification/Descriptors.thy ===== *)
theory Descriptors
  imports Ikaros_Base
begin

text \<open>
  Segment and gate descriptors of the i386: \<^verbatim>\<open>boot/gdt.h\<close>, \<^verbatim>\<open>boot/idt.h\<close>, \<^verbatim>\<open>scheduler/tss.h\<close> and the
  set-up of the global descriptor table in \<^verbatim>\<open>boot/initx86.c\<close>. An encoded descriptor is the list of
  its eight bytes. The processor's view of a descriptor, as the Intel manuals give it, is the
  decoding function against which the encoders are proved.
\<close>

section \<open>Segment descriptors\<close>

record gdt =
  g_base :: u32
  g_limit :: u32
  g_type :: u8

record gdt_desc =
  desc_limit :: u16
  desc_base :: u32

definition gdt_encode :: "u8 list \<Rightarrow> gdt \<Rightarrow> u8 list run" where
  "gdt_encode target source =
     (if length target < 8 then goes_wrong Out_of_bounds
      else if g_limit source > 65536 \<and> g_limit source AND 0xFFF \<noteq> 0xFFF then goes_wrong (Panic ''Invalid GDT limit'')
      else
        let big = g_limit source > 65536;
            limit = (if big then drop_bit 12 (g_limit source) else g_limit source);
            target = target[6 := if big then 0xC0 else 0x40];
            target = target[0 := ucast (limit AND 0xFF)];
            target = target[1 := ucast (drop_bit 8 limit AND 0xFF)];
            target = target[6 := (target ! 6) OR ucast (drop_bit 16 limit AND 0xF)];
            target = target[2 := ucast (g_base source AND 0xFF)];
            target = target[3 := ucast (drop_bit 8 (g_base source) AND 0xFF)];
            target = target[4 := ucast (drop_bit 16 (g_base source) AND 0xFF)];
            target = target[7 := ucast (drop_bit 24 (g_base source) AND 0xFF)]
        in ret (target[5 := g_type source]))"

record tss =
  back_link :: u16
  esp0 :: u32
  ss0 :: u16
  esp1 :: u32
  ss1 :: u16
  esp2 :: u32
  ss2 :: u16
  tss_cr3 :: u32
  tss_eip :: u32
  tss_eflags :: u32
  tss_regs :: "u32 list"
  tss_es :: u16
  tss_cs :: u16
  tss_ss :: u16
  tss_ds :: u16
  tss_fs :: u16
  tss_gs :: u16
  tss_ldt :: u16
  tss_trace :: u16
  tss_bitmap :: u16

definition sizeof_tss :: u32 where
  "sizeof_tss = 104"

definition zero_tss :: tss where
  "zero_tss = \<lparr>back_link = 0, esp0 = 0, ss0 = 0, esp1 = 0, ss1 = 0, esp2 = 0, ss2 = 0, tss_cr3 = 0, tss_eip = 0,
     tss_eflags = 0, tss_regs = replicate 8 0, tss_es = 0, tss_cs = 0, tss_ss = 0, tss_ds = 0, tss_fs = 0, tss_gs = 0,
     tss_ldt = 0, tss_trace = 0, tss_bitmap = 0\<rparr>"

text \<open>The state that \<open>init_gdt\<close> sets up: the task state segment, the table (ten descriptors) and the
  descriptor given to \<open>lgdt\<close>. \<open>tss_addr\<close> and \<open>gdt_addr\<close> are the addresses of the first two.\<close>

record gdt_state =
  the_tss :: tss
  gdt_table :: "u8 list list"
  the_gdt_desc :: gdt_desc

definition gdt_entries :: "u32 \<Rightarrow> gdt list" where
  "gdt_entries tss_addr =
     [\<lparr>g_base = 0, g_limit = 0, g_type = 0\<rparr>,
      \<lparr>g_base = 0, g_limit = 0xFFFFFFFF, g_type = 0x9A\<rparr>,
      \<lparr>g_base = 0, g_limit = 0xFFFFFFFF, g_type = 0x92\<rparr>,
      \<lparr>g_base = tss_addr, g_limit = sizeof_tss, g_type = 0x89\<rparr>]"

definition init_gdt :: "u32 \<Rightarrow> u32 \<Rightarrow> gdt_state run" where
  "init_gdt tss_addr gdt_addr =
     (let tss = zero_tss\<lparr>tss_ss := 0x10, esp0 := 0, tss_trace := ucast sizeof_tss\<rparr>;
          gdt = gdt_entries tss_addr
      in run_bind (run_for [0..<4] (\<lambda>i table.
            run_bind (gdt_encode (table ! i) (gdt ! i)) (\<lambda>e. ret (table[i := e]))) (replicate 10 (replicate 8 0))) (\<lambda>table.
         ret \<lparr>the_tss = tss, gdt_table = table, the_gdt_desc = \<lparr>desc_limit = 79, desc_base = gdt_addr\<rparr>\<rparr>))"

section \<open>Gate descriptors\<close>

record idt_entry =
  base_lo :: u16
  selector :: u16
  zero_byte :: u8
  gate_type :: u8
  base_hi :: u16

definition idt_encode :: "u32 \<Rightarrow> u16 \<Rightarrow> u8 \<Rightarrow> idt_entry" where
  "idt_encode base sel type =
     \<lparr>base_lo = ucast (base AND 0xFFFF), selector = sel, zero_byte = 0, gate_type = type,
      base_hi = ucast (drop_bit 16 (base AND 0xFFFF0000))\<rparr>"

text \<open>\<open>idt_fill\<close> of \<^verbatim>\<open>irq.c\<close> ignores the type and the privilege level it is given.\<close>

definition idt_fill :: "u16 \<Rightarrow> u32 \<Rightarrow> u8 \<Rightarrow> u8 \<Rightarrow> idt_entry" where
  "idt_fill sel offset type prv_level =
     \<lparr>base_lo = ucast (offset AND 0x0000FFFF), selector = sel, zero_byte = 0, gate_type = 0x8E,
      base_hi = ucast (drop_bit 16 (offset AND 0xFFFF0000))\<rparr>"

section \<open>The processor's view\<close>

text \<open>Base, limit in bytes and access byte of an encoded segment descriptor: with granularity bit 7
  of byte 6 the limit counts pages.\<close>

definition segment_base :: "u8 list \<Rightarrow> u32" where
  "segment_base t = le32 (t ! 2) (t ! 3) (t ! 4) (t ! 7)"

definition segment_limit :: "u8 list \<Rightarrow> u32" where
  "segment_limit t =
     (let l = le32 (t ! 0) (t ! 1) (t ! 6 AND 0x0F) 0
      in if bit (t ! 6) 7 then push_bit 12 l OR 0xFFF else l)"

definition gate_target :: "idt_entry \<Rightarrow> u32" where
  "gate_target e = ucast (base_lo e) OR push_bit 16 (ucast (base_hi e))"

definition gate_present :: "idt_entry \<Rightarrow> bool" where
  "gate_present e \<longleftrightarrow> bit (gate_type e) 7"

definition gate_dpl :: "idt_entry \<Rightarrow> u8" where
  "gate_dpl e = drop_bit 5 (gate_type e) AND 3"

lemma mask_numerals: "(0xF :: 'a :: len word) = mask 4" "(0xFF :: 'a :: len word) = mask 8" "(0xFFF :: 'a :: len word) = mask 12"
  "(0xFFFF :: 'a :: len word) = mask 16"
  by (simp_all add: mask_eq_exp_minus_1)

lemma byte_and: "ucast (drop_bit n w AND 0xFF) = (ucast (drop_bit n (w :: u32)) :: u8)"
  by (rule bit_word_eqI) (auto simp: mask_numerals bit_simps)

lemma segment_base_bytes:
  "le32 (ucast (b AND 0xFF)) (ucast (drop_bit 8 b AND 0xFF)) (ucast (drop_bit 16 b AND 0xFF)) (ucast (drop_bit 24 b AND 0xFF)) = b"
  using byte_and [of 0 b] le32_bytes [of b] by (simp add: byte_and byte_of_def)

section \<open>Encoding and decoding\<close>

lemma limit_bytes:
  assumes "c AND 0xF = (0 :: u8)"
  shows "le32 (ucast (l AND 0xFF)) (ucast (drop_bit 8 l AND 0xFF)) ((c OR ucast (drop_bit 16 l AND 0xF)) AND 0xF) 0 = take_bit 20 (l :: u32)"
proof -
  have nib: "(c OR ucast (drop_bit 16 l AND 0xF)) AND 0xF = (ucast (drop_bit 16 l AND 0xF) :: u8)"
  proof -
    have "(c OR x) AND 0xF = x AND 0xF" for x using assms by (simp add: bit.conj_disj_distrib2)
    moreover have "ucast (drop_bit 16 l AND 0xF) AND 0xF = (ucast (drop_bit 16 l AND 0xF) :: u8)"
      by (rule bit_word_eqI) (auto simp: mask_numerals bit_simps)
    ultimately show ?thesis by simp
  qed
  show ?thesis unfolding nib by (rule bit_word_eqI) (auto simp: bit_le32 mask_numerals bit_simps)
qed

lemma small_limit: "(l :: u32) \<le> 65536 \<Longrightarrow> take_bit 20 l = l"
  by (simp add: word_unat_eq_iff unsigned_take_bit_eq word_le_nat_alt take_bit_nat_eq_self)

lemma page_limit:
  assumes "(l :: u32) AND 0xFFF = 0xFFF"
  shows "push_bit 12 (take_bit 20 (drop_bit 12 l)) OR 0xFFF = l"
proof -
  have low: "bit l n" if "n < 12" for n
  proof -
    have "bit (l AND 0xFFF) n" unfolding assms using that by (simp add: mask_numerals bit_simps)
    then show ?thesis by (simp add: bit_simps)
  qed
  show ?thesis
  proof (rule bit_word_eqI)
    fix n assume "n < LENGTH(32)"
    then show "bit (push_bit 12 (take_bit 20 (drop_bit 12 l)) OR 0xFFF) n = bit l n"
      using low [of n] by (cases "n < 12") (auto simp: mask_numerals bit_simps)
  qed
qed

definition encodable :: "gdt \<Rightarrow> bool" where
  "encodable g \<longleftrightarrow> g_limit g \<le> 65536 \<or> g_limit g AND 0xFFF = 0xFFF"

lemma gdt_encode_ok:
  assumes "length target \<ge> 8" and True: "encodable g"
  shows "\<exists>t. gdt_encode target g = ret t \<and> length t = length target \<and> segment_base t = g_base g \<and>
      segment_limit t = g_limit g \<and> t ! 5 = g_type g \<and> bit (t ! 6) 6"
proof -
  define big where "big \<longleftrightarrow> g_limit g > 65536"
  define l where "l = (if big then drop_bit 12 (g_limit g) else g_limit g)"
  define c where "c = (if big then 0xC0 else 0x40 :: u8)"
  let ?nib = "ucast (drop_bit 16 l AND 0xF) :: u8"
  have "c AND 0xF = 0" by (simp add: c_def)
  moreover have "bit c 6" "bit c 7 = big" "\<not> bit ?nib 7" by (simp_all add: c_def mask_numerals bit_simps)
  ultimately have c: "c AND 0xF = 0" "bit c 6" "bit c 7 = big" "\<not> bit ?nib 7" by blast+
  have wide: "target \<noteq> []" "Suc 0 < length target" "2 < length target" "3 < length target" "4 < length target"
    "5 < length target" "6 < length target" "7 < length target" using assms(1) by auto
  define t where "t = target[6 := c, 0 := ucast (l AND 0xFF), 1 := ucast (drop_bit 8 l AND 0xFF), 6 := c OR ?nib,
    2 := ucast (g_base g AND 0xFF), 3 := ucast (drop_bit 8 (g_base g) AND 0xFF), 4 := ucast (drop_bit 16 (g_base g) AND 0xFF),
    7 := ucast (drop_bit 24 (g_base g) AND 0xFF), 5 := g_type g]"
  have enc: "gdt_encode target g = ret t"
    using True assms(1) unfolding gdt_encode_def t_def Let_def big_def [symmetric] l_def [symmetric] c_def [symmetric]
    by (auto simp: encodable_def big_def wide)
  have bytes: "t ! 0 = ucast (l AND 0xFF)" "t ! 1 = ucast (drop_bit 8 l AND 0xFF)" "t ! 2 = ucast (g_base g AND 0xFF)"
    "t ! 3 = ucast (drop_bit 8 (g_base g) AND 0xFF)" "t ! 4 = ucast (drop_bit 16 (g_base g) AND 0xFF)" "t ! 5 = g_type g"
    "t ! 6 = c OR ?nib" "t ! 7 = ucast (drop_bit 24 (g_base g) AND 0xFF)" "length t = length target"
    by (simp_all add: t_def wide)
  have "segment_base t = g_base g" by (simp only: segment_base_def bytes segment_base_bytes)
  moreover have "segment_limit t = g_limit g"
  proof -
    have "segment_limit t = (if big then push_bit 12 (take_bit 20 l) OR 0xFFF else take_bit 20 l)"
      unfolding segment_limit_def bytes limit_bytes [OF c(1)] Let_def using c(3,4) by (simp add: bit_or_iff)
    then show ?thesis using True small_limit [of "g_limit g"] page_limit [of "g_limit g"]
      by (auto simp: l_def big_def encodable_def)
  qed
  moreover have "bit (t ! 6) 6" using c(2) by (simp add: bytes bit_or_iff)
  ultimately show ?thesis using True enc bytes by auto
qed

lemma init_gdt_ok:
  "\<exists>s. init_gdt tss_addr gdt_addr = ret s \<and> length (gdt_table s) = 10 \<and>
    (\<forall>i < 4. segment_base (gdt_table s ! i) = g_base (gdt_entries tss_addr ! i) \<and>
       segment_limit (gdt_table s ! i) = g_limit (gdt_entries tss_addr ! i) \<and>
       gdt_table s ! i ! 5 = g_type (gdt_entries tss_addr ! i))"
proof -
  let ?f = "\<lambda>i table. run_bind (gdt_encode (table ! i) (gdt_entries tss_addr ! i)) (\<lambda>e. ret (table[i := e]))"
  let ?ok = "\<lambda>table i. segment_base (table ! i) = g_base (gdt_entries tss_addr ! i) \<and>
      segment_limit (table ! i) = g_limit (gdt_entries tss_addr ! i) \<and> table ! i ! 5 = g_type (gdt_entries tss_addr ! i)"
  let ?P = "\<lambda>n table. length table = 10 \<and> (\<forall>e \<in> set table. length e = 8) \<and> (\<forall>i < n. ?ok table i)"
  have enc: "encodable (gdt_entries tss_addr ! i)" if "i < 4" for i
  proof -
    have "i = 0 \<or> i = 1 \<or> i = 2 \<or> i = 3" using that by auto
    then show ?thesis by (auto simp: encodable_def gdt_entries_def sizeof_tss_def)
  qed
  have "\<exists>t'. run_for [0..<4] ?f (replicate 10 (replicate 8 0)) = ret t' \<and> ?P 4 t'"
  proof (rule run_for_upt)
    fix i and table :: "u8 list list"
    assume i: "i < 4" and P: "?P i table"
    then have len: "length (table ! i) = 8" by simp
    obtain t where "gdt_encode (table ! i) (gdt_entries tss_addr ! i) = ret t" "length t = 8"
      "segment_base t = g_base (gdt_entries tss_addr ! i)" "segment_limit t = g_limit (gdt_entries tss_addr ! i)"
      "t ! 5 = g_type (gdt_entries tss_addr ! i)"
      using gdt_encode_ok [of "table ! i", OF _ enc [OF i]] len by auto
    then show "\<exists>t'. ?f i table = ret t' \<and> ?P (Suc i) t'"
      using P i by (auto simp: nth_list_update less_Suc_eq dest!: subsetD [OF set_update_subset_insert])
  qed simp_all
  then show ?thesis by (auto simp: init_gdt_def Let_def)
qed

text \<open>C32: \<open>gdt_encode\<close> stops the kernel exactly for the limits it cannot express (above 64 KiB and
  not the end of a page); for every other segment the processor reads back from the encoded
  descriptor exactly the base, the limit and the access byte it was given, as a 32-bit segment.\<close>

theorem gdt_encode_decode:
  assumes "length target \<ge> 8"
  shows "if encodable g then \<exists>t. gdt_encode target g = ret t \<and> length t = length target \<and> segment_base t = g_base g \<and>
      segment_limit t = g_limit g \<and> t ! 5 = g_type g \<and> bit (t ! 6) 6
    else gdt_encode target g = goes_wrong (Panic ''Invalid GDT limit'')"
  using gdt_encode_ok [OF assms] assms by (auto simp: encodable_def gdt_encode_def)

theorem gdt_encode_decode_witness:
  "\<exists>t. gdt_encode (replicate 8 7) \<lparr>g_base = 0x12345678, g_limit = 0xABCDEFFF, g_type = 0x9A\<rparr> = ret t \<and>
     segment_base t = 0x12345678 \<and> segment_limit t = 0xABCDEFFF \<and> t ! 5 = 0x9A"
  using gdt_encode_decode [of "replicate 8 7" "\<lparr>g_base = 0x12345678, g_limit = 0xABCDEFFF, g_type = 0x9A\<rparr>"]
  by (auto simp: encodable_def)

section \<open>Gates\<close>

lemma idt_fill_gate:
  "gate_target (idt_fill sel a ty p) = a" "gate_present (idt_fill sel a ty p)" "gate_dpl (idt_fill sel a ty p) = 0"
proof -
  show "gate_target (idt_fill sel a ty p) = a"
    by (rule bit_word_eqI) (auto simp: gate_target_def idt_fill_def mask_numerals bit_simps)
  show "gate_present (idt_fill sel a ty p)" "gate_dpl (idt_fill sel a ty p) = 0"
    by (simp_all add: gate_present_def gate_dpl_def idt_fill_def bit_simps)
qed

lemma idt_encode_gate: "gate_target (idt_encode a sel ty) = a"
  by (rule bit_word_eqI) (auto simp: gate_target_def idt_encode_def mask_numerals bit_simps)

end
