(* ===== verification/Port_Io.thy ===== *)
theory Port_Io
  imports Ikaros_Base
begin

text \<open>
  The port instructions of \<^verbatim>\<open>libc/arch/i386/include/sys/io.h\<close>. The devices behind the ports are an
  argument: a \<open>bus\<close> says what each \<open>in\<close> instruction reads from the state \<open>'c\<close> of the hardware and
  how each instruction changes it. The variants with suffix \<open>_p\<close> write the accumulator to port
  \<open>0x80\<close> afterwards.
\<close>

record 'c bus =
  in8 :: "u16 \<Rightarrow> 'c \<Rightarrow> u8 \<times> 'c"
  in16 :: "u16 \<Rightarrow> 'c \<Rightarrow> u16 \<times> 'c"
  in32 :: "u16 \<Rightarrow> 'c \<Rightarrow> u32 \<times> 'c"
  out8 :: "u16 \<Rightarrow> u8 \<Rightarrow> 'c \<Rightarrow> 'c"
  out16 :: "u16 \<Rightarrow> u16 \<Rightarrow> 'c \<Rightarrow> 'c"
  out32 :: "u16 \<Rightarrow> u32 \<Rightarrow> 'c \<Rightarrow> 'c"

definition outb :: "'c bus \<Rightarrow> u16 \<Rightarrow> u8 \<Rightarrow> 'c \<Rightarrow> 'c" where
  "outb b port v c = out8 b port v c"

definition outb_p :: "'c bus \<Rightarrow> u16 \<Rightarrow> u8 \<Rightarrow> 'c \<Rightarrow> 'c" where
  "outb_p b port v c = out8 b 0x80 v (out8 b port v c)"

definition outw :: "'c bus \<Rightarrow> u16 \<Rightarrow> u16 \<Rightarrow> 'c \<Rightarrow> 'c" where
  "outw b port v c = out16 b port v c"

definition outw_p :: "'c bus \<Rightarrow> u16 \<Rightarrow> u16 \<Rightarrow> 'c \<Rightarrow> 'c" where
  "outw_p b port v c = out8 b 0x80 (ucast v) (out16 b port v c)"

definition outl :: "'c bus \<Rightarrow> u16 \<Rightarrow> u32 \<Rightarrow> 'c \<Rightarrow> 'c" where
  "outl b port v c = out32 b port v c"

definition outl_p :: "'c bus \<Rightarrow> u16 \<Rightarrow> u32 \<Rightarrow> 'c \<Rightarrow> 'c" where
  "outl_p b port v c = out8 b 0x80 (ucast v) (out32 b port v c)"

definition inb :: "'c bus \<Rightarrow> u16 \<Rightarrow> 'c \<Rightarrow> u8 \<times> 'c" where
  "inb b port c = in8 b port c"

definition inb_p :: "'c bus \<Rightarrow> u16 \<Rightarrow> 'c \<Rightarrow> u8 \<times> 'c" where
  "inb_p b port c = (let (v, c) = in8 b port c in (v, out8 b 0x80 v c))"

definition inw :: "'c bus \<Rightarrow> u16 \<Rightarrow> 'c \<Rightarrow> u16 \<times> 'c" where
  "inw b port c = in16 b port c"

definition inw_p :: "'c bus \<Rightarrow> u16 \<Rightarrow> 'c \<Rightarrow> u16 \<times> 'c" where
  "inw_p b port c = (let (v, c) = in16 b port c in (v, out8 b 0x80 (ucast v) c))"

definition inl :: "'c bus \<Rightarrow> u16 \<Rightarrow> 'c \<Rightarrow> u32 \<times> 'c" where
  "inl b port c = in32 b port c"

definition inl_p :: "'c bus \<Rightarrow> u16 \<Rightarrow> 'c \<Rightarrow> u32 \<times> 'c" where
  "inl_p b port c = (let (v, c) = in32 b port c in (v, out8 b 0x80 (ucast v) c))"

text \<open>The string instructions move \<open>len\<close> items between a port and an array; the array is the list
  of its items.\<close>

fun repeat_in :: "('c \<Rightarrow> 'w \<times> 'c) \<Rightarrow> nat \<Rightarrow> 'c \<Rightarrow> 'w list \<times> 'c" where
  "repeat_in rd 0 c = ([], c)"
| "repeat_in rd (Suc n) c = (let (v, c) = rd c; (vs, c) = repeat_in rd n c in (v # vs, c))"

definition insb :: "'c bus \<Rightarrow> u16 \<Rightarrow> nat \<Rightarrow> 'c \<Rightarrow> u8 list \<times> 'c" where
  "insb b port len c = repeat_in (in8 b port) len c"

definition insw :: "'c bus \<Rightarrow> u16 \<Rightarrow> nat \<Rightarrow> 'c \<Rightarrow> u16 list \<times> 'c" where
  "insw b port len c = repeat_in (in16 b port) len c"

definition insl :: "'c bus \<Rightarrow> u16 \<Rightarrow> nat \<Rightarrow> 'c \<Rightarrow> u32 list \<times> 'c" where
  "insl b port len c = repeat_in (in32 b port) len c"

definition outsb :: "'c bus \<Rightarrow> u16 \<Rightarrow> u8 list \<Rightarrow> 'c \<Rightarrow> 'c" where
  "outsb b port vs c = fold (out8 b port) vs c"

definition outsw :: "'c bus \<Rightarrow> u16 \<Rightarrow> u16 list \<Rightarrow> 'c \<Rightarrow> 'c" where
  "outsw b port vs c = fold (out16 b port) vs c"

definition outsl :: "'c bus \<Rightarrow> u16 \<Rightarrow> u32 list \<Rightarrow> 'c \<Rightarrow> 'c" where
  "outsl b port vs c = fold (out32 b port) vs c"

definition io_wait :: "'c bus \<Rightarrow> 'c \<Rightarrow> 'c" where
  "io_wait b c = out8 b 0x80 0 c"

lemma repeat_in_length: "length (fst (repeat_in rd n c)) = n"
  by (induction n arbitrary: c) (auto simp: split_def Let_def)

end
