(* ===== verification/Keyboard.thy ===== *)
theory Keyboard
  imports Tasks Port_Io
begin

text \<open>
  The keyboard: key codes, modifiers and the ring of recent keys (\<^verbatim>\<open>input/keyboard.c\<close>) and the
  PS/2 driver that assembles scan codes into key codes (\<^verbatim>\<open>drivers/keyboard/at_keyboard.c\<close>). A reader
  waits on \<open>key_wait_queue\<close> with the macro \<open>WAIT_EVENT_INTERRUPTIBLE\<close>; \<open>kb_getkey\<close> is cut into the
  pieces between which the keyboard interrupt can strike. The queue operations are those of
  \<^verbatim>\<open>Tasks\<close>, applied to the head \<open>key_wait_queue\<close>. The keyboard controller is the \<open>bus\<close> argument.
\<close>

section \<open>Key codes and modifiers\<close>

definition KEY_RING_SIZE :: nat where
  "KEY_RING_SIZE = 128"

definition KEY_MODIFIER_SHIFT :: u8 where
  "KEY_MODIFIER_SHIFT = 1"

definition KEY_MODIFIER_CTRL :: u8 where
  "KEY_MODIFIER_CTRL = 2"

definition KEY_MODIFIER_ALT :: u8 where
  "KEY_MODIFIER_ALT = 4"

definition KEY_MODIFIER_ALT_GR :: u8 where
  "KEY_MODIFIER_ALT_GR = 8"

definition KEY_MODIFIER_CAPS :: u8 where
  "KEY_MODIFIER_CAPS = 16"

record kb =
  key_ring_index :: u16
  key_ring :: "u16 list"
  key_modifiers :: u8
  key_wait_queue :: "wptr option"

text \<open>A character table: the given entries, then zeros up to 256.\<close>

definition char_table :: "u8 list \<Rightarrow> u8 list" where
  "char_table xs = xs @ replicate (256 - length xs) 0"

definition ascii :: "string \<Rightarrow> u8 list" where
  "ascii = map of_char"

definition plain_map :: "u8 list" where
  "plain_map = char_table ([0, 27] @ ascii ''1234567890-='' @ [8, 9] @ ascii ''qwertyuiop[]'' @ [13, 0] @
     ascii ''asdfghjkl;'' @ [39, 96, 0, 92] @ ascii ''zxcvbnm,./'' @ [0] @ ascii ''*'' @ [0] @ ascii '' '')"

definition shift_map :: "u8 list" where
  "shift_map = char_table ([0, 0] @ ascii ''!@#$%^&*()_+'' @ [0, 0] @ ascii ''QWERTYUIOP{}'' @ [0, 0] @
     ascii ''ASDFGHJKL:'' @ [34, 126, 0, 124] @ ascii ''ZXCVBNM<>?'' @ [0] @ ascii ''*'')"

definition altgr_map :: "u8 list" where
  "altgr_map = char_table ([0, 0, 0] @ ascii ''@'' @ [0] @ ascii ''$'' @ [0, 0] @ ascii ''{[]}'')"

definition kb_map :: "u16 \<Rightarrow> u8 \<Rightarrow> u8" where
  "kb_map code mods =
     (let x = (if mods AND KEY_MODIFIER_SHIFT \<noteq> 0 then shift_map ! unat (code AND 0xFF)
               else if mods AND (KEY_MODIFIER_ALT_GR OR KEY_MODIFIER_ALT) \<noteq> 0 then altgr_map ! unat (code AND 0xFF)
               else plain_map ! unat (code AND 0xFF))
      in if mods AND KEY_MODIFIER_CAPS \<noteq> 0 then
           if of_char (CHR ''a'') \<le> x \<and> x \<le> of_char (CHR ''z'') then x - 32
           else if of_char (CHR ''A'') \<le> x \<and> x \<le> of_char (CHR ''Z'') then x + 32
           else x
         else x)"

definition kb_ring_idx :: "kb \<Rightarrow> u8" where
  "kb_ring_idx k = ucast (key_ring_index k)"

definition kb_getmods :: "kb \<Rightarrow> u8" where
  "kb_getmods k = key_modifiers k"

text \<open>Setting and clearing a modifier on the press and the release of its key.\<close>

definition set_modifier :: "bool \<Rightarrow> u8 \<Rightarrow> u8 \<Rightarrow> u8" where
  "set_modifier released m mods = (if released then mods AND NOT m else mods OR m)"

definition caps_toggle :: "bool \<Rightarrow> u8 \<Rightarrow> u8" where
  "caps_toggle released mods =
     (if released then
        if mods AND KEY_MODIFIER_CAPS \<noteq> 0 then mods AND NOT KEY_MODIFIER_CAPS else mods OR KEY_MODIFIER_CAPS
      else mods)"

definition update_modifiers :: "u16 \<Rightarrow> bool \<Rightarrow> u8 \<Rightarrow> u8" where
  "update_modifiers key released mods =
     (let mods = (if key = 58 then caps_toggle released mods else mods)
      in if key = 29 \<or> key = 97 then set_modifier released KEY_MODIFIER_CTRL mods
         else if key = 42 \<or> key = 54 then set_modifier released KEY_MODIFIER_SHIFT mods
         else if key = 56 then set_modifier released KEY_MODIFIER_ALT mods
         else if key = 100 then set_modifier released KEY_MODIFIER_ALT_GR mods
         else mods)"

text \<open>What \<open>__kb_emit_keycode\<close> does under the lock; then it wakes the readers.\<close>

definition kb_record_key :: "u16 \<Rightarrow> kb \<Rightarrow> kb run" where
  "kb_record_key keycode k =
     (let released = drop_bit 8 keycode;
          key = keycode AND 0xFF;
          mods = update_modifiers key (released \<noteq> 0) (key_modifiers k);
          idx = (key_ring_index k + 1) mod 128
      in if unat idx < length (key_ring k) then
           ret (k\<lparr>key_modifiers := mods, key_ring_index := idx, key_ring := (key_ring k)[unat idx := keycode]\<rparr>)
         else goes_wrong Out_of_bounds)"

text \<open>An operation of \<^verbatim>\<open>wait.c\<close> on the queue head \<open>key_wait_queue\<close>.\<close>

definition on_key_queue :: "(sched \<Rightarrow> sched run) \<Rightarrow> kb \<Rightarrow> sched \<Rightarrow> (kb \<times> sched) run" where
  "on_key_queue f k s =
     run_bind (f (s\<lparr>timer_queue := key_wait_queue k\<rparr>)) (\<lambda>s'.
       ret (k\<lparr>key_wait_queue := timer_queue s'\<rparr>, s'\<lparr>timer_queue := timer_queue s\<rparr>))"

definition kb_emit_keycode :: "u16 \<Rightarrow> kb \<Rightarrow> sched \<Rightarrow> (kb \<times> sched) run" where
  "kb_emit_keycode keycode k s =
     run_bind (kb_record_key keycode k) (\<lambda>k.
       on_key_queue (\<lambda>s. map_option Inr (wait_wake_up_interruptible s)) k s)"

definition kb_early_init :: "kb \<Rightarrow> kb" where
  "kb_early_init k = k\<lparr>key_ring_index := 0, key_modifiers := 0, key_wait_queue := None\<rparr>"

section \<open>Readers\<close>

text \<open>
  Where a task is in \<open>kb_getkey\<close>: before the first look at the ring, behind it, in the loop of
  the macro before and behind \<open>wait_prepare_to_wait\<close>, about to read the ring, done. The numbers
  are \<open>tmp\<close> and \<open>cmp\<close>.
\<close>

datatype getkey = GK_Start | GK_First u8 | GK_Loop u8 | GK_Prepared u8 | GK_Return u8 | GK_Done u16

definition kb_getkey :: "tptr \<Rightarrow> getkey \<Rightarrow> kb \<Rightarrow> sched \<Rightarrow> (getkey \<times> kb \<times> sched) run" where
  "kb_getkey r ph k s = (case ph of
     GK_Start \<Rightarrow> ret (GK_First (kb_ring_idx k), k, s)
   | GK_First tmp \<Rightarrow>
       (let cmp = kb_ring_idx k
        in if cmp \<noteq> tmp then ret (GK_Return cmp, k, s)
           else run_bind (wait_init r s) (\<lambda>s. ret (GK_Loop tmp, k, s)))
   | GK_Loop tmp \<Rightarrow>
       run_bind (on_key_queue (wait_prepare_to_wait r TASK_INTERRUPTIBLE) k s) (\<lambda>(k, s). ret (GK_Prepared tmp, k, s))
   | GK_Prepared tmp \<Rightarrow>
       (let cmp = kb_ring_idx k
        in if cmp \<noteq> tmp then
             run_bind (on_key_queue (wait_finish r) k s) (\<lambda>(k, s). ret (GK_Return cmp, k, s))
           else if task_signal_pending (running_task s) = 0 then
             run_bind (scheduler_yield s) (\<lambda>s. ret (GK_Loop tmp, k, s))
           else ret (GK_Loop tmp, k, s))
   | GK_Return cmp \<Rightarrow>
       if unat cmp < length (key_ring k) then ret (GK_Done (key_ring k ! unat cmp), k, s)
       else goes_wrong Out_of_bounds
   | GK_Done key \<Rightarrow> ret (GK_Done key, k, s))"

text \<open>\<open>kb_getch\<close> over what \<open>kb_getkey\<close> and \<open>kb_getmods\<close> return in its successive rounds; \<open>None\<close> when
  it still waits after them.\<close>

fun kb_getch :: "(u16 \<times> u8) list \<Rightarrow> u8 option" where
  "kb_getch [] = None"
| "kb_getch ((key, mods) # rounds) =
     (let state = drop_bit 8 (key AND 0xFF00);
          ch = kb_map (key AND 0xFF) mods
      in if state = 0 \<and> ch \<noteq> 0 then Some ch else kb_getch rounds)"

text \<open>\<open>console_getch\<close> returns the character as an \<open>int\<close>.\<close>

definition console_getch :: "(u16 \<times> u8) list \<Rightarrow> int option" where
  "console_getch rounds = map_option sint (kb_getch rounds)"

section \<open>Scan codes\<close>

definition MAX_SCANCODE_SEQUENCE :: nat where
  "MAX_SCANCODE_SEQUENCE = 16"

record ps2_keyboard =
  ps2_next :: "nat option"
  scancode_buffer :: "u8 list"
  scancode_index :: u8
  scancode_set :: u8

definition basemap_at2_lo :: "u8 list" where
  "basemap_at2_lo =
    [0, 67, 0, 63, 61, 59, 60, 88, 0, 68, 66, 64, 62, 15, 41, 0,
     0, 56, 42, 0, 29, 16, 2, 0, 0, 0, 44, 31, 30, 17, 3, 0,
     0, 46, 45, 32, 18, 5, 4, 0, 0, 57, 47, 33, 20, 19, 6, 0,
     0, 49, 48, 35, 34, 21, 7, 0, 0, 0, 50, 36, 22, 8, 9, 0,
     0, 51, 37, 23, 24, 11, 10, 0, 0, 52, 53, 38, 39, 25, 12, 0,
     0, 0, 40, 0, 26, 13, 0, 0, 58, 54, 28, 27, 0, 43, 0, 0,
     0, 0, 0, 0, 0, 0, 14, 0, 0, 79, 0, 75, 71, 0, 0, 0,
     82, 83, 80, 76, 77, 72, 1, 69, 87, 78, 81, 74, 55, 73, 70, 0]"

definition basemap_at2_hi :: "u8 list" where
  "basemap_at2_hi =
    [0, 0, 0, 65, 0, 0, 0, 0, 0, 0, 0, 0, 0, 0, 0, 0] @ replicate 112 0"

definition basemap_at2 :: "u8 list" where
  "basemap_at2 = basemap_at2_lo @ basemap_at2_hi"

text \<open>The tables of extended keys hold zeros only.\<close>

definition exmap_at2_lo :: "u8 list" where
  "exmap_at2_lo = replicate 128 0"

definition exmap_at2_hi :: "u8 list" where
  "exmap_at2_hi = replicate 128 0"

definition exmap_at2 :: "u8 list" where
  "exmap_at2 = exmap_at2_lo @ exmap_at2_hi"

definition exmap_at1 :: "u16 list" where
  "exmap_at1 = replicate 256 0"

definition kb_map_scancode_at2 :: "u8 list \<Rightarrow> u16" where
  "kb_map_scancode_at2 sc =
     (if sc ! 0 = 0xE1 then 0
      else if sc ! 0 = 0xE0 then
        if sc ! 1 = 0xF0 then ucast (exmap_at2 ! unat (sc ! 2)) OR push_bit 8 1
        else ucast (exmap_at2 ! unat (sc ! 1))
      else if sc ! 0 = 0xF0 then ucast (basemap_at2 ! unat (sc ! 1)) OR push_bit 8 1
      else ucast (basemap_at2 ! unat (sc ! 0)))"

definition kb_scancode_sequence_complete_at2 :: "u8 list \<Rightarrow> u8 \<Rightarrow> bool" where
  "kb_scancode_sequence_complete_at2 sc len =
     (if sc ! 0 = 0xE1 then len = 8
      else if sc ! 0 = 0xE0 then
        if len = 1 then False
        else if sc ! 1 = 0xF0 then len = 3
        else len = 2
      else if sc ! 0 = 0xF0 then len = 2
      else len = 1)"

definition kb_map_scancode_at1 :: "u8 list \<Rightarrow> u16" where
  "kb_map_scancode_at1 sc =
     (if sc ! 0 = 0xE1 then 119
      else if sc ! 0 = 0xE0 then
        if sc ! 1 = 0x2A then 99
        else if sc ! 1 = 0xB7 then 99 OR push_bit 8 1
        else exmap_at1 ! unat (sc ! 1)
      else if sc ! 0 > 128 then ucast (sc ! 0 - 128) OR push_bit 8 1
      else ucast (sc ! 0))"

definition kb_scancode_sequence_complete_at1 :: "u8 list \<Rightarrow> u8 \<Rightarrow> bool" where
  "kb_scancode_sequence_complete_at1 sc len =
     (if sc ! 0 = 0xE1 then len = 6
      else if sc ! 0 = 0xE0 \<and> len > 1 then
        if sc ! 1 = 0x2A \<or> sc ! 1 = 0xB7 then len = 4 else len = 2
      else len = 1)"

text \<open>When the sequence is complete its key code is emitted and the buffer starts over.\<close>

definition emit_sequence :: "(u8 list \<Rightarrow> u8 \<Rightarrow> bool) \<Rightarrow> (u8 list \<Rightarrow> u16) \<Rightarrow> ps2_keyboard \<Rightarrow> kb \<Rightarrow> sched \<Rightarrow>
    (ps2_keyboard \<times> kb \<times> sched) run" where
  "emit_sequence complete decode p k s =
     (if complete (scancode_buffer p) (scancode_index p) then
        run_bind (kb_emit_keycode (decode (scancode_buffer p)) k s) (\<lambda>(k, s). ret (p\<lparr>scancode_index := 0\<rparr>, k, s))
      else ret (p, k, s))"

definition kb_add_scancode_seq :: "u8 \<Rightarrow> ps2_keyboard \<Rightarrow> kb \<Rightarrow> sched \<Rightarrow> (ps2_keyboard \<times> kb \<times> sched) run" where
  "kb_add_scancode_seq scancode p k s =
     (if unat (scancode_index p) < length (scancode_buffer p) then
        let p = p\<lparr>scancode_buffer := (scancode_buffer p)[unat (scancode_index p) := scancode],
                  scancode_index := scancode_index p + 1\<rparr>
        in if scancode_set p = 0 then emit_sequence kb_scancode_sequence_complete_at1 kb_map_scancode_at1 p k s
           else if scancode_set p = 1 then emit_sequence kb_scancode_sequence_complete_at2 kb_map_scancode_at2 p k s
           else ret (p, k, s)
      else goes_wrong Out_of_bounds)"

text \<open>The interrupt handler: as long as the controller has a byte, take it. \<open>keyboards\<close> is \<open>NULL\<close>
  until \<open>init_at_keyboard\<close> has run.\<close>

partial_function (option) keyboard_handler ::
  "'c bus \<Rightarrow> ps2_keyboard option \<Rightarrow> kb \<Rightarrow> sched \<Rightarrow> 'c \<Rightarrow> (ps2_keyboard option \<times> kb \<times> sched \<times> 'c) run" where
  "keyboard_handler b p k s c =
     (let (status, c) = inb_p b 0x64 c
      in if status AND 1 = 1 then
           let (scancode, c) = inb_p b 0x60 c
           in (case p of
                 None \<Rightarrow> goes_wrong Null_pointer
               | Some kbd \<Rightarrow> run_bind (kb_add_scancode_seq scancode kbd k s) (\<lambda>(kbd, k, s).
                   keyboard_handler b (Some kbd) k s c))
         else ret (p, k, s, c))"

definition init_ps2_keyboard :: ps2_keyboard where
  "init_ps2_keyboard = \<lparr>ps2_next = None, scancode_buffer = replicate MAX_SCANCODE_SEQUENCE 0, scancode_index = 0, scancode_set = 0\<rparr>"

text \<open>\<open>block\<close> is what \<open>malloc\<close> returned.\<close>

definition init_at_keyboard :: "nat option \<Rightarrow> ps2_keyboard option run" where
  "init_at_keyboard block = (case block of
     None \<Rightarrow> goes_wrong Null_pointer
   | Some _ \<Rightarrow> ret (Some init_ps2_keyboard))"

section \<open>One key code\<close>

definition kb_ok :: "kb \<Rightarrow> bool" where
  "kb_ok k \<longleftrightarrow> length (key_ring k) = KEY_RING_SIZE \<and> key_ring_index k < 128"

definition key_queue :: "kb \<Rightarrow> sched \<Rightarrow> wptr list \<Rightarrow> bool" where
  "key_queue k s ws \<longleftrightarrow> queue (s\<lparr>timer_queue := key_wait_queue k\<rparr>) ws"

definition keyed :: "u16 \<Rightarrow> kb \<Rightarrow> kb" where
  "keyed keycode k =
     (let idx = (key_ring_index k + 1) mod 128
      in k\<lparr>key_modifiers := update_modifiers (keycode AND 0xFF) (drop_bit 8 keycode \<noteq> 0) (key_modifiers k),
           key_ring_index := idx, key_ring := (key_ring k)[unat idx := keycode]\<rparr>)"

lemma ring_idx_less: "(i :: u16) mod 128 < 128"
  by (simp add: word_less_nat_alt unat_mod)

lemma kb_okD: "kb_ok k \<Longrightarrow> unat (key_ring_index k) < 128" "kb_ok k \<Longrightarrow> length (key_ring k) = 128"
  by (simp_all add: kb_ok_def KEY_RING_SIZE_def word_less_nat_alt)

lemma kb_record_key_keyed:
  assumes "kb_ok k"
  shows "kb_record_key c k = ret (keyed c k)" and "kb_ok (keyed c k)"
  using ring_idx_less [of "key_ring_index k + 1"] assms
  by (simp_all add: kb_record_key_def keyed_def kb_ok_def Let_def KEY_RING_SIZE_def word_less_nat_alt)

lemma keyed_simps [simp]:
  "key_wait_queue (keyed c k) = key_wait_queue k"
  "kb_ok (k\<lparr>key_wait_queue := q\<rparr>) = kb_ok k"
  "keyed c (k\<lparr>key_wait_queue := q\<rparr>) = (keyed c k)\<lparr>key_wait_queue := q\<rparr>"
  by (simp_all add: keyed_def kb_ok_def Let_def)

text \<open>The readers in the queue become runnable; everything else of the scheduler stays.\<close>

definition wake_readers :: "wptr set \<Rightarrow> sched \<Rightarrow> sched" where
  "wake_readers ws s = (wake_all ws s)\<lparr>timer_queue := timer_queue s\<rparr>"

lemma wake_readers_sel [simp]:
  "running_task (wake_readers ws s) = running_task s"
  "wait_at (wake_readers ws s) = wait_at s"
  "timer_queue (wake_readers ws s) = timer_queue s"
  "jiffies (wake_readers ws s) = jiffies s"
  "wake_readers {} s = s"
  by (simp_all add: wake_readers_def wake_all_def)

lemma kb_emit_keycode_queue:
  assumes "kb_ok k" and "key_queue k s ws"
  shows "kb_emit_keycode c k s = ret ((keyed c k)\<lparr>key_wait_queue := None\<rparr>, wake_readers (set ws) s)"
    and "key_queue ((keyed c k)\<lparr>key_wait_queue := None\<rparr>) (wake_readers (set ws) s) []"
  using wake_up_queue [of "s\<lparr>timer_queue := key_wait_queue k\<rparr>" ws] assms
  by (simp_all add: kb_emit_keycode_def kb_record_key_keyed on_key_queue_def key_queue_def
      wake_readers_def wake_all_def queue_def cong: if_cong)

section \<open>Assembling scan codes\<close>

text \<open>The prefixes on which the driver waits for more bytes.\<close>

definition ps2_ok :: "ps2_keyboard \<Rightarrow> bool" where
  "ps2_ok p \<longleftrightarrow> length (scancode_buffer p) = MAX_SCANCODE_SEQUENCE \<and>
     (let sc = scancode_buffer p; i = scancode_index p
      in scancode_set p = 0 \<and> (i = 0 \<or> sc ! 0 = 0xE1 \<and> i < 6) \<or>
         scancode_set p = 1 \<and> (i = 0 \<or> sc ! 0 = 0xE1 \<and> i < 8 \<or> sc ! 0 = 0xE0 \<and> i = 1 \<or>
           sc ! 0 = 0xE0 \<and> sc ! 1 = 0xF0 \<and> i = 2 \<or> sc ! 0 = 0xF0 \<and> i = 1))"

lemma ps2_ok_index: "ps2_ok p \<Longrightarrow> unat (scancode_index p) < 8"
  by (auto simp: ps2_ok_def Let_def word_less_nat_alt)

lemma word_inc_less:
  assumes "(i :: u8) < n" and "i + 1 \<noteq> n"
  shows "i + 1 < n"
  using assms unat_inc_less [OF assms(1)] by (metis Suc_lessI word_less_nat_alt word_unat_eq_iff)

lemma ps2_step_ok:
  assumes ok: "ps2_ok p"
    and p': "p' = p\<lparr>scancode_buffer := (scancode_buffer p)[unat (scancode_index p) := x], scancode_index := scancode_index p + 1\<rparr>"
    and pending: "scancode_set p = 0 \<Longrightarrow> \<not> kb_scancode_sequence_complete_at1 (scancode_buffer p') (scancode_index p')"
      "scancode_set p = 1 \<Longrightarrow> \<not> kb_scancode_sequence_complete_at2 (scancode_buffer p') (scancode_index p')"
  shows "ps2_ok p'"
proof -
  have len: "length (scancode_buffer p) = 16" using ok by (simp add: ps2_ok_def MAX_SCANCODE_SEQUENCE_def)
  have later: "(scancode_buffer p)[unat (scancode_index p) := x] ! 0 = scancode_buffer p ! 0"
    if "scancode_index p \<noteq> 0" using that by (simp add: unat_eq_zero)
  show ?thesis
  proof (cases "scancode_index p = 0")
    case True
    then show ?thesis using ok len pending
      by (auto simp: p' ps2_ok_def Let_def MAX_SCANCODE_SEQUENCE_def
          kb_scancode_sequence_complete_at1_def kb_scancode_sequence_complete_at2_def split: if_splits)
  next
    case False
    have at1: "scancode_index p + 1 < 6" if "scancode_set p = 0"
      using ok pending(1) [OF that] that False later [OF False] word_inc_less [of "scancode_index p" 6]
      by (auto simp: p' ps2_ok_def Let_def kb_scancode_sequence_complete_at1_def)
    have at2: "scancode_index p + 1 < 8" if "scancode_set p = 1" "scancode_buffer p ! 0 = 0xE1"
      using ok pending(2) [OF that(1)] that False later [OF False] word_inc_less [of "scancode_index p" 8]
      by (auto simp: p' ps2_ok_def Let_def kb_scancode_sequence_complete_at2_def)
    show ?thesis
      using ok len pending later [OF False] at1 at2 False
      by (auto simp: p' ps2_ok_def Let_def MAX_SCANCODE_SEQUENCE_def kb_scancode_sequence_complete_at2_def split: if_splits)
  qed
qed

lemma emit_sequence_ok:
  assumes "kb_ok k" and "key_queue k s ws"
    and "\<not> complete (scancode_buffer p) (scancode_index p) \<Longrightarrow> ps2_ok p"
    and "ps2_ok (p\<lparr>scancode_index := 0\<rparr>)"
  shows "\<exists>p' k' s' ws'. emit_sequence complete decode p k s = ret (p', k', s') \<and> ps2_ok p' \<and>
    scancode_set p' = scancode_set p \<and> kb_ok k' \<and> key_queue k' s' ws' \<and> wait_at s' = wait_at s \<and> timer_queue s' = timer_queue s \<and> jiffies s' = jiffies s"
proof (cases "complete (scancode_buffer p) (scancode_index p)")
  case True
  have "kb_ok ((keyed (decode (scancode_buffer p)) k)\<lparr>key_wait_queue := None\<rparr>)"
    using assms(1) by (simp add: kb_record_key_keyed)
  then show ?thesis
    using True assms(4) kb_emit_keycode_queue [OF assms(1,2)]
    by (fastforce simp: emit_sequence_def)
next
  case False
  then show ?thesis using assms by (auto simp: emit_sequence_def)
qed

lemma kb_add_scancode_seq_ok:
  assumes "ps2_ok p" and "kb_ok k" and "key_queue k s ws"
  shows "\<exists>p' k' s' ws'. kb_add_scancode_seq x p k s = ret (p', k', s') \<and> ps2_ok p' \<and>
    scancode_set p' = scancode_set p \<and> kb_ok k' \<and> key_queue k' s' ws' \<and> wait_at s' = wait_at s \<and> timer_queue s' = timer_queue s \<and> jiffies s' = jiffies s"
proof -
  define p' where p': "p' = p\<lparr>scancode_buffer := (scancode_buffer p)[unat (scancode_index p) := x], scancode_index := scancode_index p + 1\<rparr>"
  have len: "length (scancode_buffer p) = 16" using assms(1) by (simp add: ps2_ok_def MAX_SCANCODE_SEQUENCE_def)
  have set: "scancode_set p = 0 \<or> scancode_set p = 1" using assms(1) by (auto simp: ps2_ok_def Let_def)
  have zero: "ps2_ok (p'\<lparr>scancode_index := 0\<rparr>)"
    using set len by (auto simp: ps2_ok_def p' MAX_SCANCODE_SEQUENCE_def)
  note step = ps2_step_ok [OF assms(1) p']
  have "kb_add_scancode_seq x p k s =
      (if scancode_set p = 0 then emit_sequence kb_scancode_sequence_complete_at1 kb_map_scancode_at1 p' k s
       else emit_sequence kb_scancode_sequence_complete_at2 kb_map_scancode_at2 p' k s)"
    using ps2_ok_index [OF assms(1)] set len by (auto simp: kb_add_scancode_seq_def p' Let_def)
  moreover have "scancode_set p' = scancode_set p" by (simp add: p')
  ultimately show ?thesis
    using set emit_sequence_ok [OF assms(2,3) _ zero] step by (cases "scancode_set p = 0") auto
qed

section \<open>The interrupt handler\<close>

fun feed :: "u8 list \<Rightarrow> ps2_keyboard \<Rightarrow> kb \<Rightarrow> sched \<Rightarrow> (ps2_keyboard \<times> kb \<times> sched) run" where
  "feed [] p k s = ret (p, k, s)"
| "feed (x # xs) p k s = run_bind (kb_add_scancode_seq x p k s) (\<lambda>(p, k, s). feed xs p k s)"

lemma feed_append: "feed (xs @ ys) p k s = run_bind (feed xs p k s) (\<lambda>(p, k, s). feed ys p k s)"
proof (induction xs arbitrary: p k s)
  case Nil
  then show ?case by simp
next
  case (Cons x xs)
  then show ?case by (simp add: run_bind_assoc) (auto simp: run_bind_def split: option.splits sum.splits)
qed

lemma feed_ok:
  assumes "ps2_ok p" and "kb_ok k" and "key_queue k s ws"
  shows "\<exists>p' k' s' ws'. feed xs p k s = ret (p', k', s') \<and> ps2_ok p' \<and>
    scancode_set p' = scancode_set p \<and> kb_ok k' \<and> key_queue k' s' ws' \<and> wait_at s' = wait_at s \<and> timer_queue s' = timer_queue s \<and> jiffies s' = jiffies s"
  using assms
proof (induction xs arbitrary: p k s ws)
  case Nil
  then show ?case by auto
next
  case (Cons x xs)
  obtain p1 k1 s1 ws1 where one: "kb_add_scancode_seq x p k s = ret (p1, k1, s1)" "ps2_ok p1"
    "scancode_set p1 = scancode_set p" "kb_ok k1" "key_queue k1 s1 ws1"
    "wait_at s1 = wait_at s" "timer_queue s1 = timer_queue s" "jiffies s1 = jiffies s"
    using kb_add_scancode_seq_ok [OF Cons.prems] by blast
  with Cons.IH [OF one(2,4,5)] show ?case by auto
qed

text \<open>
  What the driver relies on of the controller: bit 0 of the status port \<open>0x64\<close> says whether a byte
  is pending, the data port \<open>0x60\<close> delivers the pending bytes in order, and neither reading the
  status nor writing to port \<open>0x80\<close> takes one away.
\<close>

definition ps2_controller :: "'c bus \<Rightarrow> ('c \<Rightarrow> u8 list) \<Rightarrow> bool" where
  "ps2_controller b pend \<longleftrightarrow>
     (\<forall>c. (fst (in8 b 0x64 c) AND 1 = 1) = (pend c \<noteq> [])) \<and>
     (\<forall>c. pend (snd (in8 b 0x64 c)) = pend c) \<and>
     (\<forall>c v. pend (out8 b 0x80 v c) = pend c) \<and>
     (\<forall>c x xs. pend c = x # xs \<longrightarrow> fst (in8 b 0x60 c) = x \<and> pend (snd (in8 b 0x60 c)) = xs)"

lemma keyboard_handler_feed:
  assumes ctl: "ps2_controller b pend" and fed: "feed (pend c) p k s = ret (p', k', s')"
  shows "\<exists>c'. keyboard_handler b (Some p) k s c = ret (Some p', k', s', c') \<and> pend c' = []"
  using fed
proof (induction "pend c" arbitrary: p k s c)
  case Nil
  obtain st c1 where st: "in8 b 0x64 c = (st, c1)" by (cases "in8 b 0x64 c")
  have "st AND 1 \<noteq> 1" using ctl Nil.hyps st by (metis ps2_controller_def fst_conv)
  moreover have "pend (out8 b 0x80 st c1) = []" using ctl Nil.hyps st by (metis ps2_controller_def snd_conv)
  ultimately show ?case using Nil by (subst keyboard_handler.simps) (simp add: inb_p_def st)
next
  case (Cons x xs)
  obtain st c1 where st: "in8 b 0x64 c = (st, c1)" by (cases "in8 b 0x64 c")
  define c2 where "c2 = out8 b 0x80 st c1"
  obtain d c3 where d: "in8 b 0x60 c2 = (d, c3)" by (cases "in8 b 0x60 c2")
  have avail: "st AND 1 = 1" using ctl Cons.hyps(2) st by (metis ps2_controller_def fst_conv list.distinct(1))
  have "pend c2 = x # xs" using ctl Cons.hyps(2) st by (metis ps2_controller_def c2_def snd_conv)
  then have "d = x" "pend (out8 b 0x80 d c3) = xs" using ctl d by (metis ps2_controller_def fst_conv, metis ps2_controller_def snd_conv)
  moreover obtain p1 k1 s1 where one: "kb_add_scancode_seq x p k s = ret (p1, k1, s1)" "feed xs p1 k1 s1 = ret (p', k', s')"
    using Cons.prems Cons.hyps(2) [symmetric] by (auto simp: run_bind_ret_iff)
  ultimately obtain c' where "keyboard_handler b (Some p1) k1 s1 (out8 b 0x80 d c3) = ret (Some p', k', s', c')" "pend c' = []"
    using Cons.hyps(1) [of "out8 b 0x80 d c3" p1 k1 s1] by auto
  then show ?case using avail one(1) \<open>d = x\<close>
    by (subst keyboard_handler.simps) (simp add: inb_p_def st d c2_def [symmetric])
qed

lemma keyboard_handler_ok:
  assumes "ps2_controller b pend" and "ps2_ok p" and "kb_ok k" and "key_queue k s ws"
  obtains p' k' s' c' ws' where "keyboard_handler b (Some p) k s c = ret (Some p', k', s', c')" and "pend c' = []"
    and "ps2_ok p'" and "kb_ok k'" and "key_queue k' s' ws'" and "wait_at s' = wait_at s" and "timer_queue s' = timer_queue s"
    and "jiffies s' = jiffies s"
proof -
  obtain p' k' s' ws' where fed: "feed (pend c) p k s = ret (p', k', s')" "ps2_ok p'" "kb_ok k'" "key_queue k' s' ws'"
    "wait_at s' = wait_at s" "timer_queue s' = timer_queue s" "jiffies s' = jiffies s"
    using feed_ok [OF assms(2-4)] by blast
  with keyboard_handler_feed [OF assms(1) fed(1)] that show ?thesis by blast
qed

section \<open>Key strokes\<close>

text \<open>
  The keys of the 101-key keyboard whose scan codes have no prefix byte (escape to keypad full stop, \<open>F11\<close>, \<open>F12\<close>), with the
  codes that the documentation of the PC keyboard gives for them: the make code of set 1, which is also the number the
  kernel uses for the key, and the make code of set 2. The keys with the prefix \<^verbatim>\<open>0xE0\<close> (cursor block, right control and
  alt, keypad enter and slash) and the pause key are not in the table.
\<close>

definition pc_keys :: "(u8 \<times> u8) list" where
  "pc_keys =
    [(0x01, 0x76), (0x02, 0x16), (0x03, 0x1E), (0x04, 0x26), (0x05, 0x25), (0x06, 0x2E), (0x07, 0x36), (0x08, 0x3D),
     (0x09, 0x3E), (0x0A, 0x46), (0x0B, 0x45), (0x0C, 0x4E), (0x0D, 0x55), (0x0E, 0x66), (0x0F, 0x0D), (0x10, 0x15),
     (0x11, 0x1D), (0x12, 0x24), (0x13, 0x2D), (0x14, 0x2C), (0x15, 0x35), (0x16, 0x3C), (0x17, 0x43), (0x18, 0x44),
     (0x19, 0x4D), (0x1A, 0x54), (0x1B, 0x5B), (0x1C, 0x5A), (0x1D, 0x14), (0x1E, 0x1C), (0x1F, 0x1B), (0x20, 0x23),
     (0x21, 0x2B), (0x22, 0x34), (0x23, 0x33), (0x24, 0x3B), (0x25, 0x42), (0x26, 0x4B), (0x27, 0x4C), (0x28, 0x52),
     (0x29, 0x0E), (0x2A, 0x12), (0x2B, 0x5D), (0x2C, 0x1A), (0x2D, 0x22), (0x2E, 0x21), (0x2F, 0x2A), (0x30, 0x32),
     (0x31, 0x31), (0x32, 0x3A), (0x33, 0x41), (0x34, 0x49), (0x35, 0x4A), (0x36, 0x59), (0x37, 0x7C), (0x38, 0x11),
     (0x39, 0x29), (0x3A, 0x58), (0x3B, 0x05), (0x3C, 0x06), (0x3D, 0x04), (0x3E, 0x0C), (0x3F, 0x03), (0x40, 0x0B),
     (0x41, 0x83), (0x42, 0x0A), (0x43, 0x01), (0x44, 0x09), (0x45, 0x77), (0x46, 0x7E), (0x47, 0x6C), (0x48, 0x75),
     (0x49, 0x7D), (0x4A, 0x7B), (0x4B, 0x6B), (0x4C, 0x73), (0x4D, 0x74), (0x4E, 0x79), (0x4F, 0x69), (0x50, 0x72),
     (0x51, 0x7A), (0x52, 0x70), (0x53, 0x71), (0x57, 0x78), (0x58, 0x07)]"

text \<open>A key stroke: whether the key was released, and the key. In set 1 a release is the make code plus 128, in set 2 it is the
  make code behind the byte \<^verbatim>\<open>0xF0\<close>.\<close>

type_synonym stroke = "bool \<times> u8"

definition scan_bytes :: "u8 \<Rightarrow> stroke \<Rightarrow> u8 list" where
  "scan_bytes st e = (if st = 0 then [if fst e then snd e + 128 else snd e]
     else let mk = (case map_of pc_keys (snd e) of Some c \<Rightarrow> c | None \<Rightarrow> 0) in if fst e then [0xF0, mk] else [mk])"

definition stroke_ok :: "stroke \<Rightarrow> bool" where
  "stroke_ok e \<longleftrightarrow> snd e \<in> fst ` set pc_keys"

definition stroke_code :: "stroke \<Rightarrow> u16" where
  "stroke_code e = (if fst e then ucast (snd e) OR 0x100 else ucast (snd e))"

text \<open>The tables of the driver agree with the documented codes.\<close>

lemma pc_keys_decode:
  assumes "(x, mk) \<in> set pc_keys"
  shows "basemap_at2 ! unat mk = x" "mk \<noteq> 0xE0" "mk \<noteq> 0xE1" "mk \<noteq> 0xF0" "0 < x" "x < 128" "x \<noteq> 0x60" "x \<noteq> 0x61"
proof -
  have "list_all (\<lambda>(x, mk). basemap_at2 ! unat mk = x \<and> mk \<noteq> 0xE0 \<and> mk \<noteq> 0xE1 \<and> mk \<noteq> 0xF0 \<and> 0 < x \<and> x < 128 \<and> x \<noteq> 0x60 \<and> x \<noteq> 0x61) pc_keys"
    by code_simp
  with assms show "basemap_at2 ! unat mk = x" "mk \<noteq> 0xE0" "mk \<noteq> 0xE1" "mk \<noteq> 0xF0" "0 < x" "x < 128" "x \<noteq> 0x60" "x \<noteq> 0x61"
    by (auto simp: list_all_iff)
qed

lemma stroke_make:
  assumes "stroke_ok e"
  obtains mk where "map_of pc_keys (snd e) = Some mk" and "(snd e, mk) \<in> set pc_keys"
  using assms map_of_SomeD [of pc_keys] by (cases "map_of pc_keys (snd e)") (auto simp: stroke_ok_def map_of_eq_None_iff)

lemma shift_release: "push_bit 8 (1 :: u16) = 0x100"
  by simp

lemma at1_release:
  assumes "0 < (x :: u8)" and "x < 128" and "x \<noteq> 0x60" and "x \<noteq> 0x61"
  shows "x + 128 > 128" and "x + 128 \<noteq> 0xE0" and "x + 128 \<noteq> 0xE1" and "x + 128 - 128 = x"
proof -
  have "unat (x + 128) = unat x + 128" using assms(2) by (subst unat_add_small) (simp_all add: word_less_nat_alt)
  moreover have "unat x \<noteq> 0x60" "unat x \<noteq> 0x61" using assms(3,4) by (auto simp: word_unat_eq_iff)
  ultimately show "x + 128 > 128" "x + 128 \<noteq> 0xE0" "x + 128 \<noteq> 0xE1"
    using assms(1) by (auto simp: word_less_nat_alt word_unat_eq_iff)
qed simp

text \<open>The bytes of one stroke emit exactly its key code.\<close>

definition ready :: "u8 \<Rightarrow> ps2_keyboard \<Rightarrow> bool" where
  "ready st p \<longleftrightarrow> length (scancode_buffer p) = MAX_SCANCODE_SEQUENCE \<and> scancode_index p = 0 \<and> scancode_set p = st"

lemma feed_stroke:
  assumes "ready st p" and "st = 0 \<or> st = 1" and "stroke_ok e"
  shows "\<exists>p'. ready st p' \<and> feed (scan_bytes st e) p k s =
    run_bind (kb_emit_keycode (stroke_code e) k s) (\<lambda>(k, s). ret (p', k, s))"
proof -
  obtain b where b: "length b = 16" "scancode_buffer p = b" using assms(1) by (auto simp: ready_def MAX_SCANCODE_SEQUENCE_def)
  have idx: "scancode_index p = 0" "scancode_set p = st" using assms(1) by (simp_all add: ready_def)
  obtain rel x where e: "e = (rel, x)" by (cases e)
  obtain mk where mk: "map_of pc_keys x = Some mk" "(x, mk) \<in> set pc_keys" using stroke_make [OF assms(3)] e by auto
  note key = pc_keys_decode [OF mk(2)]
  consider (at1) "st = 0" | (make) "st = 1" "\<not> rel" | (break) "st = 1" "rel" using assms(2) by auto
  then show ?thesis
  proof cases
    case at1
    define y where "y = (if rel then x + 128 else x)"
    let ?p = "p\<lparr>scancode_buffer := b[0 := y], scancode_index := 0\<rparr>"
    have x: "0 < x" "x < 128" "rel \<Longrightarrow> x \<noteq> 0x60 \<and> x \<noteq> 0x61" using key by simp_all
    have prefix: "y \<noteq> 0xE0" "y \<noteq> 0xE1" using at1_release(2,3) [OF x(1,2)] x by (auto simp: y_def)
    have code: "kb_map_scancode_at1 (b[0 := y]) = stroke_code e"
      using at1_release [OF x(1,2)] x prefix b(1) at1
      by (auto simp: kb_map_scancode_at1_def stroke_code_def e y_def)
    have "kb_scancode_sequence_complete_at1 (b[0 := y]) 1"
      using prefix b(1) by (simp add: kb_scancode_sequence_complete_at1_def)
    moreover have "scan_bytes st e = [y]" using at1 by (simp add: scan_bytes_def e y_def)
    ultimately have "feed (scan_bytes st e) p k s =
        run_bind (kb_emit_keycode (stroke_code e) k s) (\<lambda>(k, s). ret (?p, k, s))"
      using b idx at1 unfolding code [symmetric]
      by (simp add: kb_add_scancode_seq_def emit_sequence_def Let_def run_bind_assoc)
        (simp add: split_def)
    then show ?thesis using b idx by (intro exI [of _ ?p]) (simp add: ready_def MAX_SCANCODE_SEQUENCE_def)
  next
    case make
    let ?p = "p\<lparr>scancode_buffer := b[0 := mk], scancode_index := 0\<rparr>"
    have x: "mk \<noteq> 0xE0" "mk \<noteq> 0xE1" "mk \<noteq> 0xF0" using key by simp_all
    have code: "kb_map_scancode_at2 (b[0 := mk]) = stroke_code e"
      using x b(1) make by (simp add: kb_map_scancode_at2_def stroke_code_def e key(1))
    have "kb_scancode_sequence_complete_at2 (b[0 := mk]) 1"
      using x b(1) by (simp add: kb_scancode_sequence_complete_at2_def)
    then have "feed (scan_bytes st e) p k s =
        run_bind (kb_emit_keycode (stroke_code e) k s) (\<lambda>(k, s). ret (?p, k, s))"
      using b idx make unfolding code [symmetric]
      by (simp add: scan_bytes_def e mk(1) kb_add_scancode_seq_def emit_sequence_def Let_def run_bind_assoc)
        (simp add: split_def)
    then show ?thesis using b idx by (intro exI [of _ ?p]) (simp add: ready_def MAX_SCANCODE_SEQUENCE_def)
  next
    case break
    let ?p = "p\<lparr>scancode_buffer := b[0 := 0xF0, 1 := mk], scancode_index := 0\<rparr>"
    have code: "kb_map_scancode_at2 (b[0 := 0xF0, 1 := mk]) = stroke_code e"
      using b(1) break by (simp add: kb_map_scancode_at2_def stroke_code_def e key(1))
    have "\<not> kb_scancode_sequence_complete_at2 (b[0 := 0xF0]) 1" "kb_scancode_sequence_complete_at2 (b[0 := 0xF0, 1 := mk]) 2"
      using b(1) by (simp_all add: kb_scancode_sequence_complete_at2_def)
    then have "feed (scan_bytes st e) p k s =
        run_bind (kb_emit_keycode (stroke_code e) k s) (\<lambda>(k, s). ret (?p, k, s))"
      using b idx break unfolding code [symmetric]
      by (simp add: scan_bytes_def e mk(1) kb_add_scancode_seq_def emit_sequence_def Let_def run_bind_assoc)
        (simp add: split_def)
    then show ?thesis using b idx by (intro exI [of _ ?p]) (simp add: ready_def MAX_SCANCODE_SEQUENCE_def)
  qed
qed

lemma feed_strokes:
  assumes "ready st p" and "st = 0 \<or> st = 1" and "\<forall>e \<in> set es. stroke_ok e"
    and "kb_ok k" and "key_queue k s ws"
  shows "\<exists>p' s'. ready st p' \<and> feed (concat (map (scan_bytes st) es)) p k s =
    ret (p', (fold keyed (map stroke_code es) k)\<lparr>key_wait_queue := if es = [] then key_wait_queue k else None\<rparr>, s') \<and>
    s' = (if es = [] then s else wake_readers (set ws) s)"
  using assms
proof (induction es arbitrary: p k s ws)
  case Nil
  then show ?case by simp
next
  case (Cons e es)
  let ?k = "(keyed (stroke_code e) k)\<lparr>key_wait_queue := None\<rparr>" and ?s = "wake_readers (set ws) s"
  obtain p1 where p1: "ready st p1" "feed (scan_bytes st e) p k s = ret (p1, ?k, ?s)"
    using feed_stroke [OF Cons.prems(1,2), of e k s] Cons.prems(3) kb_emit_keycode_queue(1) [OF Cons.prems(4,5)] by auto
  have fold: "fold keyed cs (k\<lparr>key_wait_queue := None\<rparr>) = (fold keyed cs k)\<lparr>key_wait_queue := None\<rparr>" for cs k
    by (induction cs arbitrary: k) simp_all
  have "\<exists>p' s'. ready st p' \<and> feed (concat (map (scan_bytes st) es)) p1 ?k ?s =
      ret (p', (fold keyed (map stroke_code es) ?k)\<lparr>key_wait_queue := if es = [] then key_wait_queue ?k else None\<rparr>, s') \<and>
      s' = (if es = [] then ?s else wake_readers (set []) ?s)"
    by (rule Cons.IH [OF p1(1) Cons.prems(2)])
      (use Cons.prems kb_emit_keycode_queue(2) [OF Cons.prems(4,5)] in \<open>simp_all add: kb_record_key_keyed\<close>)
  then show ?case using p1(2) by (auto simp: feed_append fold)
qed

section \<open>Modifiers and the ring\<close>

lemma mask_bit: "(m AND 2 ^ n \<noteq> (0 :: u8)) = (n < 8 \<and> bit m n)"
proof -
  have "m AND 2 ^ n = (if n < 8 \<and> bit m n then 2 ^ n else 0)"
    by (rule bit_word_eqI) (auto simp: bit_simps)
  then show ?thesis by (auto simp: bit_eq_iff bit_simps)
qed

lemma bit_toggle:
  "n < 8 \<Longrightarrow> bit (if rel then if m AND 2 ^ n \<noteq> 0 then m AND NOT (2 ^ n) else m OR 2 ^ n else m :: u8) i = (bit m i \<noteq> (i = n \<and> rel))"
  unfolding mask_bit by (auto simp: bit_simps dest: bit_imp_le_length)

lemma bit_update_modifiers:
  "bit (update_modifiers key rel m) 0 = (if key = 42 \<or> key = 54 then \<not> rel else bit m 0)"
  "bit (update_modifiers key rel m) 1 = (if key = 29 \<or> key = 97 then \<not> rel else bit m 1)"
  "bit (update_modifiers key rel m) 2 = (if key = 56 then \<not> rel else bit m 2)"
  "bit (update_modifiers key rel m) 3 = (if key = 100 then \<not> rel else bit m 3)"
  "bit (update_modifiers key rel m) 4 = (bit m 4 \<noteq> (key = 58 \<and> rel))"
proof -
  have const: "KEY_MODIFIER_SHIFT = 2 ^ 0" "KEY_MODIFIER_CTRL = 2 ^ 1" "KEY_MODIFIER_ALT = 2 ^ 2"
    "KEY_MODIFIER_ALT_GR = 2 ^ 3" "KEY_MODIFIER_CAPS = 2 ^ 4"
    by (simp_all add: KEY_MODIFIER_SHIFT_def KEY_MODIFIER_CTRL_def KEY_MODIFIER_ALT_def KEY_MODIFIER_ALT_GR_def KEY_MODIFIER_CAPS_def)
  have set: "bit (set_modifier rel (2 ^ n) m) i = (if i = n \<and> n < 8 then \<not> rel else bit m i)" for n i m
    by (auto simp: set_modifier_def bit_simps dest: bit_imp_le_length)
  have sets: "bit (set_modifier rel KEY_MODIFIER_SHIFT m) i = (if i = 0 then \<not> rel else bit m i)"
    "bit (set_modifier rel KEY_MODIFIER_CTRL m) i = (if i = 1 then \<not> rel else bit m i)"
    "bit (set_modifier rel KEY_MODIFIER_ALT m) i = (if i = 2 then \<not> rel else bit m i)"
    "bit (set_modifier rel KEY_MODIFIER_ALT_GR m) i = (if i = 3 then \<not> rel else bit m i)" for m i
    unfolding const set by simp_all
  have caps: "bit (caps_toggle rel m) i = (bit m i \<noteq> (i = 4 \<and> rel))" for i m
    unfolding caps_toggle_def const by (rule bit_toggle) simp
  show "bit (update_modifiers key rel m) 0 = (if key = 42 \<or> key = 54 then \<not> rel else bit m 0)"
    "bit (update_modifiers key rel m) 1 = (if key = 29 \<or> key = 97 then \<not> rel else bit m 1)"
    "bit (update_modifiers key rel m) 2 = (if key = 56 then \<not> rel else bit m 2)"
    "bit (update_modifiers key rel m) 3 = (if key = 100 then \<not> rel else bit m 3)"
    "bit (update_modifiers key rel m) 4 = (bit m 4 \<noteq> (key = 58 \<and> rel))"
    unfolding update_modifiers_def Let_def by (auto simp: sets caps)
qed

text \<open>Whether a modifier is held after a list of events: the last event on its keys \<open>ks\<close> decides.\<close>

definition held :: "u8 set \<Rightarrow> bool \<Rightarrow> (bool \<times> u8) list \<Rightarrow> bool" where
  "held ks before es = (let fs = filter (\<lambda>e. snd e \<in> ks) es in if fs = [] then before else \<not> fst (last fs))"

lemma held_simps [simp]:
  "held ks h [] = h"
  "held ks h (es @ [e]) = (if snd e \<in> ks then \<not> fst e else held ks h es)"
  by (simp_all add: held_def)

definition event_code :: "bool \<times> u8 \<Rightarrow> u16" where
  "event_code e = (if fst e then ucast (snd e) OR 0x100 else ucast (snd e))"

lemma bit_0x100: "bit (0x100 :: u16) n = (n = 8)"
proof -
  have "(0x100 :: u16) = 2 ^ 8" by simp
  then show ?thesis by (simp only: bit_exp_iff) auto
qed

lemma event_code_parts:
  "event_code e AND 0xFF = ucast (snd e)" "(drop_bit 8 (event_code e) \<noteq> 0) = fst e"
proof -
  have mask: "(0xFF :: u16) = mask 8" by (simp add: mask_eq_exp_minus_1)
  show "event_code e AND 0xFF = ucast (snd e)"
    unfolding event_code_def mask
    by (rule bit_word_eqI, cases "fst e", simp_all only: bit_and_iff bit_or_iff bit_0x100 bit_mask_iff bit_unsigned_iff if_True if_False)
      (auto dest: bit_imp_le_length)
  have "drop_bit 8 (event_code e) = (if fst e then 1 else 0)"
    unfolding event_code_def
    by (rule bit_word_eqI, cases "fst e", simp_all only: bit_drop_bit_eq comp_def bit_or_iff bit_0x100 bit_unsigned_iff if_True if_False)
      (auto simp: bit_1_iff dest: bit_imp_le_length)
  then show "(drop_bit 8 (event_code e) \<noteq> 0) = fst e" by simp
qed

lemma ucast_eq_small:
  assumes "n < 256"
  shows "(ucast (x :: u8) = (of_nat n :: u16)) = (x = of_nat n)"
proof -
  have "unat (ucast x :: u16) = unat x" using byte_le [of x] by (simp add: unsigned_ucast_eq take_bit_nat_eq_self)
  moreover have "unat (of_nat n :: u16) = n" "unat (of_nat n :: u8) = n" using assms by (simp_all add: unat_of_nat)
  ultimately show ?thesis by (simp only: word_unat_eq_iff)
qed

lemmas ucast_key_eq = ucast_eq_small [of 42, simplified] ucast_eq_small [of 54, simplified] ucast_eq_small [of 29, simplified]
  ucast_eq_small [of 97, simplified] ucast_eq_small [of 56, simplified] ucast_eq_small [of 100, simplified]
  ucast_eq_small [of 58, simplified]

lemma held_fold:
  assumes "\<And>e m. bit (f e m) n = (if snd e \<in> ks then \<not> fst e else bit m n)"
  shows "bit (fold f es m) n = held ks (bit m n) es"
  by (induction es rule: rev_induct) (simp_all add: assms)

lemma modifiers_of_events:
  fixes es :: "(bool \<times> u8) list" and m :: u8
  defines "f \<equiv> \<lambda>e. update_modifiers (ucast (snd e)) (fst e)"
  shows "bit (fold f es m) 0 = held {42, 54} (bit m 0) es" "bit (fold f es m) 1 = held {29, 97} (bit m 1) es"
    "bit (fold f es m) 2 = held {56} (bit m 2) es" "bit (fold f es m) 3 = held {100} (bit m 3) es"
    "bit (fold f es m) 4 = (bit m 4 \<noteq> odd (count_list es (True, 58)))"
proof -
  show "bit (fold f es m) 0 = held {42, 54} (bit m 0) es"
    by (rule held_fold) (simp only: f_def bit_update_modifiers ucast_key_eq insert_iff empty_iff simp_thms)
  show "bit (fold f es m) 1 = held {29, 97} (bit m 1) es"
    by (rule held_fold) (simp only: f_def bit_update_modifiers ucast_key_eq insert_iff empty_iff simp_thms)
  show "bit (fold f es m) 2 = held {56} (bit m 2) es"
    by (rule held_fold) (simp only: f_def bit_update_modifiers ucast_key_eq insert_iff empty_iff simp_thms)
  show "bit (fold f es m) 3 = held {100} (bit m 3) es"
    by (rule held_fold) (simp only: f_def bit_update_modifiers ucast_key_eq insert_iff empty_iff simp_thms)
  show "bit (fold f es m) 4 = (bit m 4 \<noteq> odd (count_list es (True, 58)))"
    by (induction es rule: rev_induct) (auto simp: f_def bit_update_modifiers ucast_key_eq)
qed

lemma keyed_modifiers:
  "key_modifiers (fold keyed (map event_code es) k) =
    fold (\<lambda>e. update_modifiers (ucast (snd e)) (fst e)) es (key_modifiers k)"
  by (induction es arbitrary: k) (simp_all add: keyed_def Let_def event_code_parts)

lemma keyed_ring:
  assumes "kb_ok k"
  shows "kb_ok (fold keyed cs k)"
    and "unat (key_ring_index (fold keyed cs k)) = (unat (key_ring_index k) + length cs) mod 128"
    and "cs \<noteq> [] \<Longrightarrow> key_ring (fold keyed cs k) ! unat (key_ring_index (fold keyed cs k)) = last cs"
proof -
  have idx: "unat (key_ring_index (keyed c k)) = (unat (key_ring_index k) + 1) mod 128" if "kb_ok k" for c k
  proof -
    have "unat (key_ring_index k + 1) = unat (key_ring_index k) + 1"
      using kb_okD(1) [OF that] by (subst unat_add_small) simp_all
    then show ?thesis by (simp add: keyed_def Let_def unat_mod)
  qed
  have at: "key_ring (keyed c k) ! unat (key_ring_index (keyed c k)) = c" if "kb_ok k" for c k
    using kb_okD(2) [OF that] ring_idx_less [of "key_ring_index k + 1"]
    by (simp add: keyed_def Let_def word_less_nat_alt)
  show ok: "kb_ok (fold keyed cs k)" for cs
    using assms by (induction cs arbitrary: k) (simp_all add: kb_record_key_keyed)
  show "unat (key_ring_index (fold keyed cs k)) = (unat (key_ring_index k) + length cs) mod 128"
    using kb_okD(1) [OF assms] by (induction cs rule: rev_induct) (simp_all add: idx ok mod_Suc_eq)
  show "cs \<noteq> [] \<Longrightarrow> key_ring (fold keyed cs k) ! unat (key_ring_index (fold keyed cs k)) = last cs"
    by (cases cs rule: rev_cases) (simp_all add: at ok)
qed

section \<open>A reader that waits\<close>

lemma kb_ring_idx_unat: "kb_ok k \<Longrightarrow> unat (kb_ring_idx k) = unat (key_ring_index k)"
  using kb_okD(1) [of k] by (simp add: kb_ring_idx_def unsigned_ucast_eq take_bit_nat_eq_self)

lemma ring_round:
  assumes "(u :: nat) < 128"
  shows "(u + n) mod 128 = u \<longleftrightarrow> n mod 128 = 0"
proof -
  define m where "m = n mod 128"
  have "m < 128" by (simp add: m_def)
  moreover have "(u + n) mod 128 = (u + m) mod 128" by (simp add: m_def mod_add_right_eq)
  ultimately have "(u + n) mod 128 = (if u + m < 128 then u + m else u + m - 128)" using assms by (simp add: mod_if)
  then show ?thesis using \<open>m < 128\<close> assms by (auto simp: m_def [symmetric])
qed

text \<open>Interrupts that emit the key codes \<open>cs\<close> one after the other.\<close>

fun emit_all :: "u16 list \<Rightarrow> kb \<Rightarrow> sched \<Rightarrow> (kb \<times> sched) run" where
  "emit_all [] k s = ret (k, s)"
| "emit_all (c # cs) k s = run_bind (kb_emit_keycode c k s) (\<lambda>(k, s). emit_all cs k s)"

lemma emit_all_queue:
  assumes "kb_ok k" and "key_queue k s ws" and "cs \<noteq> []"
  shows "emit_all cs k s = ret ((fold keyed cs k)\<lparr>key_wait_queue := None\<rparr>, wake_readers (set ws) s)"
proof -
  have more: "emit_all cs k s = ret (fold keyed cs k, s)" if "kb_ok k" "key_wait_queue k = None" for cs k s
    using that
  proof (induction cs arbitrary: k)
    case Nil
    then show ?case by simp
  next
    case (Cons c cs)
    have "key_queue k s []" using Cons.prems(2) by (simp add: key_queue_def queue_def)
    from kb_emit_keycode_queue(1) [OF Cons.prems(1) this]
    have "kb_emit_keycode c k s = ret (keyed c k, s)" using Cons.prems(2) by simp
    then show ?case using Cons by (simp add: kb_record_key_keyed)
  qed
  have fold: "fold keyed cs (k\<lparr>key_wait_queue := None\<rparr>) = (fold keyed cs k)\<lparr>key_wait_queue := None\<rparr>" for cs k
    by (induction cs arbitrary: k) simp_all
  obtain c cs' where cs: "cs = c # cs'" using assms(3) by (cases cs) auto
  show ?thesis
    using more [of "(keyed c k)\<lparr>key_wait_queue := None\<rparr>" cs'] kb_emit_keycode_queue(1) [OF assms(1,2), of c] assms(1)
    by (auto simp: cs kb_record_key_keyed fold more)
qed

lemma getkey_after_wake:
  assumes "kb_ok k" and "key_wait_queue k = None" and "running_task s = Some r" and "kb_ring_idx k \<noteq> tmp"
  shows "\<exists>k1 s1 s2. kb_getkey r (GK_Loop tmp) k s = ret (GK_Prepared tmp, k1, s1) \<and>
    kb_getkey r (GK_Prepared tmp) k1 s1 = ret (GK_Return (kb_ring_idx k), k, s2) \<and>
    kb_getkey r (GK_Return (kb_ring_idx k)) k s2 = ret (GK_Done (key_ring k ! unat (key_ring_index k)), k, s2) \<and>
    runnable s2 r \<and> timer_queue s2 = timer_queue s"
proof -
  let ?s = "s\<lparr>timer_queue := None\<rparr>"
  let ?s1 = "wait_add_to_queue r (upd_task r (\<lambda>k. k\<lparr>t_state := TASK_INTERRUPTIBLE\<rparr>) ?s)"
  let ?k1 = "k\<lparr>key_wait_queue := Some r\<rparr>" and ?t1 = "?s1\<lparr>timer_queue := timer_queue s\<rparr>"
  have q1: "timer_queue ?s1 = Some r" "wnext ?s1 r = None" "running_task ?s1 = Some r"
    using assms(3) by (simp_all add: wait_add_to_queue_def)
  have "kb_getkey r (GK_Loop tmp) k s = ret (GK_Prepared tmp, ?k1, ?t1)"
    using assms(2,3) prepare_queue(1) [of ?s "[]" r r TASK_INTERRUPTIBLE] q1(1)
    by (simp add: kb_getkey_def on_key_queue_def queue_def)
  moreover
  let ?s2 = "(upd_task r (\<lambda>k. k\<lparr>t_state := TASK_RUNNING\<rparr>) ?s1)\<lparr>timer_queue := timer_queue s\<rparr>"
  have same: "?t1\<lparr>timer_queue := Some r\<rparr> = ?s1" using q1(1) by simp
  have "wait_finish r ?s1 = ret ((upd_task r (\<lambda>k. k\<lparr>t_state := TASK_RUNNING\<rparr>) ?s1)\<lparr>timer_queue := None\<rparr>)"
    using remove_head [of "upd_task r (\<lambda>k. k\<lparr>t_state := TASK_RUNNING\<rparr>) ?s1" r] q1
    by (simp add: wait_finish_def task_set_state_def)
  then have "kb_getkey r (GK_Prepared tmp) ?k1 ?t1 = ret (GK_Return (kb_ring_idx k), k, ?s2)"
    using assms(2,4) same by (simp add: kb_getkey_def on_key_queue_def kb_ring_idx_def)
  moreover have "kb_getkey r (GK_Return (kb_ring_idx k)) k ?s2 = ret (GK_Done (key_ring k ! unat (key_ring_index k)), k, ?s2)"
    using kb_okD [OF assms(1)] by (simp add: kb_getkey_def kb_ring_idx_unat assms(1))
  moreover have "runnable ?s2 r" by (simp add: runnable_def)
  ultimately show ?thesis by (intro exI [of _ ?k1] exI [of _ ?t1] exI [of _ ?s2]) simp
qed

section \<open>Properties\<close>

text \<open>Whatever bytes the keyboard sends, in either scan code set, the interrupt handler takes all
  pending bytes and returns; it never writes outside the scan code buffer or the key ring, at most
  eight bytes of the buffer are ever in use, and the invariants of driver, ring and wait queue hold
  again afterwards.\<close>

theorem keyboard_handler_safe:
  assumes "ps2_controller b pend" and "ps2_ok p" and "kb_ok k" and "key_queue k s ws"
  shows "\<exists>p' k' s' c' ws'. keyboard_handler b (Some p) k s c = ret (Some p', k', s', c') \<and> pend c' = [] \<and>
    ps2_ok p' \<and> unat (scancode_index p') < 8 \<and> kb_ok k' \<and> key_queue k' s' ws'"
proof -
  from keyboard_handler_ok [OF assms] show ?thesis by (metis ps2_ok_index)
qed


text \<open>C27: A reader asleep in \<open>kb_getkey\<close> is made runnable by the next key codes, and when it runs it
  returns the last of them; but when a multiple of 128 key codes arrives before it runs, it finds
  the ring index unchanged and goes back to sleep.\<close>

theorem kb_getkey_returns_last:
  assumes "kb_ok k" and "key_queue k s ws" and "r \<in> set ws" and "w_task (wait_at s r) = r" and "cs \<noteq> []"
  defines "tmp \<equiv> kb_ring_idx k"
  shows "\<exists>k' s'. emit_all cs k s = ret (k', s') \<and> runnable s' r \<and>
    (if length cs mod 128 = 0 then kb_ring_idx k' = tmp
     else \<exists>k1 s1 s2. kb_getkey r (GK_Loop tmp) k' (s'\<lparr>running_task := Some r\<rparr>) = ret (GK_Prepared tmp, k1, s1) \<and>
       kb_getkey r (GK_Prepared tmp) k1 s1 = ret (GK_Return (kb_ring_idx k'), k', s2) \<and>
       kb_getkey r (GK_Return (kb_ring_idx k')) k' s2 = ret (GK_Done (last cs), k', s2) \<and> runnable s2 r)"
proof -
  let ?k = "(fold keyed cs k)\<lparr>key_wait_queue := None\<rparr>" and ?s = "wake_readers (set ws) s"
  have emitted: "emit_all cs k s = ret (?k, ?s)" by (rule emit_all_queue [OF assms(1,2,5)])
  have awake: "runnable ?s r" using assms(3,4) by (auto simp: runnable_def wake_readers_def wake_all_def image_iff intro: bexI [of _ r])
  have ok: "kb_ok ?k" using keyed_ring(1) [OF assms(1)] by simp
  have idx: "unat (kb_ring_idx ?k) = (unat (kb_ring_idx k) + length cs) mod 128"
    using keyed_ring(2) [OF assms(1), of cs] kb_ring_idx_unat [OF ok] kb_ring_idx_unat [OF assms(1)] by simp
  have small: "unat (kb_ring_idx k) < 128" using kb_okD(1) [OF assms(1)] kb_ring_idx_unat [OF assms(1)] by simp
  have same: "kb_ring_idx ?k = tmp \<longleftrightarrow> length cs mod 128 = 0"
  proof -
    have "(unat (kb_ring_idx k) + length cs) mod 128 = unat (kb_ring_idx k) \<longleftrightarrow> length cs mod 128 = 0"
      by (rule ring_round [OF small])
    then show ?thesis by (simp add: tmp_def word_unat_eq_iff idx)
  qed
  have last: "key_ring ?k ! unat (key_ring_index ?k) = last cs" using keyed_ring(3) [OF assms(1,5)] by simp
  show ?thesis
  proof (cases "length cs mod 128 = 0")
    case True
    then show ?thesis using emitted awake same by (intro exI [of _ ?k] exI [of _ ?s]) simp
  next
    case False
    then have "kb_ring_idx ?k \<noteq> tmp" using same by simp
    from getkey_after_wake [OF ok _ _ this, of "?s\<lparr>running_task := Some r\<rparr>" r] False emitted awake last
    show ?thesis by (intro exI [of _ ?k] exI [of _ ?s]) auto
  qed
qed

section \<open>Concrete runs\<close>

text \<open>A controller that is a queue of bytes, a fresh keyboard, and the tasks of
  \<^verbatim>\<open>Tasks.three_tasks\<close> with task 3 asleep in \<open>kb_getkey\<close>.\<close>

definition fifo_bus :: "u8 list bus" where
  "fifo_bus = \<lparr>in8 = (\<lambda>port c. if port = 0x64 then (if c = [] then 0 else 1, c)
       else if port = 0x60 then (case c of [] \<Rightarrow> (0, []) | x # xs \<Rightarrow> (x, xs)) else (0, c)),
     in16 = (\<lambda>port c. (0, c)), in32 = (\<lambda>port c. (0, c)),
     out8 = (\<lambda>port v c. c), out16 = (\<lambda>port v c. c), out32 = (\<lambda>port v c. c)\<rparr>"

definition kb_fresh :: kb where
  "kb_fresh = kb_early_init \<lparr>key_ring_index = 7, key_ring = replicate 128 0, key_modifiers = 3, key_wait_queue = Some 5\<rparr>"

definition kb_waiting :: kb where
  "kb_waiting = kb_fresh\<lparr>key_wait_queue := Some 3\<rparr>"

definition waiting_tasks :: sched where
  "waiting_tasks = upd_wait 3 (\<lambda>_. \<lparr>w_next = None, w_task = 3\<rparr>) three_tasks"

lemma fifo_controller: "ps2_controller fifo_bus (\<lambda>c. c)"
  by (simp add: ps2_controller_def fifo_bus_def)

lemma kb_fresh_ok: "kb_ok kb_fresh" "key_queue kb_fresh three_tasks []" "ready 0 init_ps2_keyboard" "ps2_ok init_ps2_keyboard"
  by (simp_all add: kb_ok_def kb_fresh_def kb_early_init_def KEY_RING_SIZE_def key_queue_def queue_def
      ready_def init_ps2_keyboard_def ps2_ok_def)

lemma kb_waiting_ok: "kb_ok kb_waiting" "key_queue kb_waiting waiting_tasks [3]" "w_task (wait_at waiting_tasks 3) = 3"
  using kb_fresh_ok(1) by (simp_all add: kb_waiting_def key_queue_def queue_def waiting_tasks_def)

theorem keyboard_handler_safe_witness:
  "\<exists>p' k' s' c' ws'. keyboard_handler fifo_bus (Some init_ps2_keyboard) kb_fresh three_tasks [0xE1, 0x1D, 0xE0, 30] = ret (Some p', k', s', c') \<and>
    c' = [] \<and> ps2_ok p' \<and> unat (scancode_index p') < 8 \<and> kb_ok k' \<and> key_queue k' s' ws'"
  by (rule keyboard_handler_safe [OF fifo_controller kb_fresh_ok(4,1,2)])


theorem kb_getkey_returns_last_witness:
  "\<exists>k' s' k1 s1 s2. emit_all [30, 0x11E] kb_waiting waiting_tasks = ret (k', s') \<and> runnable s' 3 \<and>
    kb_getkey 3 (GK_Loop 0) k' (s'\<lparr>running_task := Some 3\<rparr>) = ret (GK_Prepared 0, k1, s1) \<and>
    kb_getkey 3 (GK_Prepared 0) k1 s1 = ret (GK_Return (kb_ring_idx k'), k', s2) \<and>
    kb_getkey 3 (GK_Return (kb_ring_idx k')) k' s2 = ret (GK_Done 0x11E, k', s2)"
proof -
  have "kb_ring_idx kb_waiting = 0" by (simp add: kb_waiting_def kb_fresh_def kb_early_init_def kb_ring_idx_def)
  then show ?thesis
    using kb_getkey_returns_last [OF kb_waiting_ok(1,2), of 3 "[30, 0x11E]"] kb_waiting_ok(3) by auto
qed

end
