(* ===== verification/Serial_Debug.thy ===== *)
theory Serial_Debug
  imports Linked_List Port_Io
begin

text \<open>
  Debug output over serial lines: the list of registered devices (\<^verbatim>\<open>debug/serial_debug.c\<close>) and the
  driver of the first PC serial port (\<^verbatim>\<open>drivers/debug/pc_serial_debug.c\<close>). A driver is the record of its
  function pointers; the devices are nodes at addresses, what \<open>malloc\<close> returned for a new one is an
  argument. \<open>'c\<close> is the state of the hardware.
\<close>

record 'c serial_driver =
  sd_install :: "'c \<Rightarrow> 'c run"
  sd_remove :: "'c \<Rightarrow> 'c run"
  sd_putch :: "u8 \<Rightarrow> 'c \<Rightarrow> 'c run"

record 'c serial_device =
  sd_next :: "nat option"
  sd_driver :: "'c serial_driver"
  sd_private :: u32

record 'c serial =
  device_head :: "nat option"
  serial_at :: "nat \<Rightarrow> 'c serial_device"

definition serial_debug_init :: "'c serial \<Rightarrow> 'c serial" where
  "serial_debug_init s = s\<lparr>device_head := None\<rparr>"

definition serial_debug_register_driver :: "nat option \<Rightarrow> 'c serial_driver \<Rightarrow> 'c serial \<Rightarrow> 'c \<Rightarrow> ('c serial \<times> 'c) run" where
  "serial_debug_register_driver block debug_driver s c = (case block of
     None \<Rightarrow> goes_wrong Null_pointer
   | Some dev \<Rightarrow>
       (let s = s\<lparr>serial_at := (serial_at s)(dev := \<lparr>sd_next = device_head s, sd_driver = debug_driver, sd_private = 0\<rparr>)\<rparr>
        in run_bind (sd_install (sd_driver (serial_at s dev)) c) (\<lambda>c. ret (s\<lparr>device_head := Some dev\<rparr>, c))))"

partial_function (option) putch_loop :: "'c serial \<Rightarrow> u8 \<Rightarrow> nat option \<Rightarrow> 'c \<Rightarrow> 'c run" where
  "putch_loop s ch dev c = (case dev of
     None \<Rightarrow> ret c
   | Some d \<Rightarrow> run_bind (sd_putch (sd_driver (serial_at s d)) ch c) (\<lambda>c. putch_loop s ch (sd_next (serial_at s d)) c))"

definition serial_debug_putch :: "u8 \<Rightarrow> 'c serial \<Rightarrow> 'c \<Rightarrow> 'c run" where
  "serial_debug_putch ch s c = putch_loop s ch (device_head s) c"

section \<open>The PC serial port\<close>

definition COM1 :: u16 where
  "COM1 = 0x3F8"

definition pc_serial_debug_install :: "'c bus \<Rightarrow> 'c \<Rightarrow> 'c run" where
  "pc_serial_debug_install b c =
     ret (fold (\<lambda>(port, v). outb_p b port v)
       [(COM1 + 1, 0x00), (COM1 + 3, 0x80), (COM1 + 0, 0x03), (COM1 + 1, 0x00), (COM1 + 3, 0x03), (COM1 + 2, 0xC7), (COM1 + 4, 0x0B)] c)"

definition pc_serial_debug_remove :: "'c bus \<Rightarrow> 'c \<Rightarrow> 'c run" where
  "pc_serial_debug_remove b c = ret c"

partial_function (option) wait_transmit :: "'c bus \<Rightarrow> 'c \<Rightarrow> 'c run" where
  "wait_transmit b c = (let (status, c) = inb b (COM1 + 5) c in if status AND 0x20 = 0 then wait_transmit b c else ret c)"

definition pc_serial_debug_putch :: "'c bus \<Rightarrow> u8 \<Rightarrow> 'c \<Rightarrow> 'c run" where
  "pc_serial_debug_putch b ch c = run_bind (wait_transmit b c) (\<lambda>c. ret (outb b COM1 ch c))"

partial_function (option) pc_serial_debug_receive :: "'c bus \<Rightarrow> 'c \<Rightarrow> 'c run" where
  "pc_serial_debug_receive b c =
     (let (status, c) = inb b (COM1 + 5) c
      in if status AND 1 \<noteq> 0 then pc_serial_debug_receive b (snd (inb b COM1 c)) else ret c)"

definition pc_serial_debug_driver :: "'c bus \<Rightarrow> 'c serial_driver" where
  "pc_serial_debug_driver b =
     \<lparr>sd_install = pc_serial_debug_install b, sd_remove = pc_serial_debug_remove b, sd_putch = pc_serial_debug_putch b\<rparr>"

text \<open>\<open>config\<close> says whether the kernel was built with \<open>CONFIG_DEBUG_SERIAL\<close>.\<close>

definition init_pc_serial_debug :: "bool \<Rightarrow> 'c bus \<Rightarrow> nat option \<Rightarrow> 'c serial \<Rightarrow> 'c \<Rightarrow> ('c serial \<times> 'c) run" where
  "init_pc_serial_debug config b block s c =
     (if config then serial_debug_register_driver block (pc_serial_debug_driver b) s c else ret (s, c))"

section \<open>Lemmas\<close>

definition serial_devices :: "'c serial \<Rightarrow> nat list \<Rightarrow> bool" where
  "serial_devices s ds \<longleftrightarrow> lseg (\<lambda>d. sd_next (serial_at s d)) (device_head s) ds None"

lemma register_devices:
  assumes "serial_devices s ds" and "d \<notin> set ds" and "sd_install drv c = ret c'"
  shows "\<exists>s'. serial_debug_register_driver (Some d) drv s c = ret (s', c') \<and> serial_devices s' (d # ds) \<and>
    sd_driver (serial_at s' d) = drv \<and> (\<forall>e. e \<noteq> d \<longrightarrow> serial_at s' e = serial_at s e)"
proof -
  let ?s = "s\<lparr>serial_at := (serial_at s)(d := \<lparr>sd_next = device_head s, sd_driver = drv, sd_private = 0\<rparr>), device_head := Some d\<rparr>"
  have "lseg (\<lambda>e. sd_next (serial_at ?s e)) p ds None = lseg (\<lambda>e. sd_next (serial_at s e)) p ds None" for p
    using assms(2) by (intro lseg_cong) auto
  then have "serial_devices ?s (d # ds)" using assms(1) by (simp add: serial_devices_def)
  then show ?thesis using assms(3) by (auto simp: serial_debug_register_driver_def Let_def)
qed

text \<open>A character goes to every registered device, the latest first.\<close>

lemma putch_devices:
  assumes "serial_devices s ds"
  shows "serial_debug_putch ch s c = run_for ds (\<lambda>d. sd_putch (sd_driver (serial_at s d)) ch) c"
proof -
  have "putch_loop s ch p c = run_for ds (\<lambda>d. sd_putch (sd_driver (serial_at s d)) ch) c"
    if "lseg (\<lambda>d. sd_next (serial_at s d)) p ds None" for p
    using that
  proof (induction ds arbitrary: p c)
    case Nil
    then show ?case by (subst putch_loop.simps) simp
  next
    case (Cons d ds)
    then show ?case by (subst putch_loop.simps) (auto simp: run_bind_def split: option.splits sum.splits)
  qed
  with assms show ?thesis by (simp add: serial_debug_putch_def serial_devices_def)
qed

text \<open>What the receive interrupt relies on: bit 0 of the line status says whether a received byte
  is waiting, and reading the data register takes it.\<close>

definition uart_receiver :: "'c bus \<Rightarrow> ('c \<Rightarrow> u8 list) \<Rightarrow> bool" where
  "uart_receiver b rx \<longleftrightarrow>
     (\<forall>c. (fst (in8 b (COM1 + 5) c) AND 1 \<noteq> 0) = (rx c \<noteq> [])) \<and> (\<forall>c. rx (snd (in8 b (COM1 + 5) c)) = rx c) \<and>
     (\<forall>c x xs. rx c = x # xs \<longrightarrow> rx (snd (in8 b COM1 c)) = xs)"

lemma receive_returns:
  assumes "uart_receiver b rx"
  shows "\<exists>c'. pc_serial_debug_receive b c = ret c' \<and> rx c' = []"
proof (induction "rx c" arbitrary: c)
  case Nil
  obtain st c1 where st: "in8 b (COM1 + 5) c = (st, c1)" by (cases "in8 b (COM1 + 5) c")
  have "st AND 1 = 0" "rx c1 = []" using assms Nil st unfolding uart_receiver_def by (metis fst_conv, metis snd_conv)
  then show ?case by (subst pc_serial_debug_receive.simps) (simp add: inb_def st)
next
  case (Cons x xs)
  obtain st c1 where st: "in8 b (COM1 + 5) c = (st, c1)" by (cases "in8 b (COM1 + 5) c")
  have more: "st AND 1 \<noteq> 0" "rx c1 = x # xs"
    using assms Cons(2) st unfolding uart_receiver_def by (metis fst_conv list.distinct(1), metis snd_conv)
  then have "rx (snd (in8 b COM1 c1)) = xs" using assms unfolding uart_receiver_def by blast
  from Cons(1) [OF this [symmetric]] more(1) show ?case
    by (subst pc_serial_debug_receive.simps) (simp add: inb_def st)
qed

end
