(* ===== verification/Interrupts.thy ===== *)
theory Interrupts
  imports Descriptors Keyboard Serial_Debug
begin

text \<open>
  The interrupt controllers (\<^verbatim>\<open>irq/pic.h\<close>, \<^verbatim>\<open>irq/pic.c\<close>) and the dispatch of interrupts (\<^verbatim>\<open>irq/irq.c\<close>): the
  descriptor table, the tables of handlers and \<open>irqfunc\<close>, \<open>intfunc\<close>, \<open>intfunc_err\<close>, which the entry stubs
  of \<^verbatim>\<open>Isr\<close> call. The handlers are those of the timer (\<^verbatim>\<open>Tasks\<close>), the keyboard (\<^verbatim>\<open>Keyboard\<close>) and the
  serial port (\<^verbatim>\<open>Serial_Debug\<close>); this theory puts them together.
\<close>

section \<open>The interrupt controllers\<close>

definition PIC1_COMMAND :: u16 where "PIC1_COMMAND = 0x20"
definition PIC1_DATA :: u16 where "PIC1_DATA = 0x21"
definition PIC2_COMMAND :: u16 where "PIC2_COMMAND = 0xA0"
definition PIC2_DATA :: u16 where "PIC2_DATA = 0xA1"
definition PIC_EOI :: u8 where "PIC_EOI = 0x20"
definition ICW1_ICW4 :: u8 where "ICW1_ICW4 = 0x01"
definition ICW1_INIT :: u8 where "ICW1_INIT = 0x10"
definition ICW4_8086 :: u8 where "ICW4_8086 = 0x01"

definition pic_init :: "'c bus \<Rightarrow> u8 \<Rightarrow> u8 \<Rightarrow> 'c \<Rightarrow> 'c" where
  "pic_init b pic1 pic2 c =
     (let c = outb_p b PIC1_COMMAND (ICW1_INIT + ICW1_ICW4) c;
          c = outb_p b PIC2_COMMAND (ICW1_INIT + ICW1_ICW4) c;
          c = outb_p b PIC1_DATA pic1 c;
          c = outb_p b PIC2_DATA pic2 c;
          c = outb_p b PIC1_DATA 4 c;
          c = outb_p b PIC2_DATA 2 c;
          c = outb_p b PIC1_DATA ICW4_8086 c
      in outb_p b PIC2_DATA ICW4_8086 c)"

definition pic_eoi :: "'c bus \<Rightarrow> u8 \<Rightarrow> 'c \<Rightarrow> 'c" where
  "pic_eoi b irq c =
     (let c = (if irq \<ge> 8 then outb_p b PIC2_COMMAND PIC_EOI c else c)
      in outb_p b PIC1_COMMAND PIC_EOI c)"

definition pic_eoi_spurious :: "u8 \<Rightarrow> 'c \<Rightarrow> 'c" where
  "pic_eoi_spurious irq c = c"

definition pic_setirqmask :: "'c bus \<Rightarrow> u8 \<Rightarrow> 'c \<Rightarrow> 'c" where
  "pic_setirqmask b irq c =
     (let (port, irq) = (if irq < 8 then (PIC1_DATA, irq) else (PIC2_DATA, irq - 8));
          (v, c) = inb_p b port c
      in outb_p b port (v OR push_bit (unat irq) 1) c)"

definition pic_clrirqmask :: "'c bus \<Rightarrow> u8 \<Rightarrow> 'c \<Rightarrow> 'c" where
  "pic_clrirqmask b irq c =
     (let (port, irq) = (if irq < 8 then (PIC1_DATA, irq) else (PIC2_DATA, irq - 8));
          (v, c) = inb_p b port c
      in outb_p b port (v AND NOT (push_bit (unat irq) 1)) c)"

section \<open>Handlers and tables\<close>

datatype irq_handler = Timer_handler | Keyboard_handler | Serial_handler

datatype int_handler = Div0_handler | Debug_handler | Nmi_handler | Int3_handler | Int4_handler | Bounds_handler |
  Invalid_opcode_handler | Nofpu_handler | Fpuseg_handler | Fpuerr_handler | Syscall_handler

datatype err_handler = Double_fault_handler | Invalid_tss_handler | Segnp_handler | Stackflt_handler | Gpf_handler |
  Pauge_fault_handler

record irq_tables =
  idt :: "idt_entry list"
  irqfuncs :: "irq_handler option list"
  intfuncs :: "int_handler option list"
  intfuncs_err :: "err_handler option list"
  idtr_base :: u32
  idtr_limit :: u16

definition zero_gate :: idt_entry where
  "zero_gate = \<lparr>base_lo = 0, selector = 0, zero_byte = 0, gate_type = 0, base_hi = 0\<rparr>"

definition irq_vectors :: "nat list" where
  "irq_vectors = [0, 1, 2, 3, 4, 5, 6, 7, 8, 9, 10, 11, 12, 13, 14, 15]"

definition int_vectors :: "nat list" where
  "int_vectors = [0, 1, 2, 3, 4, 5, 6, 7, 8, 9, 10, 11, 12, 13, 14, 16]"

text \<open>\<open>irq_stub\<close> and \<open>int_stub\<close> are the addresses of the entry stubs, \<open>idt_addr\<close> that of the table.\<close>

definition irq_init :: "(nat \<Rightarrow> u32) \<Rightarrow> (nat \<Rightarrow> u32) \<Rightarrow> u32 \<Rightarrow> irq_tables" where
  "irq_init irq_stub int_stub idt_addr =
     (let t = replicate 256 zero_gate;
          t = fold (\<lambda>n t. t[32 + n := idt_fill 8 (irq_stub n) 0xE 0]) irq_vectors t;
          t = fold (\<lambda>n t. t[n := idt_fill 8 (int_stub n) 0xE 0]) int_vectors t;
          t = t[0x80 := idt_fill 8 (int_stub 0x80) 0xE 3]
      in \<lparr>idt = t,
          irqfuncs = (replicate 16 None)[0 := Some Timer_handler, 1 := Some Keyboard_handler, 4 := Some Serial_handler],
          intfuncs = (replicate 256 None)[0 := Some Div0_handler, 1 := Some Debug_handler, 2 := Some Nmi_handler,
            3 := Some Int3_handler, 4 := Some Int4_handler, 5 := Some Bounds_handler, 6 := Some Invalid_opcode_handler,
            7 := Some Nofpu_handler, 9 := Some Fpuseg_handler, 16 := Some Fpuerr_handler, 0x80 := Some Syscall_handler],
          intfuncs_err = (replicate 32 None)[8 := Some Double_fault_handler, 10 := Some Invalid_tss_handler,
            11 := Some Segnp_handler, 12 := Some Stackflt_handler, 13 := Some Gpf_handler, 14 := Some Pauge_fault_handler],
          idtr_base = idt_addr, idtr_limit = 2048\<rparr>)"

section \<open>Dispatch\<close>

text \<open>What the handlers work on.\<close>

record 'c kernel =
  k_sched :: sched
  k_keys :: kb
  k_keyboard :: "ps2_keyboard option"
  k_devices :: 'c

text \<open>The hardware handlers; all of them return \<open>NULL\<close>.\<close>

definition serial_handler :: "'c bus \<Rightarrow> 'c kernel \<Rightarrow> 'c kernel run" where
  "serial_handler b k = run_bind (pc_serial_debug_receive b (k_devices k)) (\<lambda>c. ret (k\<lparr>k_devices := c\<rparr>))"

definition run_irq_handler :: "'c bus \<Rightarrow> irq_handler \<Rightarrow> 'c kernel \<Rightarrow> 'c kernel run" where
  "run_irq_handler b h k = (case h of
     Timer_handler \<Rightarrow> map_option (\<lambda>s. Inr (k\<lparr>k_sched := s\<rparr>)) (timer_handler (k_sched k))
   | Keyboard_handler \<Rightarrow>
       run_bind (keyboard_handler b (k_keyboard k) (k_keys k) (k_sched k) (k_devices k)) (\<lambda>(p, ks, s, c).
         ret (k\<lparr>k_keyboard := p, k_keys := ks, k_sched := s, k_devices := c\<rparr>))
   | Serial_handler \<Rightarrow> serial_handler b k)"

text \<open>The exception handlers and the system call do nothing and return \<open>NULL\<close>.\<close>

definition run_int_handler :: "int_handler \<Rightarrow> 'c kernel \<Rightarrow> 'c kernel run" where
  "run_int_handler h k = (case h of
     Div0_handler \<Rightarrow> ret k | Debug_handler \<Rightarrow> ret k | Nmi_handler \<Rightarrow> ret k | Int3_handler \<Rightarrow> ret k | Int4_handler \<Rightarrow> ret k
   | Bounds_handler \<Rightarrow> ret k | Invalid_opcode_handler \<Rightarrow> ret k | Nofpu_handler \<Rightarrow> ret k | Fpuseg_handler \<Rightarrow> ret k
   | Fpuerr_handler \<Rightarrow> ret k | Syscall_handler \<Rightarrow> ret k)"

definition run_err_handler :: "err_handler \<Rightarrow> u32 \<Rightarrow> 'c kernel \<Rightarrow> 'c kernel run" where
  "run_err_handler h err k = (case h of
     Double_fault_handler \<Rightarrow> ret k | Invalid_tss_handler \<Rightarrow> ret k | Segnp_handler \<Rightarrow> ret k | Stackflt_handler \<Rightarrow> ret k
   | Gpf_handler \<Rightarrow> ret k | Pauge_fault_handler \<Rightarrow> ret k)"

definition irqfunc :: "'c bus \<Rightarrow> irq_tables \<Rightarrow> nat \<Rightarrow> 'c kernel \<Rightarrow> 'c kernel run" where
  "irqfunc b t irqnum k =
     (if irqnum \<noteq> 7 then
        if irqnum < length (irqfuncs t) then
          run_bind (case irqfuncs t ! irqnum of None \<Rightarrow> ret k | Some h \<Rightarrow> run_irq_handler b h k) (\<lambda>k.
            ret (k\<lparr>k_devices := pic_eoi b (of_nat irqnum) (k_devices k)\<rparr>))
        else goes_wrong Out_of_bounds
      else ret (k\<lparr>k_devices := pic_eoi_spurious (of_nat irqnum) (k_devices k)\<rparr>))"

definition intfunc :: "irq_tables \<Rightarrow> nat \<Rightarrow> 'c kernel \<Rightarrow> 'c kernel run" where
  "intfunc t intnum k =
     (if intnum < length (intfuncs t) then (case intfuncs t ! intnum of None \<Rightarrow> ret k | Some h \<Rightarrow> run_int_handler h k)
      else goes_wrong Out_of_bounds)"

definition intfunc_err :: "irq_tables \<Rightarrow> nat \<Rightarrow> u32 \<Rightarrow> 'c kernel \<Rightarrow> 'c kernel run" where
  "intfunc_err t intnum errcode k =
     (if intnum < length (intfuncs_err t) then
        (case intfuncs_err t ! intnum of None \<Rightarrow> ret k | Some h \<Rightarrow> run_err_handler h errcode k)
      else goes_wrong Out_of_bounds)"

section \<open>The tables after \<open>irq_init\<close>\<close>

lemma fold_updates:
  assumes "\<forall>n \<in> set ns. pos n < length t" and "inj_on pos (set ns)"
  shows "length (fold (\<lambda>n t. t[pos n := g n]) ns t) = length t"
    and "m \<in> set ns \<Longrightarrow> fold (\<lambda>n t. t[pos n := g n]) ns t ! pos m = g m"
    and "i \<notin> pos ` set ns \<Longrightarrow> fold (\<lambda>n t. t[pos n := g n]) ns t ! i = t ! i"
proof -
  show len: "length (fold (\<lambda>n t. t[pos n := g n]) ns t) = length t" for ns t
    by (induction ns arbitrary: t) simp_all
  show other: "i \<notin> pos ` set ns \<Longrightarrow> fold (\<lambda>n t. t[pos n := g n]) ns t ! i = t ! i" for i
    by (induction ns arbitrary: t) auto
  show "m \<in> set ns \<Longrightarrow> fold (\<lambda>n t. t[pos n := g n]) ns t ! pos m = g m"
    using assms
  proof (induction ns rule: rev_induct)
    case Nil
    then show ?case by simp
  next
    case (snoc n ns)
    then show ?case by (cases "m = n") (auto simp: len inj_on_def nth_list_update)
  qed
qed

lemma irq_init_gates:
  shows "n < 16 \<Longrightarrow> idt (irq_init irq_stub int_stub a) ! (32 + n) = idt_fill 8 (irq_stub n) 0xE 0"
    and "n \<in> set int_vectors \<Longrightarrow> idt (irq_init irq_stub int_stub a) ! n = idt_fill 8 (int_stub n) 0xE 0"
    and "idt (irq_init irq_stub int_stub a) ! 0x80 = idt_fill 8 (int_stub 0x80) 0xE 3"
    and "length (idt (irq_init irq_stub int_stub a)) = 256"
proof -
  define t0 where "t0 = replicate 256 zero_gate"
  define t1 where "t1 = fold (\<lambda>n t. t[32 + n := idt_fill 8 (irq_stub n) 0xE 0]) irq_vectors t0"
  define t2 where "t2 = fold (\<lambda>n t. t[n := idt_fill 8 (int_stub n) 0xE 0]) int_vectors t1"
  have idt: "idt (irq_init irq_stub int_stub a) = t2[0x80 := idt_fill 8 (int_stub 0x80) 0xE 3]"
    by (simp add: irq_init_def Let_def t0_def t1_def t2_def)
  have small: "\<forall>n \<in> set irq_vectors. 32 + n < length t0" "inj_on (\<lambda>n. 32 + n) (set irq_vectors)"
    by (simp_all add: irq_vectors_def t0_def)
  note one = fold_updates [OF small, where g = "\<lambda>n. idt_fill 8 (irq_stub n) 0xE 0", folded t1_def]
  have len1: "length t1 = 256" using one(1) by (simp add: t0_def)
  have small: "\<forall>n \<in> set int_vectors. n < length t1" "inj_on (\<lambda>n. n) (set int_vectors)"
    by (simp_all add: int_vectors_def len1)
  note two = fold_updates [OF small, where g = "\<lambda>n. idt_fill 8 (int_stub n) 0xE 0", folded t2_def]
  have len2: "length t2 = 256" using two(1) len1 by simp
  show "length (idt (irq_init irq_stub int_stub a)) = 256" "idt (irq_init irq_stub int_stub a) ! 0x80 = idt_fill 8 (int_stub 0x80) 0xE 3"
    by (simp_all add: idt len2)
  show "idt (irq_init irq_stub int_stub a) ! (32 + n) = idt_fill 8 (irq_stub n) 0xE 0" if "n < 16"
  proof -
    have "n \<in> set irq_vectors" using that by (simp add: irq_vectors_def) presburger
    then have "t1 ! (32 + n) = idt_fill 8 (irq_stub n) 0xE 0" by (rule one(2))
    moreover have "32 + n \<notin> (\<lambda>n. n) ` set int_vectors" by (simp add: int_vectors_def)
    ultimately show ?thesis using two(3) that by (simp add: idt)
  qed
  show "idt (irq_init irq_stub int_stub a) ! n = idt_fill 8 (int_stub n) 0xE 0" if "n \<in> set int_vectors"
    using two(2) [OF that] that by (auto simp: idt int_vectors_def)
qed

lemma irq_init_handlers:
  "length (irqfuncs (irq_init irq_stub int_stub a)) = 16" "length (intfuncs (irq_init irq_stub int_stub a)) = 256"
  "length (intfuncs_err (irq_init irq_stub int_stub a)) = 32"
  by (simp_all add: irq_init_def Let_def)

lemma irq_init_irqfuncs:
  assumes "n < 16"
  shows "irqfuncs (irq_init irq_stub int_stub a) ! n =
    (if n = 0 then Some Timer_handler else if n = 1 then Some Keyboard_handler else if n = 4 then Some Serial_handler else None)"
  using assms by (simp add: irq_init_def Let_def nth_list_update)

section \<open>Any sequence of hardware interrupts\<close>

definition kernel_inv :: "'c kernel \<Rightarrow> bool" where
  "kernel_inv k \<longleftrightarrow> (\<exists>ws. queue (k_sched k) ws) \<and> (\<exists>ws. key_queue (k_keys k) (k_sched k) ws) \<and>
     kb_ok (k_keys k) \<and> (\<exists>p. k_keyboard k = Some p \<and> ps2_ok p)"

lemma kernel_invE:
  assumes "kernel_inv k"
  obtains ws vs p where "queue (k_sched k) ws" "key_queue (k_keys k) (k_sched k) vs" "kb_ok (k_keys k)"
    "k_keyboard k = Some p" "ps2_ok p"
  using assms by (auto simp: kernel_inv_def)

lemma waits_cong:
  assumes "wait_at s' = wait_at s" and "timer_queue s' = timer_queue s"
  shows "queue s' ws = queue s ws"
  using assms by (simp add: queue_def)

lemma timer_irq:
  assumes "kernel_inv k"
  shows "\<exists>k'. run_irq_handler b Timer_handler k = ret k' \<and> kernel_inv k' \<and> jiffies (k_sched k') = jiffies (k_sched k) + 1"
proof -
  obtain ws vs p where k: "queue (k_sched k) ws" "key_queue (k_keys k) (k_sched k) vs" "kb_ok (k_keys k)"
    "k_keyboard k = Some p" "ps2_ok p" using assms by (rule kernel_invE)
  let ?s = "(k_sched k)\<lparr>jiffies := jiffies (k_sched k) + 1\<rparr>"
  have q: "queue ?s ws" using k(1) by (simp add: queue_def)
  have "queue (wake_all (set ws) ?s) []" by (simp add: queue_def wake_all_def)
  moreover have "key_queue (k_keys k) (wake_all (set ws) ?s) vs" using k(2) by (simp add: key_queue_def queue_def wake_all_def)
  ultimately show ?thesis
    using k by (auto simp: run_irq_handler_def timer_handler_def scheduler_timer_def wake_up_queue [OF q] kernel_inv_def wake_all_def)
qed

lemma keyboard_irq:
  assumes "ps2_controller b pend" and "kernel_inv k"
  shows "\<exists>k'. run_irq_handler b Keyboard_handler k = ret k' \<and> kernel_inv k' \<and> jiffies (k_sched k') = jiffies (k_sched k)"
proof -
  obtain ws vs p where k: "queue (k_sched k) ws" "key_queue (k_keys k) (k_sched k) vs" "kb_ok (k_keys k)"
    "k_keyboard k = Some p" "ps2_ok p" using assms(2) by (rule kernel_invE)
  obtain p' ks s c vs' where "keyboard_handler b (Some p) (k_keys k) (k_sched k) (k_devices k) = ret (Some p', ks, s, c)"
    "ps2_ok p'" "kb_ok ks" "key_queue ks s vs'" "wait_at s = wait_at (k_sched k)" "timer_queue s = timer_queue (k_sched k)"
    "jiffies s = jiffies (k_sched k)"
    using keyboard_handler_ok [OF assms(1) k(5,3,2)] by metis
  moreover from this waits_cong have "queue s ws" using k(1) by blast
  ultimately show ?thesis using k(4) by (auto simp: run_irq_handler_def kernel_inv_def)
qed

lemma serial_irq:
  assumes "uart_receiver b rx" and "kernel_inv k"
  shows "\<exists>k'. run_irq_handler b Serial_handler k = ret k' \<and> kernel_inv k' \<and> jiffies (k_sched k') = jiffies (k_sched k)"
  using receive_returns [OF assms(1), of "k_devices k"] assms(2)
  by (auto simp: run_irq_handler_def serial_handler_def kernel_inv_def)

lemma irqfunc_ok:
  assumes "ps2_controller b pend" and "uart_receiver b rx" and "kernel_inv k" and "n < 16"
  shows "\<exists>k'. irqfunc b (irq_init irq_stub int_stub a) n k = ret k' \<and> kernel_inv k' \<and>
    jiffies (k_sched k') = jiffies (k_sched k) + of_bool (n = 0)"
proof -
  have devices: "kernel_inv (k\<lparr>k_devices := c\<rparr>) = kernel_inv k" for c and k :: "'a kernel" by (simp add: kernel_inv_def)
  consider "n = 0" | "n = 1" | "n = 4" | "n \<notin> {0, 1, 4}" by blast
  then show ?thesis
    using timer_irq [OF assms(3), of b] keyboard_irq [OF assms(1,3)] serial_irq [OF assms(2,3)] assms(3,4)
    by cases (auto simp: irqfunc_def irq_init_handlers irq_init_irqfuncs devices)
qed

text \<open>A history of interrupts: the number of each, and what the devices did before it.\<close>

fun irq_history :: "'c bus \<Rightarrow> irq_tables \<Rightarrow> (('c \<Rightarrow> 'c) \<times> nat) list \<Rightarrow> 'c kernel \<Rightarrow> 'c kernel run" where
  "irq_history b t [] k = ret k"
| "irq_history b t ((d, n) # es) k = run_bind (irqfunc b t n (k\<lparr>k_devices := d (k_devices k)\<rparr>)) (irq_history b t es)"

section \<open>Properties\<close>

text \<open>C29: Whatever the devices do and in whatever order their interrupts arrive, every interrupt is handled and
  returns: no table or buffer is accessed out of bounds, the timer queue and the queue of keyboard readers stay
  well formed, keyboard driver and key ring keep their invariants, and the clock has advanced by exactly the
  number of timer interrupts.\<close>

theorem irq_history_safe:
  assumes "ps2_controller b pend" and "uart_receiver b rx" and "kernel_inv k" and "\<forall>(d, n) \<in> set es. n < 16"
  shows "\<exists>k'. irq_history b (irq_init irq_stub int_stub a) es k = ret k' \<and> kernel_inv k' \<and>
    jiffies (k_sched k') = jiffies (k_sched k) + of_nat (length (filter (\<lambda>(d, n). n = 0) es))"
  using assms(3,4)
proof (induction es arbitrary: k)
  case Nil
  then show ?case by simp
next
  case (Cons e es)
  obtain d n where e: "e = (d, n)" by (cases e)
  have "kernel_inv (k\<lparr>k_devices := d (k_devices k)\<rparr>)" "n < 16" using Cons.prems e by (simp_all add: kernel_inv_def)
  from irqfunc_ok [OF assms(1,2) this, of irq_stub int_stub a] obtain k1 where
    one: "irqfunc b (irq_init irq_stub int_stub a) n (k\<lparr>k_devices := d (k_devices k)\<rparr>) = ret k1" "kernel_inv k1"
    "jiffies (k_sched k1) = jiffies (k_sched k) + of_bool (n = 0)" by auto
  from Cons.IH [OF one(2)] Cons.prems(2) one(1,3) show ?case by (auto simp: e)
qed

text \<open>A keyboard and a serial port that both have bytes to deliver.\<close>

definition pc_bus :: "(u8 list \<times> u8 list) bus" where
  "pc_bus = \<lparr>in8 = (\<lambda>p (ks, rx).
       if p = 0x60 then (if ks = [] then 0 else hd ks, (tl ks, rx)) else if p = 0x64 then (if ks = [] then 0 else 1, (ks, rx))
       else if p = COM1 then (if rx = [] then 0 else hd rx, (ks, tl rx)) else if p = COM1 + 5 then (if rx = [] then 0 else 1, (ks, rx))
       else (0, (ks, rx))),
     in16 = (\<lambda>_ c. (0, c)), in32 = (\<lambda>_ c. (0, c)), out8 = (\<lambda>_ _ c. c), out16 = (\<lambda>_ _ c. c), out32 = (\<lambda>_ _ c. c)\<rparr>"

lemma pc_bus_devices: "ps2_controller pc_bus fst" "uart_receiver pc_bus snd"
  by (auto simp: ps2_controller_def uart_receiver_def pc_bus_def COM1_def)

definition idle_kernel :: "(u8 list \<times> u8 list) kernel" where
  "idle_kernel = \<lparr>k_sched = three_tasks, k_keys = kb_fresh, k_keyboard = Some init_ps2_keyboard, k_devices = ([], [])\<rparr>"

lemma idle_kernel_inv: "kernel_inv idle_kernel"
proof -
  have "queue three_tasks []" by (simp add: queue_def three_tasks_def)
  then show ?thesis using kb_fresh_ok by (auto simp: kernel_inv_def idle_kernel_def)
qed

theorem irq_history_safe_witness:
  "\<exists>k'. irq_history pc_bus (irq_init of_nat of_nat 0) [(id, 0), (\<lambda>(ks, rx). ([42, 30], rx), 1), (\<lambda>(ks, rx). (ks, [65]), 4), (id, 0)]
      idle_kernel = ret k' \<and> kernel_inv k' \<and> jiffies (k_sched k') = jiffies three_tasks + 2"
  using irq_history_safe [OF pc_bus_devices idle_kernel_inv,
      of "[(id, 0), (\<lambda>(ks, rx). ([42, 30], rx), 1), (\<lambda>(ks, rx). (ks, [65]), 4), (id, 0)]" of_nat of_nat 0]
  by (auto simp: idle_kernel_def)

end
