(* ===== verification/Multiboot.thy ===== *)
theory Multiboot
  imports Ikaros_Base
begin

text \<open>
  The boot information (\<^verbatim>\<open>boot/multiboot2.h\<close>) and the loop over its tags at the start of
  \<open>_multiboot2_main\<close> (\<^verbatim>\<open>boot/main.c\<close>). The information is a sequence of tags in memory, each with a
  type and a size and padded to eight bytes; a structure of the header is the record of its fields,
  read from memory at the offsets the compiler gives them. The lemmas show that the loop finds the
  last tag of each type, and that a tag of size zero makes it run for ever.
\<close>

section \<open>Structures in memory\<close>

definition ld16 :: "mem \<Rightarrow> u32 \<Rightarrow> u16" where
  "ld16 m a = ucast (m a) OR push_bit 8 (ucast (m (a + 1)))"

definition ld64 :: "mem \<Rightarrow> u32 \<Rightarrow> u64" where
  "ld64 m a = ucast (ld32 m a) OR push_bit 32 (ucast (ld32 m (a + 4)))"

definition MULTIBOOT2_TAG_TYPE_CMDLINE :: u16 where "MULTIBOOT2_TAG_TYPE_CMDLINE = 1"
definition MULTIBOOT2_TAG_TYPE_BASIC_MEMINFO :: u16 where "MULTIBOOT2_TAG_TYPE_BASIC_MEMINFO = 4"
definition MULTIBOOT2_TAG_TYPE_MMAP :: u16 where "MULTIBOOT2_TAG_TYPE_MMAP = 6"
definition MULTIBOOT2_TAG_TYPE_FRAMEBUFFER :: u16 where "MULTIBOOT2_TAG_TYPE_FRAMEBUFFER = 8"
definition MULTIBOOT2_TAG_TYPE_ELF_SECTIONS :: u16 where "MULTIBOOT2_TAG_TYPE_ELF_SECTIONS = 9"

lemmas tag_types = MULTIBOOT2_TAG_TYPE_CMDLINE_def MULTIBOOT2_TAG_TYPE_BASIC_MEMINFO_def MULTIBOOT2_TAG_TYPE_MMAP_def
  MULTIBOOT2_TAG_TYPE_FRAMEBUFFER_def MULTIBOOT2_TAG_TYPE_ELF_SECTIONS_def

record multiboot2_header_tag =
  tag_type :: u16
  tag_flags :: u16
  tag_size :: u32

definition header_tag_at :: "mem \<Rightarrow> u32 \<Rightarrow> multiboot2_header_tag" where
  "header_tag_at m a = \<lparr>tag_type = ld16 m a, tag_flags = ld16 m (a + 2), tag_size = ld32 m (a + 4)\<rparr>"

record multiboot2_mmap_entry =
  me_addr :: u64
  me_len :: u64
  me_type :: u32
  me_zero :: u32

definition mmap_entry_at :: "mem \<Rightarrow> u32 \<Rightarrow> multiboot2_mmap_entry" where
  "mmap_entry_at m a = \<lparr>me_addr = ld64 m a, me_len = ld64 m (a + 8), me_type = ld32 m (a + 16), me_zero = ld32 m (a + 20)\<rparr>"

record multiboot2_tag_mmap =
  mmap_size :: u32
  mmap_entry_size :: u32
  mmap_entry_version :: u32
  mmap_entries :: u32

definition tag_mmap_at :: "mem \<Rightarrow> u32 \<Rightarrow> multiboot2_tag_mmap" where
  "tag_mmap_at m a = \<lparr>mmap_size = ld32 m (a + 4), mmap_entry_size = ld32 m (a + 8), mmap_entry_version = ld32 m (a + 12), mmap_entries = a + 16\<rparr>"

record multiboot2_tag_framebuffer =
  fbt_type :: u32
  fbt_size :: u32
  framebuffer_addr :: u64
  framebuffer_pitch :: u32
  framebuffer_width :: u32
  framebuffer_height :: u32
  framebuffer_bpp :: u8
  framebuffer_type :: u8
  framebuffer_reserved :: u16
  framebuffer_palette_num_colors :: u16
  framebuffer_red_field_position :: u8
  framebuffer_red_mask_size :: u8
  framebuffer_green_field_position :: u8
  framebuffer_green_mask_size :: u8
  framebuffer_blue_field_position :: u8
  framebuffer_blue_mask_size :: u8

text \<open>The number of colours and the first two fields of the colour format share their bytes: they are a union.\<close>

definition tag_framebuffer_at :: "mem \<Rightarrow> u32 \<Rightarrow> multiboot2_tag_framebuffer" where
  "tag_framebuffer_at m a =
     \<lparr>fbt_type = ld32 m a, fbt_size = ld32 m (a + 4), framebuffer_addr = ld64 m (a + 8), framebuffer_pitch = ld32 m (a + 16),
      framebuffer_width = ld32 m (a + 20), framebuffer_height = ld32 m (a + 24), framebuffer_bpp = m (a + 28),
      framebuffer_type = m (a + 29), framebuffer_reserved = ld16 m (a + 30), framebuffer_palette_num_colors = ld16 m (a + 32),
      framebuffer_red_field_position = m (a + 32), framebuffer_red_mask_size = m (a + 33), framebuffer_green_field_position = m (a + 34),
      framebuffer_green_mask_size = m (a + 35), framebuffer_blue_field_position = m (a + 36), framebuffer_blue_mask_size = m (a + 37)\<rparr>"

record multiboot_boot_header =
  boot_total_size :: u32
  boot_reserved :: u32
  boot_tags :: u32

definition boot_header_at :: "mem \<Rightarrow> u32 \<Rightarrow> multiboot_boot_header" where
  "boot_header_at m info = \<lparr>boot_total_size = ld32 m info, boot_reserved = ld32 m (info + 4), boot_tags = info + 8\<rparr>"

section \<open>The loop over the tags\<close>

text \<open>The pointers the loop leaves behind; \<open>None\<close> is \<open>NULL\<close>, for the command line the built-in default.\<close>

record tag_pointers =
  p_cmdline :: "u32 option"
  p_meminfo :: "u32 option"
  p_mmap :: "u32 option"
  p_elf_sections :: "u32 option"
  p_framebuffer :: "u32 option"

definition no_tags :: tag_pointers where
  "no_tags = \<lparr>p_cmdline = None, p_meminfo = None, p_mmap = None, p_elf_sections = None, p_framebuffer = None\<rparr>"

definition note_tag :: "u16 \<Rightarrow> u32 \<Rightarrow> tag_pointers \<Rightarrow> tag_pointers" where
  "note_tag ty tag t =
     (if ty = MULTIBOOT2_TAG_TYPE_CMDLINE then t\<lparr>p_cmdline := Some (tag + 8)\<rparr>
      else if ty = MULTIBOOT2_TAG_TYPE_BASIC_MEMINFO then t\<lparr>p_meminfo := Some tag\<rparr>
      else if ty = MULTIBOOT2_TAG_TYPE_MMAP then t\<lparr>p_mmap := Some tag\<rparr>
      else if ty = MULTIBOOT2_TAG_TYPE_ELF_SECTIONS then t\<lparr>p_elf_sections := Some tag\<rparr>
      else if ty = MULTIBOOT2_TAG_TYPE_FRAMEBUFFER then t\<lparr>p_framebuffer := Some tag\<rparr>
      else t)"

definition next_tag :: "u32 \<Rightarrow> u32 \<Rightarrow> u32" where
  "next_tag tag sz = (let offset = tag + sz in if offset mod 8 \<noteq> 0 then offset + (8 - offset mod 8) else offset)"

partial_function (option) parse_tags :: "mem \<Rightarrow> u32 \<Rightarrow> u32 \<Rightarrow> tag_pointers \<Rightarrow> tag_pointers run" where
  "parse_tags m tags_end tag t =
     (if tag < tags_end then
        parse_tags m tags_end (next_tag tag (tag_size (header_tag_at m tag))) (note_tag (tag_type (header_tag_at m tag)) tag t)
      else ret t)"

section \<open>Tag lists\<close>

text \<open>A tag list as the boot loader writes it, from address \<open>a\<close> to address \<open>e\<close>: types and sizes of the tags.\<close>

fun tags_at :: "mem \<Rightarrow> nat \<Rightarrow> (u16 \<times> nat) list \<Rightarrow> nat \<Rightarrow> bool" where
  "tags_at m a [] e \<longleftrightarrow> a = e"
| "tags_at m a ((ty, sz) # ts) e \<longleftrightarrow> 0 < sz \<and> tag_type (header_tag_at m (of_nat a)) = ty \<and>
     unat (tag_size (header_tag_at m (of_nat a))) = sz \<and> tags_at m (a + (sz + 7) div 8 * 8) ts e"

fun tag_addresses :: "nat \<Rightarrow> (u16 \<times> nat) list \<Rightarrow> (u16 \<times> u32) list" where
  "tag_addresses a [] = []"
| "tag_addresses a ((ty, sz) # ts) = (ty, of_nat a) # tag_addresses (a + (sz + 7) div 8 * 8) ts"

text \<open>The address of the last tag of a type.\<close>

definition last_tag :: "u16 \<Rightarrow> (u16 \<times> u32) list \<Rightarrow> u32 option" where
  "last_tag ty ps = (case rev (filter (\<lambda>p. fst p = ty) ps) of [] \<Rightarrow> None | p # _ \<Rightarrow> Some (snd p))"

lemma last_tag_simps [simp]:
  "last_tag ty [] = None"
  "last_tag ty (ps @ [p]) = (if fst p = ty then Some (snd p) else last_tag ty ps)"
  by (simp_all add: last_tag_def)

lemma round_up_8:
  "(sz + 7) div 8 * 8 = (if sz mod 8 = 0 then sz else sz + (8 - sz mod 8 :: nat))"
proof -
  obtain q r where sz: "sz = 8 * q + r" "r < 8" by (metis mult_div_mod_eq mod_less_divisor zero_less_numeral)
  show ?thesis
  proof (cases "r = 0")
    case True
    then show ?thesis by (simp add: sz)
  next
    case False
    then have "(8 * q + r + 7) div 8 = q + 1" using sz(2) by (intro div_nat_eqI) auto
    then show ?thesis using False sz by simp
  qed
qed

lemma next_tag_round:
  assumes "a mod 8 = 0" and "a + (sz + 7) div 8 * 8 < 2 ^ 32"
  shows "next_tag (of_nat a) (of_nat sz) = of_nat (a + (sz + 7) div 8 * 8)"
proof -
  have small: "a + sz < 2 ^ 32" using assms(2) by (simp add: round_up_8 split: if_splits)
  obtain q where a: "a = 8 * q" using assms(1) by blast
  have r: "(a + sz) mod 8 = sz mod 8" by (simp add: a)
  have mod: "unat ((of_nat a + of_nat sz :: u32) mod 8) = sz mod 8"
    using small by (simp add: unat_mod unat_of_nat_small r flip: of_nat_add)
  have k: "(sz mod 8 :: nat) < 2 ^ LENGTH(32)" by (rule order.strict_trans [of _ 8]) simp_all
  then have m: "(of_nat a + of_nat sz :: u32) mod 8 = of_nat (sz mod 8)"
    by (intro word_unat_eq_iff [THEN iffD2]) (simp only: mod unat_of_nat_small)
  have "(of_nat (sz mod 8) :: u32) = 0 \<longleftrightarrow> sz mod 8 = 0"
    unfolding unat_eq_zero [symmetric] unat_of_nat_small [OF k] ..
  moreover have "(of_nat (8 - sz mod 8) :: u32) = 8 - of_nat (sz mod 8)" by (simp add: of_nat_diff)
  ultimately show ?thesis by (simp only: next_tag_def Let_def m round_up_8 split: if_split) (simp only: of_nat_add, simp)
qed

lemma tags_at_less: "tags_at m a ts e \<Longrightarrow> a \<le> e \<and> (ts \<noteq> [] \<longrightarrow> a < e)"
proof (induction m a ts e rule: tags_at.induct)
  case (2 m a ty sz ts e)
  then have "a + (sz + 7) div 8 * 8 \<le> e" "0 < sz" by auto
  then show ?case by auto
qed simp

lemma parse_tags_fold:
  assumes "tags_at m a ts e" and "a mod 8 = 0" and "e < 2 ^ 32"
  shows "parse_tags m (of_nat e) (of_nat a) t = ret (fold (\<lambda>(ty, p). note_tag ty p) (tag_addresses a ts) t)"
  using assms
proof (induction m a ts e arbitrary: t rule: tags_at.induct)
  case (1 m a e)
  then show ?case by (subst parse_tags.simps) simp
next
  case (2 m a ty sz ts e)
  let ?n = "a + (sz + 7) div 8 * 8"
  have le: "?n \<le> e" using tags_at_less "2.prems"(1) by auto
  have less: "a < e" using tags_at_less [OF "2.prems"(1)] by simp
  have "(of_nat a :: u32) < of_nat e" using less "2.prems"(3) by (simp add: word_less_nat_alt unat_of_nat_small)
  moreover have "tag_size (header_tag_at m (of_nat a)) = of_nat sz" using "2.prems"(1) by auto
  moreover have "next_tag (of_nat a) (of_nat sz) = of_nat ?n" by (rule next_tag_round) (use "2.prems" le in auto)
  moreover have "?n mod 8 = 0" using "2.prems"(2) by presburger
  ultimately show ?case using "2.IH" "2.prems" by (subst parse_tags.simps) auto
qed

lemma fold_note_tag:
  "fold (\<lambda>(ty, p). note_tag ty p) ps no_tags =
    \<lparr>p_cmdline = map_option (\<lambda>p. p + 8) (last_tag 1 ps), p_meminfo = last_tag 4 ps, p_mmap = last_tag 6 ps,
     p_elf_sections = last_tag 9 ps, p_framebuffer = last_tag 8 ps\<rparr>"
proof (induction ps rule: rev_induct)
  case Nil
  then show ?case by (simp add: no_tags_def)
next
  case (snoc p ps)
  then show ?case by (simp add: split_beta note_tag_def tag_types)
qed

lemma parse_tags_zero_size:
  assumes "tag < tags_end" and "tag mod 8 = 0" and "tag_size (header_tag_at m tag) = 0"
  shows "parse_tags m tags_end tag t = None"
proof -
  let ?P = "\<lambda>m e tag t y. \<not> (tag < e \<and> tag mod 8 = 0 \<and> tag_size (header_tag_at m tag) = 0)"
  have stay: "next_tag tag 0 = tag" if "tag mod 8 = 0" for tag using that by (simp add: next_tag_def Let_def)
  have "?P m e tag t y" if returned: "parse_tags m e tag t = Some y" for m e tag t and y :: "fault + tag_pointers"
  proof (rule parse_tags.raw_induct [where P = ?P, OF _ returned], rule notI, elim conjE)
    fix f :: "mem \<Rightarrow> u32 \<Rightarrow> u32 \<Rightarrow> tag_pointers \<Rightarrow> tag_pointers run" and m e tag t y
    assume IH: "\<And>m e tag t y. f m e tag t = Some y \<Longrightarrow> ?P m e tag t y"
      and body: "(if tag < e then f m e (next_tag tag (tag_size (header_tag_at m tag))) (note_tag (tag_type (header_tag_at m tag)) tag t)
        else ret t) = Some y" and at: "tag < e" "tag mod 8 = 0" "tag_size (header_tag_at m tag) = 0"
    then have "f m e tag (note_tag (tag_type (header_tag_at m tag)) tag t) = Some y" by (simp add: stay)
    from IH [OF this] at show False by blast
  qed
  with assms show ?thesis by (metis not_Some_eq)
qed

section \<open>Properties\<close>

text \<open>C34: For every tag list that the boot loader may leave in memory the loop over the tags ends, whatever tags
  it does not know are in between, and afterwards each pointer is that of the last tag of its type, or the
  default when there is none.\<close>

theorem parse_tags_finds:
  assumes "tags_at m a ts e" and "a mod 8 = 0" and "e < 2 ^ 32"
  shows "parse_tags m (of_nat e) (of_nat a) no_tags =
    (let ps = tag_addresses a ts
     in ret \<lparr>p_cmdline = map_option (\<lambda>p. p + 8) (last_tag 1 ps), p_meminfo = last_tag 4 ps, p_mmap = last_tag 6 ps,
          p_elf_sections = last_tag 9 ps, p_framebuffer = last_tag 8 ps\<rparr>)"
  by (simp add: parse_tags_fold [OF assms] fold_note_tag Let_def)

text \<open>Boot information with a memory map of 40 bytes at address 16, an unknown tag of 12 bytes and the end tag.\<close>

definition boot_memory_example :: mem where
  "boot_memory_example = st32 (st32 (st32 (st32 (st32 (\<lambda>_. 0) 16 6) 20 40) 56 77) 60 12) 76 8"

theorem parse_tags_finds_witness:
  "parse_tags boot_memory_example 80 16 no_tags =
    ret \<lparr>p_cmdline = None, p_meminfo = None, p_mmap = Some 16, p_elf_sections = None, p_framebuffer = None\<rparr>"
proof -
  have "tags_at boot_memory_example 16 [(6, 40), (77, 12), (0, 8)] 80" by (simp add: boot_memory_example_def header_tag_at_def ld16_def ld32_def st32_def byte_of_def le32_def)
  from parse_tags_finds [OF this] show ?thesis by (simp add: last_tag_def Let_def)
qed

end
