(* ===== verification/Memory_Map.thy ===== *)
theory Memory_Map
  imports Ikaros_Base
begin

text \<open>
  The memory map the boot code collects (\<^verbatim>\<open>kernel/memory/memory_map.c\<close>): two static arrays of 32
  entries, the second one holding copies of the available entries only. The iterators are indices
  into the arrays. The lemmas show that the second array never outgrows its bound and always is
  the list of the available entries of the first one.
\<close>

definition MAX_MEMORY_MAP_SIZE :: nat where
  "MAX_MEMORY_MAP_SIZE = 32"

definition MEMORY_MAP_TYPE_AVAILABLE :: u32 where "MEMORY_MAP_TYPE_AVAILABLE = 1"
definition MEMORY_MAP_TYPE_ACPI :: u32 where "MEMORY_MAP_TYPE_ACPI = 3"
definition MEMORY_MAP_TYPE_HIBERNATE :: u32 where "MEMORY_MAP_TYPE_HIBERNATE = 4"
definition MEMORY_MAP_TYPE_INVALID :: u32 where "MEMORY_MAP_TYPE_INVALID = 5"

lemmas memory_map_types = MEMORY_MAP_TYPE_AVAILABLE_def MEMORY_MAP_TYPE_ACPI_def
  MEMORY_MAP_TYPE_HIBERNATE_def MEMORY_MAP_TYPE_INVALID_def

record memory_map_entry =
  mm_addr :: u32
  mm_length :: u32
  mm_type :: u32

record memory_map =
  map_entries :: "memory_map_entry list"
  map_size :: nat
  map_available :: "memory_map_entry list"
  map_available_size :: nat

definition memory_map_initialize :: "memory_map \<Rightarrow> memory_map" where
  "memory_map_initialize s = s\<lparr>map_size := 0, map_available_size := 0\<rparr>"

definition memory_map_add_region :: "memory_map \<Rightarrow> u32 \<Rightarrow> u32 \<Rightarrow> u32 \<Rightarrow> memory_map run" where
  "memory_map_add_region s addr len ty =
     (if map_size s = MAX_MEMORY_MAP_SIZE then ret s
      else if map_size s \<ge> length (map_entries s) then goes_wrong Out_of_bounds
      else let e = \<lparr>mm_addr = addr, mm_length = len, mm_type = ty\<rparr>;
               s = s\<lparr>map_entries := (map_entries s)[map_size s := e], map_size := map_size s + 1\<rparr>
        in if ty = MEMORY_MAP_TYPE_AVAILABLE then
             (if map_available_size s \<ge> length (map_available s) then goes_wrong Out_of_bounds
              else ret (s\<lparr>map_available := (map_available s)[map_available_size s := e],
                          map_available_size := map_available_size s + 1\<rparr>))
           else ret s)"

definition memory_map_begin :: "memory_map \<Rightarrow> nat" where
  "memory_map_begin s = 0"

definition memory_map_end :: "memory_map \<Rightarrow> nat" where
  "memory_map_end s = map_size s"

definition memory_map_available_begin :: "memory_map \<Rightarrow> nat" where
  "memory_map_available_begin s = 0"

definition memory_map_available_end :: "memory_map \<Rightarrow> nat" where
  "memory_map_available_end s = map_available_size s"

definition memory_map_type_str :: "u32 \<Rightarrow> string" where
  "memory_map_type_str ty =
     (if ty = MEMORY_MAP_TYPE_AVAILABLE then ''Available''
      else if ty = MEMORY_MAP_TYPE_ACPI then ''ACPI''
      else if ty = MEMORY_MAP_TYPE_HIBERNATE then ''Hibernate''
      else if ty = MEMORY_MAP_TYPE_INVALID then ''Invalid''
      else ''Reserved'')"

text \<open>The loop of the two print functions, from index \<open>i\<close> to index \<open>n\<close> of an array.\<close>

function print_entries :: "memory_map_entry list \<Rightarrow> nat \<Rightarrow> nat \<Rightarrow> printf_call list run" where
  "print_entries es i n =
     (if i < n then
        (if i < length es then
           run_bind (print_entries es (i + 1) n) (\<lambda>out.
             ret ((''0x%08x - 0x%08x %s'' @ [CHR 0x0A],
                   [Va_int (mm_addr (es ! i)), Va_int (mm_length (es ! i)),
                    Va_str (Some (memory_map_type_str (mm_type (es ! i))))]) # out))
         else goes_wrong Out_of_bounds)
      else ret [])"
  by pat_completeness auto
termination
  by (relation "measure (\<lambda>(es, i, n). n - i)") auto

declare print_entries.simps [simp del]

definition memory_map_print :: "memory_map \<Rightarrow> printf_call list run" where
  "memory_map_print s = print_entries (map_entries s) (memory_map_begin s) (memory_map_end s)"

definition memory_map_available_print :: "memory_map \<Rightarrow> printf_call list run" where
  "memory_map_available_print s =
     print_entries (map_available s) (memory_map_available_begin s) (memory_map_available_end s)"

section \<open>The map as a list\<close>

definition memory_map_bss :: memory_map where
  "memory_map_bss = (let z = \<lparr>mm_addr = 0, mm_length = 0, mm_type = 0\<rparr> in
     \<lparr>map_entries = replicate MAX_MEMORY_MAP_SIZE z, map_size = 0,
      map_available = replicate MAX_MEMORY_MAP_SIZE z, map_available_size = 0\<rparr>)"

definition the_map :: "memory_map \<Rightarrow> memory_map_entry list" where
  "the_map s = take (map_size s) (map_entries s)"

definition the_available :: "memory_map \<Rightarrow> memory_map_entry list" where
  "the_available s = take (map_available_size s) (map_available s)"

definition is_available :: "memory_map_entry \<Rightarrow> bool" where
  "is_available e \<longleftrightarrow> mm_type e = MEMORY_MAP_TYPE_AVAILABLE"

definition map_inv :: "memory_map \<Rightarrow> bool" where
  "map_inv s \<longleftrightarrow> length (map_entries s) = MAX_MEMORY_MAP_SIZE \<and> length (map_available s) = MAX_MEMORY_MAP_SIZE \<and>
     map_size s \<le> MAX_MEMORY_MAP_SIZE \<and> map_available_size s \<le> map_size s \<and>
     the_available s = filter is_available (the_map s)"

fun add_all :: "memory_map \<Rightarrow> memory_map_entry list \<Rightarrow> memory_map run" where
  "add_all s [] = ret s"
| "add_all s (e # es) = run_bind (memory_map_add_region s (mm_addr e) (mm_length e) (mm_type e)) (\<lambda>s. add_all s es)"

lemma take_update_next: "i < length xs \<Longrightarrow> take (Suc i) (xs[i := x]) = take i xs @ [x]"
  by (simp add: take_Suc_conv_app_nth)

lemma add_region_inv:
  assumes "map_inv s"
  shows "\<exists>s'. memory_map_add_region s a l t = ret s' \<and> map_inv s' \<and>
    the_map s' = take MAX_MEMORY_MAP_SIZE (the_map s @ [\<lparr>mm_addr = a, mm_length = l, mm_type = t\<rparr>])"
proof (cases "map_size s = MAX_MEMORY_MAP_SIZE")
  case True
  with assms show ?thesis
    by (simp add: memory_map_add_region_def the_map_def map_inv_def)
next
  case False
  with assms have room: "map_size s < 32" "map_available_size s < 32"
      "length (map_entries s) = 32" "length (map_available s) = 32"
    by (auto simp: map_inv_def MAX_MEMORY_MAP_SIZE_def)
  with assms False show ?thesis
    by (auto simp: memory_map_add_region_def map_inv_def the_map_def the_available_def Let_def
        is_available_def take_update_next MAX_MEMORY_MAP_SIZE_def)
qed

lemma add_all_inv:
  assumes "map_inv s"
  shows "\<exists>s'. add_all s es = ret s' \<and> map_inv s' \<and> the_map s' = take 32 (the_map s @ es)"
  using assms
proof (induction es arbitrary: s)
  case Nil
  then show ?case by (auto simp: map_inv_def the_map_def MAX_MEMORY_MAP_SIZE_def)
next
  case (Cons e es)
  obtain s1 where "memory_map_add_region s (mm_addr e) (mm_length e) (mm_type e) = ret s1"
      "map_inv s1" "the_map s1 = take 32 (the_map s @ [e])"
    using add_region_inv [OF Cons.prems, of "mm_addr e" "mm_length e" "mm_type e"]
    by (cases e) (auto simp: MAX_MEMORY_MAP_SIZE_def)
  moreover obtain s' where "add_all s1 es = ret s'" "map_inv s'" "the_map s' = take 32 (the_map s1 @ es)"
    using Cons.IH [OF \<open>map_inv s1\<close>] by blast
  moreover have "take 32 (take 32 (the_map s @ [e]) @ es) = take 32 (the_map s @ e # es)"
    by (simp add: take_Cons' min_def)
  ultimately show ?case by auto
qed

lemma bss_map_inv: "map_inv memory_map_bss" "the_map memory_map_bss = []"
  by (simp_all add: map_inv_def memory_map_bss_def the_map_def the_available_def MAX_MEMORY_MAP_SIZE_def Let_def)

lemma print_entries_take:
  "n \<le> length es \<Longrightarrow> \<exists>out. print_entries es i n = ret out \<and> length out = n - i"
proof (induction es i n rule: print_entries.induct)
  case (1 es i n)
  show ?case
  proof (cases "i < n")
    case True
    with "1" obtain out where "print_entries es (i + 1) n = ret out" "length out = n - (i + 1)"
      by auto
    with True "1.prems" show ?thesis by (subst print_entries.simps) auto
  next
    case False
    then show ?thesis by (subst print_entries.simps) simp
  qed
qed

section \<open>Properties\<close>

text \<open>However many regions the boot loader reports, adding them never writes outside the two
  arrays: the map holds the first 32 of them, the list of available regions holds exactly the
  available ones among these, in the same order, and both print loops stay inside the arrays.\<close>

theorem memory_map_add_all:
  assumes "map_inv s"
  shows "\<exists>s' p q. add_all (memory_map_initialize s) es = ret s' \<and> the_map s' = take 32 es \<and>
    the_available s' = filter is_available (take 32 es) \<and>
    memory_map_print s' = ret p \<and> length p = length (the_map s') \<and>
    memory_map_available_print s' = ret q \<and> length q = length (the_available s')"
proof -
  have "map_inv (memory_map_initialize s)" "the_map (memory_map_initialize s) = []"
    using assms by (auto simp: map_inv_def memory_map_initialize_def the_map_def the_available_def)
  with add_all_inv obtain s' where s': "add_all (memory_map_initialize s) es = ret s'" "map_inv s'"
      "the_map s' = take 32 es"
    by fastforce
  moreover have "the_available s' = filter is_available (take 32 es)"
    using s' by (simp add: map_inv_def)
  moreover obtain p where "memory_map_print s' = ret p" "length p = length (the_map s')"
    using s'(2) print_entries_take [of "map_size s'" "map_entries s'" 0]
    by (auto simp: memory_map_print_def memory_map_begin_def memory_map_end_def map_inv_def the_map_def)
  moreover obtain q where "memory_map_available_print s' = ret q" "length q = length (the_available s')"
    using s'(2) print_entries_take [of "map_available_size s'" "map_available s'" 0]
    by (auto simp: memory_map_available_print_def memory_map_available_begin_def
        memory_map_available_end_def map_inv_def the_available_def)
  ultimately show ?thesis by blast
qed

theorem memory_map_add_all_witness:
  "\<exists>s' p q. add_all (memory_map_initialize memory_map_bss)
      [\<lparr>mm_addr = 0, mm_length = 0x9FC00, mm_type = 1\<rparr>, \<lparr>mm_addr = 0xF0000, mm_length = 0x10000, mm_type = 2\<rparr>] = ret s' \<and>
    length (the_map s') = 2 \<and> the_available s' = [\<lparr>mm_addr = 0, mm_length = 0x9FC00, mm_type = 1\<rparr>] \<and>
    memory_map_print s' = ret p \<and> length p = 2 \<and> memory_map_available_print s' = ret q \<and> length q = 1"
proof -
  have "map_inv memory_map_bss"
    by (simp add: map_inv_def memory_map_bss_def Let_def the_map_def the_available_def)
  from memory_map_add_all [OF this, of "[\<lparr>mm_addr = 0, mm_length = 0x9FC00, mm_type = 1\<rparr>,
      \<lparr>mm_addr = 0xF0000, mm_length = 0x10000, mm_type = 2\<rparr>]"]
  show ?thesis by (auto simp: is_available_def memory_map_types)
qed

end
