(* ===== verification/Boot_Memory.thy ===== *)
theory Boot_Memory
  imports Multiboot Memory_Map Memory_Region
begin

text \<open>
  How the boot code sets up physical memory (\<^verbatim>\<open>boot/main.c\<close>): the memory map of the boot information
  goes into the kernel's memory map, the last available region above one mebibyte becomes the region
  of the page allocator, and the pages of the kernel image are marked as used. The lemmas put
  \<^verbatim>\<open>Multiboot\<close>, \<^verbatim>\<open>Memory_Map\<close> and \<^verbatim>\<open>Memory_Region\<close> together.
\<close>

section \<open>The steps of the boot code\<close>

definition entry_step :: "u32 \<Rightarrow> u32" where
  "entry_step entry_size = (if entry_size mod 8 \<noteq> 0 then entry_size + (8 - entry_size mod 8) else entry_size)"

definition add_mmap_entries :: "mem \<Rightarrow> u32 \<Rightarrow> memory_map \<Rightarrow> memory_map run" where
  "add_mmap_entries m mmap_tag s =
     (let t = tag_mmap_at m mmap_tag;
          entry_size = entry_step (mmap_entry_size t)
      in if entry_size = 0 then goes_wrong Division_by_zero
         else let num_entries = (mmap_size t - 16) div entry_size
           in run_for [0..<unat num_entries] (\<lambda>offset s.
                let e = mmap_entry_at m (mmap_entries t + entry_size * of_nat offset)
                in memory_map_add_region s (ucast (me_addr e)) (ucast (me_len e)) (me_type e)) s)"

definition PAGE_SHIFT :: nat where
  "PAGE_SHIFT = 12"

definition init_region :: "memory_map_entry \<Rightarrow> region_state \<Rightarrow> region_state" where
  "init_region e s =
     (if mm_addr e \<ge> 0x00100000 \<and> mm_type e = 1 then
        let max_size = push_bit PAGE_SHIFT (push_bit 3 (of_nat MEMORY_BITMAP_SIZE));
            sz = (if max_size > mm_length e then mm_length e else max_size)
        in memory_region_early_init s (drop_bit PAGE_SHIFT (mm_addr e)) (drop_bit PAGE_SHIFT sz)
      else s)"

definition init_regions :: "memory_map \<Rightarrow> region_state \<Rightarrow> region_state run" where
  "init_regions mm s =
     run_for [memory_map_available_begin mm..<memory_map_available_end mm] (\<lambda>i s.
       if i < length (map_available mm) then ret (init_region (map_available mm ! i) s) else goes_wrong Out_of_bounds) s"

definition reserve_in_region :: "page \<Rightarrow> page \<Rightarrow> rptr \<Rightarrow> region_state \<Rightarrow> region_state run" where
  "reserve_in_region min_size max_size p s =
     (let r = regions s p
      in if memory_region_overlap r min_size max_size then
           let offset = (if r_base r > min_size then r_base r else min_size);
               tags_end = (if r_base r + r_length r < max_size then r_base r + r_length r else max_size)
           in run_bind (run_for [unat offset..<unat tags_end] (\<lambda>i rs. memory_region_setbit rs (Some p) (of_nat i) True) (regions s)) (\<lambda>rs.
              ret (s\<lparr>regions := rs\<rparr>))
         else ret s)"

partial_function (option) reserve_kernel :: "page \<Rightarrow> page \<Rightarrow> rptr option \<Rightarrow> region_state \<Rightarrow> region_state run" where
  "reserve_kernel min_size max_size region s = (case region of
     None \<Rightarrow> ret s
   | Some p \<Rightarrow> run_bind (reserve_in_region min_size max_size p s) (\<lambda>s. reserve_kernel min_size max_size (r_next (regions s p)) s))"

definition boot_memory :: "mem \<Rightarrow> u32 \<Rightarrow> u32 \<Rightarrow> u32 \<Rightarrow> memory_map \<Rightarrow> region_state \<Rightarrow> (memory_map \<times> region_state) run" where
  "boot_memory m mmap_tag kernel_start kernel_end mm s =
     run_bind (add_mmap_entries m mmap_tag mm) (\<lambda>mm.
     run_bind (init_regions mm s) (\<lambda>s.
     let min_size = drop_bit PAGE_SHIFT (kernel_start - 0xC0000000);
         max_size = drop_bit PAGE_SHIFT (kernel_end - 0xC0000000)
     in run_bind (reserve_kernel min_size max_size (memory_region_enumerate s) s) (\<lambda>s. ret (mm, s))))"

section \<open>The memory map\<close>

text \<open>The entries that the tag describes, with addresses and lengths cut to 32 bits.\<close>

definition boot_entries :: "mem \<Rightarrow> u32 \<Rightarrow> memory_map_entry list" where
  "boot_entries m mmap_tag =
     (let t = tag_mmap_at m mmap_tag; step = entry_step (mmap_entry_size t)
      in map (\<lambda>i. let e = mmap_entry_at m (mmap_entries t + step * of_nat i)
               in \<lparr>mm_addr = ucast (me_addr e), mm_length = ucast (me_len e), mm_type = me_type e\<rparr>)
           [0..<unat ((mmap_size t - 16) div step)])"

lemma run_for_add_all:
  "run_for is (\<lambda>i s. memory_map_add_region s (mm_addr (f i)) (mm_length (f i)) (mm_type (f i))) s = add_all s (map f is)"
proof (induction "is" arbitrary: s)
  case Nil
  then show ?case by simp
next
  case (Cons i "is")
  then have "run_for is (\<lambda>i s. memory_map_add_region s (mm_addr (f i)) (mm_length (f i)) (mm_type (f i))) = (\<lambda>s. add_all s (map f is))"
    by (simp add: fun_eq_iff)
  then show ?case by simp
qed

lemma add_mmap_entries_ok:
  assumes "map_inv mm" and "the_map mm = []" and "entry_step (mmap_entry_size (tag_mmap_at m tag)) \<noteq> 0"
  shows "\<exists>mm'. add_mmap_entries m tag mm = ret mm' \<and> map_inv mm' \<and> the_map mm' = take 32 (boot_entries m tag)"
proof -
  let ?f = "\<lambda>i. let e = mmap_entry_at m (mmap_entries (tag_mmap_at m tag) + entry_step (mmap_entry_size (tag_mmap_at m tag)) * of_nat i)
    in \<lparr>mm_addr = ucast (me_addr e), mm_length = ucast (me_len e), mm_type = me_type e\<rparr>"
  have "add_mmap_entries m tag mm = add_all mm (boot_entries m tag)"
    using assms(3) run_for_add_all [where f = ?f] by (simp add: add_mmap_entries_def boot_entries_def Let_def)
  with add_all_inv [OF assms(1), of "boot_entries m tag"] assms(2) show ?thesis by simp
qed

section \<open>The region of the allocator\<close>

definition candidate :: "memory_map_entry \<Rightarrow> bool" where
  "candidate e \<longleftrightarrow> mm_addr e \<ge> 0x100000 \<and> is_available e"

definition candidate_pages :: "memory_map_entry \<Rightarrow> nat set" where
  "candidate_pages e = (let b = unat (mm_addr e) div 4096; n = min (unat (mm_length e)) 0x4000000 div 4096
     in {b..<b + 32 * (n div 32)})"

text \<open>Base and length in pages of the region for a candidate.\<close>

definition region_of :: "memory_map_entry \<Rightarrow> u32 \<times> u32" where
  "region_of e = (drop_bit 12 (mm_addr e), drop_bit 12 (min (mm_length e) 0x4000000))"

lemma init_region_candidate:
  "init_region e s = (if candidate e then memory_region_early_init s (fst (region_of e)) (snd (region_of e)) else s)"
proof -
  have "push_bit 12 (push_bit 3 (of_nat MEMORY_BITMAP_SIZE)) = (0x4000000 :: u32)" by (simp add: MEMORY_BITMAP_SIZE_def)
  then show ?thesis
    by (auto simp: init_region_def candidate_def is_available_def memory_map_types region_of_def PAGE_SHIFT_def Let_def min_def)
qed

lemma region_of_bounds:
  "unat (snd (region_of e)) \<le> 8 * MEMORY_BITMAP_SIZE" "unat (fst (region_of e)) + unat (snd (region_of e)) < 2 ^ 32"
  "unat (fst (region_of e)) = unat (mm_addr e) div 4096" "unat (snd (region_of e)) = min (unat (mm_length e)) 0x4000000 div 4096"
proof -
  have len: "unat (min (mm_length e) 0x4000000) = min (unat (mm_length e)) 0x4000000"
    by (simp add: min_def word_le_nat_alt)
  show b: "unat (fst (region_of e)) = unat (mm_addr e) div 4096" by (simp add: region_of_def unat_drop)
  show n: "unat (snd (region_of e)) = min (unat (mm_length e)) 0x4000000 div 4096" by (simp add: region_of_def unat_drop len)
  have "unat (snd (region_of e)) \<le> 0x4000000 div 4096" unfolding n by (intro div_le_mono) simp
  then show "unat (snd (region_of e)) \<le> 8 * MEMORY_BITMAP_SIZE" by (simp add: MEMORY_BITMAP_SIZE_def)
  moreover have "unat (fst (region_of e)) \<le> 4294967295 div 4096"
    unfolding b using unat_u32 [of "mm_addr e"] by (intro div_le_mono) simp
  ultimately show "unat (fst (region_of e)) + unat (snd (region_of e)) < 2 ^ 32" by (simp add: MEMORY_BITMAP_SIZE_def)
qed

lemma early_init_overwrites:
  "memory_region_early_init (memory_region_early_init s b n) b' n' = memory_region_early_init s b' n'"
  by (simp add: memory_region_early_init_def Let_def)

lemma init_regions_last:
  assumes "map_inv mm"
  shows "init_regions mm s = ret (case filter candidate (the_map mm) of [] \<Rightarrow> s
    | es \<Rightarrow> memory_region_early_init s (fst (region_of (last es))) (snd (region_of (last es))))"
proof -
  let ?es = "the_available mm" and ?n = "map_available_size mm"
  have n: "?n \<le> length (map_available mm)" using assms by (simp add: map_inv_def)
  have es: "?es = map ((!) (map_available mm)) [0..<?n]" using n by (intro nth_equalityI) (simp_all add: the_available_def)
  have "init_regions mm s = ret (fold (\<lambda>i. init_region (map_available mm ! i)) [0..<?n] s)"
    unfolding init_regions_def memory_map_available_begin_def memory_map_available_end_def
    by (rule conjunct1, rule run_for_fold [where P = "\<lambda>_. True"]) (use n in auto)
  also have "fold (\<lambda>i. init_region (map_available mm ! i)) [0..<?n] s = fold init_region ?es s"
    by (simp add: es fold_map comp_def)
  also have "fold init_region es s = (case filter candidate es of [] \<Rightarrow> s
      | es \<Rightarrow> memory_region_early_init s (fst (region_of (last es))) (snd (region_of (last es))))" for es
  proof (induction es rule: rev_induct)
    case Nil
    then show ?case by simp
  next
    case (snoc e es)
    then show ?case
      by (cases "filter candidate es") (auto simp: init_region_candidate early_init_overwrites)
  qed
  also have "filter candidate ?es = filter candidate (the_map mm)"
  proof -
    have "filter candidate (filter is_available es) = filter candidate es" for es by (auto simp: candidate_def intro: filter_cong)
    then show ?thesis using assms by (simp add: map_inv_def)
  qed
  finally show ?thesis .
qed

section \<open>The pages of the kernel\<close>

text \<open>What the boot code knows while it marks pages: a single region with base \<open>b\<close> and length \<open>n\<close>.\<close>

definition one_region :: "region_state \<Rightarrow> u32 \<Rightarrow> u32 \<Rightarrow> bool" where
  "one_region s b n \<longleftrightarrow> chain s [initial_region] \<and> r_base (regions s initial_region) = b \<and> r_length (regions s initial_region) = n"

lemma setbit_one_region:
  assumes "one_region s b n" and "unat b \<le> i" and "i < unat b + unat n"
  shows "\<exists>rs. memory_region_setbit (regions s) (Some initial_region) (of_nat i) True = ret rs \<and>
    one_region (s\<lparr>regions := rs\<rparr>) b n \<and> free_pages (s\<lparr>regions := rs\<rparr>) = free_pages s - {i}"
proof -
  let ?r = "regions s initial_region" and ?k = "i - unat b"
  have ch: "chain s [initial_region]" and r: "r_base ?r = b" "r_length ?r = n" using assms(1) by (simp_all add: one_region_def)
  have root: "root_region s = Some initial_region" and ok: "region_ok ?r" using ch by (simp_all add: chain_def)
  have k: "?k < unat (r_length ?r)" using assms(2,3) r by simp
  have pg: "b + of_nat ?k = of_nat i" using assms(2) by (simp add: of_nat_diff)
  let ?rs = "(regions s)(initial_region := mark ?r ?k True)"
  have set: "memory_region_setbit (regions s) (Some initial_region) (of_nat i) True = ret ?rs"
    using setbit_chain [OF ch _ k, of True] by (simp add: root r pg)
  have ch': "chain (s\<lparr>regions := ?rs\<rparr>) [initial_region]" using chain_mark(1) [OF ch] by simp
  then have "free_pages (s\<lparr>regions := ?rs\<rparr>) = free_pages s - {i}"
    using free_in_mark(1) [OF ok k] assms(2) by (simp add: free_pages_chain [OF ch] free_pages_chain [OF ch'] r)
  with set ch' r show ?thesis by (intro exI [of _ ?rs]) (simp add: one_region_def)
qed

lemma setbits_one_region:
  assumes "one_region s b n" and "unat b \<le> i" and "j \<le> unat b + unat n"
  shows "\<exists>rs. run_for [i..<j] (\<lambda>i rs. memory_region_setbit rs (Some initial_region) (of_nat i) True) (regions s) = ret rs \<and>
    one_region (s\<lparr>regions := rs\<rparr>) b n \<and> free_pages (s\<lparr>regions := rs\<rparr>) = free_pages s - {i..<j}"
proof (cases "i \<le> j")
  case True
  have "\<exists>rs. run_for [i..<j] (\<lambda>i rs. memory_region_setbit rs (Some initial_region) (of_nat i) True) (regions s) = ret rs \<and>
    (one_region (s\<lparr>regions := rs\<rparr>) b n \<and> free_pages (s\<lparr>regions := rs\<rparr>) = free_pages s - {i..<j})"
  proof (rule run_for_upt [where P = "\<lambda>l rs. one_region (s\<lparr>regions := rs\<rparr>) b n \<and> free_pages (s\<lparr>regions := rs\<rparr>) = free_pages s - {i..<l}"])
    fix l rs assume l: "i \<le> l" "l < j" and rs: "one_region (s\<lparr>regions := rs\<rparr>) b n \<and> free_pages (s\<lparr>regions := rs\<rparr>) = free_pages s - {i..<l}"
    have "unat b \<le> l" "l < unat b + unat n" using assms(2,3) l by auto
    from setbit_one_region [OF conjunct1 [OF rs] this] rs
    show "\<exists>rs'. memory_region_setbit rs (Some initial_region) (of_nat l) True = ret rs' \<and>
        (one_region (s\<lparr>regions := rs'\<rparr>) b n \<and> free_pages (s\<lparr>regions := rs'\<rparr>) = free_pages s - {i..<Suc l})"
      using l(1) by (auto simp: atLeastLessThanSuc)
  qed (use assms(1) True in simp_all)
  then show ?thesis by blast
qed (use assms(1) in simp)

lemma reserve_one_region:
  assumes "one_region s b n" and "unat b + unat n < 2 ^ 32"
  shows "\<exists>s'. reserve_kernel mn mx (memory_region_enumerate s) s = ret s' \<and> one_region s' b n \<and>
    free_pages s' = free_pages s - {unat mn..<unat mx}"
proof -
  let ?r = "regions s initial_region"
  have ch: "chain s [initial_region]" and r: "r_base ?r = b" "r_length ?r = n" using assms(1) by (simp_all add: one_region_def)
  have root: "root_region s = Some initial_region" using ch by (simp add: chain_def)
  have bn: "unat (b + n) = unat b + unat n" using assms(2) by (intro unat_add_small) simp
  have free: "free_pages s \<subseteq> {unat b..<unat b + unat n}"
    using usable_le [of ?r] by (auto simp: free_pages_chain [OF ch] free_in_def r)
  have "\<exists>s'. reserve_in_region mn mx initial_region s = ret s' \<and> one_region s' b n \<and> free_pages s' = free_pages s - {unat mn..<unat mx}"
  proof (cases "memory_region_overlap ?r mn mx")
    case True
    let ?i = "max (unat b) (unat mn)" and ?j = "min (unat b + unat n) (unat mx)"
    have ij: "unat (if b > mn then b else mn) = ?i" "unat (if b + n < mx then b + n else mx) = ?j"
      by (auto simp: word_less_nat_alt bn)
    have "{?i..<?j} \<inter> free_pages s = {unat mn..<unat mx} \<inter> free_pages s" using free by auto
    then have "free_pages s - {?i..<?j} = free_pages s - {unat mn..<unat mx}" by blast
    with setbits_one_region [OF assms(1), of ?i ?j] obtain rs where
      "run_for [?i..<?j] (\<lambda>i rs. memory_region_setbit rs (Some initial_region) (of_nat i) True) (regions s) = ret rs"
      "one_region (s\<lparr>regions := rs\<rparr>) b n" "free_pages (s\<lparr>regions := rs\<rparr>) = free_pages s - {unat mn..<unat mx}" by auto
    then show ?thesis unfolding reserve_in_region_def Let_def r if_P [OF True] ij by simp
  next
    case False
    then have "mx < b \<or> b + n < mn" by (auto simp: memory_region_overlap_def r split: if_splits)
    then have "{unat mn..<unat mx} \<inter> free_pages s = {}" using free bn by (auto simp: word_less_nat_alt)
    then have "free_pages s - {unat mn..<unat mx} = free_pages s" by blast
    with False assms(1) show ?thesis by (simp add: reserve_in_region_def Let_def)
  qed
  then obtain s' where s': "reserve_in_region mn mx initial_region s = ret s'" "one_region s' b n"
    "free_pages s' = free_pages s - {unat mn..<unat mx}" by blast
  moreover have "r_next (regions s' initial_region) = None" using s'(2) by (simp add: one_region_def chain_def)
  ultimately show ?thesis
    by (simp add: memory_region_enumerate_def root reserve_kernel.simps [of _ _ "Some _"] reserve_kernel.simps [of _ _ None])
qed

section \<open>Properties\<close>

lemma early_init_one_region:
  "one_region (memory_region_early_init s (fst (region_of e)) (snd (region_of e))) (fst (region_of e)) (snd (region_of e))"
  "free_pages (memory_region_early_init s (fst (region_of e)) (snd (region_of e))) = candidate_pages e"
proof -
  note bounds = region_of_bounds [of e]
  have "\<not> of_nat (MEMORY_BITMAP_SIZE * 32) < snd (region_of e)"
    using bounds(1) by (simp add: word_less_nat_alt MEMORY_BITMAP_SIZE_def)
  then show "one_region (memory_region_early_init s (fst (region_of e)) (snd (region_of e))) (fst (region_of e)) (snd (region_of e))"
    using early_init_chain(1) [OF bounds(1,2)] by (simp add: one_region_def memory_region_early_init_def Let_def)
  show "free_pages (memory_region_early_init s (fst (region_of e)) (snd (region_of e))) = candidate_pages e"
    using early_init_chain(2) [OF bounds(1,2)] by (simp add: candidate_pages_def Let_def bounds(3,4))
qed

lemma boot_memory_run:
  assumes "entry_step (mmap_entry_size (tag_mmap_at m tag)) \<noteq> 0"
    and "es = filter candidate (take 32 (boot_entries m tag))" and "es \<noteq> []"
    and "K = {unat (kernel_start - 0xC0000000) div 4096..<unat (kernel_end - 0xC0000000) div 4096}"
  shows "\<exists>mm s. boot_memory m tag kernel_start kernel_end memory_map_bss region_bss = ret (mm, s) \<and>
    the_map mm = take 32 (boot_entries m tag) \<and> region_inv s \<and> free_pages s = candidate_pages (last es) - K"
proof -
  obtain mm where mm: "add_mmap_entries m tag memory_map_bss = ret mm" "map_inv mm" "the_map mm = take 32 (boot_entries m tag)"
    using add_mmap_entries_ok [OF bss_map_inv assms(1)] by blast
  let ?e = "last es"
  let ?s = "memory_region_early_init region_bss (fst (region_of ?e)) (snd (region_of ?e))"
  have init: "init_regions mm region_bss = ret ?s"
    using init_regions_last [OF mm(2), of region_bss] assms(3) unfolding mm(3) assms(2) [symmetric] by (cases es) auto
  obtain s where s: "reserve_kernel (drop_bit 12 (kernel_start - 0xC0000000)) (drop_bit 12 (kernel_end - 0xC0000000))
      (memory_region_enumerate ?s) ?s = ret s" "one_region s (fst (region_of ?e)) (snd (region_of ?e))"
    "free_pages s = candidate_pages ?e - K"
    using reserve_one_region [OF early_init_one_region(1) [of region_bss ?e] region_of_bounds(2),
        of "drop_bit 12 (kernel_start - 0xC0000000)" "drop_bit 12 (kernel_end - 0xC0000000)"]
    unfolding assms(4) early_init_one_region(2) unat_drop by auto
  have "boot_memory m tag kernel_start kernel_end memory_map_bss region_bss = ret (mm, s)"
    using s(1) by (simp add: boot_memory_def mm(1) init PAGE_SHIFT_def Let_def)
  moreover have "region_inv s" using s(2) by (auto simp: one_region_def region_inv_def)
  ultimately show ?thesis using mm(3) s(3) by blast
qed

lemma candidate_pages_bounds:
  "card (candidate_pages e) \<le> 16384"
  "unat (mm_addr e) + unat (mm_length e) \<le> 2 ^ 32 \<Longrightarrow> candidate_pages e \<subseteq> {..<2 ^ 20}"
proof -
  define b n where "b = unat (mm_addr e) div 4096" and "n = min (unat (mm_length e)) 0x4000000 div 4096"
  have c: "candidate_pages e = {b..<b + 32 * (n div 32)}" by (simp add: candidate_pages_def b_def n_def Let_def)
  have n: "32 * (n div 32) \<le> n" by simp
  have "n \<le> 0x4000000 div 4096" unfolding n_def by (intro div_le_mono) simp
  then show "card (candidate_pages e) \<le> 16384" using n by (simp add: c)
  assume "unat (mm_addr e) + unat (mm_length e) \<le> 2 ^ 32"
  moreover have "4096 * b \<le> unat (mm_addr e)" "4096 * n \<le> unat (mm_length e)" by (simp_all add: b_def n_def)
  ultimately have "b + n \<le> 2 ^ 20" by simp
  then show "candidate_pages e \<subseteq> {..<2 ^ 20}" using n by (auto simp: c)
qed

text \<open>C33: After the boot code has read a memory map with at least one available region above one mebibyte, the
  invariant of the page allocator holds, its free pages are those of the last such region (64 MiB of it at most,
  whole groups of 32 pages) without the whole pages of the kernel image, and however many pages are allocated
  from then on, they are distinct and never one of those whole pages. The page with the end of the image is not one of
  them unless the image ends at a page boundary, since the code rounds the end down; it can be handed out.\<close>

theorem boot_memory_correct:
  assumes "entry_step (mmap_entry_size (tag_mmap_at m tag)) \<noteq> 0"
    and "es = filter candidate (take 32 (boot_entries m tag))" and "es \<noteq> []"
    and "K = {unat (kernel_start - 0xC0000000) div 4096..<unat (kernel_end - 0xC0000000) div 4096}"
  shows "\<exists>mm s. boot_memory m tag kernel_start kernel_end memory_map_bss region_bss = ret (mm, s) \<and>
    the_map mm = take 32 (boot_entries m tag) \<and> region_inv s \<and> free_pages s = candidate_pages (last es) - K \<and>
    (\<forall>n. \<exists>s' pgs. alloc_pages memory_region_alloc_page n s = ret (s', pgs) \<and> distinct pgs \<and>
      unat ` set pgs \<subseteq> candidate_pages (last es) - K \<and> length pgs = min n (card (candidate_pages (last es) - K)))"
proof -
  obtain mm s where s: "boot_memory m tag kernel_start kernel_end memory_map_bss region_bss = ret (mm, s)"
    "the_map mm = take 32 (boot_entries m tag)" "region_inv s" "free_pages s = candidate_pages (last es) - K"
    using boot_memory_run [OF assms] by blast
  have "finite (free_pages s)" by (simp add: s(4) candidate_pages_def Let_def)
  from mr.alloc_pages_spec [OF s(3) this] have "\<exists>s' pgs. alloc_pages memory_region_alloc_page n s = ret (s', pgs) \<and> distinct pgs \<and>
      unat ` set pgs \<subseteq> candidate_pages (last es) - K \<and> length pgs = min n (card (candidate_pages (last es) - K))" for n
    unfolding s(4) by metis
  with s show ?thesis by blast
qed

text \<open>A memory map of one entry: 31 MiB of available memory at one mebibyte.\<close>

definition one_mmap :: mem where
  "one_mmap = st32 (st32 (st32 (st32 (st32 (st32 (\<lambda>_. 0) 0 6) 4 40) 8 24) 16 0x100000) 24 0x1F00000) 32 1"

lemma one_mmap_entries:
  "tag_mmap_at one_mmap 0 = \<lparr>mmap_size = 40, mmap_entry_size = 24, mmap_entry_version = 0, mmap_entries = 16\<rparr>"
  "boot_entries one_mmap 0 = [\<lparr>mm_addr = 0x100000, mm_length = 0x1F00000, mm_type = 1\<rparr>]"
proof -
  show tag: "tag_mmap_at one_mmap 0 = \<lparr>mmap_size = 40, mmap_entry_size = 24, mmap_entry_version = 0, mmap_entries = 16\<rparr>"
    by (simp add: tag_mmap_at_def one_mmap_def ld32_def st32_def byte_of_def le32_def)
  show "boot_entries one_mmap 0 = [\<lparr>mm_addr = 0x100000, mm_length = 0x1F00000, mm_type = 1\<rparr>]"
    by (simp add: boot_entries_def tag entry_step_def mmap_entry_at_def)
      (simp add: one_mmap_def ld64_def ld32_def st32_def byte_of_def le32_def)
qed

theorem boot_memory_correct_witness:
  "\<exists>mm s. boot_memory one_mmap 0 0xC0100000 0xC0180123 memory_map_bss region_bss = ret (mm, s) \<and> length (the_map mm) = 1 \<and>
    region_inv s \<and> free_pages s = {384..<8192}"
proof -
  let ?e = "\<lparr>mm_addr = 0x100000, mm_length = 0x1F00000, mm_type = 1\<rparr>"
  have es: "[?e] = filter candidate (take 32 (boot_entries one_mmap 0))"
    by (simp add: one_mmap_entries candidate_def is_available_def memory_map_types)
  have step: "entry_step (mmap_entry_size (tag_mmap_at one_mmap 0)) \<noteq> 0" by (simp add: one_mmap_entries entry_step_def)
  have "candidate_pages ?e - {256..<384} = {384..<8192}" by (auto simp: candidate_pages_def)
  with boot_memory_correct [OF step es _ refl, of "0xC0100000" "0xC0180123"] show ?thesis by (auto simp: one_mmap_entries)
qed

end
