(* ===== verification/Delay.thy ===== *)
theory Delay
  imports Tasks Port_Io
begin

text \<open>
  Short delays: the delay loop (\<^verbatim>\<open>delay.c\<close>), the programming of the timer (\<^verbatim>\<open>irq/timer.c\<close>) and the
  calibration of the loop in \<open>init_x86\<close> (\<^verbatim>\<open>boot/initx86.c\<close>). The delay loop is modelled by the
  number of its rounds. What a machine contributes is its speed: \<open>ticks_in n\<close> is the number of timer
  ticks seen by a delay of \<open>n\<close> rounds that starts right after a tick.
\<close>

section \<open>The delay loop\<close>

text \<open>\<open>2: dec; jnz 2b\<close>: the register afterwards and the rounds made.\<close>

function dec_loop :: "u32 \<Rightarrow> nat \<Rightarrow> u32 \<times> nat" where
  "dec_loop v n = (let v = v - 1 in if v \<noteq> 0 then dec_loop v (n + 1) else (v, n + 1))"
  by pat_completeness auto
termination
proof (relation "measure (\<lambda>(v, n). unat (v - 1))")
  fix v x :: u32 and n :: nat
  assume "x = v - 1" and "x \<noteq> 0"
  then have "unat (x - 1) < unat x" using unat_minus_one [of x] unat_gt_0 [of x] by simp
  then show "((x, n + 1), v, n) \<in> measure (\<lambda>(v, n). unat (v - 1))" by (simp add: \<open>x = v - 1\<close>)
qed simp

declare dec_loop.simps [simp del]

text \<open>The rounds of \<open>__delay\<close>.\<close>

definition delay :: "u32 \<Rightarrow> u32 \<times> nat" where
  "delay loops = (if loops = 0 then (loops - 1, 0) else let (v, n) = dec_loop loops 0 in (v - 1, n))"

text \<open>\<open>mull\<close> leaves the upper half of the product in \<open>edx\<close>.\<close>

definition mull_high :: "u32 \<Rightarrow> u32 \<Rightarrow> u32" where
  "mull_high a b = ucast (drop_bit 32 (ucast a * ucast b :: u64))"

definition const_udelay :: "u32 \<Rightarrow> u32 \<Rightarrow> u32 \<times> nat" where
  "const_udelay loops_per_jiffy xloops =
     (let xloops = xloops * 4;
          xloops = mull_high xloops (loops_per_jiffy * (ucast HZ div 4))
      in delay (xloops + 1))"

definition udelay :: "u32 \<Rightarrow> u32 \<Rightarrow> u32 \<times> nat" where
  "udelay loops_per_jiffy usecs = const_udelay loops_per_jiffy (usecs * 0x000010C7)"

section \<open>The timer\<close>

text \<open>The result is the scheduler's state with its tick counter, and \<open>loops_per_jiffy\<close>.\<close>

definition timer_init :: "'c bus \<Rightarrow> sched \<Rightarrow> 'c \<Rightarrow> sched \<times> u32 \<times> 'c" where
  "timer_init b s c =
     (let ax = 5965 :: u16;
          c = outb b 0x43 0x36 c;
          c = outb b 0x40 (ucast ax) c;
          c = outb b 0x40 (ucast (drop_bit 8 ax)) c
      in (s\<lparr>jiffies := 0\<rparr>, 0, c))"

section \<open>Calibration\<close>

text \<open>\<open>while ((loops_per_jiffy <<= 1) != 0)\<close>: double until a delay sees a tick.\<close>

function double_loop :: "(u32 \<Rightarrow> u32) \<Rightarrow> u32 \<Rightarrow> u32" where
  "double_loop ticks_in lpj =
     (let lpj = push_bit 1 lpj
      in if lpj \<noteq> 0 then (if ticks_in lpj \<noteq> 0 then lpj else double_loop ticks_in lpj) else lpj)"
  by pat_completeness auto
termination
proof (relation "measure (\<lambda>(f, v). LEAST k. push_bit k v = (0 :: u32))")
  fix f and v x :: u32
  assume x: "x = push_bit 1 v" and nz: "x \<noteq> 0"
  have all: "\<exists>k. push_bit k w = 0" for w :: u32
    by (rule exI [of _ 32], rule bit_word_eqI) (simp add: bit_simps)
  define K where "K = (LEAST k. push_bit k v = 0)"
  have K: "push_bit K v = 0" unfolding K_def using all by (rule LeastI_ex)
  have "v \<noteq> 0" using x nz by auto
  with K have "K \<noteq> 0" by (metis push_bit_0_id id_apply)
  then obtain j where j: "K = Suc j" by (cases K) auto
  have "push_bit j x = 0" using K by (simp add: j x push_bit_push_bit flip: push_bit_Suc)
  then have "(LEAST k. push_bit k x = 0) \<le> j" by (rule Least_le)
  then show "((f, x), f, v) \<in> measure (\<lambda>(f, v). LEAST k. push_bit k v = 0)" using j by (simp add: K_def)
qed simp

declare double_loop.simps [simp del]

text \<open>\<open>while (lps_precision-- && (loopbit >>= 1))\<close>.\<close>

fun refine_loop :: "(u32 \<Rightarrow> u32) \<Rightarrow> nat \<Rightarrow> u32 \<Rightarrow> u32 \<Rightarrow> u32" where
  "refine_loop ticks_in 0 loopbit lpj = lpj"
| "refine_loop ticks_in (Suc lps_precision) loopbit lpj =
     (let loopbit = drop_bit 1 loopbit
      in if loopbit = 0 then lpj
         else let lpj = lpj OR loopbit
           in refine_loop ticks_in lps_precision loopbit (if ticks_in lpj \<noteq> 0 then lpj AND NOT loopbit else lpj))"

definition calibrate :: "(u32 \<Rightarrow> u32) \<Rightarrow> u32" where
  "calibrate ticks_in =
     (let lpj = double_loop ticks_in (push_bit 12 1);
          lpj = drop_bit 1 lpj
      in refine_loop ticks_in 8 lpj lpj)"

section \<open>What the delay loop does\<close>

lemma dec_loop_rounds: "v \<noteq> 0 \<Longrightarrow> dec_loop v n = (0, n + unat v)"
proof (induction v n rule: dec_loop.induct)
  case (1 v n)
  have "unat v = Suc (unat (v - 1))" using "1.prems" using unat_minus_one [of v] unat_gt_0 [of v] by simp
  with "1" show ?case by (subst dec_loop.simps) (auto simp: Let_def)
qed

lemma delay_rounds: "delay loops = (- 1, unat loops)"
  by (simp add: delay_def dec_loop_rounds)

lemma unat_mull_high: "unat (mull_high a b) = unat a * unat b div 2 ^ 32"
proof -
  have "unat a * unat b < 2 ^ 64"
    using mult_strict_mono' [of "unat a" "2 ^ 32" "unat b" "2 ^ 32"] unat_u32 [of a] unat_u32 [of b] by simp
  then have p: "unat (ucast a * ucast b :: u64) = unat a * unat b"
    by (simp add: unat_word_ariths unsigned_ucast_eq take_bit_eq_mod unat_u32 order.strict_trans [OF unat_u32])
  have "unat (drop_bit 32 (ucast a * ucast b :: u64)) = unat a * unat b div 2 ^ 32"
    unfolding unsigned_drop_bit_eq p using \<open>unat a * unat b < 2 ^ 64\<close>
    by (simp add: drop_bit_eq_div take_bit_eq_mod less_mult_imp_div_less)
  moreover have "unat a * unat b div 2 ^ 32 < 2 ^ 32" using \<open>unat a * unat b < 2 ^ 64\<close> by (simp add: less_mult_imp_div_less)
  ultimately show ?thesis by (simp add: mull_high_def unsigned_ucast_eq take_bit_eq_mod)
qed

lemma udelay_rounds:
  assumes "unat usecs \<le> 249998" and "unat lpj \<le> 85899345"
  shows "snd (udelay lpj usecs) = unat usecs * unat lpj * 859000 div 2 ^ 32 + 1"
proof -
  have a: "unat (usecs * 0x10C7 * 4) = unat usecs * 17180"
    using assms(1) by (simp add: unat_word_ariths mod_mult_left_eq)
  have hz: "ucast HZ div 4 = (50 :: u32)" by (simp add: HZ_def)
  have b: "unat (lpj * 50) = unat lpj * 50" using assms(2) by (simp add: unat_word_ariths)
  have h: "unat (mull_high (usecs * 0x10C7 * 4) (lpj * 50)) = unat usecs * unat lpj * 859000 div 2 ^ 32"
    by (simp only: unat_mull_high a b) (simp add: mult_ac)
  have "unat usecs * unat lpj * 859000 \<le> 249998 * 85899345 * 859000" by (intro mult_le_mono assms) simp
  then have "unat usecs * unat lpj * 859000 div 2 ^ 32 \<le> 249998 * 85899345 * 859000 div 2 ^ 32" by (rule div_le_mono)
  then have "unat (mull_high (usecs * 0x10C7 * 4) (lpj * 50)) + unat (1 :: u32) < 2 ^ LENGTH(32)" unfolding h by simp
  from unat_add_small [OF this] h have "unat (mull_high (usecs * 0x10C7 * 4) (lpj * 50) + 1) = unat usecs * unat lpj * 859000 div 2 ^ 32 + 1"
    by simp
  then show ?thesis by (simp only: udelay_def const_udelay_def Let_def delay_rounds snd_conv hz)
qed

text \<open>The rounds are at least those that the requested time takes on a machine that makes \<open>lpj\<close> rounds in
  a tick of 5000 microseconds, and at most one round and a hundred-thousandth more.\<close>

lemma udelay_bounds:
  assumes "unat usecs \<le> 249998" and "unat lpj \<le> 85899345"
  shows "unat usecs * unat lpj \<le> snd (udelay lpj usecs) * 5000"
    and "(snd (udelay lpj usecs) - 1) * 5000 * 100000 \<le> unat usecs * unat lpj * 100001"
proof -
  define x q where "x = unat usecs * unat lpj" and "q = x * 859000 div 4294967296"
  have r: "snd (udelay lpj usecs) = q + 1" using udelay_rounds [OF assms] by (simp add: x_def q_def)
  obtain m where m: "x * 859000 = q * 4294967296 + m" "m < 4294967296"
    unfolding q_def by (metis div_mult_mod_eq mod_less_divisor zero_less_numeral)
  have "x * 859000 < (q + 1) * 4294967296" using m by simp
  also have "\<dots> \<le> (q + 1) * 5000 * 859000" by simp
  finally have lower: "x \<le> (q + 1) * 5000" by simp
  have "q * 5000 * 100000 * 4294967296 \<le> x * 859000 * 500000000" unfolding m(1) by simp
  then have upper: "q * 5000 * 100000 \<le> x * 100001" by simp
  show "unat usecs * unat lpj \<le> snd (udelay lpj usecs) * 5000"
    and "(snd (udelay lpj usecs) - 1) * 5000 * 100000 \<le> unat usecs * unat lpj * 100001"
    using lower upper unfolding r x_def by simp_all
qed

section \<open>What the calibration finds\<close>

lemma unat_exp: "k < 32 \<Longrightarrow> unat (2 ^ k :: u32) = 2 ^ k"
proof -
  assume "k < 32"
  then have "(2 :: nat) ^ k < 2 ^ LENGTH(32)" by (intro power_strict_increasing) simp_all
  from unat_of_nat_small [OF this] show ?thesis by simp
qed

lemma double_loop_power:
  assumes "\<forall>n. ticks_in n \<noteq> 0 \<longleftrightarrow> T \<le> unat n" and "2 ^ k < T" and "T \<le> 2 ^ 31"
  shows "\<exists>e. k \<le> e \<and> e < 31 \<and> double_loop ticks_in (2 ^ k) = 2 ^ Suc e \<and> 2 ^ e < T \<and> T \<le> 2 ^ Suc e"
  using assms(2)
proof (induction "31 - k" arbitrary: k)
  case 0
  have "(2 :: nat) ^ k < 2 ^ 31" using 0(2) assms(3) by linarith
  then have "k < 31" using power_less_imp_less_exp [of 2 k 31] by simp
  then show ?case using 0 by simp
next
  case (Suc d)
  then have k: "k < 31" by simp
  have push: "push_bit 1 (2 ^ k :: u32) = 2 ^ Suc k" by (simp add: push_bit_eq_mult)
  have u: "unat (2 ^ Suc k :: u32) = 2 ^ Suc k" using k by (intro unat_exp) simp
  then have nz: "(2 ^ Suc k :: u32) \<noteq> 0" by (metis power_not_zero unsigned_0 zero_neq_numeral)
  show ?case
  proof (cases "T \<le> 2 ^ Suc k")
    case True
    then have "double_loop ticks_in (2 ^ k) = 2 ^ Suc k"
      using assms(1) u nz by (subst double_loop.simps) (simp only: push Let_def if_True if_False simp_thms)
    then show ?thesis using True Suc.prems k by blast
  next
    case False
    then have step: "double_loop ticks_in (2 ^ k) = double_loop ticks_in (2 ^ Suc k)"
      using assms(1) u nz by (subst double_loop.simps) (simp only: push Let_def if_True if_False simp_thms)
    have "\<exists>e \<ge> Suc k. e < 31 \<and> double_loop ticks_in (2 ^ Suc k) = 2 ^ Suc e \<and> 2 ^ e < T \<and> T \<le> 2 ^ Suc e"
      using Suc.hyps(1) [of "Suc k"] Suc.hyps(2) False by auto
    then show ?thesis unfolding step by (meson Suc_leD)
  qed
qed

lemma low_bits_or:
  assumes "\<forall>n < Suc i. \<not> bit (w :: u32) n" and "i < 32"
  shows "w OR 2 ^ i = w + 2 ^ i" and "(w OR 2 ^ i) AND NOT (2 ^ i) = w"
proof -
  have nb: "\<not> bit w i" using assms(1) by simp
  have "w AND 2 ^ i = 0" by (rule bit_word_eqI) (use nb in \<open>auto simp: bit_simps\<close>)
  from disjunctive_add_eq_or [OF this] show "w OR 2 ^ i = w + 2 ^ i" by simp
  show "(w OR 2 ^ i) AND NOT (2 ^ i) = w" by (rule bit_word_eqI) (use nb in \<open>auto simp: bit_simps\<close>)
qed

lemma refine_loop_bounds:
  assumes slow: "\<forall>n. ticks_in n \<noteq> 0 \<longleftrightarrow> T \<le> unat n" and "T \<le> 2 ^ 31" and "p \<le> i" and "i \<le> 30"
    and "\<forall>n < i. \<not> bit lpj n" and "unat lpj < T" and "T \<le> unat lpj + 2 ^ i"
  shows "let r = unat (refine_loop ticks_in p (2 ^ i) lpj) in unat lpj \<le> r \<and> r < T \<and> T \<le> r + 2 ^ (i - p)"
  using assms(3-7)
proof (induction p arbitrary: i lpj)
  case 0
  then show ?case by simp
next
  case (Suc p)
  then obtain j where i: "i = Suc j" by (cases i) auto
  have j: "j < 32" "p \<le> j" "j \<le> 30" using Suc.prems i by auto
  have half: "drop_bit 1 (2 ^ i :: u32) = 2 ^ j" using Suc.prems(2)
    by (intro bit_word_eqI) (auto simp: bit_simps i)
  have u: "unat (2 ^ j :: u32) = 2 ^ j" using j by (intro unat_exp) simp
  then have nz: "(2 ^ j :: u32) \<noteq> 0" by (metis power_not_zero unsigned_0 zero_neq_numeral)
  note or = low_bits_or [of j lpj, OF Suc.prems(3) [unfolded i] j(1)]
  have "(2 :: nat) ^ j \<le> 2 ^ 30" using j(3) by (intro power_increasing) simp_all
  then have sum: "unat (lpj + 2 ^ j) = unat lpj + 2 ^ j"
    using Suc.prems(4) assms(2) u by (subst unat_add_small) auto
  let ?lpj = "if T \<le> unat lpj + 2 ^ j then lpj else lpj + 2 ^ j"
  have step: "refine_loop ticks_in (Suc p) (2 ^ i) lpj = refine_loop ticks_in p (2 ^ j) ?lpj"
    unfolding refine_loop.simps half or(1) [symmetric] Let_def if_not_P [OF nz] or(2)
    using slow by (simp add: or(1) sum)
  have low: "\<forall>n < j. \<not> bit ?lpj n"
    using Suc.prems(3) i or(1) [symmetric] by (auto simp: bit_simps)
  have "unat lpj \<le> unat ?lpj" "unat ?lpj < T" "T \<le> unat ?lpj + 2 ^ j"
    using Suc.prems(4,5) by (auto simp: sum i)
  with Suc.IH [OF j(2,3) low] show ?case unfolding step Let_def by (simp add: i)
qed

section \<open>Properties\<close>

text \<open>C35: On a machine on which a delay of \<open>T\<close> rounds lasts a tick, with \<open>T\<close> above 4096 and below 85899345, the
  calibration ends with a value below \<open>T\<close> by at most one part in 256, and after it \<open>udelay\<close> with up to 249998
  microseconds makes at least the rounds that the requested time takes, but for one part in 257, and at most
  one round and one part in 100000 too many.\<close>

theorem calibrated_udelay:
  assumes "\<forall>n. ticks_in n \<noteq> 0 \<longleftrightarrow> T \<le> unat n" and "4096 < T" and "T \<le> 85899345" and "unat usecs \<le> 249998"
  shows "let lpj = unat (calibrate ticks_in); rounds = snd (udelay (calibrate ticks_in) usecs)
    in lpj < T \<and> (T - lpj) * 256 \<le> lpj \<and> unat usecs * T * 256 \<le> rounds * 5000 * 257 \<and>
       (rounds - 1) * 5000 * 100000 \<le> unat usecs * T * 100001"
proof -
  have T: "(2 :: nat) ^ 12 < T" "T \<le> 2 ^ 31" using assms(2,3) by simp_all
  obtain e where e: "12 \<le> e" "e < 31" "double_loop ticks_in (2 ^ 12) = 2 ^ Suc e" "2 ^ e < T" "T \<le> 2 ^ Suc e"
    using double_loop_power [OF assms(1) T] by blast
  have half: "drop_bit 1 (2 ^ Suc e :: u32) = 2 ^ e" using e(2) by (intro bit_word_eqI) (auto simp: bit_simps)
  have u: "unat (2 ^ e :: u32) = 2 ^ e" using e(2) by (intro unat_exp) simp
  define r where "r = unat (calibrate ticks_in)"
  have "calibrate ticks_in = refine_loop ticks_in 8 (2 ^ e) (2 ^ e)"
    using e(3) half by (simp add: calibrate_def Let_def)
  moreover have "\<forall>n < e. \<not> bit (2 ^ e :: u32) n" by (simp add: bit_simps)
  ultimately have r: "2 ^ e \<le> r" "r < T" "T \<le> r + 2 ^ (e - 8)"
    using refine_loop_bounds [OF assms(1) T(2), of 8 e "2 ^ e"] e u by (simp_all add: r_def Let_def)
  have "(2 :: nat) ^ e = 2 ^ (e - 8) * 256" using e(1) power_add [of "2 :: nat" "e - 8" 8] by simp
  then have close: "(T - r) * 256 \<le> r" using r by simp
  have "unat (calibrate ticks_in) \<le> 85899345" using r(2) assms(3) by (simp add: r_def)
  note b = udelay_bounds [OF assms(4) this, folded r_def]
  have "T * 256 \<le> r * 257" using close r(2) by (simp add: algebra_simps)
  then have "unat usecs * (T * 256) \<le> unat usecs * (r * 257)" by (rule mult_le_mono2)
  also have "unat usecs * (r * 257) = unat usecs * r * 257" by simp
  also have "\<dots> \<le> snd (udelay (calibrate ticks_in) usecs) * 5000 * 257" by (rule mult_le_mono1 [OF b(1)])
  finally have "unat usecs * T * 256 \<le> snd (udelay (calibrate ticks_in) usecs) * 5000 * 257" by (simp only: mult.assoc)
  moreover have "unat usecs * r * 100001 \<le> unat usecs * T * 100001" using r(2) by (intro mult_le_mono) simp_all
  with b(2) have "(snd (udelay (calibrate ticks_in) usecs) - 1) * 5000 * 100000 \<le> unat usecs * T * 100001" by (rule order_trans)
  ultimately show ?thesis using r(2) close by (simp add: Let_def r_def)
qed

text \<open>A machine that makes a million rounds in a tick.\<close>

theorem calibrated_udelay_witness:
  "let lpj = unat (calibrate (\<lambda>n. n div 1000000)); rounds = snd (udelay (calibrate (\<lambda>n. n div 1000000)) 100)
   in lpj < 1000000 \<and> (1000000 - lpj) * 256 \<le> lpj \<and> 100 * 1000000 * 256 \<le> rounds * 5000 * 257 \<and>
      (rounds - 1) * 5000 * 100000 \<le> 100 * 1000000 * 100001"
proof -
  have "\<forall>n :: u32. n div 1000000 \<noteq> 0 \<longleftrightarrow> 1000000 \<le> unat n"
    by (simp add: word_unat_eq_iff unat_div div_eq_0_iff not_less)
  from calibrated_udelay [OF this, of 100] show ?thesis by simp
qed

text \<open>From 249999 microseconds on the product wraps around: a quarter of a second is over at once.\<close>

lemma udelay_wraps: "snd (udelay 1000000 250000) = 381"
  by (simp add: udelay_def const_udelay_def Let_def delay_rounds HZ_def mull_high_def)

end
