(* ===== verification/Acpi.thy ===== *)
theory Acpi
  imports Libc_Strings
begin

text \<open>
  The search for the ACPI root pointer (\<^verbatim>\<open>acpi/acpi_x86.c\<close>) and what \<open>acpi_init\<close> makes of it
  (\<^verbatim>\<open>acpi/acpi.c\<close>). Memory is that of the kernel's address space, in which the first mebibyte appears
  at \<open>ACPI_VIRTUAL_BASE\<close>; \<open>lit\<close> is the address of the string literal with the signature.
\<close>

section \<open>Data\<close>

record rsdp_desc =
  rsdp_signature :: "u8 list"
  rsdp_checksum :: u8
  rsdp_oemid :: "u8 list"
  rsdp_revision :: u8
  rsdt_address :: u32

definition rsdp_at :: "mem \<Rightarrow> u32 \<Rightarrow> rsdp_desc" where
  "rsdp_at m a = \<lparr>rsdp_signature = map (\<lambda>i. m (a + of_nat i)) [0..<8], rsdp_checksum = m (a + 8),
     rsdp_oemid = map (\<lambda>i. m (a + 9 + of_nat i)) [0..<6], rsdp_revision = m (a + 15), rsdt_address = ld32 m (a + 16)\<rparr>"

definition ACPI_VIRTUAL_BASE :: u32 where "ACPI_VIRTUAL_BASE = 0xC0000000"

definition ACPI_1_RSDP_LEN :: nat where "ACPI_1_RSDP_LEN = 20"

record acpi =
  rsdp_searched :: int
  the_rsdp :: "u32 option"

section \<open>Operations\<close>

function rsdp_search :: "mem \<Rightarrow> u32 \<Rightarrow> u32 \<Rightarrow> u32 option" where
  "rsdp_search m lit offset =
     (if offset < 0x000FFFFF then
        (if memcmp m (offset + ACPI_VIRTUAL_BASE) lit 8 = 0 then Some (offset + ACPI_VIRTUAL_BASE)
         else rsdp_search m lit (offset + 16))
      else None)"
  by pat_completeness auto
termination
proof (relation "measure (\<lambda>(m, lit, offset). 0x100000 - unat offset)")
  fix m :: mem and lit offset :: u32
  assume "offset < 0x000FFFFF"
  then have less: "unat offset < 1048575" by (simp add: word_less_nat_alt)
  then have "unat (offset + 16) = unat offset + 16" by (subst unat_add_small) simp_all
  with less show "((m, lit, offset + 16), m, lit, offset) \<in> measure (\<lambda>(m, lit, offset). 0x100000 - unat offset)" by simp
qed simp

declare rsdp_search.simps [simp del]

definition acpi_early_init :: "mem \<Rightarrow> u32 \<Rightarrow> acpi" where
  "acpi_early_init m lit = \<lparr>rsdp_searched = 1, the_rsdp = rsdp_search m lit 0x000E0000\<rparr>"

definition acpi_virtual_base :: u32 where
  "acpi_virtual_base = ACPI_VIRTUAL_BASE"

definition acpi_get_rsdp :: "acpi \<Rightarrow> u32 option" where
  "acpi_get_rsdp s = the_rsdp s"

definition acpi1_init :: "mem \<Rightarrow> u32 \<Rightarrow> printf_call list" where
  "acpi1_init m rsdp =
     (let checksum = fold (\<lambda>i checksum. checksum + m (rsdp + of_nat i)) [0..<ACPI_1_RSDP_LEN] (0 :: u8)
      in [(''ACPI 1.0: 0x%08X '' @ [CHR 0x0A], [Va_int (rsdt_address (rsdp_at m rsdp))])] @
         (if checksum \<noteq> 0 then [(''Invalid ACPI table checksum!'' @ [CHR 0x0A], [])] else []))"

definition acpi2_init :: "u32 \<Rightarrow> printf_call list" where
  "acpi2_init rsdp = [(''ACPI 2.0: 0x%08X '' @ [CHR 0x0A], [Va_int rsdp])]"

definition acpi_init :: "mem \<Rightarrow> acpi \<Rightarrow> printf_call list run" where
  "acpi_init m s = (case acpi_get_rsdp s of
     None \<Rightarrow> goes_wrong Null_pointer
   | Some rsdp \<Rightarrow> ret (if rsdp_revision (rsdp_at m rsdp) = 0 then acpi1_init m rsdp else acpi2_init rsdp))"

section \<open>Lemmas\<close>

definition signature_at :: "mem \<Rightarrow> u32 \<Rightarrow> nat \<Rightarrow> bool" where
  "signature_at m lit off \<longleftrightarrow> (\<forall>k < (8 :: u32). m (of_nat off + ACPI_VIRTUAL_BASE + k) = m (lit + k))"

lemma rsdp_search_first:
  assumes "unat offset \<le> 0x10000E"
  shows "rsdp_search m lit offset =
    (case filter (signature_at m lit) (map (\<lambda>i. unat offset + 16 * i) [0..<(0x10000E - unat offset) div 16]) of
       [] \<Rightarrow> None | off # _ \<Rightarrow> Some (of_nat off + ACPI_VIRTUAL_BASE))"
  using assms
proof (induction m lit offset rule: rsdp_search.induct)
  case (1 m lit offset)
  show ?case
  proof (cases "offset < 0x000FFFFF")
    case False
    then have "(0x10000E - unat offset) div 16 = 0" by (simp add: word_less_nat_alt)
    with False show ?thesis by (subst rsdp_search.simps) simp
  next
    case True
    then have less: "unat offset < 1048575" by (simp add: word_less_nat_alt)
    then have u: "unat (offset + 16) = unat offset + 16" by (subst unat_add_small) simp_all
    have n: "(0x10000E - unat offset) div 16 = Suc ((0x10000E - unat (offset + 16)) div 16)"
      using less le_div_geq [of 16 "0x10000E - unat offset"] unfolding u by (simp add: diff_diff_left)
    have "map (\<lambda>i. unat offset + 16 * i) [0..<(0x10000E - unat offset) div 16] =
        unat offset # map (\<lambda>i. unat (offset + 16) + 16 * i) [0..<(0x10000E - unat (offset + 16)) div 16]"
      unfolding n u by (simp add: upt_conv_Cons map_Suc_upt [symmetric] del: upt_Suc)
    moreover have "memcmp m (offset + ACPI_VIRTUAL_BASE) lit 8 = 0 \<longleftrightarrow> signature_at m lit (unat offset)"
      by (simp add: memcmp_zero signature_at_def)
    ultimately show ?thesis using True "1.IH" less u by (subst rsdp_search.simps) auto
  qed
qed

lemma checksum_sum: "fold (\<lambda>i s. s + f i) [0..<n] (a :: u8) = a + of_nat (\<Sum>i < n. unat (f i))"
  by (induction n) simp_all

lemma checksum_zero: "fold (\<lambda>i s. s + f i) [0..<n] (0 :: u8) = 0 \<longleftrightarrow> (\<Sum>i < n. unat (f i)) mod 256 = 0"
proof -
  have "(of_nat k :: u8) = 0 \<longleftrightarrow> k mod 256 = 0" for k by (simp add: word_unat_eq_iff unat_of_nat)
  then show ?thesis by (simp only: checksum_sum add_0)
qed

section \<open>Properties\<close>

text \<open>C36: \<open>acpi_early_init\<close> finds the first of the 8192 paragraphs from \<open>0xE0000\<close> on that starts with the signature.
  If there is one of revision 0, \<open>acpi_init\<close> prints its table address and complains about the checksum exactly when
  the twenty bytes do not add up to zero; if there is none, it dereferences a null pointer.\<close>

theorem acpi_init_reports:
  "acpi_init m (acpi_early_init m lit) = (case filter (signature_at m lit) (map (\<lambda>i. 0xE0000 + 16 * i) [0..<8192]) of
     [] \<Rightarrow> goes_wrong Null_pointer
   | off # _ \<Rightarrow>
       (let a = of_nat off + 0xC0000000; invalid = (\<Sum>i < 20. unat (m (a + of_nat i))) mod 256 \<noteq> 0
        in ret (if m (a + 15) \<noteq> 0 then [(''ACPI 2.0: 0x%08X '' @ [CHR 0x0A], [Va_int a])]
                else (''ACPI 1.0: 0x%08X '' @ [CHR 0x0A], [Va_int (ld32 m (a + 16))]) #
                  (if invalid then [(''Invalid ACPI table checksum!'' @ [CHR 0x0A], [])] else []))))"
proof -
  let ?ps = "filter (signature_at m lit) (map (\<lambda>i. 0xE0000 + 16 * i) [0..<8192])"
  have "rsdp_search m lit 0xE0000 = (case ?ps of [] \<Rightarrow> None | off # _ \<Rightarrow> Some (of_nat off + 0xC0000000))"
    using rsdp_search_first [of "0xE0000" m lit] unfolding ACPI_VIRTUAL_BASE_def by simp
  then show ?thesis
    by (cases ?ps) (simp_all add: acpi_init_def acpi_early_init_def acpi_get_rsdp_def acpi1_init_def acpi2_init_def
        rsdp_at_def checksum_zero ACPI_1_RSDP_LEN_def Let_def)
qed

end
