(* ===== verification/Boot.thy ===== *)
theory Boot
  imports Malloc Interrupts Boot_Memory Delay Acpi Fbconsole
begin

text \<open>
  The way from the boot loader to \<open>kernel_main\<close> (\<^verbatim>\<open>boot/main.c\<close>, \<^verbatim>\<open>initcall.c\<close>, \<^verbatim>\<open>boot/initx86.c\<close>): physical memory, the
  tables of initialisation functions, paging, heap, interrupts and console, each with the operations of its
  own theory, on one state. The addresses that the linker assigns, the boot information, the hardware and the
  speed of the machine are the fields of an environment.
\<close>

section \<open>Initialisation functions\<close>

text \<open>The functions in the tables that the linker builds; those of the levels 0 (early) and 1 (architecture).\<close>

datatype initcall = Paging_earlyinit | Serial_debug_init | Kb_early_init | Init_font | Malloc_init |
  Init_x86 | Init_at_keyboard | Mmio_init

text \<open>The loop over a table: \<open>table\<close> gives the pointer at an address.\<close>

partial_function (option) invoke_loop :: "(u32 \<Rightarrow> 'f) \<Rightarrow> ('f \<Rightarrow> 's \<Rightarrow> 's run) \<Rightarrow> u32 \<Rightarrow> u32 \<Rightarrow> 's \<Rightarrow> 's run" where
  "invoke_loop table call initcall_start initcall_end s =
     (if initcall_start \<noteq> initcall_end then
        run_bind (call (table initcall_start) s) (\<lambda>s. invoke_loop table call (initcall_start + 4) initcall_end s)
      else ret s)"

section \<open>State and environment\<close>

record 'c boot =
  bt_map :: memory_map
  bt_heap :: heap
  bt_mmio :: mmio_state
  bt_serial :: "'c serial"
  bt_font :: "(palette_entry list \<times> u8 list) option"
  bt_gdt :: "gdt_state option"
  bt_irq :: "irq_tables option"
  bt_acpi :: acpi
  bt_lpj :: u32
  bt_kernel :: "'c kernel"

text \<open>\<open>ticks_in\<close>, \<open>calibrating\<close> and \<open>calibration_ticks\<close> say what the timer does while the delay loop is calibrated;
  \<open>old_cells\<close>, \<open>old_bytes\<close>, \<open>old_stack\<close> what new memory holds; \<open>vga_memory\<close> and \<open>pixels\<close> what the mapped device
  memory of a given size holds.\<close>

record 'c env =
  pagedir :: u32
  pagetb1 :: u32
  kernel_start :: u32
  kernel_end :: u32
  tss_addr :: u32
  gdt_addr :: u32
  idt_addr :: u32
  irq_stub :: "nat \<Rightarrow> u32"
  int_stub :: "nat \<Rightarrow> u32"
  rsd_literal :: u32
  console_font :: psf_font
  initcalls :: "u32 \<Rightarrow> initcall"
  initcall_start :: "nat \<Rightarrow> u32"
  initcall_end :: "nat \<Rightarrow> u32"
  debug_serial :: bool
  memory :: mem
  ports :: "'c bus"
  ticks_in :: "u32 \<Rightarrow> u32"
  calibrating :: "'c \<Rightarrow> 'c"
  calibration_ticks :: u32
  old_cells :: "nat \<Rightarrow> console_char list"
  old_bytes :: "nat \<Rightarrow> u8 list"
  old_stack :: "u8 list"
  vga_memory :: "nat \<Rightarrow> console_char list"
  pixels :: "nat \<Rightarrow> u8 list"

definition on_machine :: "(machine \<Rightarrow> machine run) \<Rightarrow> 'c boot \<Rightarrow> 'c boot run" where
  "on_machine f s = run_bind (f (mach (bt_heap s))) (\<lambda>m. ret (s\<lparr>bt_heap := (bt_heap s)\<lparr>mach := m\<rparr>\<rparr>))"

definition set_devices :: "'c \<Rightarrow> 'c boot \<Rightarrow> 'c boot" where
  "set_devices c s = s\<lparr>bt_kernel := (bt_kernel s)\<lparr>k_devices := c\<rparr>\<rparr>"

definition heap_malloc :: "u32 \<Rightarrow> 'c boot \<Rightarrow> (nat option \<times> 'c boot) run" where
  "heap_malloc n s = run_bind (malloc (bt_heap s) n) (\<lambda>(h, p). ret (if p = 0 then None else Some (unat p), s\<lparr>bt_heap := h\<rparr>))"

section \<open>The architecture\<close>

definition init_tss :: "'c boot \<Rightarrow> 'c boot" where
  "init_tss s = s"

definition init_x86 :: "'c env \<Rightarrow> 'c boot \<Rightarrow> 'c boot run" where
  "init_x86 e s =
     run_bind (init_gdt (tss_addr e) (gdt_addr e)) (\<lambda>g.
     let s = init_tss (s\<lparr>bt_gdt := Some g\<rparr>);
         c = pic_init (ports e) 0x20 0x28 (k_devices (bt_kernel s));
         s = s\<lparr>bt_irq := Some (irq_init (irq_stub e) (int_stub e) (idt_addr e))\<rparr>;
         s = s\<lparr>bt_acpi := acpi_early_init (memory e) (rsd_literal e)\<rparr>;
         (sch, lpj, c) = timer_init (ports e) (k_sched (bt_kernel s)) c;
         c = outb (ports e) PIC1_DATA 0xFE c;
         c = outb (ports e) PIC2_DATA 0xFF c;
         c = calibrating e c;
         sch = sch\<lparr>jiffies := jiffies sch + calibration_ticks e\<rparr>;
         c = outb (ports e) PIC1_DATA 0xFC c;
         c = outb (ports e) PIC2_DATA 0xFF c
     in ret (s\<lparr>bt_lpj := calibrate (ticks_in e), bt_kernel := (bt_kernel s)\<lparr>k_sched := sch, k_devices := c\<rparr>\<rparr>))"

definition run_initcall :: "'c env \<Rightarrow> initcall \<Rightarrow> 'c boot \<Rightarrow> 'c boot run" where
  "run_initcall e call s = (case call of
     Paging_earlyinit \<Rightarrow> on_machine (paging_earlyinit (pagedir e) (pagetb1 e) (kernel_start e) (kernel_end e)) s
   | Serial_debug_init \<Rightarrow> ret (s\<lparr>bt_serial := serial_debug_init (bt_serial s)\<rparr>)
   | Kb_early_init \<Rightarrow> ret (s\<lparr>bt_kernel := (bt_kernel s)\<lparr>k_keys := kb_early_init (k_keys (bt_kernel s))\<rparr>\<rparr>)
   | Init_font \<Rightarrow> run_bind (init_font (console_font e)) (\<lambda>f. ret (s\<lparr>bt_font := Some f\<rparr>))
   | Malloc_init \<Rightarrow> ret (s\<lparr>bt_heap := malloc_init (kernel_end e) (bt_heap s)\<rparr>)
   | Init_x86 \<Rightarrow> init_x86 e s
   | Init_at_keyboard \<Rightarrow> run_bind (heap_malloc 24 s) (\<lambda>(p, s). run_bind (init_at_keyboard p) (\<lambda>k.
       ret (s\<lparr>bt_kernel := (bt_kernel s)\<lparr>k_keyboard := k\<rparr>\<rparr>)))
   | Mmio_init \<Rightarrow> ret (s\<lparr>bt_mmio := mmio_init (bt_mmio s)\<rparr>))"

definition invoke_initcall0 :: "'c env \<Rightarrow> 'c boot \<Rightarrow> 'c boot run" where
  "invoke_initcall0 e = invoke_loop (initcalls e) (run_initcall e) (initcall_start e 0) (initcall_end e 0)"

definition invoke_initcall1 :: "'c env \<Rightarrow> 'c boot \<Rightarrow> 'c boot run" where
  "invoke_initcall1 e = invoke_loop (initcalls e) (run_initcall e) (initcall_start e 1) (initcall_end e 1)"

definition memory_region_init :: "'c boot \<Rightarrow> 'c boot" where
  "memory_region_init s = s"

definition boot_serial_debug :: "'c env \<Rightarrow> 'c boot \<Rightarrow> 'c boot run" where
  "boot_serial_debug e s =
     (if debug_serial e then
        run_bind (heap_malloc 12 s) (\<lambda>(p, s).
        run_bind (init_pc_serial_debug True (ports e) p (bt_serial s) (k_devices (bt_kernel s))) (\<lambda>(ser, c).
        ret (set_devices c (s\<lparr>bt_serial := ser\<rparr>))))
      else ret s)"

section \<open>The console\<close>

datatype boot_console = Null_console "console \<times> unit" | Vga_console "console \<times> vga_state" | Fb_console "console \<times> framebuffer"

definition sizeof_console :: u32 where "sizeof_console = 96"
definition sizeof_framebuffer :: u32 where "sizeof_framebuffer = 32"

definition framebuffer_size :: "multiboot2_tag_framebuffer \<Rightarrow> u32" where
  "framebuffer_size t = framebuffer_pitch t * framebuffer_height t * ucast (drop_bit 3 (framebuffer_bpp t))"

text \<open>The unused block that \<open>private\<close> points to at first: a size computed in 8 bits.\<close>

definition private_size :: "u8 \<Rightarrow> u32" where
  "private_size bpp =
     (let bpp_padded = (if bpp mod 8 \<noteq> 0 then bpp + (8 - bpp mod 8) else bpp)
      in ucast (push_bit 3 bpp_padded) * 256)"

text \<open>\<open>common.type\<close> is the type of the tag, which is 8: the palette is never copied and the format is always RGB.\<close>

definition tag_framebuffer :: "multiboot2_tag_framebuffer \<Rightarrow> u8 list \<Rightarrow> palette_entry list \<Rightarrow> framebuffer" where
  "tag_framebuffer t pixel_memory palette =
     (let fb = \<lparr>fb_width = framebuffer_width t, fb_height = framebuffer_height t,
            fb_pitch = (if framebuffer_pitch t \<noteq> 0 then framebuffer_pitch t else framebuffer_height t),
            fb_bpp = framebuffer_bpp t, fb_flags = 0, fb_data = pixel_memory,
            fb_private = replicate (unat (private_size (framebuffer_bpp t))) 0, fb_palette_num = 0,
            fb_format = \<lparr>red_mask_size = 0, red_position = 0, green_mask_size = 0, green_position = 0,
              blue_mask_size = 0, blue_position = 0\<rparr>, fb_palette = []\<rparr>
      in if fbt_type t = 0 then fb\<lparr>fb_palette := palette\<rparr>
         else fb\<lparr>fb_flags := fb_flags fb OR FB_CONSOLE_FLAG_RGB,
           fb_format := \<lparr>red_mask_size = framebuffer_red_mask_size t, red_position = framebuffer_red_field_position t,
             green_mask_size = framebuffer_green_mask_size t, green_position = framebuffer_green_field_position t,
             blue_mask_size = framebuffer_blue_mask_size t, blue_position = framebuffer_blue_field_position t\<rparr>\<rparr>)"

definition palette_at :: "mem \<Rightarrow> u32 \<Rightarrow> nat \<Rightarrow> palette_entry list" where
  "palette_at m a n = map (\<lambda>i. \<lparr>pal_r = m (a + of_nat (3 * i)), pal_g = m (a + of_nat (3 * i) + 1), pal_b = m (a + of_nat (3 * i) + 2)\<rparr>) [0..<n]"

definition boot_null_console :: "'c env \<Rightarrow> 'c boot \<Rightarrow> (boot_console \<times> 'c boot) run" where
  "boot_null_console e s =
     run_bind (heap_malloc sizeof_console s) (\<lambda>(p, s).
     run_bind (heap_malloc (2 * 80 * 25) s) (\<lambda>(q, s).
     run_bind (init_null_console (p \<noteq> None) (map_option (\<lambda>_. old_cells e (80 * 25)) q)) (\<lambda>con. ret (Null_console con, s))))"

definition boot_vga_console :: "'c env \<Rightarrow> multiboot2_tag_framebuffer \<Rightarrow> u32 \<Rightarrow> 'c boot \<Rightarrow> (boot_console \<times> 'c boot) run" where
  "boot_vga_console e t virt s =
     run_bind (heap_malloc sizeof_console s) (\<lambda>(p, s).
     run_bind (init_vga_console (p \<noteq> None) (if virt = 0 then [] else vga_memory e (unat (framebuffer_size t) div 2))
       (unat (framebuffer_width t)) (unat (framebuffer_height t))) (\<lambda>con. ret (Vga_console con, s)))"

definition boot_fb_console :: "'c env \<Rightarrow> multiboot2_tag_framebuffer \<Rightarrow> u32 \<Rightarrow> u32 \<Rightarrow> 'c boot \<Rightarrow> (boot_console \<times> 'c boot) run" where
  "boot_fb_console e t tag virt s =
     (let sz = sizeof_framebuffer + (if framebuffer_type t = 0 then ucast (framebuffer_palette_num_colors t) * 3 else 0)
      in run_bind (heap_malloc sz s) (\<lambda>(p, s).
         if p = None then goes_wrong Null_pointer
         else run_bind (heap_malloc (private_size (framebuffer_bpp t)) s) (\<lambda>(q, s).
         if q = None \<and> private_size (framebuffer_bpp t) \<noteq> 0 then goes_wrong Null_pointer
         else let fb = tag_framebuffer t (if virt = 0 then [] else pixels e (unat (framebuffer_size t)))
                (palette_at (memory e) (tag + 34) (unat (framebuffer_palette_num_colors t)));
              cols = (unat (fb_width fb) div 8) mod 65536; rws = (unat (fb_height fb) div 16) mod 65536
           in run_bind (heap_malloc sizeof_console s) (\<lambda>(r, s).
              run_bind (heap_malloc (of_nat (2 * rws * cols)) s) (\<lambda>(cells, s).
              run_bind (heap_malloc (of_nat (pixel_size fb * 2 * 256)) s) (\<lambda>(lut, s).
              run_bind (init_fb_console (console_font e) (r \<noteq> None) (map_option (\<lambda>_. old_cells e (rws * cols)) cells)
                (old_stack e) (map_option (\<lambda>_. old_bytes e (pixel_size fb * 2 * 256)) lut) fb) (\<lambda>con.
              ret (Fb_console con, s))))))))"

definition boot_console_init :: "'c env \<Rightarrow> u32 option \<Rightarrow> 'c boot \<Rightarrow> (boot_console \<times> 'c boot) run" where
  "boot_console_init e fb s = (case fb of
     None \<Rightarrow> boot_null_console e s
   | Some tag \<Rightarrow>
       (let t = tag_framebuffer_at (memory e) tag
        in run_bind (mmio_map (bt_mmio s) (mach (bt_heap s)) (ucast (framebuffer_addr t)) (framebuffer_size t)) (\<lambda>(mm, m, virt).
           let s = s\<lparr>bt_mmio := mm, bt_heap := (bt_heap s)\<lparr>mach := m\<rparr>\<rparr>
           in if framebuffer_type t = 2 then boot_vga_console e t virt s else boot_fb_console e t tag virt s)))"

section \<open>The whole\<close>

text \<open>From the memory map to the last architecture function: what does not depend on the display.\<close>

definition boot_core :: "'c env \<Rightarrow> u32 \<Rightarrow> 'c boot \<Rightarrow> 'c boot run" where
  "boot_core e mmap_tag s =
     run_bind (boot_memory (memory e) mmap_tag (kernel_start e) (kernel_end e) (bt_map s) (page_state (mach (bt_heap s)))) (\<lambda>(mm, rs).
     let s = s\<lparr>bt_map := mm, bt_heap := (bt_heap s)\<lparr>mach := (mach (bt_heap s))\<lparr>page_state := rs\<rparr>\<rparr>\<rparr>
     in run_bind (invoke_initcall0 e s) (\<lambda>s.
        run_bind (boot_serial_debug e (memory_region_init s)) (\<lambda>s. invoke_initcall1 e s)))"

text \<open>The result is what \<open>kernel_main\<close> is called with, or \<open>None\<close> when the function returns without calling it.\<close>

definition multiboot2_main :: "'c env \<Rightarrow> u32 \<Rightarrow> 'c boot \<Rightarrow> ((u32 option \<times> boot_console) option \<times> 'c boot) run" where
  "multiboot2_main e info s =
     (let h = boot_header_at (memory e) info
      in run_bind (parse_tags (memory e) (info + boot_total_size h) (boot_tags h) no_tags) (\<lambda>t.
         case (p_meminfo t, p_mmap t) of
           (Some _, Some mmap_tag) \<Rightarrow>
             run_bind (boot_core e mmap_tag s) (\<lambda>s.
             run_bind (boot_console_init e (p_framebuffer t) s) (\<lambda>(con, s). ret (Some (p_cmdline t, con), s)))
         | _ \<Rightarrow> ret (None, s)))"

definition main_entry :: "'c env \<Rightarrow> u32 \<Rightarrow> u32 \<Rightarrow> 'c boot \<Rightarrow> ((u32 option \<times> boot_console) option \<times> 'c boot) run" where
  "main_entry e mbd magic s = (if magic = 0x36D76289 then multiboot2_main e mbd s else ret (None, s))"

section \<open>Tables of functions\<close>

definition initcall_table :: "'c env \<Rightarrow> nat \<Rightarrow> initcall list \<Rightarrow> bool" where
  "initcall_table e n cs \<longleftrightarrow> length cs < 2 ^ 30 \<and> initcall_end e n = initcall_start e n + 4 * of_nat (length cs) \<and>
     (\<forall>i < length cs. initcalls e (initcall_start e n + 4 * of_nat i) = cs ! i)"

lemma invoke_loop_table:
  assumes "length cs < 2 ^ 30" and "\<forall>i < length cs. tab (st + 4 * of_nat i) = cs ! i" and "en = st + 4 * of_nat (length cs)"
  shows "invoke_loop tab call st en s = run_for cs call s"
  using assms
proof (induction cs arbitrary: st s)
  case Nil
  then show ?case by (subst invoke_loop.simps) simp
next
  case (Cons c cs)
  have "unat (4 * of_nat (length (c # cs)) :: u32) = 4 * length (c # cs)"
    using Cons.prems(1) by (simp add: unat_word_ariths unat_of_nat_small)
  then have ne: "st \<noteq> en" using Cons.prems(3) by auto
  have hd: "tab st = c" using Cons.prems(2) by auto
  have "invoke_loop tab call (st + 4) en = run_for cs call"
  proof (rule ext, rule Cons.IH)
    show "\<forall>i < length cs. tab (st + 4 + 4 * of_nat i) = cs ! i"
    proof (intro allI impI)
      fix i assume "i < length cs"
      then have "tab (st + 4 * of_nat (Suc i)) = cs ! i" using Cons.prems(2) by (metis length_Cons nth_Cons_Suc Suc_less_eq)
      then show "tab (st + 4 + 4 * of_nat i) = cs ! i" by (simp add: algebra_simps)
    qed
  qed (use Cons.prems in \<open>simp_all add: algebra_simps\<close>)
  then show ?case using ne hd by (subst invoke_loop.simps) (simp add: run_for_Cons)
qed

lemma invoke_table:
  assumes "initcall_table e n cs"
  shows "invoke_loop (initcalls e) call (initcall_start e n) (initcall_end e n) s = run_for cs call s"
  using assms by (intro invoke_loop_table) (simp_all add: initcall_table_def)

section \<open>The early functions in any order\<close>

definition early_calls :: "initcall set" where
  "early_calls = {Paging_earlyinit, Serial_debug_init, Kb_early_init, Init_font, Malloc_init}"

definition arch_calls :: "initcall set" where
  "arch_calls = {Init_x86, Init_at_keyboard, Mmio_init}"

lemma malloc_init_mach: "malloc_init ke (h\<lparr>mach := m\<rparr>) = (malloc_init ke h)\<lparr>mach := m\<rparr>"
  by (simp add: malloc_init_def Let_def)

lemma mach_malloc_init [simp]: "mach (malloc_init ke h) = mach h"
  by (simp add: malloc_init_def Let_def)

text \<open>They work on different parts of the state, so that their order does not matter.\<close>

lemma early_calls_run:
  assumes "distinct cs" and "set cs \<subseteq> early_calls"
    and "Paging_earlyinit \<in> set cs \<Longrightarrow>
      paging_earlyinit (pagedir e) (pagetb1 e) (kernel_start e) (kernel_end e) (mach (bt_heap s)) = ret m"
    and "init_font (console_font e) = ret f"
  shows "\<exists>s'. run_for cs (run_initcall e) s = ret s' \<and> bt_map s' = bt_map s \<and>
    bt_heap s' = (if Malloc_init \<in> set cs then malloc_init (kernel_end e) else id)
      (if Paging_earlyinit \<in> set cs then (bt_heap s)\<lparr>mach := m\<rparr> else bt_heap s) \<and>
    bt_serial s' = (if Serial_debug_init \<in> set cs then serial_debug_init (bt_serial s) else bt_serial s) \<and>
    bt_font s' = (if Init_font \<in> set cs then Some f else bt_font s) \<and>
    k_keys (bt_kernel s') = (if Kb_early_init \<in> set cs then kb_early_init (k_keys (bt_kernel s)) else k_keys (bt_kernel s))"
  using assms(1-3)
proof (induction cs arbitrary: s)
  case Nil
  then show ?case by simp
next
  case (Cons c cs)
  have new: "c \<notin> set cs" "distinct cs" "set cs \<subseteq> early_calls" using Cons.prems by auto
  have "c \<in> early_calls" using Cons.prems(2) by simp
  then consider "c = Paging_earlyinit" | "c = Serial_debug_init" | "c = Kb_early_init" | "c = Init_font" | "c = Malloc_init"
    by (auto simp: early_calls_def)
  then show ?case
  proof cases
    case 1
    then have "run_initcall e c s = ret (s\<lparr>bt_heap := (bt_heap s)\<lparr>mach := m\<rparr>\<rparr>)"
      using Cons.prems(3) by (simp add: run_initcall_def on_machine_def)
    with Cons.IH [OF new(2,3), of "s\<lparr>bt_heap := (bt_heap s)\<lparr>mach := m\<rparr>\<rparr>"] new(1) 1 show ?thesis by auto
  next
    case 2
    then have "run_initcall e c s = ret (s\<lparr>bt_serial := serial_debug_init (bt_serial s)\<rparr>)" by (simp add: run_initcall_def)
    with Cons.IH [OF new(2,3), of "s\<lparr>bt_serial := serial_debug_init (bt_serial s)\<rparr>"] Cons.prems(3) new(1) 2 show ?thesis by auto
  next
    case 3
    then have "run_initcall e c s = ret (s\<lparr>bt_kernel := (bt_kernel s)\<lparr>k_keys := kb_early_init (k_keys (bt_kernel s))\<rparr>\<rparr>)"
      by (simp add: run_initcall_def)
    with Cons.IH [OF new(2,3), of "s\<lparr>bt_kernel := (bt_kernel s)\<lparr>k_keys := kb_early_init (k_keys (bt_kernel s))\<rparr>\<rparr>"] Cons.prems(3) new(1) 3
    show ?thesis by auto
  next
    case 4
    then have "run_initcall e c s = ret (s\<lparr>bt_font := Some f\<rparr>)" using assms(4) by (simp add: run_initcall_def)
    with Cons.IH [OF new(2,3), of "s\<lparr>bt_font := Some f\<rparr>"] Cons.prems(3) new(1) 4 show ?thesis by auto
  next
    case 5
    then have "run_initcall e c s = ret (s\<lparr>bt_heap := malloc_init (kernel_end e) (bt_heap s)\<rparr>)" by (simp add: run_initcall_def)
    with Cons.IH [OF new(2,3), of "s\<lparr>bt_heap := malloc_init (kernel_end e) (bt_heap s)\<rparr>"] Cons.prems(3) new(1) 5
    show ?thesis by (auto simp: malloc_init_mach)
  qed
qed

section \<open>Allocations at boot\<close>

lemma heap_malloc_ready:
  assumes "heap_ready h0 (16 + rounded n + r) (bt_heap s)" and "unat n + 31 < 2 ^ 32"
  shows "\<exists>p h. heap_malloc n s = ret (Some p, s\<lparr>bt_heap := h\<rparr>) \<and> heap_ready h0 r h \<and>
    unat (kernel_heap (bt_heap s)) \<le> p \<and> p + rounded n = unat (kernel_heap h)"
proof -
  obtain p h' where "malloc (bt_heap s) n = ret (h', p)" "p \<noteq> 0" "heap_ready h0 r h'"
    "unat p = unat (kernel_heap (bt_heap s)) + 16" "unat (kernel_heap h') = unat p + rounded n"
    using malloc_ready [OF assms] .
  then show ?thesis by (auto simp: heap_malloc_def)
qed

section \<open>The architecture functions in any order\<close>

lemma init_x86_runs:
  "\<exists>s'. init_x86 e s = ret s' \<and> bt_map s' = bt_map s \<and> bt_heap s' = bt_heap s \<and> bt_mmio s' = bt_mmio s \<and>
    bt_irq s' = Some (irq_init (irq_stub e) (int_stub e) (idt_addr e)) \<and> bt_lpj s' = calibrate (ticks_in e) \<and>
    k_keyboard (bt_kernel s') = k_keyboard (bt_kernel s) \<and> bt_acpi s' = acpi_early_init (memory e) (rsd_literal e) \<and>
    k_keys (bt_kernel s') = k_keys (bt_kernel s)"
proof -
  obtain g where "init_gdt (tss_addr e) (gdt_addr e) = ret g" using init_gdt_ok by blast
  then show ?thesis by (simp add: init_x86_def init_tss_def Let_def split_def)
qed

lemma init_keyboard_runs:
  assumes "heap_ready h0 (48 + r) (bt_heap s)"
  shows "\<exists>h. run_initcall e Init_at_keyboard s =
      ret (s\<lparr>bt_heap := h, bt_kernel := (bt_kernel s)\<lparr>k_keyboard := Some init_ps2_keyboard\<rparr>\<rparr>) \<and> heap_ready h0 r h"
proof -
  have "heap_ready h0 (16 + rounded 24 + r) (bt_heap s)" using assms by simp
  then obtain p h where "heap_malloc 24 s = ret (Some p, s\<lparr>bt_heap := h\<rparr>)" "heap_ready h0 r h"
    using heap_malloc_ready [of h0 24 r s] by auto
  then show ?thesis by (auto simp: run_initcall_def init_at_keyboard_def)
qed

lemma arch_calls_run:
  assumes "distinct cs" and "set cs \<subseteq> arch_calls"
    and "heap_ready h0 ((if Init_at_keyboard \<in> set cs then 48 else 0) + r) (bt_heap s)"
  shows "\<exists>s'. run_for cs (run_initcall e) s = ret s' \<and> bt_map s' = bt_map s \<and> heap_ready h0 r (bt_heap s') \<and>
    bt_mmio s' = (if Mmio_init \<in> set cs then mmio_init (bt_mmio s) else bt_mmio s) \<and>
    bt_irq s' = (if Init_x86 \<in> set cs then Some (irq_init (irq_stub e) (int_stub e) (idt_addr e)) else bt_irq s) \<and>
    k_keyboard (bt_kernel s') = (if Init_at_keyboard \<in> set cs then Some init_ps2_keyboard else k_keyboard (bt_kernel s)) \<and>
    bt_acpi s' = (if Init_x86 \<in> set cs then acpi_early_init (memory e) (rsd_literal e) else bt_acpi s) \<and>
    k_keys (bt_kernel s') = k_keys (bt_kernel s)"
  using assms
proof (induction cs arbitrary: s)
  case Nil
  then show ?case by simp
next
  case (Cons c cs)
  have new: "c \<notin> set cs" "distinct cs" "set cs \<subseteq> arch_calls" using Cons.prems by auto
  have "c \<in> arch_calls" using Cons.prems(2) by simp
  then consider "c = Init_x86" | "c = Init_at_keyboard" | "c = Mmio_init" by (auto simp: arch_calls_def)
  then show ?case
  proof cases
    case 1
    obtain t where t: "run_initcall e c s = ret t" "bt_map t = bt_map s" "bt_heap t = bt_heap s" "bt_mmio t = bt_mmio s"
      "bt_irq t = Some (irq_init (irq_stub e) (int_stub e) (idt_addr e))" "k_keyboard (bt_kernel t) = k_keyboard (bt_kernel s)"
      "bt_acpi t = acpi_early_init (memory e) (rsd_literal e)" "k_keys (bt_kernel t) = k_keys (bt_kernel s)"
      using init_x86_runs [of e s] 1 by (auto simp: run_initcall_def)
    with Cons.IH [OF new(2,3), of t] Cons.prems(3) new(1) 1 show ?thesis by auto
  next
    case 2
    then have "heap_ready h0 (48 + r) (bt_heap s)" using Cons.prems(3) by simp
    then obtain h where "run_initcall e c s = ret (s\<lparr>bt_heap := h, bt_kernel := (bt_kernel s)\<lparr>k_keyboard := Some init_ps2_keyboard\<rparr>\<rparr>)"
      "heap_ready h0 r h" using init_keyboard_runs 2 by blast
    with Cons.IH [OF new(2,3), of "s\<lparr>bt_heap := h, bt_kernel := (bt_kernel s)\<lparr>k_keyboard := Some init_ps2_keyboard\<rparr>\<rparr>"] new(1) 2
    show ?thesis by auto
  next
    case 3
    then have "run_initcall e c s = ret (s\<lparr>bt_mmio := mmio_init (bt_mmio s)\<rparr>)" by (simp add: run_initcall_def)
    with Cons.IH [OF new(2,3), of "s\<lparr>bt_mmio := mmio_init (bt_mmio s)\<rparr>"] Cons.prems(3) new(1) 3 show ?thesis by auto
  qed
qed

lemma serial_debug_runs:
  assumes "heap_ready h0 (32 + r) (bt_heap s)"
  shows "\<exists>s'. boot_serial_debug e s = ret s' \<and> heap_ready h0 r (bt_heap s') \<and> bt_map s' = bt_map s \<and> bt_mmio s' = bt_mmio s \<and>
    bt_font s' = bt_font s \<and> k_keys (bt_kernel s') = k_keys (bt_kernel s)"
proof (cases "debug_serial e")
  case True
  have "heap_ready h0 (16 + rounded 12 + r) (bt_heap s)" using assms by simp
  then obtain p h where "heap_malloc 12 s = ret (Some p, s\<lparr>bt_heap := h\<rparr>)" "heap_ready h0 r h"
    using heap_malloc_ready [of h0 12 r s] by auto
  then show ?thesis
    using True by (simp add: boot_serial_debug_def init_pc_serial_debug_def serial_debug_register_driver_def pc_serial_debug_driver_def
        pc_serial_debug_install_def set_devices_def)
next
  case False
  then show ?thesis using assms heap_ready_less [of h0 "32 + r" "bt_heap s" r] by (simp add: boot_serial_debug_def)
qed

section \<open>The kernel image\<close>

text \<open>The pages the code reserves for the image, from its start to its end rounded down: the whole pages of the image. The page
  with the end of the image is not among them unless the image ends at a page boundary, and the allocator may hand it out.\<close>

definition kernel_pages :: "'c env \<Rightarrow> nat set" where
  "kernel_pages e = {unat (kernel_start e - 0xC0000000) div 4096..<unat (kernel_end e - 0xC0000000) div 4096}"

text \<open>The image lies in the first 4 MiB of the kernel's window and contains the page directory \<open>kd\<close> and the page table \<open>kt\<close>
  that \<^verbatim>\<open>boot.S\<close> has set up.\<close>

definition boot_image :: "'c env \<Rightarrow> u32 \<Rightarrow> u32 \<Rightarrow> bool" where
  "boot_image e kd kt \<longleftrightarrow> pagedir e = window kd \<and> pagetb1 e = window kt \<and> 0xC0000000 \<le> kernel_start e \<and> kernel_start e \<le> kernel_end e \<and>
     kernel_end e < 0xC0400000 \<and> unat kd \<in> kernel_pages e \<and> unat kt \<in> kernel_pages e"

definition boot_tables :: "u32 \<Rightarrow> u32 \<Rightarrow> machine \<Rightarrow> bool" where
  "boot_tables kd kt m \<longleftrightarrow> kd < 1022 \<and> kt < 1022 \<and> kd \<noteq> kt \<and> cr3 m = push_bit 12 kd \<and>
     ram m kd 768 = entry kt \<and> ram m kt kd = entry kd \<and> ram m kt kt = entry kt"

lemma boot_tables_space:
  assumes "boot_tables kd kt m" and "region_inv rs" and "free_pages rs \<subseteq> {..<2 ^ 20} - {unat kd, unat kt}"
  shows "boot_space kd kt (m\<lparr>page_state := rs\<rparr>)"
  using assms by (simp add: boot_tables_def boot_space_def)

lemma image_pages:
  assumes "boot_image e kd kt"
  defines "ks \<equiv> drop_bit 12 (kernel_start e - 0xC0000000)" and "ke \<equiv> drop_bit 12 (kernel_end e - 0xC0000000)"
  shows "ks \<le> ke" and "ke < 1024" and "kd \<le> ke"
    and "0xC0000000 \<le> w \<Longrightarrow> w < kernel_end e \<Longrightarrow> drop_bit 22 w = 768 \<and> drop_bit 12 w AND 0x3FF \<le> ke"
proof -
  let ?s = "kernel_start e" and ?e = "kernel_end e"
  have i: "3221225472 \<le> unat ?s" "unat ?s \<le> unat ?e" "unat ?e < 3225419776" "unat kd \<in> kernel_pages e"
    using assms(1) by (simp_all add: boot_image_def word_le_nat_alt word_less_nat_alt)
  have sub: "unat (v - 0xC0000000) = unat v - 3221225472" if "3221225472 \<le> unat v" for v :: u32
    using that by (subst unat_sub) (simp_all add: word_le_nat_alt)
  have uks: "unat ks = (unat ?s - 3221225472) div 4096" and uke: "unat ke = (unat ?e - 3221225472) div 4096"
    using i sub by (simp_all only: ks_def ke_def unat_drop) auto
  show "ks \<le> ke" unfolding word_le_nat_alt uks uke using i by (intro div_le_mono) simp
  show "ke < 1024" unfolding word_less_nat_alt uke using i by (simp add: less_mult_imp_div_less)
  show "kd \<le> ke" using i sub unfolding word_le_nat_alt uke by (auto simp: kernel_pages_def)
  assume "0xC0000000 \<le> w" "w < ?e"
  then have w: "3221225472 \<le> unat w" "unat w < unat ?e" by (simp_all add: word_le_nat_alt word_less_nat_alt)
  define d where "d = unat w - 3221225472"
  have d: "unat w = 3221225472 + d" "d < 4194304" using w i by (simp_all add: d_def)
  have "unat (drop_bit 22 w) = 768" unfolding unat_drop using d by (simp add: div_nat_eqI)
  then have "drop_bit 22 w = 768" by (simp add: word_unat_eq_iff)
  moreover have "unat (drop_bit 12 w AND 0x3FF) = d div 4096"
  proof -
    have "unat (drop_bit 12 w AND 0x3FF) = (unat w div 4096) mod 1024"
      by (simp add: unat_and_mask unat_drop)
    also have "unat w div 4096 = 786432 + d div 4096" using d(1) by simp
    also have "(786432 + d div 4096) mod 1024 = d div 4096"
    proof -
      have "d div 4096 < 1024" using d(2) by (simp add: less_mult_imp_div_less)
      then show ?thesis using mod_mult_self2 [of "d div 4096" 1024 768] by (simp add: add.commute)
    qed
    finally show ?thesis .
  qed
  moreover have "d div 4096 \<le> (unat ?e - 3221225472) div 4096" using w d by (intro div_le_mono) simp
  ultimately show "drop_bit 22 w = 768 \<and> drop_bit 12 w AND 0x3FF \<le> ke" unfolding word_le_nat_alt uke by simp
qed

section \<open>The state after the early functions\<close>

text \<open>Paging is on, the heap is empty and has at least one page to grow.\<close>

lemma early_heap:
  assumes image: "boot_image e kd kt" and tables: "boot_tables kd kt (mach h)"
    and rs: "region_inv rs" "free_pages rs \<subseteq> {..<2 ^ 20} - kernel_pages e" "card (free_pages rs) \<le> 16384" "257 + n \<le> card (free_pages rs)"
  shows "\<exists>m. paging_earlyinit (pagedir e) (pagetb1 e) (kernel_start e) (kernel_end e) ((mach h)\<lparr>page_state := rs\<rparr>) = ret m \<and>
    (let h' = malloc_init (kernel_end e) (h\<lparr>mach := m\<rparr>)
     in heap_ready h' (4096 * n) h' \<and> pages_left h' \<subseteq> free_pages rs \<and> heap_end h' = heap_start h' \<and> kernel_end e \<le> heap_start h' \<and>
       (\<forall>w. 0xC0000000 \<le> w \<longrightarrow> w < kernel_end e \<longrightarrow> translate m w = Some (w - 0xC0000000)))"
proof -
  let ?m = "(mach h)\<lparr>page_state := rs\<rparr>" and ?ks = "drop_bit 12 (kernel_start e - 0xC0000000)" and ?ke = "drop_bit 12 (kernel_end e - 0xC0000000)"
  note pages = image_pages [OF image]
  have at: "pagedir e = window kd" "pagetb1 e = window kt" using image by (simp_all add: boot_image_def)
  have "free_pages rs \<subseteq> {..<2 ^ 20} - {unat kd, unat kt}" using rs(2) image by (auto simp: boot_image_def)
  from boot_tables_space [OF tables rs(1) this] have space: "boot_space kd kt ?m" .
  have "card (free_pages (page_state ?m)) \<ge> 257" using rs(4) by simp
  from earlyinit_runs_at [OF space pages(1,2) this refl refl] at obtain m
    where m: "paging_earlyinit (pagedir e) (pagetb1 e) (kernel_start e) (kernel_end e) ?m = ret m" "space_inv m" "takes_pages 257 ?m m"
      "\<forall>i. 768 \<le> i \<longrightarrow> i < 1024 \<longrightarrow> pde m i \<noteq> 0"
    and walk: "\<forall>w wr. drop_bit 22 w < 1023 \<longrightarrow> walk m wr w =
      (if drop_bit 22 w \<noteq> 768 then None
       else if drop_bit 12 w AND 0x3FF = kd then (if wr then None else Some kd)
       else if drop_bit 12 w AND 0x3FF \<le> ?ke then Some (drop_bit 12 w AND 0x3FF) else None)" by auto
  let ?g = "h\<lparr>mach := m\<rparr>"
  let ?h = "malloc_init (kernel_end e) ?g"
  have left: "pages_left ?g \<subseteq> free_pages rs" "card (free_pages rs) \<le> card (pages_left ?g) + 257"
    using m(3) by (simp_all add: takes_pages_def pages_left_def)
  have left': "pages_left ?h = pages_left ?g" by (simp add: pages_left_def)
  have fin: "finite (free_pages rs)" using rs(2) finite_subset by blast
  have card: "card (pages_left ?g) \<le> 16384" using card_mono [OF fin left(1)] rs(3) by simp
  have low: "3221225472 \<le> unat (kernel_end e)" "unat (kernel_end e) < 3225419776"
    using image by (auto simp: boot_image_def word_le_nat_alt word_less_nat_alt)
  have "kernel_space (mach ?g)" using m(2,4) by (simp add: kernel_space_def)
  then have inv: "heap_inv ?h" "free_list ?h = 0" using malloc_init_inv [of ?g "kernel_end e"] low card by simp_all
  have eq: "heap_end ?h = heap_start ?h" "kernel_heap ?h = heap_start ?h" by (simp_all add: malloc_init_def Let_def)
  have "heap_ready ?h (4096 * n) ?h" using inv left(2) rs(4) by (simp add: heap_ready_def grown_refl heap_limit_def eq left')
  moreover have "kernel_end e \<le> heap_start ?h" using malloc_init_start [of "kernel_end e" ?g] low by (simp add: word_le_nat_alt)
  moreover have "translate m w = Some (w - 0xC0000000)" if "0xC0000000 \<le> w" "w < kernel_end e" for w
  proof -
    have "w < 0xFFC00000" using that(2) low by (simp add: word_less_nat_alt)
    from window_mapped(2) [OF walk pages(3) this] pages(4) [OF that] show ?thesis by simp
  qed
  ultimately show ?thesis using m(1) left(1) eq(1) by (auto simp: Let_def left')
qed

text \<open>All functions of both levels, from a machine on which paging can be switched on.\<close>

lemma inits_run:
  assumes "initcall_table e 0 early" and "distinct early" and "set early = early_calls"
    and "initcall_table e 1 arch" and "distinct arch" and "set arch = arch_calls"
    and "init_font (console_font e) = ret f"
    and "paging_earlyinit (pagedir e) (pagetb1 e) (kernel_start e) (kernel_end e) (mach (bt_heap s)) = ret m"
    and "h = malloc_init (kernel_end e) ((bt_heap s)\<lparr>mach := m\<rparr>)" and "heap_ready h (80 + r) h"
  shows "\<exists>s'. run_bind (invoke_initcall0 e s) (\<lambda>s. run_bind (boot_serial_debug e (memory_region_init s)) (\<lambda>s. invoke_initcall1 e s)) = ret s' \<and>
    bt_map s' = bt_map s \<and> heap_ready h r (bt_heap s') \<and> mmio_ok (bt_mmio s') \<and>
    bt_irq s' = Some (irq_init (irq_stub e) (int_stub e) (idt_addr e)) \<and> k_keyboard (bt_kernel s') = Some init_ps2_keyboard \<and>
    mmio_ptr (bt_mmio s') = 0xE0000000 \<and> bt_acpi s' = acpi_early_init (memory e) (rsd_literal e) \<and>
    k_keys (bt_kernel s') = kb_early_init (k_keys (bt_kernel s))"
proof -
  have inv: "invoke_initcall0 e = run_for early (run_initcall e)" "invoke_initcall1 e = run_for arch (run_initcall e)"
    unfolding invoke_initcall0_def invoke_initcall1_def by (intro ext invoke_table assms(1) assms(4))+
  have sub: "set early \<subseteq> early_calls" "set arch \<subseteq> arch_calls" using assms(3,6) by simp_all
  obtain s1 where s1: "run_for early (run_initcall e) s = ret s1" "bt_map s1 = bt_map s" "bt_heap s1 = h"
    "k_keys (bt_kernel s1) = kb_early_init (k_keys (bt_kernel s))"
    using early_calls_run [where s = s, OF assms(2) sub(1) _ assms(7), of m] assms(3,8,9) by (auto simp: early_calls_def)
  have "heap_ready h (32 + (48 + r)) (bt_heap s1)" using heap_ready_less [OF assms(10)] s1(3) by simp
  from serial_debug_runs [OF this, of e] obtain s2 where s2: "boot_serial_debug e s1 = ret s2" "heap_ready h (48 + r) (bt_heap s2)"
    "bt_map s2 = bt_map s" "k_keys (bt_kernel s2) = kb_early_init (k_keys (bt_kernel s))" using s1(2,4) by auto
  have "heap_ready h ((if Init_at_keyboard \<in> set arch then 48 else 0) + r) (bt_heap s2)" using s2(2) by (simp add: assms(6) arch_calls_def)
  from arch_calls_run [OF assms(5) sub(2) this, of e] obtain s' where s': "run_for arch (run_initcall e) s2 = ret s'" "bt_map s' = bt_map s"
    "heap_ready h r (bt_heap s')" "bt_mmio s' = mmio_init (bt_mmio s2)" "bt_irq s' = Some (irq_init (irq_stub e) (int_stub e) (idt_addr e))"
    "k_keyboard (bt_kernel s') = Some init_ps2_keyboard" "bt_acpi s' = acpi_early_init (memory e) (rsd_literal e)"
    "k_keys (bt_kernel s') = kb_early_init (k_keys (bt_kernel s))"
    using s2(3,4) by (auto simp: assms(6) arch_calls_def)
  have "mmio_ok (bt_mmio s')" "mmio_ptr (bt_mmio s') = 0xE0000000" unfolding s'(4) by (simp_all add: mmio_ok_def mmio_init_def)
  with s' s1(1) s2(1) show ?thesis by (simp add: inv memory_region_init_def)
qed

section \<open>A framebuffer console\<close>

text \<open>Mapping device memory leaves the heap alone.\<close>

lemma heap_inv_mmio:
  assumes "heap_inv h" and "kernel_space m" and "page_state m = page_state (mach h)"
    and "\<And>w. unat w < 0xE0000000 \<Longrightarrow> translate m w = translate (mach h) w"
  shows "heap_inv (h\<lparr>mach := m\<rparr>)" and "heap_limit (h\<lparr>mach := m\<rparr>) = heap_limit h"
proof -
  let ?h = "h\<lparr>mach := m\<rparr>"
  have left: "pages_left ?h = pages_left h" using assms(3) by (simp add: pages_left_def)
  have low: "unat (heap_end h) \<le> 0xE0000000" using assms(1) by (auto simp: heap_inv_def)
  have same: "translate m w = translate (mach h) w" if "unat w < unat (heap_end h)" for w
    using that low by (intro assms(4)) simp
  have "heap_backed ?h" using assms(1) same by (auto simp: heap_inv_def heap_backed_def in_heap_def left)
  then show "heap_inv ?h" using assms(1,2) by (simp add: heap_inv_def left)
  show "heap_limit ?h = heap_limit h" by (simp add: heap_limit_def left)
qed

text \<open>What new memory holds is as long as the memory.\<close>

definition memory_sizes :: "'c env \<Rightarrow> bool" where
  "memory_sizes e \<longleftrightarrow> (\<forall>n. length (old_cells e n) = n) \<and> (\<forall>n. length (old_bytes e n) = n) \<and> length (old_stack e) = 64 \<and>
     (\<forall>n. length (pixels e n) = n)"

text \<open>A direct colour mode that the console can show: whole bytes per pixel, at most four; rows that fit the pitch; and a
  size that fits the window for device memory.\<close>

definition display_ok :: "multiboot2_tag_framebuffer \<Rightarrow> nat \<Rightarrow> nat \<Rightarrow> nat \<Rightarrow> bool" where
  "display_ok t ps R C \<longleftrightarrow> fbt_type t \<noteq> 0 \<and> framebuffer_type t = 1 \<and> unat (framebuffer_bpp t) = 8 * ps \<and> 1 \<le> ps \<and> ps \<le> 4 \<and>
     R = unat (framebuffer_height t) div 16 \<and> C = unat (framebuffer_width t) div 8 \<and> 0 < R \<and> 0 < C \<and> R * C < 65536 \<and>
     R * 16 < 65536 \<and> C * 8 < 65536 \<and> C * 8 * ps \<le> unat (framebuffer_pitch t) \<and>
     unat (framebuffer_pitch t) * unat (framebuffer_height t) * ps \<le> 0x1F000000"

lemma unat_ucast_byte: "unat (ucast (b :: u8) :: u32) = unat b"
proof -
  have "take_bit 32 (unat b) = unat b" using byte_le [of b] by (intro take_bit_nat_eq_self) simp
  then show ?thesis by (simp add: unsigned_ucast_eq)
qed

lemma display_size:
  assumes "display_ok t ps R C"
  shows "unat (framebuffer_size t) = unat (framebuffer_pitch t) * unat (framebuffer_height t) * ps"
    and "R * 16 * unat (framebuffer_pitch t) \<le> unat (framebuffer_size t)" and "framebuffer_pitch t \<noteq> 0"
proof -
  let ?p = "unat (framebuffer_pitch t)" and ?h = "unat (framebuffer_height t)"
  have d: "unat (framebuffer_bpp t) = 8 * ps" "1 \<le> ps" "R = ?h div 16" "0 < C" "C * 8 * ps \<le> ?p" "?p * ?h * ps \<le> 0x1F000000"
    using assms unfolding display_ok_def by blast+
  have bytes: "unat (drop_bit 3 (framebuffer_bpp t)) = ps" using d(1) by (simp add: drop_bit_eq_div unat_div)
  have "?p * ?h * 1 \<le> ?p * ?h * ps" using d(2) by (intro mult_le_mono) simp_all
  then have "?p * ?h \<le> 0x1F000000" using d(6) by linarith
  then have ph: "unat (framebuffer_pitch t * framebuffer_height t) = ?p * ?h" by (simp add: unat_word_ariths)
  have "unat (ucast (drop_bit 3 (framebuffer_bpp t)) :: u32) = ps"
    using bytes by (simp only: unat_ucast_byte)
  then show size: "unat (framebuffer_size t) = ?p * ?h * ps"
    using ph d(6) by (simp add: framebuffer_size_def unat_word_ariths)
  have "R * 16 * ?p \<le> ?h * ?p" unfolding d(3) by (intro mult_le_mono1) simp
  also have "\<dots> \<le> ?p * ?h * ps" using \<open>?p * ?h * 1 \<le> ?p * ?h * ps\<close> by (simp add: mult.commute)
  finally show "R * 16 * ?p \<le> unat (framebuffer_size t)" using size by simp
  have "0 < C * 8 * ps" using d(2,4) by simp
  with d(5) have "0 < ?p" by linarith
  then show "framebuffer_pitch t \<noteq> 0" by auto
qed

lemma tag_framebuffer_shape:
  fixes pal :: "palette_entry list"
  assumes "display_ok t ps R C" and "length px = unat (framebuffer_size t)" and "255 * unat (psf_charsize font) + 16 \<le> length (psf_glyphs font)"
    and "length lut = 512 * ps"
  defines "fb \<equiv> tag_framebuffer t px pal"
  shows "fb_width fb = framebuffer_width t" and "fb_height fb = framebuffer_height t" and "pixel_size fb = ps"
    and "fb_flags fb AND FB_CONSOLE_FLAG_RGB \<noteq> 0" and "fb_ok R C font lut (fb\<lparr>fb_private := lut\<rparr>)"
proof -
  have d: "fbt_type t \<noteq> 0" "unat (framebuffer_bpp t) = 8 * ps" "1 \<le> ps" "C * 8 * ps \<le> unat (framebuffer_pitch t)" "R * 16 < 65536" "C * 8 < 65536"
    using assms(1) unfolding display_ok_def by blast+
  note size = display_size [OF assms(1)]
  have fb: "fb_width fb = framebuffer_width t" "fb_height fb = framebuffer_height t" "fb_bpp fb = framebuffer_bpp t"
    "fb_pitch fb = framebuffer_pitch t" "fb_flags fb = 1" "fb_data fb = px"
    using d(1) size(3) by (simp_all add: fb_def tag_framebuffer_def Let_def FB_CONSOLE_FLAG_RGB_def)
  then show "fb_width fb = framebuffer_width t" "fb_height fb = framebuffer_height t" "fb_flags fb AND FB_CONSOLE_FLAG_RGB \<noteq> 0"
    by (simp_all add: FB_CONSOLE_FLAG_RGB_def)
  show ps: "pixel_size fb = ps" using d(2,3) by (simp add: pixel_size_def fb(3))
  have "length px < 2 ^ 32" using assms(2) unat_u32 [of "framebuffer_size t"] by simp
  then show "fb_ok R C font lut (fb\<lparr>fb_private := lut\<rparr>)"
    using ps fb d(3-6) size(2) assms(2-4) by (simp add: fb_ok_def pixel_size_def)
qed

lemma private_size_small: "unat (private_size bpp) \<le> 65280"
proof -
  have "unat (ucast b * 256 :: u32) = unat b * 256" for b :: u8
  proof -
    show ?thesis using byte_le [of b] by (simp add: unat_word_ariths unat_ucast_byte)
  qed
  moreover have "unat b * 256 \<le> 65280" for b :: u8 using byte_le [of b] by simp
  ultimately show ?thesis by (simp add: private_size_def Let_def)
qed

text \<open>The allocations of the display, in the order of the code.\<close>

lemma fb_console_runs:
  assumes d: "display_ok t ps R C" and sizes: "memory_sizes e" and glyphs: "255 * unat (psf_charsize (console_font e)) + 16 \<le> length (psf_glyphs (console_font e))"
    and room: "heap_ready h (208 + rounded (private_size (framebuffer_bpp t)) + rounded (of_nat (2 * R * C)) + 512 * ps + r) (bt_heap s)"
    and v: "v \<noteq> 0"
  shows "\<exists>c fb table s'. boot_fb_console e t tag v s = ret (Fb_console (c, fb), s') \<and> heap_ready h r (bt_heap s') \<and> bt_mmio s' = bt_mmio s \<and>
    bt_kernel s' = bt_kernel s \<and> bt_acpi s' = bt_acpi s \<and> cons_inv c \<and> escape_code_length c = 0 \<and> flags c AND CONSOLE_FLAG_AUTODRAW \<noteq> 0 \<and>
    term_of c = \<lparr>tlines = replicate R (replicate C \<lparr>cc_ch = 32, cc_attrs = 7\<rparr>), trow = 0, tcol = 0, tattrs = 7\<rparr> \<and>
    fb_ok R C (console_font e) table fb \<and> fb_shows (console_font e) table c fb"
proof -
  let ?q = "private_size (framebuffer_bpp t)" and ?n = "of_nat (2 * R * C) :: u32" and ?l = "of_nat (ps * 2 * 256) :: u32"
  define fb where "fb = tag_framebuffer t (pixels e (unat (framebuffer_size t)))
    (palette_at (memory e) (tag + 34) (unat (framebuffer_palette_num_colors t)))"
  have dim: "framebuffer_type t = 1" "ps \<le> 4" "R = unat (framebuffer_height t) div 16" "C = unat (framebuffer_width t) div 8" "0 < R" "0 < C"
    "R * C < 65536" "R * 16 < 65536" "C * 8 < 65536" using d unfolding display_ok_def by blast+
  have lens: "length (pixels e (unat (framebuffer_size t))) = unat (framebuffer_size t)" "length (old_bytes e (ps * 2 * 256)) = 512 * ps"
    "length (old_cells e (R * C)) = R * C" "length (old_stack e) = 64" using sizes by (simp_all add: memory_sizes_def)
  note shape = tag_framebuffer_shape [OF d lens(1) glyphs lens(2), of "palette_at (memory e) (tag + 34) (unat (framebuffer_palette_num_colors t))",
      folded fb_def]
  have geo: "R = unat (fb_height fb) div 16" "C = unat (fb_width fb) div 8" "pixel_size fb \<le> 4" "length (old_bytes e (ps * 2 * 256)) = 512 * pixel_size fb"
    unfolding shape by (fact dim(3) dim(4) dim(2) lens(2))+
  have "2 * (R * C) < 131072" using dim(7) by linarith
  then have "2 * R * C < 2 ^ 32" unfolding mult.assoc by (rule order.strict_trans) simp
  moreover have "ps * 2 * 256 < 2 ^ 32" using dim(2) by simp
  ultimately have n: "unat ?n = 2 * R * C" "unat ?l = ps * 2 * 256" 
    using unat_of_nat_small [where 'a = 32, of "2 * R * C"] unat_of_nat_small [where 'a = 32, of "ps * 2 * 256"] by simp_all
  define A B where "A = rounded ?q" and "B = rounded ?n"
  have rd: "rounded 32 = 32" "rounded 96 = 96" "rounded ?l = 512 * ps" unfolding n by simp_all
  have "2 * R * C + 31 < 131104" using \<open>2 * (R * C) < 131072\<close> unfolding mult.assoc by linarith
  then have cells: "unat ?n + 31 < 2 ^ 32" unfolding n by (rule order.strict_trans) simp
  have small: "unat ?q + 31 < 2 ^ 32" "unat ?l + 31 < 2 ^ 32" using private_size_small [of "framebuffer_bpp t"] n(2) dim(2) by simp_all
  have "heap_ready h (16 + rounded 32 + (160 + A + B + 512 * ps + r)) (bt_heap s)"
    unfolding rd by (rule heap_ready_less [OF room]) (simp add: A_def B_def)
  from heap_malloc_ready [OF this] obtain p h1 where m1: "heap_malloc 32 s = ret (Some p, s\<lparr>bt_heap := h1\<rparr>)"
    "heap_ready h (160 + A + B + 512 * ps + r) h1" by auto
  have "heap_ready h (16 + rounded ?q + (144 + B + 512 * ps + r)) (bt_heap (s\<lparr>bt_heap := h1\<rparr>))"
    using heap_ready_less [OF m1(2)] by (simp add: A_def)
  from heap_malloc_ready [OF this small(1)] obtain q h2 where m2: "heap_malloc ?q (s\<lparr>bt_heap := h1\<rparr>) = ret (Some q, s\<lparr>bt_heap := h2\<rparr>)"
    "heap_ready h (144 + B + 512 * ps + r) h2" by auto
  have "heap_ready h (16 + rounded 96 + (32 + B + 512 * ps + r)) (bt_heap (s\<lparr>bt_heap := h2\<rparr>))"
    unfolding rd using heap_ready_less [OF m2(2)] by simp
  from heap_malloc_ready [OF this] obtain u h3 where m3: "heap_malloc 96 (s\<lparr>bt_heap := h2\<rparr>) = ret (Some u, s\<lparr>bt_heap := h3\<rparr>)"
    "heap_ready h (32 + B + 512 * ps + r) h3" by auto
  have "heap_ready h (16 + rounded ?n + (16 + 512 * ps + r)) (bt_heap (s\<lparr>bt_heap := h3\<rparr>))"
    unfolding B_def [symmetric] using heap_ready_less [OF m3(2)] by simp
  from heap_malloc_ready [OF this cells] obtain w h4 where m4: "heap_malloc ?n (s\<lparr>bt_heap := h3\<rparr>) = ret (Some w, s\<lparr>bt_heap := h4\<rparr>)"
    "heap_ready h (16 + 512 * ps + r) h4" by auto
  have "heap_ready h (16 + rounded ?l + r) (bt_heap (s\<lparr>bt_heap := h4\<rparr>))"
    unfolding rd using heap_ready_less [OF m4(2)] by simp
  from heap_malloc_ready [OF this small(2)] obtain l h5 where m5: "heap_malloc ?l (s\<lparr>bt_heap := h4\<rparr>) = ret (Some l, s\<lparr>bt_heap := h5\<rparr>)"
    "heap_ready h r h5" by auto
  obtain con fb' table where con: "init_fb_console (console_font e) True (Some (old_cells e (R * C))) (old_stack e)
      (Some (old_bytes e (ps * 2 * 256))) fb = ret (con, fb')" "cons_inv con" "escape_code_length con = 0" "flags con AND CONSOLE_FLAG_AUTODRAW \<noteq> 0"
    "term_of con = \<lparr>tlines = replicate R (replicate C \<lparr>cc_ch = 32, cc_attrs = 7\<rparr>), trow = 0, tcol = 0, tattrs = 7\<rparr>"
    "fb_ok R C (console_font e) table fb'" "fb_shows (console_font e) table con fb'"
    using init_fb_console_run [OF geo(1,2) dim(5-7) shape(4) geo(3) lens(4) geo(4) lens(3) shape(5)] by blast
  have dims: "unat (fb_width fb) div 8 mod 65536 = C" "unat (fb_height fb) div 16 mod 65536 = R" using shape(1,2) dim(3,4,8,9) by auto
  have "boot_fb_console e t tag v s = ret (Fb_console (con, fb'), s\<lparr>bt_heap := h5\<rparr>)"
    unfolding boot_fb_console_def Let_def fb_def [symmetric] sizeof_framebuffer_def sizeof_console_def
    using v dim(1) dims shape(3) m1(1) m2(1) m3(1) m4(1) m5(1) con(1) by (simp add: fb_def [symmetric] mult.commute mult.left_commute)
  with con m5(2) show ?thesis by auto
qed

lemma page_round_less: "page_round n \<le> n + 4095"
  by (simp add: page_round_def)

text \<open>Later growth of the heap does not touch the device window.\<close>

lemma device_kept:
  assumes "heap_ready (h\<lparr>mach := m\<rparr>) r h'" and "unat v = 0xE0000000 + ofs mod 4096" and "k < n" and "n \<le> 0x1F000000"
  shows "translate (mach h') (v + of_nat k) = translate m (v + of_nat k)"
proof -
  have g: "grown (h\<lparr>mach := m\<rparr>) h'" "unat (heap_end h') \<le> 0xE0000000" using assms(1) by (auto simp: heap_ready_def heap_inv_def)
  have "ofs mod 4096 < 4096" by simp
  moreover have "unat (of_nat k :: u32) = k" using assms(3,4) by (intro unat_of_nat_small) simp
  moreover from this have "0xE0000000 + ofs mod 4096 + k < 0xFFC00000" using assms(3,4) by linarith
  ultimately have "unat (v + of_nat k) = 0xE0000000 + ofs mod 4096 + k" "0xE0000000 + ofs mod 4096 + k < 0xFFC00000"
    using assms(2) by (simp_all add: unat_add_small)
  then show ?thesis using g unfolding grown_def by auto
qed

section \<open>From boot information to a console\<close>

lemma boot_core_run:
  assumes "boot_image e kd kt" and "boot_tables kd kt (mach (bt_heap s))"
    and "bt_map s = memory_map_bss" and "page_state (mach (bt_heap s)) = region_bss"
    and "entry_step (mmap_entry_size (tag_mmap_at (memory e) tag)) \<noteq> 0"
    and "es = filter candidate (take 32 (boot_entries (memory e) tag))" and "es \<noteq> []"
    and "unat (mm_addr (last es)) + unat (mm_length (last es)) \<le> 2 ^ 32"
    and "card (candidate_pages (last es) - kernel_pages e) \<ge> 257 + n"
    and "init_font (console_font e) = ret f"
    and "initcall_table e 0 early" and "distinct early" and "set early = early_calls"
    and "initcall_table e 1 arch" and "distinct arch" and "set arch = arch_calls" and "80 + r \<le> 4096 * n"
  shows "\<exists>s'. boot_core e tag s = ret s' \<and> the_map (bt_map s') = take 32 (boot_entries (memory e) tag) \<and>
    heap_inv (bt_heap s') \<and> free_list (bt_heap s') = 0 \<and>
    (\<forall>w. in_heap (bt_heap s') w \<longrightarrow> (\<exists>b. translate (mach (bt_heap s')) w = Some b \<and>
      unat b div 4096 \<in> candidate_pages (last es) - kernel_pages e)) \<and>
    (\<forall>w. kernel_start e \<le> w \<longrightarrow> w < kernel_end e \<longrightarrow> translate (mach (bt_heap s')) w = Some (w - 0xC0000000)) \<and>
    mmio_ok (bt_mmio s') \<and> bt_irq s' = Some (irq_init (irq_stub e) (int_stub e) (idt_addr e)) \<and>
    k_keyboard (bt_kernel s') = Some init_ps2_keyboard \<and>
    unat (kernel_heap (bt_heap s')) + r \<le> heap_limit (bt_heap s') \<and> mmio_ptr (bt_mmio s') = 0xE0000000 \<and>
    bt_acpi s' = acpi_early_init (memory e) (rsd_literal e) \<and> k_keys (bt_kernel s') = kb_early_init (k_keys (bt_kernel s))"
proof -
  let ?F = "candidate_pages (last es) - kernel_pages e"
  obtain mm rs where bm: "boot_memory (memory e) tag (kernel_start e) (kernel_end e) memory_map_bss region_bss = ret (mm, rs)"
    "the_map mm = take 32 (boot_entries (memory e) tag)" "region_inv rs" "free_pages rs = ?F"
    using boot_memory_run [OF assms(5,6,7) kernel_pages_def [of e]] by blast
  let ?s = "s\<lparr>bt_map := mm, bt_heap := (bt_heap s)\<lparr>mach := (mach (bt_heap s))\<lparr>page_state := rs\<rparr>\<rparr>\<rparr>"
  have F: "free_pages rs \<subseteq> {..<2 ^ 20} - kernel_pages e" "card (free_pages rs) \<le> 16384" "257 + n \<le> card (free_pages rs)"
  proof -
    have fin: "finite (candidate_pages (last es))" by (simp add: candidate_pages_def Let_def)
    show "card (free_pages rs) \<le> 16384"
      using card_mono [OF fin, of ?F] candidate_pages_bounds(1) [of "last es"] unfolding bm(4) by simp
    show "free_pages rs \<subseteq> {..<2 ^ 20} - kernel_pages e" using candidate_pages_bounds(2) [OF assms(8)] bm(4) by auto
    show "257 + n \<le> card (free_pages rs)" using assms(9) bm(4) by simp
  qed
  obtain m where m: "paging_earlyinit (pagedir e) (pagetb1 e) (kernel_start e) (kernel_end e) ((mach (bt_heap s))\<lparr>page_state := rs\<rparr>) = ret m"
    and ready: "let h' = malloc_init (kernel_end e) ((bt_heap s)\<lparr>mach := m\<rparr>)
     in heap_ready h' (4096 * n) h' \<and> pages_left h' \<subseteq> free_pages rs \<and> heap_end h' = heap_start h' \<and> kernel_end e \<le> heap_start h' \<and>
       (\<forall>w. 0xC0000000 \<le> w \<longrightarrow> w < kernel_end e \<longrightarrow> translate m w = Some (w - 0xC0000000))"
    using early_heap [OF assms(1,2) bm(3) F] by blast
  define h where "h = malloc_init (kernel_end e) ((bt_heap s)\<lparr>mach := m\<rparr>)"
  have h: "heap_ready h (4096 * n) h" "pages_left h \<subseteq> ?F" "heap_end h = heap_start h" "kernel_end e \<le> heap_start h" "mach h = m"
    "\<forall>w. 0xC0000000 \<le> w \<longrightarrow> w < kernel_end e \<longrightarrow> translate m w = Some (w - 0xC0000000)"
    using ready unfolding Let_def h_def [symmetric] bm(4) by (simp_all add: h_def)
  have room: "heap_ready h (80 + r) h" by (rule heap_ready_less [OF h(1) assms(17)])
  obtain s' where s': "boot_core e tag s = ret s'" "bt_map s' = mm" "heap_ready h r (bt_heap s')" "mmio_ok (bt_mmio s')"
    "bt_irq s' = Some (irq_init (irq_stub e) (int_stub e) (idt_addr e))" "k_keyboard (bt_kernel s') = Some init_ps2_keyboard"
    "mmio_ptr (bt_mmio s') = 0xE0000000" "bt_acpi s' = acpi_early_init (memory e) (rsd_literal e)"
    "k_keys (bt_kernel s') = kb_early_init (k_keys (bt_kernel s))"
    using inits_run [OF assms(11-16,10), of ?s m h r] m room bm(1)
    unfolding boot_core_def assms(3,4) h_def [symmetric] by (simp add: h_def) blast
  have g: "heap_inv (bt_heap s')" "free_list (bt_heap s') = 0" "grown h (bt_heap s')"
    "unat (kernel_heap (bt_heap s')) + r \<le> heap_limit (bt_heap s')" using s'(3) by (simp_all add: heap_ready_def)
  have heap: "\<exists>b. translate (mach (bt_heap s')) w = Some b \<and> unat b div 4096 \<in> ?F" if "in_heap (bt_heap s') w" for w
  proof -
    have "unat (heap_end h) \<le> unat w" "unat w < unat (heap_end (bt_heap s'))" using that g(3) h(3) by (simp_all add: grown_def in_heap_def)
    then obtain b where "translate (mach (bt_heap s')) w = Some b" "unat b div 4096 \<in> pages_left h"
      using g(3) unfolding grown_def by blast
    with h(2) show ?thesis by blast
  qed
  have "translate (mach (bt_heap s')) w = Some (w - 0xC0000000)" if "kernel_start e \<le> w" "w < kernel_end e" for w
  proof -
    have "0xC0000000 \<le> w" using assms(1) that(1) by (auto simp: boot_image_def)
    moreover have "unat w < unat (heap_end h)" using that(2) h(3,4) by (simp add: word_le_nat_alt word_less_nat_alt)
    ultimately show ?thesis using g(3) h(5,6) that(2) by (simp add: grown_def)
  qed
  then show ?thesis using s' bm(2) g(1,2,4) heap by auto
qed

lemma boot_framebuffer_run:
  assumes "t = tag_framebuffer_at (memory e) tag" and "display_ok t ps R C" and "memory_sizes e"
    and "255 * unat (psf_charsize (console_font e)) + 16 \<le> length (psf_glyphs (console_font e))"
    and "heap_inv (bt_heap s)" and "free_list (bt_heap s) = 0" and "mmio_ok (bt_mmio s)" and "mmio_ptr (bt_mmio s) = 0xE0000000"
    and "unat (kernel_heap (bt_heap s)) + (208 + rounded (private_size (framebuffer_bpp t)) + rounded (of_nat (2 * R * C)) + 512 * ps + r) \<le>
      heap_limit (bt_heap s)"
  shows "\<exists>c fb table s' v. boot_console_init e (Some tag) s = ret (Fb_console (c, fb), s') \<and>
    cons_inv c \<and> term_of c = \<lparr>tlines = replicate R (replicate C \<lparr>cc_ch = 32, cc_attrs = 7\<rparr>), trow = 0, tcol = 0, tattrs = 7\<rparr> \<and>
    fb_ok R C (console_font e) table fb \<and> fb_shows (console_font e) table c fb \<and>
    (\<forall>k < unat (framebuffer_size t). translate (mach (bt_heap s')) (v + of_nat k) = Some (ucast (framebuffer_addr t) + of_nat k)) \<and>
    heap_inv (bt_heap s') \<and> free_list (bt_heap s') = 0 \<and> mmio_ok (bt_mmio s') \<and>
    unat (kernel_heap (bt_heap s')) + r \<le> heap_limit (bt_heap s') \<and> bt_kernel s' = bt_kernel s \<and> bt_acpi s' = bt_acpi s \<and>
    escape_code_length c = 0 \<and> flags c AND CONSOLE_FLAG_AUTODRAW \<noteq> 0"
proof -
  let ?pa = "ucast (framebuffer_addr t) :: u32" and ?sz = "framebuffer_size t" and ?h = "bt_heap s"
  have sz: "unat ?sz \<le> 0x1F000000" using display_size(1) [OF assms(2)] assms(2) unfolding display_ok_def by simp
  have ptr: "unat (mmio_ptr (bt_mmio s)) = 0xE0000000" by (simp add: assms(8))
  have ks: "kernel_space (mach ?h)" using assms(5) by (simp add: heap_inv_def)
  have fits: "unat (mmio_ptr (bt_mmio s)) + page_round (unat ?pa mod 4096 + unat ?sz) \<le> 0xFF800000"
    unfolding ptr using page_round_less [of "unat ?pa mod 4096 + unat ?sz"] sz mod_less_divisor [of 4096 "unat ?pa"] by linarith
  obtain mm m v where m: "mmio_map (bt_mmio s) (mach ?h) ?pa ?sz = ret (mm, m, v)" "kernel_space m" "page_state m = page_state (mach ?h)"
    "mmio_ok mm" "unat v = 0xE0000000 + unat ?pa mod 4096" "\<forall>k < unat ?sz. translate m (v + of_nat k) = Some (?pa + of_nat k)"
    "\<forall>w. unat w < 0xFFC00000 \<longrightarrow> unat w < 0xE0000000 \<or> unat (mmio_ptr mm) \<le> unat w \<longrightarrow> translate m w = translate (mach ?h) w"
    using mmio_map_run [OF ks assms(7), of ?sz ?pa] fits sz ptr by (auto simp: Let_def)
  let ?s = "s\<lparr>bt_mmio := mm, bt_heap := ?h\<lparr>mach := m\<rparr>\<rparr>"
  have low: "translate m w = translate (mach ?h) w" if "unat w < 0xE0000000" for w using m(7) that by simp
  note heap = heap_inv_mmio [OF assms(5) m(2,3) low]
  have room: "heap_ready (?h\<lparr>mach := m\<rparr>) (208 + rounded (private_size (framebuffer_bpp t)) + rounded (of_nat (2 * R * C)) + 512 * ps + r) (bt_heap ?s)"
    using heap assms(6,9) by (simp add: heap_ready_def grown_refl)
  have "v \<noteq> 0" using m(5) by auto
  from fb_console_runs [OF assms(2-4) room this, of tag] obtain c fb table s' where s': "boot_fb_console e t tag v ?s = ret (Fb_console (c, fb), s')"
    "heap_ready (?h\<lparr>mach := m\<rparr>) r (bt_heap s')" "bt_mmio s' = mm" "cons_inv c"
    "term_of c = \<lparr>tlines = replicate R (replicate C \<lparr>cc_ch = 32, cc_attrs = 7\<rparr>), trow = 0, tcol = 0, tattrs = 7\<rparr>"
    "fb_ok R C (console_font e) table fb" "fb_shows (console_font e) table c fb"
    "bt_kernel s' = bt_kernel s" "bt_acpi s' = bt_acpi s" "escape_code_length c = 0" "flags c AND CONSOLE_FLAG_AUTODRAW \<noteq> 0"
    by auto
  have "framebuffer_type t = 1" using assms(2) by (simp add: display_ok_def)
  then have "boot_console_init e (Some tag) s = ret (Fb_console (c, fb), s')"
    using s'(1) m(1) by (simp add: boot_console_init_def assms(1) [symmetric] Let_def)
  moreover have "translate (mach (bt_heap s')) (v + of_nat k) = Some (?pa + of_nat k)" if "k < unat ?sz" for k
    using device_kept [OF s'(2) m(5) that sz] m(6) that by simp
  ultimately show ?thesis using s' m(4) by (auto simp: heap_ready_def)
qed

section \<open>Properties\<close>

text \<open>C2: Booting puts the memory of the kernel in order, whatever order the linker gives the initialisation
  functions of a level. From the page tables of \<^verbatim>\<open>boot.S\<close>, a memory map whose last usable region has at least 258 pages
  outside the image, and the five early and three architecture functions in any order, the boot code returns, and then:
  the memory map is recorded; the heap satisfies its invariant; every byte of the heap is backed by a page of that
  region that is not a whole page of the kernel image (the partial page at its end may be one of them); every byte of the image is still mapped at its physical address
  plus \<^verbatim>\<open>0xC0000000\<close>; the window for device memory is empty and in bounds; and the interrupt tables and the
  keyboard are set up.\<close>

theorem boot_core_ready:
  assumes "boot_image e kd kt" and "boot_tables kd kt (mach (bt_heap s))"
    and "bt_map s = memory_map_bss" and "page_state (mach (bt_heap s)) = region_bss"
    and "entry_step (mmap_entry_size (tag_mmap_at (memory e) tag)) \<noteq> 0"
    and "es = filter candidate (take 32 (boot_entries (memory e) tag))" and "es \<noteq> []"
    and "unat (mm_addr (last es)) + unat (mm_length (last es)) \<le> 2 ^ 32"
    and "card (candidate_pages (last es) - kernel_pages e) \<ge> 258"
    and "init_font (console_font e) = ret f"
    and "initcall_table e 0 early" and "distinct early" and "set early = early_calls"
    and "initcall_table e 1 arch" and "distinct arch" and "set arch = arch_calls"
  shows "\<exists>s'. boot_core e tag s = ret s' \<and> the_map (bt_map s') = take 32 (boot_entries (memory e) tag) \<and>
    heap_inv (bt_heap s') \<and> free_list (bt_heap s') = 0 \<and>
    (\<forall>w. in_heap (bt_heap s') w \<longrightarrow> (\<exists>b. translate (mach (bt_heap s')) w = Some b \<and>
      unat b div 4096 \<in> candidate_pages (last es) - kernel_pages e)) \<and>
    (\<forall>w. kernel_start e \<le> w \<longrightarrow> w < kernel_end e \<longrightarrow> translate (mach (bt_heap s')) w = Some (w - 0xC0000000)) \<and>
    mmio_ok (bt_mmio s') \<and> bt_irq s' = Some (irq_init (irq_stub e) (int_stub e) (idt_addr e)) \<and>
    k_keyboard (bt_kernel s') = Some init_ps2_keyboard"
proof -
  have "257 + 1 \<le> card (candidate_pages (last es) - kernel_pages e)" using assms(9) by simp
  from boot_core_run [OF assms(1-8) this assms(10-16), of 0] show ?thesis by auto
qed


text \<open>A machine with 31 MiB of memory above the first, the image at one mebibyte, and the functions in the order in which the
  sources define them.\<close>

definition pc_initcalls :: "initcall list" where
  "pc_initcalls = [Paging_earlyinit, Serial_debug_init, Kb_early_init, Init_font, Malloc_init, Init_x86, Init_at_keyboard, Mmio_init]"

definition pc_env :: "(u8 list \<times> u8 list) env" where
  "pc_env = \<lparr>pagedir = 0xC0101000, pagetb1 = 0xC0102000, kernel_start = 0xC0100000, kernel_end = 0xC0180123, tss_addr = 0xC0171000,
     gdt_addr = 0xC0172000, idt_addr = 0xC0173000, irq_stub = (\<lambda>n. 0xC0110000 + of_nat (64 * n)), int_stub = (\<lambda>n. 0xC0120000 + of_nat (64 * n)),
     rsd_literal = 0xC0160000, console_font = small_font, initcalls = (\<lambda>a. pc_initcalls ! unat ((a - 0xC0170000) div 4)),
     initcall_start = (\<lambda>n. if n = 0 then 0xC0170000 else 0xC0170014), initcall_end = (\<lambda>n. if n = 0 then 0xC0170014 else 0xC0170020),
     debug_serial = True, memory = one_mmap, ports = pc_bus, ticks_in = (\<lambda>n. if n < 100000 then 0 else 1), calibrating = id,
     calibration_ticks = 40, old_cells = (\<lambda>n. replicate n \<lparr>cc_ch = 0, cc_attrs = 0\<rparr>), old_bytes = (\<lambda>n. replicate n 0),
     old_stack = replicate 64 0, vga_memory = (\<lambda>n. replicate n \<lparr>cc_ch = 0, cc_attrs = 0\<rparr>), pixels = (\<lambda>n. replicate n 0)\<rparr>"

definition pc_boot :: "(u8 list \<times> u8 list) boot" where
  "pc_boot = \<lparr>bt_map = memory_map_bss, bt_heap = \<lparr>heap_start = 0, heap_end = 0, kernel_heap = 0, free_list = 0, hmem = (\<lambda>_. 0),
       mach = boot_machine\<lparr>page_state := region_bss\<rparr>\<rparr>,
     bt_mmio = \<lparr>mmio_start = 0, mmio_limit = 0, mmio_ptr = 0\<rparr>,
     bt_serial = \<lparr>device_head = None, serial_at = (\<lambda>_. \<lparr>sd_next = None, sd_driver = pc_serial_debug_driver pc_bus, sd_private = 0\<rparr>)\<rparr>,
     bt_font = None, bt_gdt = None, bt_irq = None, bt_acpi = \<lparr>rsdp_searched = 0, the_rsdp = None\<rparr>, bt_lpj = 0,
     bt_kernel = idle_kernel\<lparr>k_keyboard := None\<rparr>\<rparr>"

lemma pc_env_image: "boot_image pc_env 257 258" "kernel_pages pc_env = {256..<384}"
  by (simp_all add: boot_image_def kernel_pages_def pc_env_def)

lemma pc_env_tables:
  "initcall_table pc_env 0 (take 5 pc_initcalls)" "initcall_table pc_env 1 (drop 5 pc_initcalls)"
proof -
  have small: "i < 5 \<Longrightarrow> i = 0 \<or> i = 1 \<or> i = 2 \<or> i = 3 \<or> i = 4" "i < 3 \<Longrightarrow> i = 0 \<or> i = 1 \<or> i = 2" for i :: nat by linarith+
  have "initcalls pc_env (initcall_start pc_env 0 + 4 * of_nat i) = take 5 pc_initcalls ! i" if "i < 5" for i
    using small(1) [OF that] by (elim disjE) (simp_all add: pc_env_def pc_initcalls_def)
  then show "initcall_table pc_env 0 (take 5 pc_initcalls)"
    by (simp add: initcall_table_def) (simp add: pc_env_def pc_initcalls_def)
  have "initcalls pc_env (initcall_start pc_env 1 + 4 * of_nat i) = drop 5 pc_initcalls ! i" if "i < 3" for i
    using small(2) [OF that] by (elim disjE) (simp_all add: pc_env_def pc_initcalls_def)
  moreover have "length (drop 5 pc_initcalls) = 3" by (simp add: pc_initcalls_def)
  ultimately show "initcall_table pc_env 1 (drop 5 pc_initcalls)"
    unfolding initcall_table_def by (simp add: pc_env_def)
qed

theorem boot_core_ready_witness:
  "\<exists>s'. boot_core pc_env 0 pc_boot = ret s' \<and> heap_inv (bt_heap s') \<and> mmio_ok (bt_mmio s') \<and>
    translate (mach (bt_heap s')) 0xC0123456 = Some 0x123456 \<and> k_keyboard (bt_kernel s') = Some init_ps2_keyboard"
proof -
  let ?e = "\<lparr>mm_addr = 0x100000, mm_length = 0x1F00000, mm_type = 1\<rparr>"
  have es: "[?e] = filter candidate (take 32 (boot_entries (memory pc_env) 0))"
    by (simp add: one_mmap_entries candidate_def is_available_def memory_map_types pc_env_def)
  have step: "entry_step (mmap_entry_size (tag_mmap_at (memory pc_env) 0)) \<noteq> 0" by (simp add: one_mmap_entries entry_step_def pc_env_def)
  have "candidate_pages ?e - {256..<384} = {384..<8192}" by (auto simp: candidate_pages_def)
  then have card: "258 \<le> card (candidate_pages (last [?e]) - kernel_pages pc_env)" by (simp add: pc_env_image(2))
  have tables: "boot_tables 257 258 (mach (bt_heap pc_boot))" by (simp add: boot_tables_def pc_boot_def boot_machine_def)
  have font: "init_font (console_font pc_env) = ret (vga_palette_colors, replicate 4096 0xFF)"
    by (simp add: init_font_def pc_env_def small_font_def PSF1_MAGIC0_def PSF1_MAGIC1_def)
  have sets: "distinct (take 5 pc_initcalls)" "set (take 5 pc_initcalls) = early_calls" "distinct (drop 5 pc_initcalls)"
    "set (drop 5 pc_initcalls) = arch_calls" by (auto simp: pc_initcalls_def early_calls_def arch_calls_def)
  have bss: "bt_map pc_boot = memory_map_bss" "page_state (mach (bt_heap pc_boot)) = region_bss" by (simp_all add: pc_boot_def)
  have addr: "unat (mm_addr (last [?e])) + unat (mm_length (last [?e])) \<le> 2 ^ 32" by simp
  have range: "kernel_start pc_env \<le> 0xC0123456" "0xC0123456 < kernel_end pc_env" by (simp_all add: pc_env_def)
  from boot_core_ready [OF pc_env_image(1) tables bss step es _ addr card font pc_env_tables(1) sets(1,2) pc_env_tables(2) sets(3,4)] range
  show ?thesis by auto
qed

text \<open>A display of 16 by 32 pixels of four bytes.\<close>

definition display_mem :: mem where
  "display_mem = st32 (st32 (st32 (st32 (st32 (st32 (st32 (st32 (st32 (\<lambda>_. 0) 0 8) 4 38) 8 0xFD000000) 16 64) 20 16) 24 32) 28 0x120)
     32 0x08080810) 36 0x0800"

lemma display_tag:
  "display_ok (tag_framebuffer_at display_mem 0) 4 2 2" "framebuffer_bpp (tag_framebuffer_at display_mem 0) = 32"
  "unat (framebuffer_size (tag_framebuffer_at display_mem 0)) = 8192" "ucast (framebuffer_addr (tag_framebuffer_at display_mem 0)) = (0xFD000000 :: u32)"
  by (simp_all add: display_ok_def framebuffer_size_def tag_framebuffer_at_def display_mem_def ld64_def ld32_def st32_def byte_of_def le32_def)


end
