(* ===== verification/Pci.thy ===== *)
theory Pci
  imports Linked_List Port_Io
begin

text \<open>
  PCI: configuration space access (\<^verbatim>\<open>arch/i386/include/kernel/pci/pci_config.h\<close>, \<^verbatim>\<open>pci/pci.h\<close>) and the
  enumeration of devices and functions (\<^verbatim>\<open>pci/pci.c\<close>). Devices and functions are nodes at addresses;
  what the successive calls of \<open>malloc\<close> return is the sequence \<open>blocks\<close> of the state, \<open>mallocs\<close> counts the calls. The host bridge
  is the \<open>bus\<close> argument. A bridge makes \<open>pci_scan_bus\<close> call itself for the secondary bus; nothing
  bounds this recursion, so that \<open>pci_scan_bus\<close> is a partial function.
\<close>

section \<open>Configuration space\<close>

definition PCI_CONFIG_ADDRESS :: u16 where
  "PCI_CONFIG_ADDRESS = 0xCF8"

definition PCI_CONFIG_DATA :: u16 where
  "PCI_CONFIG_DATA = 0xCFC"

definition pci_config_address :: "u8 \<Rightarrow> u8 \<Rightarrow> u8 \<Rightarrow> u8 \<Rightarrow> u32" where
  "pci_config_address bus slot func offset =
     push_bit 16 (ucast bus) OR push_bit 11 (ucast slot) OR push_bit 8 (ucast func) OR ucast (offset AND 0xFC) OR 0x80000000"

definition pci_config_readw :: "'c bus \<Rightarrow> u8 \<Rightarrow> u8 \<Rightarrow> u8 \<Rightarrow> u8 \<Rightarrow> 'c \<Rightarrow> u16 \<times> 'c" where
  "pci_config_readw b bus slot func offset c =
     (let c = outl_p b PCI_CONFIG_ADDRESS (pci_config_address bus slot func offset) c;
          (v, c) = inl_p b PCI_CONFIG_DATA c
      in (ucast (drop_bit (unat (offset AND 2) * 8) v AND 0xFFFF), c))"

definition pci_config_readl :: "'c bus \<Rightarrow> u8 \<Rightarrow> u8 \<Rightarrow> u8 \<Rightarrow> u8 \<Rightarrow> 'c \<Rightarrow> u32 \<times> 'c" where
  "pci_config_readl b bus slot func offset c =
     (let c = outl_p b PCI_CONFIG_ADDRESS (pci_config_address bus slot func offset) c
      in inl_p b PCI_CONFIG_DATA c)"

definition pci_config_writel :: "'c bus \<Rightarrow> u8 \<Rightarrow> u8 \<Rightarrow> u8 \<Rightarrow> u8 \<Rightarrow> u32 \<Rightarrow> 'c \<Rightarrow> 'c" where
  "pci_config_writel b bus slot func offset v c =
     outl_p b PCI_CONFIG_DATA v (outl_p b PCI_CONFIG_ADDRESS (pci_config_address bus slot func offset) c)"

definition pci_get_class_code :: "'c bus \<Rightarrow> u8 \<Rightarrow> u8 \<Rightarrow> u8 \<Rightarrow> 'c \<Rightarrow> u32 \<times> 'c" where
  "pci_get_class_code b bus slot func c = pci_config_readl b bus slot func 0x08 c"

definition pci_get_header_type :: "'c bus \<Rightarrow> u8 \<Rightarrow> u8 \<Rightarrow> u8 \<Rightarrow> 'c \<Rightarrow> u8 \<times> 'c" where
  "pci_get_header_type b bus slot func c =
     (let (v, c) = pci_config_readw b bus slot func 0x0E c in (ucast (v AND 0xFF), c))"

definition pci_get_secondary_bus_number :: "'c bus \<Rightarrow> u8 \<Rightarrow> u8 \<Rightarrow> u8 \<Rightarrow> 'c \<Rightarrow> u8 \<times> 'c" where
  "pci_get_secondary_bus_number b bus slot func c =
     (let (v, c) = pci_config_readl b bus slot func 0x18 c in (ucast (drop_bit 8 (v AND 0x0000FF00)), c))"

definition pci_get_device_id :: "'c bus \<Rightarrow> u8 \<Rightarrow> u8 \<Rightarrow> u8 \<Rightarrow> 'c \<Rightarrow> u32 \<times> 'c" where
  "pci_get_device_id b bus slot func c =
     (let (vendor, c) = pci_config_readw b bus slot func 0 c
      in if vendor \<noteq> 0xFFFF then
           let (device, c) = pci_config_readw b bus slot func 2 c
           in (push_bit 16 (ucast vendor) OR ucast device, c)
         else (0xFFFFFFFF, c))"

text \<open>The base address registers; \<open>n\<close> is the digit in the function names \<open>pci_get_bar0\<close> to
  \<open>pci_get_bar5\<close> and \<open>pci_set_bar0\<close> to \<open>pci_set_bar5\<close>.\<close>

definition pci_get_bar :: "'c bus \<Rightarrow> nat \<Rightarrow> u8 \<Rightarrow> u8 \<Rightarrow> u8 \<Rightarrow> 'c \<Rightarrow> u32 \<times> 'c" where
  "pci_get_bar b n bus slot func c = pci_config_readl b bus slot func ([0x10, 0x14, 0x18, 0x1C, 0x20, 0x24] ! n) c"

definition pci_set_bar :: "'c bus \<Rightarrow> nat \<Rightarrow> u8 \<Rightarrow> u8 \<Rightarrow> u8 \<Rightarrow> u32 \<Rightarrow> 'c \<Rightarrow> 'c" where
  "pci_set_bar b n bus slot func v c = pci_config_writel b bus slot func ([0x10, 0x14, 0x18, 0x1C, 0x20, 0x24] ! n) v c"

section \<open>Class names\<close>

text \<open>A \<open>switch\<close> whose cases return.\<close>

definition switch_name :: "(u8 \<times> string) list \<Rightarrow> string \<Rightarrow> u8 \<Rightarrow> string" where
  "switch_name entries otherwise v = (case map_of entries v of Some s \<Rightarrow> s | None \<Rightarrow> otherwise)"

definition mass_storage_name :: "u8 \<Rightarrow> string" where
  "mass_storage_name subclass = switch_name
     [(0x00, ''SCSI Bus Controller''), (0x01, ''IDE Controller''), (0x02, ''Floppy Disk Controller''),
      (0x03, ''IPI Bus Controller''), (0x04, ''RAID Controller''), (0x05, ''ATA Controller''),
      (0x06, ''SATA Controller''), (0x07, ''Serial Attached SCSI'')] ''Mass Storage Controller'' subclass"

definition network_name :: "u8 \<Rightarrow> string" where
  "network_name subclass = switch_name
     [(0x00, ''Ethernet Controller''), (0x01, ''Token Ring Controller''), (0x02, ''FDDI Controller''),
      (0x03, ''ATM Controller''), (0x04, ''ISDN Controller''), (0x05, ''WorldFip Controller''),
      (0x06, ''PICMG 2.14 Multi Computing'')] ''Network Controller'' subclass"

definition display_name :: "u8 \<Rightarrow> u8 \<Rightarrow> string" where
  "display_name subclass progif = switch_name
     [(0x00, if progif = 0x01 then ''8512-Compatible Controller'' else ''VGA-Compatible Controller''),
      (0x01, ''XGA Controller''), (0x02, ''3D Controller'')] ''Display Controller'' subclass"

definition multimedia_name :: "u8 \<Rightarrow> string" where
  "multimedia_name subclass = switch_name
     [(0x00, ''Video Device''), (0x01, ''Audio Device''), (0x02, ''Computer Telephony Device'')]
     ''Multimedia Controller'' subclass"

definition memory_name :: "u8 \<Rightarrow> string" where
  "memory_name subclass = switch_name [(0x00, ''RAM Controller''), (0x01, ''Flash Controller'')] ''Memory Controller'' subclass"

definition bridge_name :: "u8 \<Rightarrow> string" where
  "bridge_name subclass = switch_name
     [(0x00, ''Host Bridge''), (0x01, ''ISA Bridge''), (0x02, ''EISA Bridge''), (0x03, ''MCA Bridge''),
      (0x04, ''PCI-to-PCI Bridge''), (0x05, ''PCMCIA Bridge''), (0x06, ''NuBus Bridge''), (0x07, ''CardBus Bridge''),
      (0x08, ''RACEway Bridge''), (0x09, ''PCI-to-PCI Bridge''), (0x0A, ''InfiniBrand-to-PCI Host Bridge'')]
     ''Bridge Device'' subclass"

definition communication_name :: "u8 \<Rightarrow> u8 \<Rightarrow> string" where
  "communication_name subclass progif = switch_name
     [(0x00, switch_name
        [(0x00, ''Generic XT-Compatible Serial Controller''), (0x01, ''16450-Compatible Serial Controller''),
         (0x02, ''16550-Compatible Serial Controller''), (0x03, ''16650-Compatible Serial Controller''),
         (0x04, ''16750-Compatible Serial Controller''), (0x05, ''16850-Compatible Serial Controller''),
         (0x06, ''16950-Compatible Serial Controller'')] ''Serial Controller'' progif),
      (0x01, switch_name
        [(0x00, ''Parallel Port''), (0x01, ''Bi-Directional Parallel Port''),
         (0x02, ''ECP 1.X Compliant Parallel Port''), (0x03, ''IEEE 1284 Controller''),
         (0x04, ''IEEE 1284 Target Device'')] ''Parallel Port'' progif),
      (0x02, ''Multiport Serial Controller''),
      (0x03, switch_name
        [(0x00, ''Generic Modem''), (0x01, ''Hayes Compatible Modem (16450-Compatible Interface)''),
         (0x02, ''Hayes Compatible Modem (16550-Compatible Interface)''),
         (0x03, ''Hayes Compatible Modem (16650-Compatible Interface)''),
         (0x04, ''Hayes Compatible Modem (16750-Compatible Interface)'')] ''Modem'' progif),
      (0x04, ''IEEE 488.1/2 (GPIB) Controller''), (0x05, ''Smart Card'')]
     ''Simple Communication Controller'' subclass"

text \<open>The outer \<open>switch\<close>, too, is on \<open>progif\<close>.\<close>

definition base_peripheral_name :: "u8 \<Rightarrow> u8 \<Rightarrow> string" where
  "base_peripheral_name subclass progif = switch_name
     [(0x00, switch_name
        [(0x00, ''Generic 8259 PIC''), (0x01, ''ISA PIC''), (0x02, ''EISA PIC''),
         (0x10, ''I/O APIC Interrupt Controller''), (0x20, ''I/O(x) APIC Interrupt Controller'')]
        ''Interrupt Controller'' progif),
      (0x01, switch_name
        [(0x00, ''Generic 8254 DMA Controller''), (0x01, ''ISA DMA Controller''), (0x02, ''EISA DMA Controller'')]
        ''DMA Controller'' progif),
      (0x02, switch_name
        [(0x00, ''Generic 8254 System Timer''), (0x01, ''ISA System Timer''), (0x02, ''EISA System Timer'')]
        ''System Timer'' progif),
      (0x03, switch_name [(0x00, ''Generic RTC Controller''), (0x01, ''ISA RTC Controller'')] ''RTC Controller'' progif),
      (0x04, ''Generic PCI Hot-Plug Controller'')] ''Base System Peripheral'' progif"

definition input_name :: "u8 \<Rightarrow> u8 \<Rightarrow> string" where
  "input_name subclass progif = switch_name
     [(0x00, ''Keyboard Controller''), (0x01, ''Digitizer''), (0x02, ''Mouse Controller''), (0x03, ''Scanner Controller''),
      (0x04, switch_name [(0x00, ''Gameport Controller (Generic)''), (0x10, ''Gameport Controller (Legacy)'')]
        ''Gameport Controller'' progif)] ''Input Controller'' subclass"

definition docking_name :: "u8 \<Rightarrow> string" where
  "docking_name subclass = switch_name [(0x00, ''Generic Docking Station'')] ''Docking Station'' subclass"

text \<open>Case \<open>0x07\<close> has no \<open>return\<close> of its own behind the inner \<open>switch\<close> and runs into case \<open>0x08\<close>.\<close>

definition serial_bus_name :: "u8 \<Rightarrow> u8 \<Rightarrow> string" where
  "serial_bus_name subclass progif = switch_name
     [(0x00, ''IEEE 1394 Controller''), (0x01, ''ACCESS bus''), (0x02, ''SSA''),
      (0x03, switch_name
        [(0x00, ''USB Controller (UHCI)''), (0x10, ''USB Controller (OHCI)''), (0x20, ''USB Controller (EHCI)''),
         (0x30, ''USB Controller (XHCI)''), (0x80, ''Unspecified USB Controller''), (0xFE, ''USB'')]
        ''USB Controller'' progif),
      (0x04, ''Fibre Channel''), (0x05, ''SMBus''), (0x06, ''InfiniBand''),
      (0x07, switch_name
        [(0x00, ''IPMI SMIC Interface''), (0x01, ''IPMI Kybd Controller Style Interface''),
         (0x02, ''IPMI Block Transfer Interface'')] ''SERCOS Interface Standard (IEC 61491)'' progif),
      (0x08, ''SERCOS Interface Standard (IEC 61491)''), (0x09, ''CANbus'')] ''Serial Bus Controller'' subclass"

text \<open>An unknown processor runs into the serial bus controllers.\<close>

definition processor_name :: "u8 \<Rightarrow> u8 \<Rightarrow> string" where
  "processor_name subclass progif = switch_name
     [(0x00, ''386 Processor''), (0x01, ''486 Processor''), (0x02, ''Pentium Processor''), (0x10, ''Alpha Processor''),
      (0x20, ''PowerPC Processor''), (0x30, ''MIPS Processor''), (0x40, ''Co-Processor'')]
     (serial_bus_name subclass progif) subclass"

definition wireless_name :: "u8 \<Rightarrow> string" where
  "wireless_name subclass = switch_name
     [(0x00, ''iRDA Compatible Controller''), (0x01, ''Consumer IR Controller''), (0x10, ''RF Controller''),
      (0x11, ''Bluetooth Controller''), (0x12, ''Broadband Controller''), (0x20, ''Ethernet Controller (802.11a)''),
      (0x21, ''Ethernet Controller (802.11b)'')] ''Wireless Controller'' subclass"

definition intelligent_io_name :: "u8 \<Rightarrow> u8 \<Rightarrow> string" where
  "intelligent_io_name subclass progif =
     (if subclass = 0 then if progif = 0 then ''Message FIFO'' else ''I20 Architecture'' else ''Intelligent I/O'')"

definition satellite_name :: "u8 \<Rightarrow> string" where
  "satellite_name subclass = switch_name
     [(0x01, ''TV Controller''), (0x02, ''Audio Controller''), (0x03, ''Voice Controller''), (0x04, ''Data Controller'')]
     ''Satellite Communication Controller'' subclass"

definition crypto_name :: "u8 \<Rightarrow> string" where
  "crypto_name subclass = switch_name
     [(0x00, ''Network and Computing Encrpytion/Decryption''), (0x01, ''Entertainment Encryption/Decryption'')]
     ''Encrpytion/Decryption'' subclass"

definition data_acquisition_name :: "u8 \<Rightarrow> string" where
  "data_acquisition_name subclass = switch_name
     [(0x00, ''DPIO Modules''), (0x01, ''Performance Counters''),
      (0x10, ''Communications Syncrhonization Plus Time and Frequency Test/Measurment''), (0x20, ''Management Card'')]
     ''Data Acquisition and Signal Processing Controller'' subclass"

definition pci_get_class_name :: "u8 \<Rightarrow> u8 \<Rightarrow> u8 \<Rightarrow> string" where
  "pci_get_class_name class_code subclass progif = switch_name
     [(0x00, ''Unknown''), (0x01, mass_storage_name subclass), (0x02, network_name subclass),
      (0x03, display_name subclass progif), (0x04, multimedia_name subclass), (0x05, memory_name subclass),
      (0x06, bridge_name subclass), (0x07, communication_name subclass progif),
      (0x08, base_peripheral_name subclass progif), (0x09, input_name subclass progif), (0x0A, docking_name subclass),
      (0x0B, processor_name subclass progif), (0x0C, serial_bus_name subclass progif), (0x0D, wireless_name subclass),
      (0x0E, intelligent_io_name subclass progif), (0x0F, satellite_name subclass), (0x10, crypto_name subclass),
      (0x11, data_acquisition_name subclass)] ''Undefined'' class_code"

section \<open>Devices and functions\<close>

type_synonym dptr = nat
type_synonym fptr = nat

record pci_function =
  f_prev :: "fptr option"
  f_next :: "fptr option"
  f_device :: dptr
  f_number :: u8
  f_vendor_id :: u16
  f_device_id :: u16
  f_class_code :: u8
  f_subclass :: u8
  f_progif :: u8

record pci_device =
  d_prev :: "dptr option"
  d_next :: "dptr option"
  d_bus :: u8
  d_number :: u8
  d_vendor_id :: u16
  d_device_id :: u16
  d_functions :: "fptr option"

record pci =
  pci_device_count :: u32
  pci_devices :: "dptr option"
  dev_at :: "dptr \<Rightarrow> pci_device"
  fun_at :: "fptr \<Rightarrow> pci_function"
  blocks :: "nat \<Rightarrow> nat option"
  mallocs :: nat

definition upd_dev :: "dptr \<Rightarrow> (pci_device \<Rightarrow> pci_device) \<Rightarrow> pci \<Rightarrow> pci" where
  "upd_dev d f s = s\<lparr>dev_at := (dev_at s)(d := f (dev_at s d))\<rparr>"

definition upd_fun :: "fptr \<Rightarrow> (pci_function \<Rightarrow> pci_function) \<Rightarrow> pci \<Rightarrow> pci" where
  "upd_fun p f s = s\<lparr>fun_at := (fun_at s)(p := f (fun_at s p))\<rparr>"

definition pci_malloc :: "pci \<Rightarrow> (nat \<times> pci) run" where
  "pci_malloc s = (case blocks s (mallocs s) of
     Some p \<Rightarrow> ret (p, s\<lparr>mallocs := mallocs s + 1\<rparr>)
   | None \<Rightarrow> goes_wrong Null_pointer)"

text \<open>The loop that finds the last element of a list: the value of \<open>prev\<close> behind it.\<close>

partial_function (option) find_tail :: "('p \<Rightarrow> 'p option) \<Rightarrow> 'p option \<Rightarrow> 'p option \<Rightarrow> 'p option option" where
  "find_tail nxt prev cur = (case cur of None \<Rightarrow> Some prev | Some p \<Rightarrow> find_tail nxt cur (nxt p))"

text \<open>A new function at the end of the list of \<open>dev\<close>. Its \<open>prev\<close> keeps what the block of memory
  held before when the list was empty.\<close>

definition append_function :: "dptr \<Rightarrow> fptr \<Rightarrow> pci \<Rightarrow> pci run" where
  "append_function dev func s =
     (case find_tail (\<lambda>p. f_next (fun_at s p)) None (d_functions (dev_at s dev)) of
        None \<Rightarrow> None
      | Some (Some prev) \<Rightarrow>
          ret (upd_fun func (\<lambda>f. f\<lparr>f_prev := Some prev\<rparr>) (upd_fun prev (\<lambda>f. f\<lparr>f_next := Some func\<rparr>) s))
      | Some None \<Rightarrow> ret (upd_dev dev (\<lambda>d. d\<lparr>d_functions := Some func\<rparr>) s))"

definition append_device :: "dptr \<Rightarrow> pci \<Rightarrow> pci run" where
  "append_device dev s =
     (case find_tail (\<lambda>p. d_next (dev_at s p)) None (pci_devices s) of
        None \<Rightarrow> None
      | Some (Some prev) \<Rightarrow>
          ret (upd_dev dev (\<lambda>d. d\<lparr>d_prev := Some prev\<rparr>) (upd_dev prev (\<lambda>d. d\<lparr>d_next := Some dev\<rparr>) s))
      | Some None \<Rightarrow> ret (s\<lparr>pci_devices := Some dev\<rparr>))"

section \<open>Scanning\<close>

text \<open>\<open>scan_bus\<close> is the recursive call of \<open>pci_scan_bus\<close>.\<close>

definition pci_scan_device_function :: "(u8 \<Rightarrow> pci \<times> 'c \<Rightarrow> (pci \<times> 'c) run) \<Rightarrow> 'c bus \<Rightarrow> dptr \<Rightarrow> u8 \<Rightarrow> pci \<times> 'c \<Rightarrow> (pci \<times> 'c) run" where
  "pci_scan_device_function scan_bus b dev function sc =
     (let (s, c) = sc;
          bus = d_bus (dev_at s dev);
          number = d_number (dev_at s dev);
          (devid, c) = pci_get_device_id b bus number function c;
          device_id = devid AND 0xFFFF;
          vendor_id = drop_bit 16 (devid AND 0xFFFF0000);
          (tmp, c) = pci_get_class_code b bus number function c;
          progif = ucast (tmp AND 0xFF);
          subclass = ucast (drop_bit 16 (tmp AND 0xFF0000));
          class_code = ucast (drop_bit 24 (tmp AND 0xFF000000))
      in if class_code = 0x06 \<and> subclass = 0x04 then
           let (secondary_bus, c) = pci_get_secondary_bus_number b bus number function c
           in scan_bus secondary_bus (s, c)
         else
           run_bind (pci_malloc s) (\<lambda>(func, s).
           run_bind (append_function dev func
              (upd_fun func (\<lambda>f. f\<lparr>f_device := dev, f_number := function, f_vendor_id := ucast vendor_id,
                 f_device_id := ucast device_id, f_class_code := class_code, f_subclass := subclass,
                 f_progif := progif, f_next := None\<rparr>) s)) (\<lambda>s. ret (s, c))))"

text \<open>The functions 1 to 7 of a device with several functions.\<close>

definition pci_scan_functions :: "(u8 \<Rightarrow> pci \<times> 'c \<Rightarrow> (pci \<times> 'c) run) \<Rightarrow> 'c bus \<Rightarrow> u8 \<Rightarrow> u8 \<Rightarrow> dptr \<Rightarrow> pci \<times> 'c \<Rightarrow> (pci \<times> 'c) run" where
  "pci_scan_functions scan_bus b bus device dev sc =
     run_for [1, 2, 3, 4, 5, 6, 7] (\<lambda>function (s, c).
       let (devid, c) = pci_get_device_id b bus device function c
       in if devid \<noteq> 0xFFFFFFFF then pci_scan_device_function scan_bus b dev function (s, c) else ret (s, c)) sc"

definition pci_scan_device :: "(u8 \<Rightarrow> pci \<times> 'c \<Rightarrow> (pci \<times> 'c) run) \<Rightarrow> 'c bus \<Rightarrow> u8 \<Rightarrow> u8 \<Rightarrow> pci \<times> 'c \<Rightarrow> (pci \<times> 'c) run" where
  "pci_scan_device scan_bus b bus device sc =
     (let (s, c) = sc;
          (devid, c) = pci_get_device_id b bus device 0 c;
          device_id = devid AND 0xFFFF;
          vendor_id = drop_bit 16 (devid AND 0xFFFF0000)
      in if devid = 0xFFFFFFFF then ret (s, c)
         else
           run_bind (pci_malloc s) (\<lambda>(dev, s).
           let s = upd_dev dev (\<lambda>_. \<lparr>d_prev = None, d_next = None, d_bus = bus, d_number = device,
                     d_vendor_id = ucast vendor_id, d_device_id = ucast device_id, d_functions = None\<rparr>) s
           in run_bind (pci_scan_device_function scan_bus b dev 0 (s, c)) (\<lambda>(s, c).
              let (header_type, c) = pci_get_header_type b bus device 0 c
              in run_bind (if header_type AND 0x80 \<noteq> 0 then pci_scan_functions scan_bus b bus device dev (s, c)
                           else ret (s, c)) (\<lambda>(s, c).
                 run_bind (append_device dev s) (\<lambda>s.
                   ret (s\<lparr>pci_device_count := pci_device_count s + 1\<rparr>, c))))))"

lemma run_for_mono [partial_function_mono]:
  fixes g :: "('x \<Rightarrow> 'y option) \<Rightarrow> 'i \<Rightarrow> 's \<Rightarrow> 's run"
  assumes "\<And>i s. mono_option (\<lambda>x. g x i s)"
  shows "mono_option (\<lambda>x. run_for is (g x) s)"
proof (induction "is" arbitrary: s)
  case Nil
  then show ?case by (simp add: monotone_def flat_ord_def)
next
  case (Cons i "is")
  then show ?case using run_bind_mono [OF assms Cons.IH] by simp
qed

lemma scan_device_function_mono [partial_function_mono]:
  fixes r :: "('x \<Rightarrow> 'y option) \<Rightarrow> u8 \<Rightarrow> pci \<times> 'c \<Rightarrow> (pci \<times> 'c) run"
  assumes "\<And>bus sc. mono_option (\<lambda>x. r x bus sc)"
  shows "mono_option (\<lambda>x. pci_scan_device_function (r x) b dev function sc)"
  unfolding pci_scan_device_function_def Let_def split_def
  by (intro partial_function_mono assms)

lemma scan_functions_mono [partial_function_mono]:
  fixes r :: "('x \<Rightarrow> 'y option) \<Rightarrow> u8 \<Rightarrow> pci \<times> 'c \<Rightarrow> (pci \<times> 'c) run"
  assumes "\<And>bus sc. mono_option (\<lambda>x. r x bus sc)"
  shows "mono_option (\<lambda>x. pci_scan_functions (r x) b bus device dev sc)"
  unfolding pci_scan_functions_def Let_def split_def
  by (intro partial_function_mono assms)

lemma scan_device_mono [partial_function_mono]:
  fixes r :: "('x \<Rightarrow> 'y option) \<Rightarrow> u8 \<Rightarrow> pci \<times> 'c \<Rightarrow> (pci \<times> 'c) run"
  assumes "\<And>bus sc. mono_option (\<lambda>x. r x bus sc)"
  shows "mono_option (\<lambda>x. pci_scan_device (r x) b bus device sc)"
  unfolding pci_scan_device_def Let_def split_def
  by (intro partial_function_mono assms)

partial_function (option) pci_scan_bus :: "'c bus \<Rightarrow> u8 \<Rightarrow> pci \<times> 'c \<Rightarrow> (pci \<times> 'c) run" where
  "pci_scan_bus b bus sc =
     run_for (map of_nat [0..<32]) (\<lambda>device sc. pci_scan_device (\<lambda>bus sc. pci_scan_bus b bus sc) b bus device sc) sc"

text \<open>The loop over several controllers tests function 0 in every round.\<close>

fun pci_scan_controllers :: "'c bus \<Rightarrow> u8 list \<Rightarrow> pci \<times> 'c \<Rightarrow> (pci \<times> 'c) run" where
  "pci_scan_controllers b [] sc = ret sc"
| "pci_scan_controllers b (function # functions) (s, c) =
     (let (devid, c) = pci_get_device_id b 0 0 0 c
      in if devid = 0xFFFFFFFF then ret (s, c)
         else run_bind (pci_scan_bus b function (s, c)) (pci_scan_controllers b functions))"

definition pci_scan :: "'c bus \<Rightarrow> pci \<times> 'c \<Rightarrow> (pci \<times> 'c) run" where
  "pci_scan b sc =
     (let (s, c) = sc;
          (header_type, c) = pci_get_header_type b 0 0 0 c
      in if header_type AND 0x80 = 0 then pci_scan_bus b 0 (s, c)
         else pci_scan_controllers b [0, 1, 2, 3, 4, 5, 6, 7] (s, c))"

text \<open>The two nested loops of \<open>pci_init\<close> that print every function; \<open>i\<close> counts them.\<close>

partial_function (option) print_functions :: "pci \<Rightarrow> fptr option \<Rightarrow> u32 \<Rightarrow> printf_call list \<Rightarrow> (u32 \<times> printf_call list) option" where
  "print_functions s func i out = (case func of
     None \<Rightarrow> Some (i, out)
   | Some p \<Rightarrow>
       (let f = fun_at s p
        in print_functions s (f_next f) (i + 1) (out @ [(''PCI Device Function %i: %04X:%04X %s'' @ [CHR 10],
             [Va_int i, Va_int (ucast (f_vendor_id f)), Va_int (ucast (f_device_id f)),
              Va_str (Some (pci_get_class_name (f_class_code f) (f_subclass f) (f_progif f)))])])))"

partial_function (option) print_devices :: "pci \<Rightarrow> dptr option \<Rightarrow> u32 \<Rightarrow> printf_call list \<Rightarrow> printf_call list option" where
  "print_devices s dev i out = (case dev of
     None \<Rightarrow> Some out
   | Some d \<Rightarrow>
       (case print_functions s (d_functions (dev_at s d)) i out of
          None \<Rightarrow> None
        | Some r \<Rightarrow> print_devices s (d_next (dev_at s d)) (fst r) (snd r)))"

definition pci_init :: "'c bus \<Rightarrow> pci \<times> 'c \<Rightarrow> (pci \<times> 'c \<times> printf_call list) run" where
  "pci_init b sc =
     (let (s, c) = sc
      in run_bind (pci_scan b (s\<lparr>pci_devices := None\<rparr>, c)) (\<lambda>(s, c).
         case print_devices s (pci_devices s) 0 [] of
           None \<Rightarrow> None
         | Some out \<Rightarrow> ret (s, c, out)))"

definition pci_enumerate_devices :: "dptr option \<Rightarrow> pci \<Rightarrow> dptr option" where
  "pci_enumerate_devices current s = (case current of
     None \<Rightarrow> pci_devices s
   | Some d \<Rightarrow> d_next (dev_at s d))"

definition pci_enumerate_functions :: "dptr \<Rightarrow> fptr option \<Rightarrow> pci \<Rightarrow> fptr option" where
  "pci_enumerate_functions device current s = (case current of
     None \<Rightarrow> d_functions (dev_at s device)
   | Some f \<Rightarrow> if f_device (fun_at s f) \<noteq> device then None else f_next (fun_at s f))"

section \<open>Reading the configuration space\<close>

text \<open>What the code relies on of the host bridge: the data port delivers the double word whose
  address was written to the address port last.\<close>

definition pci_host :: "'c bus \<Rightarrow> (u32 \<Rightarrow> u32) \<Rightarrow> bool" where
  "pci_host b cfg \<longleftrightarrow> (\<forall>a v c. fst (in32 b PCI_CONFIG_DATA (out8 b 0x80 v (out32 b PCI_CONFIG_ADDRESS a c))) = cfg a)"

definition cfg_word :: "(u32 \<Rightarrow> u32) \<Rightarrow> u8 \<Rightarrow> u8 \<Rightarrow> u8 \<Rightarrow> u8 \<Rightarrow> u16" where
  "cfg_word cfg bus slot func offset =
     ucast (drop_bit (unat (offset AND 2) * 8) (cfg (pci_config_address bus slot func offset)) AND 0xFFFF)"

definition id_of :: "(u32 \<Rightarrow> u32) \<Rightarrow> u8 \<Rightarrow> u8 \<Rightarrow> u8 \<Rightarrow> u32" where
  "id_of cfg bus slot func =
     (if cfg_word cfg bus slot func 0 = 0xFFFF then 0xFFFFFFFF
      else push_bit 16 (ucast (cfg_word cfg bus slot func 0)) OR ucast (cfg_word cfg bus slot func 2))"

definition class_of :: "(u32 \<Rightarrow> u32) \<Rightarrow> u8 \<Rightarrow> u8 \<Rightarrow> u8 \<Rightarrow> u32" where
  "class_of cfg bus slot func = cfg (pci_config_address bus slot func 8)"

definition header_of :: "(u32 \<Rightarrow> u32) \<Rightarrow> u8 \<Rightarrow> u8 \<Rightarrow> u8" where
  "header_of cfg bus slot = ucast (cfg_word cfg bus slot 0 0x0E AND 0xFF)"

definition secondary_of :: "(u32 \<Rightarrow> u32) \<Rightarrow> u8 \<Rightarrow> u8 \<Rightarrow> u8 \<Rightarrow> u8" where
  "secondary_of cfg bus slot func = ucast (drop_bit 8 (cfg (pci_config_address bus slot func 0x18) AND 0xFF00))"

lemma fst_config_readl:
  "pci_host b cfg \<Longrightarrow> fst (pci_config_readl b bus slot func offset c) = cfg (pci_config_address bus slot func offset)"
  by (simp add: pci_config_readl_def outl_p_def inl_p_def pci_host_def Let_def split_def)

lemma fst_config_readw:
  "pci_host b cfg \<Longrightarrow> fst (pci_config_readw b bus slot func offset c) = cfg_word cfg bus slot func offset"
  by (simp add: pci_config_readw_def cfg_word_def outl_p_def inl_p_def pci_host_def Let_def split_def)

lemma host_reads:
  assumes "pci_host b cfg"
  shows "fst (pci_get_device_id b bus slot func c) = id_of cfg bus slot func"
    and "fst (pci_get_class_code b bus slot func c) = class_of cfg bus slot func"
    and "fst (pci_get_header_type b bus slot 0 c) = header_of cfg bus slot"
    and "fst (pci_get_secondary_bus_number b bus slot func c) = secondary_of cfg bus slot func"
  using fst_config_readl [OF assms] fst_config_readw [OF assms]
  by (auto simp: pci_get_device_id_def id_of_def pci_get_class_code_def class_of_def pci_get_header_type_def
      header_of_def pci_get_secondary_bus_number_def secondary_of_def Let_def split_def)

section \<open>What there is to find\<close>

text \<open>A function is described by its number, vendor, device, class, subclass and programming
  interface as the code reads them; a device by its bus, number, vendor, device and the
  functions that are not bridges.\<close>

type_synonym function_info = "u8 \<times> u16 \<times> u16 \<times> u8 \<times> u8 \<times> u8"
type_synonym device_info = "u8 \<times> u8 \<times> u16 \<times> u16 \<times> function_info list"

definition vendor_part :: "u32 \<Rightarrow> u16" where
  "vendor_part devid = ucast (drop_bit 16 (devid AND 0xFFFF0000))"

definition device_part :: "u32 \<Rightarrow> u16" where
  "device_part devid = ucast (devid AND 0xFFFF)"

definition class_part :: "u32 \<Rightarrow> u8" where
  "class_part w = ucast (drop_bit 24 (w AND 0xFF000000))"

definition subclass_part :: "u32 \<Rightarrow> u8" where
  "subclass_part w = ucast (drop_bit 16 (w AND 0xFF0000))"

definition function_found :: "(u32 \<Rightarrow> u32) \<Rightarrow> u8 \<Rightarrow> u8 \<Rightarrow> u8 \<Rightarrow> function_info" where
  "function_found cfg bus slot func =
     (let i = id_of cfg bus slot func; w = class_of cfg bus slot func
      in (func, vendor_part i, device_part i, class_part w, subclass_part w, ucast (w AND 0xFF)))"

definition is_bridge :: "(u32 \<Rightarrow> u32) \<Rightarrow> u8 \<Rightarrow> u8 \<Rightarrow> u8 \<Rightarrow> bool" where
  "is_bridge cfg bus slot func \<longleftrightarrow> (let w = class_of cfg bus slot func in class_part w = 6 \<and> subclass_part w = 4)"

definition functions_of :: "(u32 \<Rightarrow> u32) \<Rightarrow> u8 \<Rightarrow> u8 \<Rightarrow> u8 list" where
  "functions_of cfg bus slot =
     0 # (if header_of cfg bus slot AND 0x80 \<noteq> 0 then filter (\<lambda>f. id_of cfg bus slot f \<noteq> 0xFFFFFFFF) [1, 2, 3, 4, 5, 6, 7] else [])"

definition device_found :: "(u32 \<Rightarrow> u32) \<Rightarrow> u8 \<Rightarrow> u8 \<Rightarrow> device_info" where
  "device_found cfg bus slot =
     (let i = id_of cfg bus slot 0
      in (bus, slot, vendor_part i, device_part i,
          map (function_found cfg bus slot) (filter (\<lambda>f. \<not> is_bridge cfg bus slot f) (functions_of cfg bus slot))))"

text \<open>The devices of a bus and of the buses behind its bridges, which have larger numbers.\<close>

function found :: "(u32 \<Rightarrow> u32) \<Rightarrow> u8 \<Rightarrow> device_info list" where
  "found cfg bus = concat (map (\<lambda>slot.
     if id_of cfg bus slot 0 = 0xFFFFFFFF then []
     else concat (map (\<lambda>f. if is_bridge cfg bus slot f \<and> bus < secondary_of cfg bus slot f
                           then found cfg (secondary_of cfg bus slot f) else []) (functions_of cfg bus slot)) @
          [device_found cfg bus slot]) (map of_nat [0..<32]))"
  by pat_completeness auto
termination
proof (relation "measure (\<lambda>(cfg, bus). 255 - unat bus)", goal_cases)
  case 1
  then show ?case by simp
next
  case (2 cfg bus slot f)
  have "unat bus < unat (secondary_of cfg bus slot f)" using 2 by (simp add: word_less_nat_alt)
  then show ?case using byte_le [of "secondary_of cfg bus slot f"] by simp
qed

declare found.simps [simp del]

definition bridges_increase :: "(u32 \<Rightarrow> u32) \<Rightarrow> bool" where
  "bridges_increase cfg \<longleftrightarrow> (\<forall>bus slot f. is_bridge cfg bus slot f \<longrightarrow> bus < secondary_of cfg bus slot f)"

section \<open>The lists of nodes\<close>

lemma find_tail_lseg:
  assumes "lseg nxt cur xs None"
  shows "find_tail nxt prev cur = Some (if xs = [] then prev else Some (last xs))"
  using assms
proof (induction xs arbitrary: prev cur)
  case Nil
  then show ?case by (subst find_tail.simps) simp
next
  case (Cons x xs)
  then show ?case by (subst find_tail.simps) auto
qed

abbreviation fnext :: "pci \<Rightarrow> fptr \<Rightarrow> fptr option" where
  "fnext s \<equiv> \<lambda>f. f_next (fun_at s f)"

abbreviation dnext :: "pci \<Rightarrow> dptr \<Rightarrow> dptr option" where
  "dnext s \<equiv> \<lambda>d. d_next (dev_at s d)"

definition fun_info :: "pci \<Rightarrow> fptr \<Rightarrow> function_info" where
  "fun_info s f = (let n = fun_at s f in (f_number n, f_vendor_id n, f_device_id n, f_class_code n, f_subclass n, f_progif n))"

text \<open>The functions \<open>fs\<close> of device \<open>d\<close>.\<close>

definition functions_are :: "pci \<Rightarrow> dptr \<Rightarrow> fptr list \<Rightarrow> function_info list \<Rightarrow> bool" where
  "functions_are s d fs fis \<longleftrightarrow> lseg (fnext s) (d_functions (dev_at s d)) fs None \<and>
     (\<forall>f \<in> set fs. f_device (fun_at s f) = d) \<and> map (fun_info s) fs = fis"

text \<open>Device \<open>d\<close>, all of whose nodes are in \<open>U\<close>, is as described.\<close>

definition device_is :: "pci \<Rightarrow> nat set \<Rightarrow> dptr \<Rightarrow> device_info \<Rightarrow> bool" where
  "device_is s U d info \<longleftrightarrow> d \<in> U \<and> (case info of (bus, number, vendor, device, fis) \<Rightarrow>
     d_bus (dev_at s d) = bus \<and> d_number (dev_at s d) = number \<and> d_vendor_id (dev_at s d) = vendor \<and>
     d_device_id (dev_at s d) = device \<and> (\<exists>fs. set fs \<subseteq> U \<and> functions_are s d fs fis))"

lemma upd_sel [simp]:
  "dev_at (upd_fun f g s) = dev_at s" "pci_devices (upd_fun f g s) = pci_devices s" "blocks (upd_fun f g s) = blocks s"
  "mallocs (upd_fun f g s) = mallocs s" "pci_device_count (upd_fun f g s) = pci_device_count s"
  "fun_at (upd_fun f g s) = (fun_at s)(f := g (fun_at s f))"
  "fun_at (upd_dev d h s) = fun_at s" "pci_devices (upd_dev d h s) = pci_devices s" "blocks (upd_dev d h s) = blocks s"
  "mallocs (upd_dev d h s) = mallocs s" "pci_device_count (upd_dev d h s) = pci_device_count s"
  "dev_at (upd_dev d h s) = (dev_at s)(d := h (dev_at s d))"
  by (simp_all add: upd_fun_def upd_dev_def)

text \<open>The fields that appending to lists keeps.\<close>

definition core :: "pci_device \<Rightarrow> pci_device" where
  "core d = d\<lparr>d_prev := None, d_next := None\<rparr>"

lemma coreD:
  assumes "core x = core y"
  shows "d_bus x = d_bus y" "d_number x = d_number y" "d_vendor_id x = d_vendor_id y" "d_device_id x = d_device_id y"
    "d_functions x = d_functions y"
  using assms by (cases x, cases y, simp add: core_def)+

lemma append_function_list:
  assumes "functions_are s d fs fis" and "f \<notin> set fs" and "fnext s f = None" and "f_device (fun_at s f) = d"
  shows "\<exists>s'. append_function d f s = ret s' \<and> functions_are s' d (fs @ [f]) (fis @ [fun_info s f]) \<and>
    (\<forall>g. g \<notin> insert f (set fs) \<longrightarrow> fun_at s' g = fun_at s g) \<and> (\<forall>e. e \<noteq> d \<longrightarrow> dev_at s' e = dev_at s e) \<and>
    (dev_at s' d)\<lparr>d_functions := None\<rparr> = (dev_at s d)\<lparr>d_functions := None\<rparr> \<and>
    pci_devices s' = pci_devices s \<and> blocks s' = blocks s \<and> mallocs s' = mallocs s \<and> pci_device_count s' = pci_device_count s"
proof -
  have l: "lseg (fnext s) (d_functions (dev_at s d)) fs None" using assms(1) by (simp add: functions_are_def)
  show ?thesis
  proof (cases "fs = []")
    case True
    then show ?thesis using assms find_tail_lseg [OF l]
      by (simp add: append_function_def functions_are_def fun_info_def)
  next
    case False
    let ?p = "last fs"
    let ?s = "upd_fun f (\<lambda>x. x\<lparr>f_prev := Some ?p\<rparr>) (upd_fun ?p (\<lambda>x. x\<lparr>f_next := Some f\<rparr>) s)"
    have neq: "?p \<noteq> f" using False assms(2) last_in_set by metis
    have "fnext ?s = (fnext s)(?p := Some f)" using neq by (auto simp: fun_eq_iff)
    then have "lseg (fnext ?s) (d_functions (dev_at ?s d)) (fs @ [f]) None"
      using lseg_append_node(2) [OF l assms(2,3) False] by simp
    moreover have "fun_info ?s g = fun_info s g" for g by (simp add: fun_info_def Let_def)
    moreover have "f_device (fun_at ?s g) = f_device (fun_at s g)" for g by simp
    ultimately have "functions_are ?s d (fs @ [f]) (fis @ [fun_info s f])"
      using assms(1,4) unfolding functions_are_def by auto
    then show ?thesis using False find_tail_lseg [OF l] by (simp add: append_function_def)
  qed
qed

lemma append_device_list:
  assumes "lseg (dnext s) (pci_devices s) ds None" and "d \<notin> set ds" and "dnext s d = None"
  shows "\<exists>s'. append_device d s = ret s' \<and> lseg (dnext s') (pci_devices s') (ds @ [d]) None \<and> fun_at s' = fun_at s \<and>
    (\<forall>e. core (dev_at s' e) = core (dev_at s e)) \<and> (\<forall>e. e \<notin> insert d (set ds) \<longrightarrow> dev_at s' e = dev_at s e) \<and>
    blocks s' = blocks s \<and> mallocs s' = mallocs s \<and> pci_device_count s' = pci_device_count s"
proof (cases "ds = []")
  case True
  then show ?thesis using assms find_tail_lseg [OF assms(1)] by (simp add: append_device_def)
next
  case False
  let ?p = "last ds"
  let ?s = "upd_dev d (\<lambda>x. x\<lparr>d_prev := Some ?p\<rparr>) (upd_dev ?p (\<lambda>x. x\<lparr>d_next := Some d\<rparr>) s)"
  have neq: "?p \<noteq> d" using False assms(2) last_in_set by metis
  have "dnext ?s = (dnext s)(?p := Some d)" using neq by (auto simp: fun_eq_iff)
  then have "lseg (dnext ?s) (pci_devices ?s) (ds @ [d]) None"
    using lseg_append_node(2) [OF assms False] by simp
  moreover have "\<forall>e. core (dev_at ?s e) = core (dev_at s e)" by (simp add: core_def)
  moreover have "?p \<in> set ds" using False by simp
  ultimately show ?thesis using False find_tail_lseg [OF assms(1)] by (auto simp: append_device_def)
qed

lemma functions_are_cong:
  assumes "\<And>f. f \<in> set fs \<Longrightarrow> fun_at s' f = fun_at s f" and "d_functions (dev_at s' d) = d_functions (dev_at s d)"
  shows "functions_are s' d fs fis = functions_are s d fs fis"
proof -
  have "map (fun_info s') fs = map (fun_info s) fs" using assms(1) by (simp add: fun_info_def)
  moreover have "lseg (fnext s') p fs None = lseg (fnext s) p fs None" for p using assms(1) by (intro lseg_cong) simp
  ultimately show ?thesis using assms by (auto simp: functions_are_def)
qed

lemma device_is_keep:
  assumes "device_is s V d i" and "\<And>f. f \<in> V \<Longrightarrow> fun_at s' f = fun_at s f" and "\<And>e. e \<in> V \<Longrightarrow> core (dev_at s' e) = core (dev_at s e)"
    and "V \<subseteq> V'"
  shows "device_is s' V' d i"
proof -
  have "d \<in> V" using assms(1) by (simp add: device_is_def)
  note same = coreD [OF assms(3) [OF this]]
  have "\<exists>fs. set fs \<subseteq> V' \<and> functions_are s' d fs fis" if "set fs \<subseteq> V" "functions_are s d fs fis" for fs fis
    using functions_are_cong [of fs s' s d fis] assms(2,4) that same(5) by (intro exI [of _ fs]) auto
  then show ?thesis using assms(1,4) same \<open>d \<in> V\<close> by (auto simp: device_is_def)
qed

section \<open>The invariant of a scan\<close>

text \<open>
  \<open>scanned_in V blk s0 ds s ds' infos\<close>: a scan went from \<open>s0\<close>, whose device list is \<open>ds\<close>, to \<open>s\<close>, whose
  list has got the devices \<open>ds'\<close> described by \<open>infos\<close>, with all their nodes in \<open>V\<close>; \<open>blk\<close> is what \<open>malloc\<close>
  returns. Nothing but the blocks used by the scan and the links of the device list has changed.
\<close>

definition used :: "(nat \<Rightarrow> nat) \<Rightarrow> pci \<Rightarrow> pci \<Rightarrow> nat set" where
  "used blk s0 s = blk ` {mallocs s0..<mallocs s}"

definition scanned_in :: "nat set \<Rightarrow> (nat \<Rightarrow> nat) \<Rightarrow> pci \<Rightarrow> dptr list \<Rightarrow> pci \<Rightarrow> dptr list \<Rightarrow> device_info list \<Rightarrow> bool" where
  "scanned_in V blk s0 ds s ds' infos \<longleftrightarrow>
     mallocs s0 \<le> mallocs s \<and> blocks s = (\<lambda>n. Some (blk n)) \<and> V \<subseteq> used blk s0 s \<and>
     lseg (dnext s) (pci_devices s) (ds @ ds') None \<and> list_all2 (device_is s V) ds' infos \<and>
     (\<forall>f. f \<notin> used blk s0 s \<longrightarrow> fun_at s f = fun_at s0 f) \<and>
     (\<forall>d. d \<notin> used blk s0 s \<longrightarrow> core (dev_at s d) = core (dev_at s0 d)) \<and>
     (\<forall>d. d \<notin> used blk s0 s \<union> set ds \<longrightarrow> dev_at s d = dev_at s0 d) \<and>
     pci_device_count s = pci_device_count s0 + of_nat (length infos)"

abbreviation scanned :: "(nat \<Rightarrow> nat) \<Rightarrow> pci \<Rightarrow> dptr list \<Rightarrow> pci \<Rightarrow> dptr list \<Rightarrow> device_info list \<Rightarrow> bool" where
  "scanned blk s0 ds s ds' infos \<equiv> scanned_in (used blk s0 s) blk s0 ds s ds' infos"

lemma used_split: "mallocs a \<le> mallocs b \<Longrightarrow> mallocs b \<le> mallocs c \<Longrightarrow> used blk a c = used blk a b \<union> used blk b c"
  by (simp add: used_def image_Un [symmetric] ivl_disj_un_two(3))

lemma used_disjoint: "inj blk \<Longrightarrow> used blk a b \<inter> used blk b c = {}"
  by (fastforce simp: used_def dest: injD)

lemma device_in: "list_all2 (device_is s V) ds infos \<Longrightarrow> set ds \<subseteq> V"
  by (auto simp: list_all2_conv_all_nth device_is_def in_set_conv_nth)

lemma devices_keep:
  assumes "list_all2 (device_is s V) ds infos" and "\<And>f. f \<in> V \<Longrightarrow> fun_at s' f = fun_at s f"
    and "\<And>e. e \<in> V \<Longrightarrow> core (dev_at s' e) = core (dev_at s e)" and "V \<subseteq> V'"
  shows "list_all2 (device_is s' V') ds infos"
  using assms(1) by (rule list_all2_mono) (use device_is_keep assms(2-4) in blast)

lemma scanned_refl:
  assumes "lseg (dnext s) (pci_devices s) ds None" and "blocks s = (\<lambda>n. Some (blk n))"
  shows "scanned blk s ds s [] []"
  using assms by (simp add: scanned_in_def)

lemma scanned_trans:
  assumes inj: "inj blk" and one: "scanned_in V blk s0 ds s1 ds1 i1" and two: "scanned blk s1 (ds @ ds1) s2 ds2 i2"
  shows "scanned_in (V \<union> used blk s1 s2) blk s0 ds s2 (ds1 @ ds2) (i1 @ i2)"
proof -
  have le: "mallocs s0 \<le> mallocs s1" "mallocs s1 \<le> mallocs s2" using one two by (simp_all add: scanned_in_def)
  note U = used_split [OF le, of blk]
  have disj: "V \<inter> used blk s1 s2 = {}" using one used_disjoint [OF inj, of s0 s1 s2] by (auto simp: scanned_in_def)
  have "list_all2 (device_is s2 (V \<union> used blk s1 s2)) ds1 i1"
    by (rule devices_keep [of s1 V]) (use one two disj in \<open>auto simp: scanned_in_def\<close>)
  moreover have "list_all2 (device_is s2 (V \<union> used blk s1 s2)) ds2 i2"
    by (rule devices_keep [of s2 "used blk s1 s2"]) (use two in \<open>auto simp: scanned_in_def\<close>)
  moreover have "set ds1 \<subseteq> used blk s0 s1" using one device_in by (fastforce simp: scanned_in_def)
  ultimately show ?thesis using one two le
    unfolding scanned_in_def U by (auto intro: list_all2_appendI)
qed

text \<open>While device \<open>d\<close> with the functions \<open>fs\<close> is not in the list yet.\<close>

definition building :: "(nat \<Rightarrow> nat) \<Rightarrow> pci \<Rightarrow> dptr list \<Rightarrow> pci \<Rightarrow> dptr list \<Rightarrow> device_info list \<Rightarrow> dptr \<Rightarrow>
    u8 \<times> u8 \<times> u16 \<times> u16 \<Rightarrow> function_info list \<Rightarrow> bool" where
  "building blk s0 ds s ds' infos d hdr fis \<longleftrightarrow> (\<exists>V fs. scanned_in V blk s0 ds s ds' infos \<and>
     d \<in> used blk s0 s - V \<and> set fs \<subseteq> used blk s0 s - V \<and> functions_are s d fs fis \<and> dnext s d = None \<and>
     (d_bus (dev_at s d), d_number (dev_at s d), d_vendor_id (dev_at s d), d_device_id (dev_at s d)) = hdr)"

lemma building_start:
  assumes inj: "inj blk" and "lseg (dnext s) (pci_devices s) ds None" and "blocks s = (\<lambda>n. Some (blk n))"
    and new: "blk (mallocs s) \<notin> set ds"
  defines "d \<equiv> blk (mallocs s)"
  shows "pci_malloc s = ret (d, s\<lparr>mallocs := mallocs s + 1\<rparr>)"
    and "building blk s ds (upd_dev d (\<lambda>_. \<lparr>d_prev = None, d_next = None, d_bus = bus, d_number = slot,
      d_vendor_id = vendor, d_device_id = device, d_functions = None\<rparr>) (s\<lparr>mallocs := mallocs s + 1\<rparr>))
      [] [] d (bus, slot, vendor, device) []"
proof -
  show "pci_malloc s = ret (d, s\<lparr>mallocs := mallocs s + 1\<rparr>)" using assms(3) by (simp add: pci_malloc_def d_def)
  let ?s = "upd_dev d (\<lambda>_. \<lparr>d_prev = None, d_next = None, d_bus = bus, d_number = slot,
      d_vendor_id = vendor, d_device_id = device, d_functions = None\<rparr>) (s\<lparr>mallocs := mallocs s + 1\<rparr>)"
  have used: "used blk s ?s = {d}" by (simp add: used_def d_def)
  have "lseg (dnext ?s) (pci_devices s) ds None = lseg (dnext s) (pci_devices s) ds None"
    using new by (intro lseg_cong) (auto simp: d_def)
  then have "scanned_in {} blk s ds ?s [] []" using assms(2,3) unfolding scanned_in_def used by simp
  then show "building blk s ds ?s [] [] d (bus, slot, vendor, device) []"
    unfolding building_def used by (intro exI [of _ "{}"] exI [of _ "[]"]) (simp add: functions_are_def)
qed

lemma building_bridge:
  assumes "inj blk" and "building blk s0 ds s ds' infos d hdr fis" and "scanned blk s (ds @ ds') s2 ds2 i2" and "d \<notin> set ds"
  shows "building blk s0 ds s2 (ds' @ ds2) (infos @ i2) d hdr fis"
proof -
  obtain V fs where V: "scanned_in V blk s0 ds s ds' infos" "d \<in> used blk s0 s - V" "set fs \<subseteq> used blk s0 s - V"
    "functions_are s d fs fis" "dnext s d = None"
    "(d_bus (dev_at s d), d_number (dev_at s d), d_vendor_id (dev_at s d), d_device_id (dev_at s d)) = hdr"
    using assms(2) unfolding building_def by blast
  have le: "mallocs s0 \<le> mallocs s" "mallocs s \<le> mallocs s2" using V(1) assms(3) by (simp_all add: scanned_in_def)
  note U = used_split [OF le, of blk] and disj = used_disjoint [OF assms(1), of s0 s s2]
  have "d \<notin> set ds'" using V(1,2) device_in by (fastforce simp: scanned_in_def)
  then have d: "dev_at s2 d = dev_at s d" using assms(3,4) V(2) disj unfolding scanned_in_def by auto
  have "fun_at s2 f = fun_at s f" if "f \<in> set fs" for f using assms(3) V(3) disj that unfolding scanned_in_def by blast
  then have "functions_are s2 d fs fis" using V(4) functions_are_cong [of fs s2 s d fis] d by simp
  moreover have "scanned_in (V \<union> used blk s s2) blk s0 ds s2 (ds' @ ds2) (infos @ i2)"
    by (rule scanned_trans [OF assms(1) V(1) assms(3)])
  ultimately show ?thesis
    unfolding building_def by (intro exI [of _ "V \<union> used blk s s2"] exI [of _ fs]) (use V d U disj in auto)
qed

lemma building_function:
  assumes inj: "inj blk" and b: "building blk s0 ds s ds' infos d hdr fis"
  defines "f \<equiv> blk (mallocs s)"
  assumes s1: "s1 = upd_fun f (\<lambda>x. x\<lparr>f_device := d, f_number := func, f_vendor_id := vendor,
      f_device_id := device, f_class_code := class_code, f_subclass := sub, f_progif := progif, f_next := None\<rparr>)
      (s\<lparr>mallocs := mallocs s + 1\<rparr>)"
  shows "pci_malloc s = ret (f, s\<lparr>mallocs := mallocs s + 1\<rparr>)"
    and "\<exists>s'. append_function d f s1 = ret s' \<and>
      building blk s0 ds s' ds' infos d hdr (fis @ [(func, vendor, device, class_code, sub, progif)])"
proof -
  obtain V fs where V: "scanned_in V blk s0 ds s ds' infos" "d \<in> used blk s0 s - V" "set fs \<subseteq> used blk s0 s - V"
    "functions_are s d fs fis" "dnext s d = None"
    "(d_bus (dev_at s d), d_number (dev_at s d), d_vendor_id (dev_at s d), d_device_id (dev_at s d)) = hdr"
    using b unfolding building_def by blast
  note sc = V(1) [unfolded scanned_in_def]
  show "pci_malloc s = ret (f, s\<lparr>mallocs := mallocs s + 1\<rparr>)" using sc by (simp add: pci_malloc_def f_def)
  have new: "f \<notin> used blk s0 s" by (simp add: f_def used_def inj_image_mem_iff [OF inj])
  have fs: "f \<notin> set fs" using V(3) new by auto
  have info: "fun_info s1 f = (func, vendor, device, class_code, sub, progif)" by (simp add: s1 fun_info_def)
  have "functions_are s1 d fs fis = functions_are s d fs fis" by (rule functions_are_cong) (use fs in \<open>auto simp: s1\<close>)
  then have "functions_are s1 d fs fis" using V(4) by simp
  moreover have "fnext s1 f = None" "f_device (fun_at s1 f) = d" by (simp_all add: s1)
  moreover have "fun_at s1 g = fun_at s g" if "g \<noteq> f" for g using that by (simp add: s1)
  moreover have "dev_at s1 = dev_at s" "pci_devices s1 = pci_devices s" "blocks s1 = blocks s" "mallocs s1 = Suc (mallocs s)"
    "pci_device_count s1 = pci_device_count s" by (simp_all add: s1)
  ultimately obtain s' where s': "append_function d f s1 = ret s'"
    "functions_are s' d (fs @ [f]) (fis @ [fun_info s1 f])"
    "\<And>g. g \<notin> insert f (set fs) \<Longrightarrow> fun_at s' g = fun_at s g" "\<And>e. e \<noteq> d \<Longrightarrow> dev_at s' e = dev_at s e"
    "(dev_at s' d)\<lparr>d_functions := None\<rparr> = (dev_at s d)\<lparr>d_functions := None\<rparr>"
    "pci_devices s' = pci_devices s" "blocks s' = blocks s" "mallocs s' = Suc (mallocs s)" "pci_device_count s' = pci_device_count s"
    using append_function_list [of s1 d fs fis f] fs by auto
  have same: "d_bus (dev_at s' d) = d_bus (dev_at s d)" "d_number (dev_at s' d) = d_number (dev_at s d)"
    "d_vendor_id (dev_at s' d) = d_vendor_id (dev_at s d)" "d_device_id (dev_at s' d) = d_device_id (dev_at s d)"
    "d_next (dev_at s' d) = d_next (dev_at s d)"
    using s'(5) by (cases "dev_at s' d", cases "dev_at s d", simp)+
  have used: "used blk s0 s' = insert f (used blk s0 s)"
    using sc s'(8) by (simp add: used_def f_def atLeastLessThanSuc)
  have "dnext s' e = dnext s e" for e using same(5) s'(4) by (cases "e = d") simp_all
  moreover have "fun_at s' g = fun_at s g" if "g \<in> V" for g
  proof -
    have "g \<notin> insert f (set fs)" using that sc V(3) new by auto
    then show ?thesis by (rule s'(3))
  qed
  moreover have "dev_at s' e = dev_at s e" if "e \<in> V" for e using that V(2) by (intro s'(4)) auto
  moreover have "list_all2 (device_is s' V) ds' infos"
    by (rule devices_keep [of s V]) (use sc calculation(2,3) in auto)
  moreover have "fun_at s' g = fun_at s g" if "g \<notin> insert f (used blk s0 s)" for g using that V(3) by (intro s'(3)) auto
  moreover have "dev_at s' e = dev_at s e" if "e \<notin> insert f (used blk s0 s)" for e using that V(2) by (intro s'(4)) auto
  ultimately have "scanned_in V blk s0 ds s' ds' infos"
    using sc s'(6-9) unfolding scanned_in_def used by auto
  then show "\<exists>s'. append_function d f s1 = ret s' \<and>
      building blk s0 ds s' ds' infos d hdr (fis @ [(func, vendor, device, class_code, sub, progif)])"
    using s'(1,2) V(2,3,5,6) same new sc info unfolding building_def
    by (intro exI [of _ s'] conjI exI [of _ V] exI [of _ "fs @ [f]"]) (auto simp: used)
qed

lemma building_finish:
  assumes inj: "inj blk" and b: "building blk s0 ds s ds' infos d (bus, slot, vendor, device) fis" and "d \<notin> set ds"
  shows "\<exists>s'. append_device d s = ret s' \<and>
    scanned blk s0 ds (s'\<lparr>pci_device_count := pci_device_count s' + 1\<rparr>) (ds' @ [d]) (infos @ [(bus, slot, vendor, device, fis)])"
proof -
  obtain V fs where V: "scanned_in V blk s0 ds s ds' infos" "d \<in> used blk s0 s - V" "set fs \<subseteq> used blk s0 s - V"
    "functions_are s d fs fis" "dnext s d = None"
    "(d_bus (dev_at s d), d_number (dev_at s d), d_vendor_id (dev_at s d), d_device_id (dev_at s d)) = (bus, slot, vendor, device)"
    using b unfolding building_def by blast
  note sc = V(1) [unfolded scanned_in_def]
  have "set ds' \<subseteq> V" using sc device_in by blast
  then have notin: "d \<notin> set (ds @ ds')" using assms(3) V(2) by auto
  have l: "lseg (dnext s) (pci_devices s) (ds @ ds') None" using sc by blast
  obtain s' where s': "append_device d s = ret s'" "lseg (dnext s') (pci_devices s') ((ds @ ds') @ [d]) None"
    "fun_at s' = fun_at s" "\<And>e. core (dev_at s' e) = core (dev_at s e)"
    "\<And>e. e \<notin> insert d (set (ds @ ds')) \<Longrightarrow> dev_at s' e = dev_at s e"
    "blocks s' = blocks s" "mallocs s' = mallocs s" "pci_device_count s' = pci_device_count s"
    using append_device_list [OF l notin V(5)] by blast
  let ?s = "s'\<lparr>pci_device_count := pci_device_count s' + 1\<rparr>"
  have used: "used blk s0 ?s = used blk s0 s" using s'(7) by (simp add: used_def)
  have "list_all2 (device_is ?s (used blk s0 s)) ds' infos"
    by (rule devices_keep [of s V]) (use sc s'(3,4) in auto)
  moreover have "device_is ?s (used blk s0 s) d (bus, slot, vendor, device, fis)"
    using V(2,3,4,6) coreD [OF s'(4) [of d]] s'(3) functions_are_cong [of fs ?s s d fis]
    by (auto simp: device_is_def intro!: exI [of _ fs])
  ultimately have "list_all2 (device_is ?s (used blk s0 s)) (ds' @ [d]) (infos @ [(bus, slot, vendor, device, fis)])"
    by (simp add: list_all2_appendI)
  moreover have far: "dev_at s' e = dev_at s0 e" if "e \<notin> used blk s0 s \<union> set ds" for e
  proof -
    have "e \<notin> insert d (set (ds @ ds'))" using that V(2) sc \<open>set ds' \<subseteq> V\<close> by auto
    with s'(5) sc that show ?thesis by simp
  qed
  ultimately have "scanned blk s0 ds ?s (ds' @ [d]) (infos @ [(bus, slot, vendor, device, fis)])"
    unfolding scanned_in_def used using sc s'(2,3,4,6,7,8) far by (simp add: algebra_simps)
  then show ?thesis using s'(1) by blast
qed

section \<open>The scan finds what there is\<close>

definition scan_ready :: "(nat \<Rightarrow> nat) \<Rightarrow> pci \<Rightarrow> dptr list \<Rightarrow> bool" where
  "scan_ready blk s ds \<longleftrightarrow> lseg (dnext s) (pci_devices s) ds None \<and> blocks s = (\<lambda>n. Some (blk n)) \<and>
     (\<forall>n \<ge> mallocs s. blk n \<notin> set ds)"

lemma scanned_ready:
  assumes "inj blk" and "scan_ready blk s0 ds" and sc: "scanned_in V blk s0 ds s ds' infos"
  shows "scan_ready blk s (ds @ ds')"
proof -
  have ds': "set ds' \<subseteq> blk ` {mallocs s0..<mallocs s}" using sc device_in unfolding scanned_in_def used_def by blast
  have "blk n \<notin> set ds'" if "n \<ge> mallocs s" for n
    using ds' inj_image_mem_iff [OF assms(1), of n "{mallocs s0..<mallocs s}"] that by auto
  then show ?thesis using assms(2) sc by (auto simp: scan_ready_def scanned_in_def)
qed

text \<open>The devices found behind one function.\<close>

definition behind :: "(u32 \<Rightarrow> u32) \<Rightarrow> u8 \<Rightarrow> u8 \<Rightarrow> u8 \<Rightarrow> device_info list" where
  "behind cfg bus slot f = (if is_bridge cfg bus slot f then found cfg (secondary_of cfg bus slot f) else [])"

definition found_at :: "(u32 \<Rightarrow> u32) \<Rightarrow> u8 \<Rightarrow> u8 \<Rightarrow> device_info list" where
  "found_at cfg bus slot = (if id_of cfg bus slot 0 = 0xFFFFFFFF then []
     else concat (map (behind cfg bus slot) (functions_of cfg bus slot)) @ [device_found cfg bus slot])"

lemma found_slots:
  assumes "bridges_increase cfg"
  shows "found cfg bus = concat (map (found_at cfg bus) (map of_nat [0..<32]))"
proof -
  have "(if is_bridge cfg bus slot f \<and> bus < secondary_of cfg bus slot f then found cfg (secondary_of cfg bus slot f) else []) =
      behind cfg bus slot f" for slot f
    using assms by (auto simp: bridges_increase_def behind_def)
  then show ?thesis unfolding found.simps [of cfg bus] found_at_def by (simp only:)
qed

text \<open>\<open>scans r bus\<close>: the recursive call \<open>r\<close> scans every bus behind \<open>bus\<close> correctly.\<close>

definition scans :: "(nat \<Rightarrow> nat) \<Rightarrow> (u32 \<Rightarrow> u32) \<Rightarrow> (u8 \<Rightarrow> pci \<times> 'c \<Rightarrow> (pci \<times> 'c) run) \<Rightarrow> u8 \<Rightarrow> bool" where
  "scans blk cfg r bus \<longleftrightarrow> (\<forall>s c ds. scan_ready blk s ds \<longrightarrow>
     (\<exists>s' c' ds'. r bus (s, c) = ret (s', c') \<and> scanned blk s ds s' ds' (found cfg bus)))"

lemma scan_device_function_correct:
  assumes "inj blk" and "pci_host b cfg" and "bridges_increase cfg" and r: "\<And>bus'. bus < bus' \<Longrightarrow> scans blk cfg r bus'"
    and ready: "scan_ready blk s0 ds" and new: "d \<notin> set ds"
    and bld: "building blk s0 ds s ds' infos d (bus, slot, vendor, device) fis"
  shows "\<exists>s' c' ds''. pci_scan_device_function r b d f (s, c) = ret (s', c') \<and>
    building blk s0 ds s' ds'' (infos @ behind cfg bus slot f) d (bus, slot, vendor, device)
      (fis @ (if is_bridge cfg bus slot f then [] else [function_found cfg bus slot f]))"
proof -
  have hdr: "d_bus (dev_at s d) = bus" "d_number (dev_at s d) = slot" using bld unfolding building_def by auto
  obtain c1 where id: "pci_get_device_id b bus slot f c = (id_of cfg bus slot f, c1)"
    using host_reads(1) [OF assms(2)] by (metis prod.collapse)
  obtain c2 where cls: "pci_get_class_code b bus slot f c1 = (class_of cfg bus slot f, c2)"
    using host_reads(2) [OF assms(2)] by (metis prod.collapse)
  obtain c3 where sec: "pci_get_secondary_bus_number b bus slot f c2 = (secondary_of cfg bus slot f, c3)"
    using host_reads(4) [OF assms(2)] by (metis prod.collapse)
  show ?thesis
  proof (cases "is_bridge cfg bus slot f")
    case True
    let ?bus = "secondary_of cfg bus slot f"
    obtain V where "scanned_in V blk s0 ds s ds' infos" using bld unfolding building_def by blast
    then have "scan_ready blk s (ds @ ds')" by (rule scanned_ready [OF assms(1) ready])
    moreover have "scans blk cfg r ?bus" using r assms(3) True by (simp add: bridges_increase_def)
    ultimately obtain s' c' ds2 where nested: "r ?bus (s, c3) = ret (s', c')" "scanned blk s (ds @ ds') s' ds2 (found cfg ?bus)"
      unfolding scans_def by blast
    have "pci_scan_device_function r b d f (s, c) = r ?bus (s, c3)"
      using True hdr id cls sec by (simp add: pci_scan_device_function_def is_bridge_def class_part_def subclass_part_def Let_def)
    then show ?thesis
      using nested building_bridge [OF assms(1) bld nested(2) new] True by (auto simp: behind_def)
  next
    case False
    note step = building_function(2) [OF assms(1) bld refl, where func = f and vendor = "vendor_part (id_of cfg bus slot f)"
        and device = "device_part (id_of cfg bus slot f)" and class_code = "class_part (class_of cfg bus slot f)"
        and sub = "subclass_part (class_of cfg bus slot f)" and progif = "ucast (class_of cfg bus slot f AND 0xFF)"]
    obtain s' where s': "append_function d (blk (mallocs s)) (upd_fun (blk (mallocs s)) (\<lambda>x. x\<lparr>f_device := d, f_number := f,
          f_vendor_id := vendor_part (id_of cfg bus slot f), f_device_id := device_part (id_of cfg bus slot f),
          f_class_code := class_part (class_of cfg bus slot f), f_subclass := subclass_part (class_of cfg bus slot f),
          f_progif := ucast (class_of cfg bus slot f AND 0xFF), f_next := None\<rparr>) (s\<lparr>mallocs := mallocs s + 1\<rparr>)) = ret s'"
      "building blk s0 ds s' ds' infos d (bus, slot, vendor, device) (fis @ [function_found cfg bus slot f])"
      using step by (auto simp: function_found_def Let_def)
    have "pci_scan_device_function r b d f (s, c) = ret (s', c2)"
      using False hdr id cls building_function(1) [OF assms(1) bld refl] s'(1)
      by (auto simp: pci_scan_device_function_def is_bridge_def class_part_def subclass_part_def vendor_part_def device_part_def Let_def)
    then show ?thesis using s'(2) False by (auto simp: behind_def)
  qed
qed

lemma scan_functions_correct:
  assumes "inj blk" and "pci_host b cfg" and "bridges_increase cfg" and r: "\<And>bus'. bus < bus' \<Longrightarrow> scans blk cfg r bus'"
    and "scan_ready blk s0 ds" and "d \<notin> set ds"
    and "building blk s0 ds s ds' infos d (bus, slot, vendor, device) fis"
  shows "\<exists>s' c' ds''. run_for fns (\<lambda>f (s, c).
       let (devid, c) = pci_get_device_id b bus slot f c
       in if devid \<noteq> 0xFFFFFFFF then pci_scan_device_function r b d f (s, c) else ret (s, c)) (s, c) = ret (s', c') \<and>
    (let present = filter (\<lambda>f. id_of cfg bus slot f \<noteq> 0xFFFFFFFF) fns
     in building blk s0 ds s' ds'' (infos @ concat (map (behind cfg bus slot) present)) d (bus, slot, vendor, device)
      (fis @ map (function_found cfg bus slot) (filter (\<lambda>f. \<not> is_bridge cfg bus slot f) present)))"
  using assms(7)
proof (induction fns arbitrary: s c ds' infos fis)
  case Nil
  then show ?case by auto
next
  case (Cons f fns)
  obtain c1 where id: "pci_get_device_id b bus slot f c = (id_of cfg bus slot f, c1)"
    using host_reads(1) [OF assms(2)] by (metis prod.collapse)
  show ?case
  proof (cases "id_of cfg bus slot f = 0xFFFFFFFF")
    case True
    then show ?thesis using Cons.IH [OF Cons.prems, of c1] id by simp
  next
    case False
    obtain s1 c2 ds1 where one: "pci_scan_device_function r b d f (s, c1) = ret (s1, c2)"
      "building blk s0 ds s1 ds1 (infos @ behind cfg bus slot f) d (bus, slot, vendor, device)
        (fis @ (if is_bridge cfg bus slot f then [] else [function_found cfg bus slot f]))"
      using scan_device_function_correct [OF assms(1-3) r assms(5,6) Cons.prems] by blast
    show ?thesis using Cons.IH [OF one(2), of c2] one(1) id False by (simp add: Let_def split: if_splits)
  qed
qed

lemma scan_device_correct:
  assumes "inj blk" and "pci_host b cfg" and "bridges_increase cfg" and r: "\<And>bus'. bus < bus' \<Longrightarrow> scans blk cfg r bus'"
    and ready: "scan_ready blk s ds"
  shows "\<exists>s' c' ds'. pci_scan_device r b bus slot (s, c) = ret (s', c') \<and> scanned blk s ds s' ds' (found_at cfg bus slot)"
proof -
  let ?id = "id_of cfg bus slot 0"
  obtain c1 where id: "pci_get_device_id b bus slot 0 c = (?id, c1)"
    using host_reads(1) [OF assms(2)] by (metis prod.collapse)
  show ?thesis
  proof (cases "?id = 0xFFFFFFFF")
    case True
    then show ?thesis using id ready scanned_refl [of s ds blk]
      by (auto simp: pci_scan_device_def found_at_def scan_ready_def)
  next
    case False
    let ?d = "blk (mallocs s)" and ?hdr = "(bus, slot, vendor_part ?id, device_part ?id)"
    let ?s1 = "upd_dev ?d (\<lambda>_. \<lparr>d_prev = None, d_next = None, d_bus = bus, d_number = slot,
      d_vendor_id = vendor_part ?id, d_device_id = device_part ?id, d_functions = None\<rparr>) (s\<lparr>mallocs := mallocs s + 1\<rparr>)"
    have l: "lseg (dnext s) (pci_devices s) ds None" "blocks s = (\<lambda>n. Some (blk n))" "?d \<notin> set ds"
      using ready by (simp_all add: scan_ready_def)
    note start = building_start [OF assms(1) l]
    obtain s2 c2 ds2 where first: "pci_scan_device_function r b ?d 0 (?s1, c1) = ret (s2, c2)"
      "building blk s ds s2 ds2 ([] @ behind cfg bus slot 0) ?d ?hdr
        ([] @ (if is_bridge cfg bus slot 0 then [] else [function_found cfg bus slot 0]))"
      using scan_device_function_correct [OF assms(1-3) r ready l(3) start(2)] by blast
    obtain c3 where hdr: "pci_get_header_type b bus slot 0 c2 = (header_of cfg bus slot, c3)"
      using host_reads(3) [OF assms(2)] by (metis prod.collapse)
    define more where "more = (if header_of cfg bus slot AND 0x80 \<noteq> 0 then filter (\<lambda>f. id_of cfg bus slot f \<noteq> 0xFFFFFFFF) [1, 2, 3, 4, 5, 6, 7] else [])"
    obtain s3 c4 ds3 where rest: "(if header_of cfg bus slot AND 0x80 \<noteq> 0 then pci_scan_functions r b bus slot ?d (s2, c3)
        else ret (s2, c3)) = ret (s3, c4)"
      "building blk s ds s3 ds3 (behind cfg bus slot 0 @ concat (map (behind cfg bus slot) more)) ?d ?hdr
        ((if is_bridge cfg bus slot 0 then [] else [function_found cfg bus slot 0]) @
         map (function_found cfg bus slot) (filter (\<lambda>f. \<not> is_bridge cfg bus slot f) more))"
    proof (cases "header_of cfg bus slot AND 0x80 \<noteq> 0")
      case True
      obtain s3 c4 ds3 where "pci_scan_functions r b bus slot ?d (s2, c3) = ret (s3, c4)"
        "let present = filter (\<lambda>f. id_of cfg bus slot f \<noteq> 0xFFFFFFFF) [1, 2, 3, 4, 5, 6, 7]
         in building blk s ds s3 ds3 (([] @ behind cfg bus slot 0) @ concat (map (behind cfg bus slot) present)) ?d ?hdr
          (([] @ (if is_bridge cfg bus slot 0 then [] else [function_found cfg bus slot 0])) @
           map (function_found cfg bus slot) (filter (\<lambda>f. \<not> is_bridge cfg bus slot f) present))"
        using scan_functions_correct [OF assms(1-3) r ready l(3) first(2), of "[1, 2, 3, 4, 5, 6, 7]" c3]
        unfolding pci_scan_functions_def by blast
      with True show ?thesis by (intro that [of s3 c4 ds3]) (simp_all only: Let_def if_True append_Nil simp_thms more_def)
    next
      case False
      then show ?thesis using first(2) by (intro that [of s2 c3 ds2]) (simp_all add: more_def)
    qed
    have "functions_of cfg bus slot = 0 # more" by (simp only: functions_of_def more_def)
    then have found: "(behind cfg bus slot 0 @ concat (map (behind cfg bus slot) more)) @
        [(bus, slot, vendor_part ?id, device_part ?id, (if is_bridge cfg bus slot 0 then [] else [function_found cfg bus slot 0]) @
          map (function_found cfg bus slot) (filter (\<lambda>f. \<not> is_bridge cfg bus slot f) more))] = found_at cfg bus slot"
      using False by (simp add: found_at_def device_found_def Let_def)
    obtain s4 where s4: "append_device ?d s3 = ret s4"
      "scanned blk s ds (s4\<lparr>pci_device_count := pci_device_count s4 + 1\<rparr>) (ds3 @ [?d]) (found_at cfg bus slot)"
      using building_finish [OF assms(1) rest(2) l(3)] unfolding found by blast
    have "pci_scan_device r b bus slot (s, c) = ret (s4\<lparr>pci_device_count := pci_device_count s4 + 1\<rparr>, c4)"
      using id False start(1) first(1) hdr rest(1) s4(1)
      by (simp add: pci_scan_device_def Let_def vendor_part_def device_part_def split del: if_split)
    then show ?thesis using s4(2) by blast
  qed
qed

lemma scan_slots_correct:
  assumes "inj blk" and "pci_host b cfg" and "bridges_increase cfg" and r: "\<And>bus'. bus < bus' \<Longrightarrow> scans blk cfg r bus'"
    and "scan_ready blk s ds"
  shows "\<exists>s' c' ds'. run_for slots (\<lambda>slot sc. pci_scan_device r b bus slot sc) (s, c) = ret (s', c') \<and>
    scanned blk s ds s' ds' (concat (map (found_at cfg bus) slots))"
  using assms(5)
proof (induction slots arbitrary: s c ds)
  case Nil
  then show ?case using scanned_refl [of s ds blk] by (auto simp: scan_ready_def)
next
  case (Cons slot slots)
  obtain s1 c1 ds1 where one: "pci_scan_device r b bus slot (s, c) = ret (s1, c1)" "scanned blk s ds s1 ds1 (found_at cfg bus slot)"
    using scan_device_correct [OF assms(1-3) r Cons.prems] by blast
  obtain s2 c2 ds2 where two: "run_for slots (\<lambda>slot sc. pci_scan_device r b bus slot sc) (s1, c1) = ret (s2, c2)"
    "scanned blk s1 (ds @ ds1) s2 ds2 (concat (map (found_at cfg bus) slots))"
    using Cons.IH [OF scanned_ready [OF assms(1) Cons.prems one(2)]] by blast
  have "mallocs s \<le> mallocs s1" "mallocs s1 \<le> mallocs s2" using one(2) two(2) by (simp_all add: scanned_in_def)
  then show ?case
    using scanned_trans [OF assms(1) one(2) two(2)] one(1) two(1) used_split [of s s1 s2 blk] by auto
qed

lemma scan_bus_correct:
  assumes "inj blk" and "pci_host b cfg" and "bridges_increase cfg"
  shows "scans blk cfg (pci_scan_bus b) bus"
proof (induction "255 - unat bus" arbitrary: bus rule: less_induct)
  case less
  have r: "scans blk cfg (pci_scan_bus b) bus'" if "bus < bus'" for bus'
    using that byte_le [of bus'] by (intro less) (simp add: word_less_nat_alt)
  show ?case
    unfolding scans_def pci_scan_bus.simps [of b bus] found_slots [OF assms(3)]
    using scan_slots_correct [OF assms r] by blast
qed

definition expected :: "(u32 \<Rightarrow> u32) \<Rightarrow> device_info list" where
  "expected cfg = (if header_of cfg 0 0 AND 0x80 = 0 then found cfg 0
     else if id_of cfg 0 0 0 = 0xFFFFFFFF then [] else concat (map (found cfg) [0, 1, 2, 3, 4, 5, 6, 7]))"

lemma scan_controllers_correct:
  assumes "inj blk" and "pci_host b cfg" and "bridges_increase cfg" and "scan_ready blk s ds"
  shows "\<exists>s' c' ds'. pci_scan_controllers b buses (s, c) = ret (s', c') \<and>
    scanned blk s ds s' ds' (if id_of cfg 0 0 0 = 0xFFFFFFFF then [] else concat (map (found cfg) buses))"
  using assms(4)
proof (induction buses arbitrary: s c ds)
  case Nil
  then show ?case using scanned_refl [of s ds blk] by (auto simp: scan_ready_def)
next
  case (Cons bus buses)
  obtain c1 where id: "pci_get_device_id b 0 0 0 c = (id_of cfg 0 0 0, c1)"
    using host_reads(1) [OF assms(2)] by (metis prod.collapse)
  show ?case
  proof (cases "id_of cfg 0 0 0 = 0xFFFFFFFF")
    case True
    then show ?thesis using id Cons.prems scanned_refl [of s ds blk] by (auto simp: scan_ready_def)
  next
    case False
    obtain s1 c2 ds1 where one: "pci_scan_bus b bus (s, c1) = ret (s1, c2)" "scanned blk s ds s1 ds1 (found cfg bus)"
      using scan_bus_correct [OF assms(1-3)] Cons.prems unfolding scans_def by blast
    obtain s2 c3 ds2 where two: "pci_scan_controllers b buses (s1, c2) = ret (s2, c3)"
      "scanned blk s1 (ds @ ds1) s2 ds2 (concat (map (found cfg) buses))"
      using Cons.IH [OF scanned_ready [OF assms(1) Cons.prems one(2)]] unfolding if_not_P [OF False] by blast
    have "mallocs s \<le> mallocs s1" "mallocs s1 \<le> mallocs s2" using one(2) two(2) by (simp_all add: scanned_in_def)
    then show ?thesis
      using scanned_trans [OF assms(1) one(2) two(2)] one(1) two(1) id False used_split [of s s1 s2 blk] by auto
  qed
qed

lemma pci_scan_correct:
  assumes "inj blk" and "pci_host b cfg" and "bridges_increase cfg" and "scan_ready blk s ds"
  shows "\<exists>s' c' ds'. pci_scan b (s, c) = ret (s', c') \<and> scanned blk s ds s' ds' (expected cfg)"
proof -
  obtain c1 where hdr: "pci_get_header_type b 0 0 0 c = (header_of cfg 0 0, c1)"
    using host_reads(3) [OF assms(2)] by (metis prod.collapse)
  show ?thesis
  proof (cases "header_of cfg 0 0 AND 0x80 = 0")
    case True
    then show ?thesis using scan_bus_correct [OF assms(1-3), of 0] assms(4) hdr
      unfolding pci_scan_def expected_def scans_def by simp
  next
    case False
    then show ?thesis using scan_controllers_correct [OF assms, of "[0, 1, 2, 3, 4, 5, 6, 7]" c1] hdr
      unfolding pci_scan_def expected_def by (simp del: pci_scan_controllers.simps)
  qed
qed

section \<open>What is printed\<close>

definition function_line :: "u32 \<Rightarrow> function_info \<Rightarrow> printf_call" where
  "function_line i info = (case info of (number, vendor, device, class_code, subclass, progif) \<Rightarrow>
     (''PCI Device Function %i: %04X:%04X %s'' @ [CHR 10],
      [Va_int i, Va_int (ucast vendor), Va_int (ucast device), Va_str (Some (pci_get_class_name class_code subclass progif))]))"

fun function_lines :: "u32 \<Rightarrow> function_info list \<Rightarrow> printf_call list" where
  "function_lines i [] = []"
| "function_lines i (info # infos) = function_line i info # function_lines (i + 1) infos"

definition device_functions :: "device_info \<Rightarrow> function_info list" where
  "device_functions info = (case info of (bus, number, vendor, device, fis) \<Rightarrow> fis)"

lemma function_lines_append: "function_lines i (xs @ ys) = function_lines i xs @ function_lines (i + of_nat (length xs)) ys"
  by (induction xs arbitrary: i) (simp_all add: algebra_simps)

lemma print_functions_lseg:
  assumes "lseg (fnext s) p fs None"
  shows "print_functions s p i out = Some (i + of_nat (length fs), out @ function_lines i (map (fun_info s) fs))"
  using assms
proof (induction fs arbitrary: p i out)
  case Nil
  then show ?case by (subst print_functions.simps) simp
next
  case (Cons f fs)
  have "function_line i (fun_info s f) = (''PCI Device Function %i: %04X:%04X %s'' @ [CHR 10],
      [Va_int i, Va_int (ucast (f_vendor_id (fun_at s f))), Va_int (ucast (f_device_id (fun_at s f))),
       Va_str (Some (pci_get_class_name (f_class_code (fun_at s f)) (f_subclass (fun_at s f)) (f_progif (fun_at s f))))])"
    by (simp add: function_line_def fun_info_def Let_def)
  then show ?case using Cons by (subst print_functions.simps) (simp add: Let_def algebra_simps)
qed

lemma print_devices_lseg:
  assumes "lseg (dnext s) p ds None" and "list_all2 (device_is s U) ds infos"
  shows "print_devices s p i out = Some (out @ function_lines i (concat (map device_functions infos)))"
  using assms
proof (induction ds arbitrary: p i out infos)
  case Nil
  then show ?case by (subst print_devices.simps) simp
next
  case (Cons d ds)
  obtain info rest where infos: "infos = info # rest" "device_is s U d info" "list_all2 (device_is s U) ds rest"
    using Cons.prems(2) by (auto simp: list_all2_Cons1)
  obtain fs where fs: "functions_are s d fs (device_functions info)"
    using infos(2) by (auto simp: device_is_def device_functions_def)
  then have "print_functions s (d_functions (dev_at s d)) i out =
      Some (i + of_nat (length (device_functions info)), out @ function_lines i (device_functions info))"
    using print_functions_lseg unfolding functions_are_def by (metis length_map)
  then show ?case
    using Cons.prems(1) Cons.IH [OF _ infos(3)] infos(1)
    by (subst print_devices.simps) (simp add: function_lines_append)
qed

text \<open>What a client sees that walks the devices and their functions with \<open>pci_enumerate_devices\<close> and
  \<open>pci_enumerate_functions\<close>.\<close>

definition enumerates :: "pci \<Rightarrow> device_info list \<Rightarrow> bool" where
  "enumerates s infos \<longleftrightarrow> (\<exists>ds. lseg (\<lambda>d. pci_enumerate_devices (Some d) s) (pci_enumerate_devices None s) ds None \<and>
     list_all2 (\<lambda>d info. \<exists>fs. info = (d_bus (dev_at s d), d_number (dev_at s d), d_vendor_id (dev_at s d),
         d_device_id (dev_at s d), map (fun_info s) fs) \<and>
       lseg (\<lambda>f. pci_enumerate_functions d (Some f) s) (pci_enumerate_functions d None s) fs None \<and>
       (\<forall>f \<in> set fs. f_device (fun_at s f) = d)) ds infos)"

lemma enumeratesI:
  assumes "lseg (dnext s) (pci_devices s) ds None" and "list_all2 (device_is s U) ds infos"
  shows "enumerates s infos"
proof -
  have "lseg (\<lambda>f. pci_enumerate_functions d (Some f) s) (pci_enumerate_functions d None s) fs None"
    if "functions_are s d fs fis" for d fs fis
  proof -
    have "lseg (\<lambda>f. pci_enumerate_functions d (Some f) s) p fs None = lseg (fnext s) p fs None" for p
      using that by (intro lseg_cong) (auto simp: functions_are_def pci_enumerate_functions_def)
    then show ?thesis using that by (simp add: functions_are_def pci_enumerate_functions_def)
  qed
  then have "list_all2 (\<lambda>d info. \<exists>fs. info = (d_bus (dev_at s d), d_number (dev_at s d), d_vendor_id (dev_at s d),
         d_device_id (dev_at s d), map (fun_info s) fs) \<and>
       lseg (\<lambda>f. pci_enumerate_functions d (Some f) s) (pci_enumerate_functions d None s) fs None \<and>
       (\<forall>f \<in> set fs. f_device (fun_at s f) = d)) ds infos"
    by (intro list_all2_mono [OF assms(2)]) (fastforce simp: device_is_def functions_are_def)
  then show ?thesis using assms(1) by (auto simp: enumerates_def pci_enumerate_devices_def)
qed

lemma pci_enumerated:
  assumes "inj blk" and "blocks s = (\<lambda>n. Some (blk n))" and "pci_host b cfg" and "bridges_increase cfg"
  shows "\<exists>s' c'. pci_init b (s, c) = ret (s', c', function_lines 0 (concat (map device_functions (expected cfg)))) \<and>
    enumerates s' (expected cfg) \<and> pci_device_count s' = pci_device_count s + of_nat (length (expected cfg))"
proof -
  let ?s = "s\<lparr>pci_devices := None\<rparr>"
  have "scan_ready blk ?s []" using assms(2) by (simp add: scan_ready_def)
  then obtain s' c' ds where sc: "pci_scan b (?s, c) = ret (s', c')" "scanned blk ?s [] s' ds (expected cfg)"
    using pci_scan_correct [OF assms(1,3,4)] by blast
  then have l: "lseg (dnext s') (pci_devices s') ds None" "list_all2 (device_is s' (used blk ?s s')) ds (expected cfg)"
    "pci_device_count s' = pci_device_count s + of_nat (length (expected cfg))"
    unfolding scanned_in_def by simp_all
  show ?thesis using sc(1) print_devices_lseg [OF l(1,2), of 0 "[]"] enumeratesI [OF l(1,2)] l(3)
    by (simp add: pci_init_def)
qed

section \<open>Properties\<close>


text \<open>A bridge whose secondary bus number is that of its own bus, as a bridge that firmware has
  not configured has on bus 0, makes the scan call itself for ever.\<close>

theorem pci_scan_bus_diverges:
  assumes "pci_host b cfg" and "blocks s = (\<lambda>n. Some (blk n))" and "id_of cfg bus 0 0 \<noteq> 0xFFFFFFFF"
    and "is_bridge cfg bus 0 0" and "secondary_of cfg bus 0 0 = bus"
  shows "pci_scan_bus b bus (s, c) = None"
proof -
  let ?P = "\<lambda>b' bus' sc (y :: fault + pci \<times> 'a). \<not> (b' = b \<and> bus' = bus \<and> blocks (fst sc) = (\<lambda>n. Some (blk n)))"
  have "?P b' bus' sc y" if returned: "pci_scan_bus b' bus' sc = Some y" for b' bus' sc y
  proof (rule pci_scan_bus.raw_induct [where P = ?P, OF _ returned], rule notI, elim conjE)
    fix f :: "'a bus \<Rightarrow> u8 \<Rightarrow> pci \<times> 'a \<Rightarrow> (pci \<times> 'a) run" and b' bus' sc and y :: "fault + pci \<times> 'a"
    assume IH: "\<And>b' bus' sc y. f b' bus' sc = Some y \<Longrightarrow> ?P b' bus' sc y"
      and body: "run_for (map of_nat [0..<32]) (\<lambda>device sc. pci_scan_device (\<lambda>bus sc. f b' bus sc) b' bus' device sc) sc = Some y"
      and at: "b' = b" "bus' = bus" "blocks (fst sc) = (\<lambda>n. Some (blk n))"
    obtain s c where sc: "sc = (s, c)" by (cases sc)
    have nested: "f b bus (s', c') = None" if "blocks s' = (\<lambda>n. Some (blk n))" for s' c'
      using IH [of b bus "(s', c')"] that by (cases "f b bus (s', c')") auto
    have "pci_scan_device (f b) b bus 0 (s, c) = None"
    proof -
      let ?d = "blk (mallocs s)" and ?id = "id_of cfg bus 0 0"
      let ?s1 = "upd_dev ?d (\<lambda>_. \<lparr>d_prev = None, d_next = None, d_bus = bus, d_number = 0,
        d_vendor_id = vendor_part ?id, d_device_id = device_part ?id, d_functions = None\<rparr>) (s\<lparr>mallocs := mallocs s + 1\<rparr>)"
      obtain c1 where id: "pci_get_device_id b bus 0 0 c = (?id, c1)" using host_reads(1) [OF assms(1)] by (metis prod.collapse)
      obtain c2 where id2: "pci_get_device_id b bus 0 0 c1 = (?id, c2)" using host_reads(1) [OF assms(1)] by (metis prod.collapse)
      obtain c3 where cls: "pci_get_class_code b bus 0 0 c2 = (class_of cfg bus 0 0, c3)" using host_reads(2) [OF assms(1)] by (metis prod.collapse)
      obtain c4 where sec: "pci_get_secondary_bus_number b bus 0 0 c3 = (bus, c4)" using host_reads(4) [OF assms(1)] assms(5) by (metis prod.collapse)
      have "pci_scan_device_function (f b) b ?d 0 (?s1, c1) = f b bus (?s1, c4)"
        using assms(4) id2 cls sec by (simp add: pci_scan_device_function_def is_bridge_def class_part_def subclass_part_def Let_def)
      also have "\<dots> = None" using at(3) sc by (intro nested) simp
      finally show ?thesis
        using id assms(3) at(3) sc by (simp add: pci_scan_device_def pci_malloc_def Let_def vendor_part_def device_part_def)
    qed
    moreover have "map of_nat [0..<32] = (0 :: u8) # map of_nat [1..<32]" by (simp add: upt_conv_Cons)
    ultimately show False using body at sc by simp
  qed
  then have "pci_scan_bus b bus (s, c) \<noteq> Some y" for y using assms(2) by fastforce
  then show ?thesis by (metis option.exhaust)
qed

section \<open>Concrete machines\<close>

text \<open>A host bridge over a constant configuration space, whose state is the address register; a
  machine with a host bridge only, and one with an unconfigured bridge on bus 0.\<close>

definition config_bus :: "(u32 \<Rightarrow> u32) \<Rightarrow> u32 bus" where
  "config_bus cfg = \<lparr>in8 = (\<lambda>port c. (0, c)), in16 = (\<lambda>port c. (0, c)),
     in32 = (\<lambda>port c. (if port = 0xCFC then cfg c else 0, c)),
     out8 = (\<lambda>port v c. c), out16 = (\<lambda>port v c. c), out32 = (\<lambda>port v c. if port = 0xCF8 then v else c)\<rparr>"

definition one_device :: "u32 \<Rightarrow> u32" where
  "one_device a = (if a = 0x80000000 then 0x12378086 else if a = 0x80000008 then 0x06000002
     else if a = 0x8000000C then 0 else 0xFFFFFFFF)"

definition own_bus_bridge :: "u32 \<Rightarrow> u32" where
  "own_bus_bridge a = (if a = 0x80000000 then 0x12378086 else if a = 0x80000008 then 0x06040000 else 0)"

definition pci_blank :: pci where
  "pci_blank = \<lparr>pci_device_count = 0, pci_devices = None,
     dev_at = (\<lambda>_. \<lparr>d_prev = None, d_next = None, d_bus = 0, d_number = 0, d_vendor_id = 0, d_device_id = 0, d_functions = None\<rparr>),
     fun_at = (\<lambda>_. \<lparr>f_prev = None, f_next = None, f_device = 0, f_number = 0, f_vendor_id = 0, f_device_id = 0,
       f_class_code = 0, f_subclass = 0, f_progif = 0\<rparr>),
     blocks = (\<lambda>n. Some (100 * n)), mallocs = 0\<rparr>"

lemma config_host: "pci_host (config_bus cfg) cfg"
  by (simp add: pci_host_def config_bus_def PCI_CONFIG_ADDRESS_def PCI_CONFIG_DATA_def)

lemma one_device_expected: "expected one_device = [(0, 0, 0x8086, 0x1237, [(0, 0x8086, 0x1237, 6, 0, 2)])]"
  by code_simp

lemma one_device_increase: "bridges_increase one_device"
proof -
  have "\<not> (class_part w = 6 \<and> subclass_part w = 4)" if "w \<in> {0x12378086, 0x06000002, 0, 0xFFFFFFFF}" for w
    using that by (auto simp: class_part_def subclass_part_def)
  moreover have "class_of one_device bus slot f \<in> {0x12378086, 0x06000002, 0, 0xFFFFFFFF}" for bus slot f
    by (simp add: class_of_def one_device_def)
  ultimately have "\<not> is_bridge one_device bus slot f" for bus slot f unfolding is_bridge_def Let_def by blast
  then show ?thesis by (simp add: bridges_increase_def)
qed


theorem pci_scan_bus_diverges_witness: "pci_scan_bus (config_bus own_bus_bridge) 0 (pci_blank, 0) = None"
proof (rule pci_scan_bus_diverges [OF config_host])
  show "blocks pci_blank = (\<lambda>n. Some (100 * n))" by (simp add: pci_blank_def)
  show "id_of own_bus_bridge 0 0 0 \<noteq> 0xFFFFFFFF" by code_simp
  show "is_bridge own_bus_bridge 0 0 0" by code_simp
  show "secondary_of own_bus_bridge 0 0 0 = 0" by code_simp
qed

end
