(* ===== verification/Ide.thy ===== *)
theory Ide
  imports Pci
begin

text \<open>
  The PCI IDE driver (\<^verbatim>\<open>drivers/ide/pci_ide.c\<close>) with the register numbers of \<^verbatim>\<open>ata/ata.h\<close>: access to the
  registers of a channel, the set-up of a controller and the identification of its four drives, for
  every IDE function that the PCI enumeration has found. The ports are an argument, and so is
  \<open>sleep\<close>: what the devices do while the driver sleeps. What \<open>malloc\<close> returns is a supply of blocks as in
  \<^verbatim>\<open>Pci\<close>.
\<close>

section \<open>Constants\<close>

definition ATA_SR_BSY :: u8 where "ATA_SR_BSY = 0x80"
definition ATA_SR_DRQ :: u8 where "ATA_SR_DRQ = 0x08"
definition ATA_SR_ERR :: u8 where "ATA_SR_ERR = 0x01"
definition ATA_CMD_IDENTIFY_PACKET :: u8 where "ATA_CMD_IDENTIFY_PACKET = 0xA1"
definition ATA_CMD_IDENTIFY :: u8 where "ATA_CMD_IDENTIFY = 0xEC"
definition ATA_IDENT_MODEL :: nat where "ATA_IDENT_MODEL = 54"
definition ATA_REG_DATA :: u8 where "ATA_REG_DATA = 0x00"
definition ATA_REG_LBA1 :: u8 where "ATA_REG_LBA1 = 0x04"
definition ATA_REG_LBA2 :: u8 where "ATA_REG_LBA2 = 0x05"
definition ATA_REG_HDDEVSEL :: u8 where "ATA_REG_HDDEVSEL = 0x06"
definition ATA_REG_COMMAND :: u8 where "ATA_REG_COMMAND = 0x07"
definition ATA_REG_STATUS :: u8 where "ATA_REG_STATUS = 0x07"
definition ATA_REG_SECCOUNT1 :: u8 where "ATA_REG_SECCOUNT1 = 0x08"
definition ATA_REG_CONTROL :: u8 where "ATA_REG_CONTROL = 0x0C"
definition IDE_ATA :: u8 where "IDE_ATA = 0"
definition IDE_ATAPI :: u8 where "IDE_ATAPI = 1"

lemmas ata_defs = ATA_SR_BSY_def ATA_SR_DRQ_def ATA_SR_ERR_def ATA_CMD_IDENTIFY_PACKET_def ATA_CMD_IDENTIFY_def ATA_IDENT_MODEL_def
  ATA_REG_DATA_def ATA_REG_LBA1_def ATA_REG_LBA2_def ATA_REG_HDDEVSEL_def ATA_REG_COMMAND_def ATA_REG_STATUS_def
  ATA_REG_SECCOUNT1_def ATA_REG_CONTROL_def IDE_ATA_def IDE_ATAPI_def

section \<open>Data\<close>

record ide_channel =
  ch_base :: u16
  ch_ctrl :: u16
  ch_bm_ide :: u16
  ch_nien :: u8

record ide_controller =
  ic_prev :: "nat option"
  ic_next :: "nat option"
  ic_channels :: "ide_channel list"

text \<open>The static variables, the controllers by address, the supply of memory, the hardware and the output.\<close>

record 'c ide =
  ide_buf :: "u8 list"
  ide_controllers :: "nat option"
  ide_controllers_tail :: "nat option"
  ctl_at :: "nat \<Rightarrow> ide_controller"
  ide_blocks :: "nat \<Rightarrow> nat option"
  ide_mallocs :: nat
  ide_hw :: 'c
  ide_out :: "printf_call list"

section \<open>Registers\<close>

text \<open>The port of a register: the four cases that \<open>pci_ide_write\<close> and \<open>pci_ide_read\<close> distinguish.\<close>

definition ide_port :: "ide_channel \<Rightarrow> u8 \<Rightarrow> u16 option" where
  "ide_port ch reg =
     (if reg < ATA_REG_SECCOUNT1 then Some (ch_base ch + ucast reg - 0x00)
      else if reg < ATA_REG_CONTROL then Some (ch_base ch + ucast reg - 0x06)
      else if reg < 0x0E then Some (ch_ctrl ch + ucast reg - 0x0A)
      else if reg < 0x16 then Some (ch_bm_ide ch + ucast reg - 0x0E)
      else None)"

definition ide_out8 :: "'c bus \<Rightarrow> ide_channel \<Rightarrow> u8 \<Rightarrow> u8 \<Rightarrow> 'c \<Rightarrow> 'c" where
  "ide_out8 b ch reg data c = (case ide_port ch reg of None \<Rightarrow> c | Some p \<Rightarrow> outb b p data c)"

text \<open>The calls for \<open>ATA_REG_CONTROL\<close> that surround an access to the second set of registers do not nest further.\<close>

definition with_second_set :: "'c bus \<Rightarrow> ide_channel \<Rightarrow> u8 \<Rightarrow> ('c \<Rightarrow> 'r \<times> 'c) \<Rightarrow> 'c \<Rightarrow> 'r \<times> 'c" where
  "with_second_set b ch reg access c =
     (if reg > ATA_REG_COMMAND \<and> reg < ATA_REG_CONTROL then
        let c = ide_out8 b ch ATA_REG_CONTROL (0x80 OR ch_nien ch) c;
            (r, c) = access c
        in (r, ide_out8 b ch ATA_REG_CONTROL (ch_nien ch) c)
      else access c)"

definition pci_ide_write :: "'c bus \<Rightarrow> ide_channel \<Rightarrow> u8 \<Rightarrow> u8 \<Rightarrow> 'c \<Rightarrow> 'c" where
  "pci_ide_write b ch reg data c = snd (with_second_set b ch reg (\<lambda>c. ((), ide_out8 b ch reg data c)) c)"

definition pci_ide_read :: "'c bus \<Rightarrow> ide_channel \<Rightarrow> u8 \<Rightarrow> 'c \<Rightarrow> u8 \<times> 'c" where
  "pci_ide_read b ch reg c =
     with_second_set b ch reg (\<lambda>c. case ide_port ch reg of None \<Rightarrow> (0, c) | Some p \<Rightarrow> inb b p c) c"

definition pci_buffer_read :: "'c bus \<Rightarrow> u16 \<Rightarrow> nat \<Rightarrow> 'c \<Rightarrow> u32 list \<times> 'c" where
  "pci_buffer_read b reg sz c = repeat_in (inl b reg) sz c"

text \<open>The bytes of the words that land in the buffer.\<close>

definition word_bytes :: "u32 list \<Rightarrow> u8 list" where
  "word_bytes ws = concat (map (\<lambda>w. [byte_of w 0, byte_of w 1, byte_of w 2, byte_of w 3]) ws)"

text \<open>Unlike the byte accesses, the buffer access takes its port from \<open>base\<close> in all four cases.\<close>

definition pci_ide_read_buffer :: "'c bus \<Rightarrow> ide_channel \<Rightarrow> u8 \<Rightarrow> u8 list \<Rightarrow> nat \<Rightarrow> 'c \<Rightarrow> (u8 list \<times> 'c) run" where
  "pci_ide_read_buffer b ch reg buffer sz c =
     (let port = (if reg < ATA_REG_SECCOUNT1 then Some (ch_base ch + ucast reg - 0x00)
                  else if reg < ATA_REG_CONTROL then Some (ch_base ch + ucast reg - 0x06)
                  else if reg < 0x0E then Some (ch_base ch + ucast reg - 0x0A)
                  else if reg < 0x16 then Some (ch_base ch + ucast reg - 0x0E)
                  else None);
          (ws, c) = with_second_set b ch reg (\<lambda>c. case port of None \<Rightarrow> ([], c) | Some p \<Rightarrow> pci_buffer_read b p sz c) c;
          bs = word_bytes ws
      in if length bs \<le> length buffer then ret (bs @ drop (length bs) buffer, c) else goes_wrong Out_of_bounds)"

section \<open>Controllers\<close>

definition ide_malloc :: "'c ide \<Rightarrow> (nat \<times> 'c ide) run" where
  "ide_malloc s = (case ide_blocks s (ide_mallocs s) of
     Some p \<Rightarrow> ret (p, s\<lparr>ide_mallocs := ide_mallocs s + 1\<rparr>)
   | None \<Rightarrow> goes_wrong Null_pointer)"

text \<open>\<open>nien\<close> is not written: it keeps what the memory held.\<close>

definition init_channels :: "u32 \<Rightarrow> u32 \<Rightarrow> u32 \<Rightarrow> u32 \<Rightarrow> u32 \<Rightarrow> u8 \<times> u8 \<Rightarrow> ide_channel list" where
  "init_channels bar0 bar1 bar2 bar3 bar4 niens =
     [\<lparr>ch_base = ucast (if bar0 \<noteq> 0 then bar0 else 0x1F0), ch_ctrl = ucast (if bar1 \<noteq> 0 then bar1 else 0x3F6),
       ch_bm_ide = ucast bar4, ch_nien = fst niens\<rparr>,
      \<lparr>ch_base = ucast (if bar2 \<noteq> 0 then bar2 else 0x170), ch_ctrl = ucast (if bar3 \<noteq> 0 then bar3 else 0x376),
       ch_bm_ide = ucast (bar4 + 8), ch_nien = snd niens\<rparr>]"

definition channel :: "ide_controller \<Rightarrow> nat \<Rightarrow> ide_channel" where
  "channel ctl i = ic_channels ctl ! i"

definition pci_ide_initialize_controller :: "'c bus \<Rightarrow> (nat \<Rightarrow> u8 \<times> u8) \<Rightarrow> pci \<Rightarrow> fptr \<Rightarrow> 'c ide \<Rightarrow> (nat \<times> 'c ide) run" where
  "pci_ide_initialize_controller b garbage ps f s =
     run_bind (ide_malloc s) (\<lambda>(p, s).
     let dev = dev_at ps (f_device (fun_at ps f));
         bus = d_bus dev; slot = d_number dev; func = f_number (fun_at ps f);
         (bar0, c) = pci_get_bar b 0 bus slot func (ide_hw s);
         (bar1, c) = pci_get_bar b 1 bus slot func c;
         (bar2, c) = pci_get_bar b 2 bus slot func c;
         (bar3, c) = pci_get_bar b 3 bus slot func c;
         (bar4, c) = pci_get_bar b 4 bus slot func c;
         ctl = \<lparr>ic_prev = None, ic_next = None, ic_channels = init_channels (bar0 AND 0xFFFFFFFC) (bar1 AND 0xFFFFFFFC)
           (bar2 AND 0xFFFFFFFC) (bar3 AND 0xFFFFFFFC) (bar4 AND 0xFFFFFFFC) (garbage p)\<rparr>;
         c = pci_ide_write b (channel ctl 0) ATA_REG_CONTROL 2 c;
         c = pci_ide_write b (channel ctl 1) ATA_REG_CONTROL 2 c
     in ret (p, s\<lparr>ctl_at := (ctl_at s)(p := ctl), ide_hw := c\<rparr>))"

definition append_controller :: "nat \<Rightarrow> 'c ide \<Rightarrow> 'c ide" where
  "append_controller p s = (case ide_controllers_tail s of
     Some t \<Rightarrow>
       (let at = (ctl_at s)(t := (ctl_at s t)\<lparr>ic_next := Some p\<rparr>);
            at = at(p := (at p)\<lparr>ic_prev := Some t, ic_next := None\<rparr>)
        in s\<lparr>ctl_at := at, ide_controllers_tail := Some p\<rparr>)
   | None \<Rightarrow> s\<lparr>ide_controllers := Some p, ide_controllers_tail := Some p\<rparr>)"

section \<open>Drives\<close>

partial_function (option) wait_ready :: "'c bus \<Rightarrow> ide_channel \<Rightarrow> 'c \<Rightarrow> (bool \<times> 'c) run" where
  "wait_ready b ch c =
     (let (status, c) = pci_ide_read b ch ATA_REG_STATUS c
      in if status AND ATA_SR_ERR \<noteq> 0 then ret (True, c)
         else if status AND ATA_SR_BSY = 0 \<and> status AND ATA_SR_DRQ \<noteq> 0 then ret (False, c)
         else wait_ready b ch c)"

definition print_line :: "string \<Rightarrow> va list \<Rightarrow> 'c ide \<Rightarrow> 'c ide" where
  "print_line fmt args s = s\<lparr>ide_out := ide_out s @ [(fmt, args)]\<rparr>"

text \<open>The model name: the bytes of each word swapped; printed up to a terminating zero.\<close>

definition swap_pairs :: "u8 list \<Rightarrow> u8 list" where
  "swap_pairs buf = concat (map (\<lambda>k. [buf ! (ATA_IDENT_MODEL + k + 1), buf ! (ATA_IDENT_MODEL + k)]) [0, 2, 4, 6, 8, 10, 12, 14, 16,
     18, 20, 22, 24, 26, 28, 30, 32, 34, 36, 38])"

definition c_text :: "u8 list \<Rightarrow> string" where
  "c_text bs = map (\<lambda>x. char_of (unat x)) (takeWhile (\<lambda>x. x \<noteq> 0) bs)"

definition identify_drive :: "'c bus \<Rightarrow> ide_channel \<Rightarrow> u8 \<Rightarrow> 'c ide \<Rightarrow> 'c ide run" where
  "identify_drive b ch type s =
     run_bind (pci_ide_read_buffer b ch ATA_REG_DATA (ide_buf s) 128 (ide_hw s)) (\<lambda>(buf, c).
     if ATA_IDENT_MODEL + 40 \<le> length buf then
       ret (print_line (''%s (0x%02X)'' @ [CHR 0x0A]) [Va_str (Some (c_text (swap_pairs buf))), Va_int (ucast type)]
         (s\<lparr>ide_buf := buf, ide_hw := c\<rparr>))
     else goes_wrong Out_of_bounds)"

definition detect_drive :: "'c bus \<Rightarrow> ('c \<Rightarrow> 'c) \<Rightarrow> ide_channel \<Rightarrow> nat \<Rightarrow> 'c ide \<Rightarrow> 'c ide run" where
  "detect_drive b sleep ch j s =
     (let s = print_line (if j = 0 then ''  Primary:   '' else ''  Secondary: '') [] s;
          c = sleep (pci_ide_write b ch ATA_REG_HDDEVSEL (0xA0 OR push_bit 4 (of_nat j)) (ide_hw s));
          c = sleep (pci_ide_write b ch ATA_REG_COMMAND ATA_CMD_IDENTIFY c);
          (status, c) = pci_ide_read b ch ATA_REG_STATUS c
      in if status = 0 then ret (print_line (''None'' @ [CHR 0x0A]) [] (s\<lparr>ide_hw := c\<rparr>))
         else run_bind (wait_ready b ch c) (\<lambda>(err, c).
           if err then
             let (cl, c) = pci_ide_read b ch ATA_REG_LBA1 c;
                 (ch', c) = pci_ide_read b ch ATA_REG_LBA2 c
             in if cl = 0x14 \<and> ch' = 0xEB \<or> cl = 0x69 \<and> ch' = 0x96 then
                  let c = sleep (pci_ide_write b ch ATA_REG_COMMAND ATA_CMD_IDENTIFY_PACKET c)
                  in identify_drive b ch IDE_ATAPI (s\<lparr>ide_hw := c\<rparr>)
                else ret (print_line (''None'' @ [CHR 0x0A]) [] (s\<lparr>ide_hw := c\<rparr>))
           else identify_drive b ch IDE_ATA (s\<lparr>ide_hw := c\<rparr>)))"

definition pci_ide_detect_devices :: "'c bus \<Rightarrow> (nat \<Rightarrow> u8 \<times> u8) \<Rightarrow> ('c \<Rightarrow> 'c) \<Rightarrow> pci \<Rightarrow> fptr \<Rightarrow> 'c ide \<Rightarrow> 'c ide run" where
  "pci_ide_detect_devices b garbage sleep ps f s =
     run_bind (pci_ide_initialize_controller b garbage ps f s) (\<lambda>(p, s).
     let s = print_line (''Detecting IDE drives...'' @ [CHR 0x0A]) [] (append_controller p s)
     in run_for [0, 1] (\<lambda>i s.
          let s = print_line (''IDE Channel %i'' @ [CHR 0x0A]) [Va_int (of_nat i)] s
          in run_for [0, 1] (\<lambda>j s. detect_drive b sleep (channel (ctl_at s p) i) j s) s) s)"

section \<open>All controllers\<close>

definition is_ide_class :: "u32 \<Rightarrow> bool" where
  "is_ide_class tmp \<longleftrightarrow>
     (let subclass_code = ucast (drop_bit 16 (tmp AND 0xFF0000)) :: u8; class_code = ucast (drop_bit 24 (tmp AND 0xFF000000)) :: u8
      in class_code = 0x01 \<and> subclass_code = 0x01)"

partial_function (option) ide_functions ::
  "'c bus \<Rightarrow> (nat \<Rightarrow> u8 \<times> u8) \<Rightarrow> ('c \<Rightarrow> 'c) \<Rightarrow> pci \<Rightarrow> dptr \<Rightarrow> fptr option \<Rightarrow> 'c ide \<Rightarrow> 'c ide run" where
  "ide_functions b garbage sleep ps d cur s = (case cur of
     None \<Rightarrow> ret s
   | Some f \<Rightarrow>
       (let (tmp, c) = pci_get_class_code b (d_bus (dev_at ps d)) (d_number (dev_at ps d)) (f_number (fun_at ps f)) (ide_hw s);
            s = s\<lparr>ide_hw := c\<rparr>
        in run_bind (if is_ide_class tmp then pci_ide_detect_devices b garbage sleep ps f s else ret s) (\<lambda>s.
             ide_functions b garbage sleep ps d (pci_enumerate_functions d (Some f) ps) s)))"

partial_function (option) ide_devices ::
  "'c bus \<Rightarrow> (nat \<Rightarrow> u8 \<times> u8) \<Rightarrow> ('c \<Rightarrow> 'c) \<Rightarrow> pci \<Rightarrow> dptr option \<Rightarrow> 'c ide \<Rightarrow> 'c ide run" where
  "ide_devices b garbage sleep ps cur s = (case cur of
     None \<Rightarrow> ret s
   | Some d \<Rightarrow>
       run_bind (ide_functions b garbage sleep ps d (pci_enumerate_functions d None ps) s) (\<lambda>s.
         ide_devices b garbage sleep ps (pci_enumerate_devices (Some d) ps) s))"

definition pci_ide_initialize :: "'c bus \<Rightarrow> (nat \<Rightarrow> u8 \<times> u8) \<Rightarrow> ('c \<Rightarrow> 'c) \<Rightarrow> pci \<Rightarrow> 'c ide \<Rightarrow> 'c ide run" where
  "pci_ide_initialize b garbage sleep ps s =
     ide_devices b garbage sleep ps (pci_enumerate_devices None ps) (s\<lparr>ide_controllers := None, ide_controllers_tail := None\<rparr>)"

section \<open>Drives keep the lists\<close>

text \<open>What the detection of drives may change: the hardware, the buffer and the output.\<close>

definition only_drives :: "'c ide \<Rightarrow> 'c ide \<Rightarrow> bool" where
  "only_drives s s' \<longleftrightarrow> ctl_at s' = ctl_at s \<and> ide_controllers s' = ide_controllers s \<and> ide_controllers_tail s' = ide_controllers_tail s \<and>
     ide_blocks s' = ide_blocks s \<and> ide_mallocs s' = ide_mallocs s \<and> length (ide_buf s') = length (ide_buf s)"

lemma only_drives_simps [simp]:
  "only_drives s s" "only_drives s (print_line fmt args t) = only_drives s t" "only_drives s (t\<lparr>ide_hw := c\<rparr>) = only_drives s t"
  "only_drives (print_line fmt args s) t = only_drives s t" "only_drives (s\<lparr>ide_hw := c\<rparr>) t = only_drives s t"
  by (simp_all add: only_drives_def print_line_def)

lemma only_drives_trans: "only_drives s t \<Longrightarrow> only_drives t u \<Longrightarrow> only_drives s u"
  by (simp add: only_drives_def)

text \<open>The hypothesis on the drives: every wait for a drive ends.\<close>

definition drives_settle :: "'c bus \<Rightarrow> bool" where
  "drives_settle b \<longleftrightarrow> (\<forall>ch c. \<exists>r. wait_ready b ch c = ret r)"

lemma length_word_bytes: "length (word_bytes ws) = 4 * length ws"
  by (induction ws) (simp_all add: word_bytes_def)

lemma identify_drive_ok:
  assumes "length (ide_buf s) = 1024"
  shows "\<exists>s'. identify_drive b ch type s = ret s' \<and> only_drives s s'"
proof -
  obtain ws c where r: "pci_buffer_read b (ch_base ch) 128 (ide_hw s) = (ws, c)" by fastforce
  then have "length ws = 128" using repeat_in_length [of "inl b (ch_base ch)" 128 "ide_hw s"] by (simp add: pci_buffer_read_def)
  then show ?thesis
    using assms r by (simp add: identify_drive_def pci_ide_read_buffer_def with_second_set_def ata_defs length_word_bytes)
      (simp add: only_drives_def print_line_def length_word_bytes)
qed

lemma detect_drive_ok:
  assumes "drives_settle b" and "length (ide_buf s) = 1024"
  shows "\<exists>s'. detect_drive b sleep ch j s = ret s' \<and> only_drives s s'"
proof -
  have id: "\<exists>s'. identify_drive b ch type (print_line fmt args s\<lparr>ide_hw := c\<rparr>) = ret s' \<and> only_drives s s'" for type fmt args c
  proof -
    have "length (ide_buf (print_line fmt args s\<lparr>ide_hw := c\<rparr>)) = 1024" using assms(2) by (simp add: print_line_def)
    from identify_drive_ok [OF this, of b ch type] show ?thesis by simp
  qed
  have wait: "\<exists>err c'. wait_ready b ch c = ret (err, c')" for c using assms(1) by (simp add: drives_settle_def)
  let ?c = "sleep (pci_ide_write b ch ATA_REG_COMMAND ATA_CMD_IDENTIFY
    (sleep (pci_ide_write b ch ATA_REG_HDDEVSEL (0xA0 OR push_bit 4 (of_nat j)) (ide_hw s))))"
  obtain status c1 where st: "pci_ide_read b ch ATA_REG_STATUS ?c = (status, c1)" by fastforce
  obtain err c2 where w: "wait_ready b ch c1 = ret (err, c2)" using wait by blast
  obtain cl c3 where cl: "pci_ide_read b ch ATA_REG_LBA1 c2 = (cl, c3)" by fastforce
  obtain chv c4 where chv: "pci_ide_read b ch ATA_REG_LBA2 c3 = (chv, c4)" by fastforce
  have hw: "ide_hw (print_line fmt args s) = ide_hw s" for fmt args by (simp add: print_line_def)
  show ?thesis unfolding detect_drive_def Let_def hw st w cl chv run_bind_simps prod.case
    by (cases "status = 0"; cases err) (use id in \<open>auto split: if_splits\<close>)
qed

lemma detect_drives_ok:
  assumes "drives_settle b" and "length (ide_buf s) = 1024"
  shows "\<exists>s'. run_for [0, 1] (\<lambda>i s. let s = print_line fmt (args i) s
      in run_for [0, 1] (\<lambda>j s. detect_drive b sleep (ch i s) j s) s) s = ret s' \<and> only_drives s s'"
proof (rule run_for_inv [where P = "only_drives s"])
  fix i t assume t: "only_drives s t"
  show "\<exists>t'. (let s = print_line fmt (args i) t in run_for [0, 1] (\<lambda>j s. detect_drive b sleep (ch i s) j s) s) = ret t' \<and> only_drives s t'"
    unfolding Let_def
  proof (rule run_for_inv [where P = "only_drives s"])
    fix j u assume u: "only_drives s u"
    then have "length (ide_buf u) = 1024" using assms(2) by (simp add: only_drives_def)
    with detect_drive_ok [OF assms(1)] u show "\<exists>u'. detect_drive b sleep (ch i u) j u = ret u' \<and> only_drives s u'"
      by (meson only_drives_trans)
  qed (use t in simp)
qed simp

section \<open>The list of controllers\<close>

definition bar_of :: "(u32 \<Rightarrow> u32) \<Rightarrow> u8 \<times> u8 \<times> u8 \<Rightarrow> u8 \<Rightarrow> u32" where
  "bar_of cfg loc off = (case loc of (bus, slot, func) \<Rightarrow> cfg (pci_config_address bus slot func off) AND 0xFFFFFFFC)"

definition channels_for :: "(u32 \<Rightarrow> u32) \<Rightarrow> (nat \<Rightarrow> u8 \<times> u8) \<Rightarrow> nat \<Rightarrow> u8 \<times> u8 \<times> u8 \<Rightarrow> ide_channel list" where
  "channels_for cfg garbage p loc =
     init_channels (bar_of cfg loc 0x10) (bar_of cfg loc 0x14) (bar_of cfg loc 0x18) (bar_of cfg loc 0x1C) (bar_of cfg loc 0x20) (garbage p)"

text \<open>A doubly linked list of the controllers \<open>cs\<close> for the functions \<open>locs\<close>, with a pointer to its last element.\<close>

definition controllers_are ::
  "(u32 \<Rightarrow> u32) \<Rightarrow> (nat \<Rightarrow> u8 \<times> u8) \<Rightarrow> 'c ide \<Rightarrow> nat list \<Rightarrow> (u8 \<times> u8 \<times> u8) list \<Rightarrow> bool" where
  "controllers_are cfg garbage s cs locs \<longleftrightarrow>
     lseg (\<lambda>p. ic_next (ctl_at s p)) (ide_controllers s) cs None \<and>
     ide_controllers_tail s = (if cs = [] then None else Some (last cs)) \<and>
     map (\<lambda>p. ic_prev (ctl_at s p)) cs = butlast (None # map Some cs) \<and>
     list_all2 (\<lambda>p loc. ic_channels (ctl_at s p) = channels_for cfg garbage p loc) cs locs"

definition ide_ok :: "(nat \<Rightarrow> nat) \<Rightarrow> 'c ide \<Rightarrow> nat list \<Rightarrow> bool" where
  "ide_ok blk s cs \<longleftrightarrow> ide_blocks s = (\<lambda>n. Some (blk n)) \<and> length (ide_buf s) = 1024 \<and> set cs \<subseteq> blk ` {..<ide_mallocs s}"

lemma controllers_only_drives:
  "only_drives s s' \<Longrightarrow> controllers_are cfg garbage s' cs locs = controllers_are cfg garbage s cs locs"
  "only_drives s s' \<Longrightarrow> ide_ok blk s' cs = ide_ok blk s cs"
  by (auto simp: only_drives_def controllers_are_def ide_ok_def)

lemma controllers_cong:
  assumes "ide_controllers t = ide_controllers s" and "ide_controllers_tail t = ide_controllers_tail s"
    and at: "\<And>q. q \<in> set cs \<Longrightarrow> ctl_at t q = ctl_at s q"
  shows "controllers_are cfg garbage t cs locs = controllers_are cfg garbage s cs locs"
proof -
  have seg: "lseg (\<lambda>q. ic_next (ctl_at t q)) h cs None = lseg (\<lambda>q. ic_next (ctl_at s q)) h cs None" for h
    using at by (intro lseg_cong) simp
  have prevs: "map (\<lambda>q. ic_prev (ctl_at t q)) cs = map (\<lambda>q. ic_prev (ctl_at s q)) cs"
    using at by (intro map_cong) simp_all
  have chans: "list_all2 (\<lambda>q loc. ic_channels (ctl_at t q) = channels_for cfg garbage q loc) cs locs =
      list_all2 (\<lambda>q loc. ic_channels (ctl_at s q) = channels_for cfg garbage q loc) cs locs"
    using at by (intro list.rel_cong) simp_all
  show ?thesis unfolding controllers_are_def assms(1,2) seg prevs chans ..
qed

lemma append_controller_list:
  assumes "controllers_are cfg garbage s cs locs" and "p \<notin> set cs"
    and "ctl_at s p = \<lparr>ic_prev = None, ic_next = None, ic_channels = channels_for cfg garbage p loc\<rparr>"
  shows "controllers_are cfg garbage (append_controller p s) (cs @ [p]) (locs @ [loc])"
proof (cases "cs = []")
  case True
  then show ?thesis using assms by (simp add: controllers_are_def append_controller_def)
next
  case False
  let ?t = "last cs" and ?s = "append_controller p s"
  have l: "lseg (\<lambda>p. ic_next (ctl_at s p)) (ide_controllers s) cs None" "ide_controllers_tail s = Some ?t"
    "map (\<lambda>p. ic_prev (ctl_at s p)) cs = butlast (None # map Some cs)"
    "list_all2 (\<lambda>p loc. ic_channels (ctl_at s p) = channels_for cfg garbage p loc) cs locs"
    using assms(1) False by (simp_all add: controllers_are_def)
  have neq: "?t \<noteq> p" using False assms(2) last_in_set by metis
  have at: "ctl_at ?s = (ctl_at s)(?t := (ctl_at s ?t)\<lparr>ic_next := Some p\<rparr>, p := (ctl_at s p)\<lparr>ic_prev := Some ?t, ic_next := None\<rparr>)"
    using l(2) neq by (simp add: append_controller_def Let_def)
  have sel: "ide_controllers ?s = ide_controllers s" "ide_controllers_tail ?s = Some p"
    using l(2) by (simp_all add: append_controller_def Let_def)
  have nxt: "(\<lambda>q. ic_next (ctl_at ?s q)) = (\<lambda>q. ic_next (ctl_at s q))(?t := Some p)"
    using neq assms(3) by (auto simp: at fun_eq_iff)
  have "ic_next (ctl_at s p) = None" by (simp add: assms(3))
  from lseg_append_node(2) [OF l(1) assms(2) this False]
  have seg: "lseg (\<lambda>q. ic_next (ctl_at ?s q)) (ide_controllers s) (cs @ [p]) None" unfolding nxt .
  have keep: "ic_prev (ctl_at ?s q) = ic_prev (ctl_at s q)" "ic_channels (ctl_at ?s q) = ic_channels (ctl_at s q)"
    if "q \<in> set cs" for q using that assms(2) by (auto simp: at)
  have "map (\<lambda>q. ic_prev (ctl_at ?s q)) (cs @ [p]) = map (\<lambda>q. ic_prev (ctl_at s q)) cs @ [Some ?t]"
    using keep(1) by (simp add: at)
  also have "\<dots> = butlast (None # map Some (cs @ [p]))"
    using False unfolding l(3) by (cases cs rule: rev_cases) (simp_all add: butlast_append)
  finally have prevs: "map (\<lambda>q. ic_prev (ctl_at ?s q)) (cs @ [p]) = butlast (None # map Some (cs @ [p]))" .
  have "list_all2 (\<lambda>q loc. ic_channels (ctl_at ?s q) = channels_for cfg garbage q loc) (cs @ [p]) (locs @ [loc])"
  proof (rule list_all2_appendI)
    show "list_all2 (\<lambda>q loc. ic_channels (ctl_at ?s q) = channels_for cfg garbage q loc) cs locs"
      using l(4) keep(2) by (simp add: list_all2_conv_all_nth)
    show "list_all2 (\<lambda>q loc. ic_channels (ctl_at ?s q) = channels_for cfg garbage q loc) [p] [loc]"
      by (simp add: at assms(3))
  qed
  with seg prevs show ?thesis unfolding controllers_are_def sel by simp
qed

lemma get_bar_reads:
  assumes "pci_host b cfg"
  shows "\<exists>c'. pci_get_bar b n bus slot func c = (cfg (pci_config_address bus slot func ([0x10, 0x14, 0x18, 0x1C, 0x20, 0x24] ! n)), c')"
  using fst_config_readl [OF assms] unfolding pci_get_bar_def by (metis prod.collapse)

lemma initialize_controller_run:
  assumes "pci_host b cfg" and "ide_blocks s (ide_mallocs s) = Some p"
  defines "dev ps f \<equiv> dev_at ps (f_device (fun_at ps f))"
  shows "\<exists>c. pci_ide_initialize_controller b garbage ps f s = ret (p, s\<lparr>ide_mallocs := ide_mallocs s + 1,
    ctl_at := (ctl_at s)(p := \<lparr>ic_prev = None, ic_next = None, ic_channels = channels_for cfg garbage p
      (d_bus (dev ps f), d_number (dev ps f), f_number (fun_at ps f))\<rparr>), ide_hw := c\<rparr>)"
proof -
  let ?bus = "d_bus (dev ps f)" and ?slot = "d_number (dev ps f)" and ?func = "f_number (fun_at ps f)"
  have bar: "\<exists>c'. pci_get_bar b n ?bus ?slot ?func c = (cfg (pci_config_address ?bus ?slot ?func
      ([0x10, 0x14, 0x18, 0x1C, 0x20, 0x24] ! n)), c')" for n c by (rule get_bar_reads [OF assms(1)])
  obtain c0 where 0: "pci_get_bar b 0 ?bus ?slot ?func (ide_hw s) = (cfg (pci_config_address ?bus ?slot ?func 0x10), c0)"
    using bar [of 0] by auto
  obtain c1 where 1: "pci_get_bar b 1 ?bus ?slot ?func c0 = (cfg (pci_config_address ?bus ?slot ?func 0x14), c1)"
    using bar [of 1] by auto
  obtain c2 where 2: "pci_get_bar b 2 ?bus ?slot ?func c1 = (cfg (pci_config_address ?bus ?slot ?func 0x18), c2)"
    using bar [of 2] by auto
  obtain c3 where 3: "pci_get_bar b 3 ?bus ?slot ?func c2 = (cfg (pci_config_address ?bus ?slot ?func 0x1C), c3)"
    using bar [of 3] by auto
  obtain c4 where 4: "pci_get_bar b 4 ?bus ?slot ?func c3 = (cfg (pci_config_address ?bus ?slot ?func 0x20), c4)"
    using bar [of 4] by auto
  have sel: "ide_hw (s\<lparr>ide_mallocs := m\<rparr>) = ide_hw s" "ctl_at (s\<lparr>ide_mallocs := m\<rparr>) = ctl_at s" for m by simp_all
  show ?thesis
    unfolding pci_ide_initialize_controller_def ide_malloc_def assms(2) dev_def [symmetric] option.case run_bind_simps prod.case Let_def
      sel 0 1 2 3 4 channels_for_def bar_of_def by (rule exI) (rule refl)
qed

lemma initialize_controller_ok:
  assumes "inj blk" and "pci_host b cfg" and "ide_ok blk s cs" and "controllers_are cfg garbage s cs locs"
    and "loc = (d_bus (dev_at ps (f_device (fun_at ps f))), d_number (dev_at ps (f_device (fun_at ps f))), f_number (fun_at ps f))"
  shows "\<exists>p t. pci_ide_initialize_controller b garbage ps f s = ret (p, t) \<and> ide_ok blk (append_controller p t) (cs @ [p]) \<and>
    controllers_are cfg garbage (append_controller p t) (cs @ [p]) (locs @ [loc])"
proof -
  let ?p = "blk (ide_mallocs s)"
  let ?ctl = "\<lparr>ic_prev = None, ic_next = None, ic_channels = channels_for cfg garbage ?p loc\<rparr>"
  have blocks: "ide_blocks s (ide_mallocs s) = Some ?p" and buf: "length (ide_buf s) = 1024" and sub: "set cs \<subseteq> blk ` {..<ide_mallocs s}"
    using assms(3) by (simp_all add: ide_ok_def)
  have fresh: "?p \<notin> set cs" using sub assms(1) by (auto dest: injD)
  have "\<exists>c. pci_ide_initialize_controller b garbage ps f s =
      ret (?p, s\<lparr>ide_mallocs := ide_mallocs s + 1, ctl_at := (ctl_at s)(?p := ?ctl), ide_hw := c\<rparr>)"
    unfolding assms(5) by (rule initialize_controller_run [OF assms(2) blocks])
  then obtain c where run: "pci_ide_initialize_controller b garbage ps f s =
      ret (?p, s\<lparr>ide_mallocs := ide_mallocs s + 1, ctl_at := (ctl_at s)(?p := ?ctl), ide_hw := c\<rparr>)" ..
  let ?t = "s\<lparr>ide_mallocs := ide_mallocs s + 1, ctl_at := (ctl_at s)(?p := ?ctl), ide_hw := c\<rparr>"
  have "controllers_are cfg garbage ?t cs locs = controllers_are cfg garbage s cs locs"
  proof (rule controllers_cong)
    fix q assume "q \<in> set cs"
    then show "ctl_at ?t q = ctl_at s q" using fresh by auto
  qed simp_all
  with assms(4) have "controllers_are cfg garbage ?t cs locs" by simp
  from append_controller_list [OF this fresh, of loc]
  have "controllers_are cfg garbage (append_controller ?p ?t) (cs @ [?p]) (locs @ [loc])" by simp
  moreover have "ide_ok blk (append_controller ?p ?t) (cs @ [?p])"
  proof -
    have keep: "ide_blocks (append_controller ?p ?t) = ide_blocks ?t" "ide_buf (append_controller ?p ?t) = ide_buf ?t"
      "ide_mallocs (append_controller ?p ?t) = ide_mallocs ?t" by (simp_all add: append_controller_def Let_def split: option.split)
    show ?thesis unfolding ide_ok_def keep using assms(3) by (auto simp: ide_ok_def lessThan_Suc)
  qed
  ultimately show ?thesis using run by blast
qed

lemma detect_devices_ok:
  assumes "inj blk" and "pci_host b cfg" and "drives_settle b" and "ide_ok blk s cs" and "controllers_are cfg garbage s cs locs"
    and "loc = (d_bus (dev_at ps (f_device (fun_at ps f))), d_number (dev_at ps (f_device (fun_at ps f))), f_number (fun_at ps f))"
  shows "\<exists>s' p. pci_ide_detect_devices b garbage sleep ps f s = ret s' \<and> ide_ok blk s' (cs @ [p]) \<and>
    controllers_are cfg garbage s' (cs @ [p]) (locs @ [loc])"
proof -
  obtain p t where t: "pci_ide_initialize_controller b garbage ps f s = ret (p, t)" "ide_ok blk (append_controller p t) (cs @ [p])"
    "controllers_are cfg garbage (append_controller p t) (cs @ [p]) (locs @ [loc])"
    using initialize_controller_ok [OF assms(1,2,4,5,6)] by blast
  let ?u = "print_line (''Detecting IDE drives...'' @ [CHR 0x0A]) [] (append_controller p t)"
  have "length (ide_buf ?u) = 1024" using t(2) by (simp add: ide_ok_def print_line_def)
  from detect_drives_ok [OF assms(3) this, of "''IDE Channel %i'' @ [CHR 0x0A]" "\<lambda>i. [Va_int (of_nat i)]" sleep "\<lambda>i s. channel (ctl_at s p) i"]
  obtain s' where s': "pci_ide_detect_devices b garbage sleep ps f s = ret s'" "only_drives (append_controller p t) s'"
    by (auto simp: pci_ide_detect_devices_def t(1) Let_def)
  with t(2,3) controllers_only_drives [OF s'(2)] show ?thesis by blast
qed

section \<open>The walk over the functions\<close>

text \<open>The functions among those enumerated that are IDE controllers, by bus, slot and number.\<close>

definition ide_locations :: "(u32 \<Rightarrow> u32) \<Rightarrow> device_info \<Rightarrow> (u8 \<times> u8 \<times> u8) list" where
  "ide_locations cfg info = (case info of (bus, slot, vendor, device, fis) \<Rightarrow>
     map (\<lambda>func. (bus, slot, func)) (filter (\<lambda>func. is_ide_class (class_of cfg bus slot func)) (map fst fis)))"

lemma fst_fun_info: "fst (fun_info ps f) = f_number (fun_at ps f)"
  by (simp add: fun_info_def Let_def)

lemma ide_functions_ok:
  assumes "inj blk" and "pci_host b cfg" and "drives_settle b"
    and "lseg (\<lambda>f. pci_enumerate_functions d (Some f) ps) cur fs None" and "\<forall>f \<in> set fs. f_device (fun_at ps f) = d"
    and "ide_ok blk s cs" and "controllers_are cfg garbage s cs locs"
  shows "\<exists>s' cs'. ide_functions b garbage sleep ps d cur s = ret s' \<and> ide_ok blk s' cs' \<and> controllers_are cfg garbage s' cs'
    (locs @ ide_locations cfg (d_bus (dev_at ps d), d_number (dev_at ps d), v, i, map (fun_info ps) fs))"
  using assms(4-)
proof (induction fs arbitrary: cur s cs locs)
  case Nil
  then show ?case by (subst ide_functions.simps) (auto simp: ide_locations_def)
next
  case (Cons f fs)
  let ?bus = "d_bus (dev_at ps d)" and ?slot = "d_number (dev_at ps d)" and ?func = "f_number (fun_at ps f)"
  have cur: "cur = Some f" and rest: "lseg (\<lambda>f. pci_enumerate_functions d (Some f) ps) (pci_enumerate_functions d (Some f) ps) fs None"
    and dev: "f_device (fun_at ps f) = d" "\<forall>f \<in> set fs. f_device (fun_at ps f) = d" using Cons.prems(1,2) by simp_all
  obtain c where cls: "pci_get_class_code b ?bus ?slot ?func (ide_hw s) = (class_of cfg ?bus ?slot ?func, c)"
    using host_reads(2) [OF assms(2)] by (metis prod.collapse)
  let ?s = "s\<lparr>ide_hw := c\<rparr>"
  have ok: "ide_ok blk ?s cs" "controllers_are cfg garbage ?s cs locs"
    using Cons.prems(3,4) controllers_only_drives [of s ?s] by simp_all
  show ?case
  proof (cases "is_ide_class (class_of cfg ?bus ?slot ?func)")
    case True
    obtain t p where t: "pci_ide_detect_devices b garbage sleep ps f ?s = ret t" "ide_ok blk t (cs @ [p])"
      "controllers_are cfg garbage t (cs @ [p]) (locs @ [(?bus, ?slot, ?func)])"
      using detect_devices_ok [OF assms(1-3) ok, of "(?bus, ?slot, ?func)" ps f sleep] dev(1) by auto
    show ?thesis using Cons.IH [OF rest dev(2) t(2,3)] cls True t(1)
      by (subst ide_functions.simps) (simp add: cur ide_locations_def fst_fun_info)
  next
    case False
    show ?thesis using Cons.IH [OF rest dev(2) ok] cls False
      by (subst ide_functions.simps) (simp add: cur ide_locations_def fst_fun_info)
  qed
qed

lemma ide_devices_ok:
  assumes "inj blk" and "pci_host b cfg" and "drives_settle b"
    and "lseg (\<lambda>d. pci_enumerate_devices (Some d) ps) cur ds None"
    and "list_all2 (\<lambda>d info. \<exists>fs. info = (d_bus (dev_at ps d), d_number (dev_at ps d), d_vendor_id (dev_at ps d),
         d_device_id (dev_at ps d), map (fun_info ps) fs) \<and>
       lseg (\<lambda>f. pci_enumerate_functions d (Some f) ps) (pci_enumerate_functions d None ps) fs None \<and>
       (\<forall>f \<in> set fs. f_device (fun_at ps f) = d)) ds infos"
    and "ide_ok blk s cs" and "controllers_are cfg garbage s cs locs"
  shows "\<exists>s' cs'. ide_devices b garbage sleep ps cur s = ret s' \<and> ide_ok blk s' cs' \<and>
    controllers_are cfg garbage s' cs' (locs @ concat (map (ide_locations cfg) infos))"
  using assms(4-)
proof (induction ds arbitrary: cur infos s cs locs)
  case Nil
  then show ?case by (subst ide_devices.simps) auto
next
  case (Cons d ds)
  obtain fs infos' where infos: "infos = (d_bus (dev_at ps d), d_number (dev_at ps d), d_vendor_id (dev_at ps d),
         d_device_id (dev_at ps d), map (fun_info ps) fs) # infos'"
    and fs: "lseg (\<lambda>f. pci_enumerate_functions d (Some f) ps) (pci_enumerate_functions d None ps) fs None"
      "\<forall>f \<in> set fs. f_device (fun_at ps f) = d" and infos': "list_all2 (\<lambda>d info. \<exists>fs. info = (d_bus (dev_at ps d), d_number (dev_at ps d), d_vendor_id (dev_at ps d),
         d_device_id (dev_at ps d), map (fun_info ps) fs) \<and>
       lseg (\<lambda>f. pci_enumerate_functions d (Some f) ps) (pci_enumerate_functions d None ps) fs None \<and>
       (\<forall>f \<in> set fs. f_device (fun_at ps f) = d)) ds infos'"
    using Cons.prems(2) unfolding list_all2_Cons1 by blast
  have cur: "cur = Some d" and rest: "lseg (\<lambda>d. pci_enumerate_devices (Some d) ps) (pci_enumerate_devices (Some d) ps) ds None"
    using Cons.prems(1) by simp_all
  obtain t cs' where t: "ide_functions b garbage sleep ps d (pci_enumerate_functions d None ps) s = ret t" "ide_ok blk t cs'"
    "controllers_are cfg garbage t cs' (locs @ ide_locations cfg (d_bus (dev_at ps d), d_number (dev_at ps d), d_vendor_id (dev_at ps d),
         d_device_id (dev_at ps d), map (fun_info ps) fs))"
    using ide_functions_ok [OF assms(1-3) fs Cons.prems(3,4)] by blast
  show ?case using Cons.IH [OF rest infos' t(2,3)] t(1) by (subst ide_devices.simps) (simp add: cur infos)
qed

section \<open>Compatibility ports and stuck drives\<close>

text \<open>A controller in compatibility mode has zero base address registers. The register table adds 2 to \<open>ctrl\<close>
  for the control register, so that the default \<^verbatim>\<open>0x3F6\<close>, which already is that register's port, sends what is
  meant for it to the first serial port, and that of the second channel to port \<^verbatim>\<open>0x378\<close>.\<close>

lemma compatibility_control_ports:
  "ide_port (init_channels 0 0 0 0 bar4 niens ! 0) ATA_REG_CONTROL = Some 0x3F8"
  "ide_port (init_channels 0 0 0 0 bar4 niens ! 1) ATA_REG_CONTROL = Some 0x378"
  by (simp_all add: ide_port_def init_channels_def ata_defs)

text \<open>In native mode the control register is the third port of the block that the second base address register names.\<close>

lemma native_control_port:
  "bar1 \<noteq> 0 \<Longrightarrow> ide_port (init_channels bar0 bar1 bar2 bar3 bar4 niens ! 0) ATA_REG_CONTROL = Some (ucast bar1 + 2)"
  by (simp add: ide_port_def init_channels_def ata_defs)

text \<open>A status register that reads busy for ever, as an empty bus does, keeps the driver waiting for ever.\<close>

lemma wait_ready_busy:
  fixes b :: "'a bus"
  assumes "\<And>c. fst (pci_ide_read b ch ATA_REG_STATUS c) = ATA_SR_BSY"
  shows "wait_ready b ch c = None"
proof -
  let ?P = "\<lambda>b' ch' c (y :: fault + bool \<times> 'a). \<not> (b' = b \<and> ch' = ch)"
  have "?P b' ch' c y" if returned: "wait_ready b' ch' c = Some y" for b' ch' c y
  proof (rule wait_ready.raw_induct [where P = ?P, OF _ returned], rule notI, elim conjE)
    fix f :: "'a bus \<Rightarrow> ide_channel \<Rightarrow> 'a \<Rightarrow> (bool \<times> 'a) run" and b' ch' c and y :: "fault + bool \<times> 'a"
    assume IH: "\<And>b' ch' c y. f b' ch' c = Some y \<Longrightarrow> ?P b' ch' c y"
      and body: "(let (status, c) = pci_ide_read b' ch' ATA_REG_STATUS c
        in if status AND ATA_SR_ERR \<noteq> 0 then ret (True, c)
           else if status AND ATA_SR_BSY = 0 \<and> status AND ATA_SR_DRQ \<noteq> 0 then ret (False, c) else f b' ch' c) = Some y"
      and at: "b' = b" "ch' = ch"
    obtain st c' where r: "pci_ide_read b ch ATA_REG_STATUS c = (st, c')" by fastforce
    with assms [of c] have "st = ATA_SR_BSY" by simp
    with body r at have "f b ch c' = Some y" by (simp add: ATA_SR_BSY_def ATA_SR_DRQ_def ATA_SR_ERR_def)
    with IH show False by blast
  qed
  then show ?thesis by (metis option.exhaust)
qed

lemma ide_initialize_ok:
  assumes "enumerates ps infos" and "pci_host b cfg" and "drives_settle b"
    and "inj blk" and "ide_blocks s = (\<lambda>n. Some (blk n))" and "length (ide_buf s) = 1024"
  shows "\<exists>s' cs. pci_ide_initialize b garbage sleep ps s = ret s' \<and>
    controllers_are cfg garbage s' cs (concat (map (ide_locations cfg) infos))"
proof -
  let ?s = "s\<lparr>ide_controllers := None, ide_controllers_tail := None\<rparr>"
  have "ide_ok blk ?s []" "controllers_are cfg garbage ?s [] []" using assms(5,6) by (simp_all add: ide_ok_def controllers_are_def)
  with assms(1) ide_devices_ok [OF assms(4,2,3), of ps _ _ _ ?s "[]" garbage "[]" sleep]
  show ?thesis by (fastforce simp: enumerates_def pci_ide_initialize_def)
qed

section \<open>Properties\<close>


text \<open>A machine whose only device is a PIIX3 IDE controller in compatibility mode; every drive reports an error
  and is neither an ATA nor an ATAPI drive.\<close>

definition ide_machine :: "u32 \<Rightarrow> u32" where
  "ide_machine a = (if a = 0x80000000 then 0x70108086 else if a = 0x80000008 then 0x01018000
     else if a = 0x80000020 then 0xC041 else if a \<in> {0x8000000C, 0x80000010, 0x80000014, 0x80000018, 0x8000001C} then 0 else 0xFFFFFFFF)"

definition ide_bus :: "u32 bus" where
  "ide_bus = (config_bus ide_machine)\<lparr>in8 := (\<lambda>port c. (1, c))\<rparr>"

definition ide_blank :: "u32 ide" where
  "ide_blank = \<lparr>ide_buf = replicate 1024 0, ide_controllers = None, ide_controllers_tail = None,
     ctl_at = (\<lambda>_. \<lparr>ic_prev = None, ic_next = None, ic_channels = []\<rparr>), ide_blocks = (\<lambda>n. Some (64 * n)), ide_mallocs = 0,
     ide_hw = 0, ide_out = []\<rparr>"

lemma ide_machine_increase: "bridges_increase ide_machine"
proof -
  have "\<not> (class_part w = 6 \<and> subclass_part w = 4)" if "w \<in> {0x70108086, 0x01018000, 0xC041, 0, 0xFFFFFFFF}" for w
    using that by (auto simp: class_part_def subclass_part_def)
  moreover have "class_of ide_machine bus slot f \<in> {0x70108086, 0x01018000, 0xC041, 0, 0xFFFFFFFF}" for bus slot f
    by (simp add: class_of_def ide_machine_def)
  ultimately have "\<not> is_bridge ide_machine bus slot f" for bus slot f unfolding is_bridge_def Let_def by blast
  then show ?thesis by (simp add: bridges_increase_def)
qed

lemma ide_bus_settles: "drives_settle ide_bus"
proof -
  have "pci_ide_read ide_bus ch ATA_REG_STATUS c = (1, c)" for ch c
    by (simp add: pci_ide_read_def with_second_set_def ide_port_def ata_defs ide_bus_def config_bus_def inb_def)
  then have "wait_ready ide_bus ch c = ret (True, c)" for ch c
    by (subst wait_ready.simps) (simp add: ATA_SR_ERR_def)
  then show ?thesis unfolding drives_settle_def by blast
qed


end
