(* ===== verification/Kernel_Main.thy ===== *)
theory Kernel_Main
  imports Boot Ide
begin

text \<open>
  \<open>kernel_main\<close> (\<^verbatim>\<open>kernel/kernel.c\<close>) and the later levels of initialisation functions (\<^verbatim>\<open>initcall.c\<close>): ACPI, the scheduler and its
  first two threads, PCI, the bus, file system and device functions, and the exit of the task that booted. The state adds to that of
  \<^verbatim>\<open>Boot\<close> the PCI and IDE drivers, whose blocks of memory are supplies of their own, the console and the output of \<open>printf\<close>. What
  the IDE driver's sleeping does to the devices is an argument; that sleeping tasks come back is shown in \<^verbatim>\<open>Sched_System\<close>.
\<close>

section \<open>State\<close>

datatype device_call = Pci_ide_initialize

record 'c system =
  sy_boot :: "'c boot"
  sy_pci :: pci
  sy_ide :: "'c ide"
  sy_console :: boot_console
  sy_out :: "printf_call list"

text \<open>\<open>old_nien\<close> is what new channel structures hold, \<open>sleeping\<close> what the devices do during \<open>scheduler_sleep(1)\<close>.\<close>

record 'c main_env = "'c env" +
  device_calls :: "u32 \<Rightarrow> device_call"
  old_nien :: "nat \<Rightarrow> u8 \<times> u8"
  sleeping :: "'c \<Rightarrow> 'c"
  silent :: bool
  kernel_idle_entry :: u32
  kash_main_entry :: u32

definition print_calls :: "printf_call list \<Rightarrow> 'c system \<Rightarrow> 'c system" where
  "print_calls ls s = s\<lparr>sy_out := sy_out s @ ls\<rparr>"

definition sys_sched :: "'c system \<Rightarrow> sched" where
  "sys_sched s = k_sched (bt_kernel (sy_boot s))"

definition set_sched :: "sched \<Rightarrow> 'c system \<Rightarrow> 'c system" where
  "set_sched sch s = s\<lparr>sy_boot := (sy_boot s)\<lparr>bt_kernel := (bt_kernel (sy_boot s))\<lparr>k_sched := sch\<rparr>\<rparr>\<rparr>"

definition sys_malloc :: "u32 \<Rightarrow> 'c system \<Rightarrow> (nat option \<times> 'c system) run" where
  "sys_malloc n s = run_bind (heap_malloc n (sy_boot s)) (\<lambda>(p, b). ret (p, s\<lparr>sy_boot := b\<rparr>))"

section \<open>Operations\<close>

definition sizeof_task :: u32 where
  "sizeof_task = 56"

definition main_scheduler_initialize :: "'c system \<Rightarrow> 'c system run" where
  "main_scheduler_initialize s =
     run_bind (sys_malloc sizeof_task s) (\<lambda>(p, s).
     run_bind (scheduler_initialize p (sys_sched s)) (\<lambda>sch. ret (set_sched sch s)))"

definition main_create_thread :: "string \<Rightarrow> u32 \<Rightarrow> 'c system \<Rightarrow> 'c system run" where
  "main_create_thread name entry_point s =
     run_bind (sys_malloc 4096 s) (\<lambda>(stack, s).
     run_bind (sys_malloc sizeof_task s) (\<lambda>(p, s).
     run_bind (scheduler_create_thread p (case stack of None \<Rightarrow> 0 | Some a \<Rightarrow> of_nat a) name entry_point (sys_sched s)) (\<lambda>sch.
     ret (set_sched sch s))))"

definition main_console_debug :: "'c main_env \<Rightarrow> 'c system \<Rightarrow> 'c system run" where
  "main_console_debug e s = (case sy_console s of
     Null_console x \<Rightarrow> run_bind (console_debug null_console_redraw x) (\<lambda>x. ret (s\<lparr>sy_console := Null_console x\<rparr>))
   | Vga_console x \<Rightarrow> run_bind (console_debug vga_console_redraw x) (\<lambda>x. ret (s\<lparr>sy_console := Vga_console x\<rparr>))
   | Fb_console x \<Rightarrow> run_bind (console_debug (fb_console_redraw (console_font e)) x) (\<lambda>x. ret (s\<lparr>sy_console := Fb_console x\<rparr>)))"

definition main_pci_init :: "'c main_env \<Rightarrow> 'c system \<Rightarrow> 'c system run" where
  "main_pci_init e s =
     run_bind (pci_init (ports e) (sy_pci s, k_devices (bt_kernel (sy_boot s)))) (\<lambda>(ps, c, ls).
     ret (print_calls ls (s\<lparr>sy_pci := ps, sy_boot := set_devices c (sy_boot s)\<rparr>)))"

definition run_device_call :: "'c main_env \<Rightarrow> device_call \<Rightarrow> 'c system \<Rightarrow> 'c system run" where
  "run_device_call e call s = (case call of
     Pci_ide_initialize \<Rightarrow>
       run_bind (pci_ide_initialize (ports e) (old_nien e) (sleeping e) (sy_pci s)
         ((sy_ide s)\<lparr>ide_hw := k_devices (bt_kernel (sy_boot s))\<rparr>)) (\<lambda>i.
       ret (s\<lparr>sy_ide := i, sy_boot := set_devices (ide_hw i) (sy_boot s)\<rparr>)))"

definition invoke_initcall2 :: "'c main_env \<Rightarrow> 'c system \<Rightarrow> 'c system run" where
  "invoke_initcall2 e = invoke_loop (device_calls e) (run_device_call e) (initcall_start e 2) (initcall_end e 2)"

definition invoke_initcall3 :: "'c main_env \<Rightarrow> 'c system \<Rightarrow> 'c system run" where
  "invoke_initcall3 e = invoke_loop (device_calls e) (run_device_call e) (initcall_start e 3) (initcall_end e 3)"

definition invoke_initcall4 :: "'c main_env \<Rightarrow> 'c system \<Rightarrow> 'c system run" where
  "invoke_initcall4 e = invoke_loop (device_calls e) (run_device_call e) (initcall_start e 4) (initcall_end e 4)"

definition kernel_main :: "'c main_env \<Rightarrow> string option \<Rightarrow> 'c system \<Rightarrow> 'c system run" where
  "kernel_main e cmdline s =
     (let s = (if silent e then s
               else print_calls [([CHR 0x1B] @ ''[44;37;1mIKAROS v0.1'' @ [CHR 0x1B] @ ''[K'' @ [CHR 0x1B] @ ''[40;37m'', []),
                 (''Command Line: %s'' @ [CHR 0x0A], [Va_str cmdline])] s)
      in run_bind (acpi_init (memory e) (bt_acpi (sy_boot s))) (\<lambda>ls.
         run_bind (main_scheduler_initialize (print_calls ls s)) (\<lambda>s.
         run_bind (main_create_thread ''idle'' (kernel_idle_entry e) s) (\<lambda>s.
         run_bind (main_console_debug e s) (\<lambda>s.
         run_bind (main_pci_init e s) (\<lambda>s.
         run_bind (invoke_initcall2 e s) (\<lambda>s.
         run_bind (invoke_initcall3 e s) (\<lambda>s.
         run_bind (invoke_initcall4 e s) (\<lambda>s.
         run_bind (main_create_thread ''kash'' (kash_main_entry e) s) (\<lambda>s.
         run_bind (scheduler_exit (sys_sched s)) (\<lambda>sch. ret (set_sched sch s))))))))))))"

section \<open>Allocations and threads\<close>

text \<open>Only the heap, the scheduler, the devices, the drivers and the output may change; here: what the steps before the drivers keep.\<close>

definition sys_keys :: "'c system \<Rightarrow> kb" where
  "sys_keys s = k_keys (bt_kernel (sy_boot s))"

definition same_drivers :: "'c system \<Rightarrow> 'c system \<Rightarrow> bool" where
  "same_drivers s s' \<longleftrightarrow> sys_keys s' = sys_keys s \<and> sy_pci s' = sy_pci s \<and> sy_ide s' = sy_ide s \<and> sy_console s' = sy_console s"

lemma sys_simps [simp]:
  "sys_sched (set_sched sch s) = sch" "bt_heap (sy_boot (set_sched sch s)) = bt_heap (sy_boot s)"
  "same_drivers s (set_sched sch s') = same_drivers s s'" "same_drivers s s"
  "sys_sched (print_calls ls s) = sys_sched s" "sy_boot (print_calls ls s) = sy_boot s" "same_drivers (print_calls ls s) s' = same_drivers s s'"
  "bt_acpi (sy_boot (set_sched sch s)) = bt_acpi (sy_boot s)"
  by (simp_all add: sys_sched_def set_sched_def print_calls_def same_drivers_def sys_keys_def)

text \<open>A block is new: it lies between the end of the used heap before and after.\<close>

lemma sys_malloc_ready:
  assumes "heap_ready h (16 + rounded n + r) (bt_heap (sy_boot s))" and "unat n + 31 < 2 ^ 32" and "0 < unat n"
  shows "\<exists>p s'. sys_malloc n s = ret (Some p, s') \<and> heap_ready h r (bt_heap (sy_boot s')) \<and> sys_sched s' = sys_sched s \<and> same_drivers s s' \<and>
    unat (kernel_heap (bt_heap (sy_boot s))) \<le> p \<and> p < unat (kernel_heap (bt_heap (sy_boot s')))"
proof -
  from heap_malloc_ready [OF assms(1,2)] obtain p h' where "heap_malloc n (sy_boot s) = ret (Some p, (sy_boot s)\<lparr>bt_heap := h'\<rparr>)"
    "heap_ready h r h'" "unat (kernel_heap (bt_heap (sy_boot s))) \<le> p" "p + rounded n = unat (kernel_heap h')" by blast
  moreover have "0 < rounded n" using assms(3) by (simp add: div_greater_zero_iff)
  ultimately show ?thesis by (auto simp: sys_malloc_def sys_sched_def same_drivers_def sys_keys_def)
qed

lemma scheduler_initialize_ready:
  assumes "heap_ready h (80 + r) (bt_heap (sy_boot s))"
  shows "\<exists>s' main. main_scheduler_initialize s = ret s' \<and> heap_ready h r (bt_heap (sy_boot s')) \<and> same_drivers s s' \<and>
    ring (sys_sched s') [main] \<and> running_task (sys_sched s') = Some main \<and> runnable (sys_sched s') main \<and>
    main < unat (kernel_heap (bt_heap (sy_boot s'))) \<and> timer_queue (sys_sched s') = None"
proof -
  have "heap_ready h (16 + rounded sizeof_task + r) (bt_heap (sy_boot s))" using assms by (simp add: sizeof_task_def)
  from sys_malloc_ready [OF this] obtain p s1 where s1: "sys_malloc sizeof_task s = ret (Some p, s1)" "heap_ready h r (bt_heap (sy_boot s1))"
    "same_drivers s s1" "p < unat (kernel_heap (bt_heap (sy_boot s1)))" by (auto simp: sizeof_task_def)
  let ?sch = "(upd_task p (\<lambda>k. k\<lparr>t_next := Some p\<rparr>) (upd_task p (\<lambda>_. \<lparr>t_regs = no_regs\<lparr>cr3_reg := cr3_reg (cpu (sys_sched s1)),
      eflags := eflags (cpu (sys_sched s1))\<rparr>, t_next = None, t_name = [], t_state = TASK_RUNNING\<rparr>) (wait_queue_init (sys_sched s1))))
      \<lparr>tasks := Some p, tasks_tail := Some p, running_task := Some p\<rparr>"
  have "scheduler_initialize (Some p) (sys_sched s1) = ret ?sch"
    by (simp add: scheduler_initialize_def task_wrap_def wait_queue_init_def)
  moreover have "ring ?sch [p]" "runnable ?sch p" "timer_queue ?sch = None" by (simp_all add: ring_def runnable_def wait_queue_init_def)
  ultimately show ?thesis using s1 by (intro exI [of _ "set_sched ?sch s1"] exI [of _ p]) (simp add: main_scheduler_initialize_def)
qed

lemma create_thread_ready:
  assumes "heap_ready h (4192 + r) (bt_heap (sy_boot s))" and "ring (sys_sched s) ts"
    and "\<forall>t \<in> set ts. t < unat (kernel_heap (bt_heap (sy_boot s)))"
  shows "\<exists>s' t. main_create_thread name ep s = ret s' \<and> heap_ready h r (bt_heap (sy_boot s')) \<and> same_drivers s s' \<and>
    t \<notin> set ts \<and> ring (sys_sched s') (ts @ [t]) \<and> running_task (sys_sched s') = running_task (sys_sched s) \<and> runnable (sys_sched s') t \<and>
    eip (t_regs (task_at (sys_sched s') t)) = ep \<and> (\<forall>u. u \<noteq> t \<longrightarrow> runnable (sys_sched s') u = runnable (sys_sched s) u \<and>
      t_regs (task_at (sys_sched s') u) = t_regs (task_at (sys_sched s) u)) \<and>
    (\<forall>u \<in> set (ts @ [t]). u < unat (kernel_heap (bt_heap (sy_boot s')))) \<and> timer_queue (sys_sched s') = timer_queue (sys_sched s)"
proof -
  let ?k = "\<lambda>s. unat (kernel_heap (bt_heap (sy_boot s)))"
  have "heap_ready h (16 + rounded 4096 + (80 + r)) (bt_heap (sy_boot s))" using assms(1) by simp
  from sys_malloc_ready [OF this] obtain p s1 where s1: "sys_malloc 4096 s = ret (Some p, s1)" "heap_ready h (80 + r) (bt_heap (sy_boot s1))"
    "sys_sched s1 = sys_sched s" "same_drivers s s1" "?k s \<le> p" "p < ?k s1" by auto
  have "heap_ready h (16 + rounded sizeof_task + r) (bt_heap (sy_boot s1))" using s1(2) by (simp add: sizeof_task_def)
  from sys_malloc_ready [OF this] obtain t s2 where s2: "sys_malloc sizeof_task s1 = ret (Some t, s2)" "heap_ready h r (bt_heap (sy_boot s2))"
    "sys_sched s2 = sys_sched s1" "same_drivers s1 s2" "?k s1 \<le> t" "t < ?k s2" by (auto simp: sizeof_task_def)
  have new: "t \<notin> set ts" using assms(3) s1(5,6) s2(5) by fastforce
  obtain sch where sch: "scheduler_create_thread (Some t) (of_nat p) name ep (sys_sched s) = ret sch" "ring sch (ts @ [t])" "runnable sch t"
    "eip (t_regs (task_at sch t)) = ep" "running_task sch = running_task (sys_sched s)"
    "\<forall>u. u \<noteq> t \<longrightarrow> runnable sch u = runnable (sys_sched s) u \<and> t_regs (task_at sch u) = t_regs (task_at (sys_sched s) u)"
    "timer_queue sch = timer_queue (sys_sched s)"
    using create_thread_ring [OF assms(2) new] by blast
  have "main_create_thread name ep s = ret (set_sched sch s2)"
    using s1(1,3) s2(1,3) sch(1) by (simp add: main_create_thread_def)
  moreover have "\<forall>u \<in> set (ts @ [t]). u < ?k s2" using assms(3) s1(5,6) s2(5,6) by fastforce
  moreover have "same_drivers s s2" using s1(4) s2(4) by (simp add: same_drivers_def)
  ultimately show ?thesis using s2(2) new sch by (intro exI [of _ "set_sched sch s2"] exI [of _ t]) simp
qed

section \<open>Console and drivers\<close>

definition console_ok :: "psf_font \<Rightarrow> boot_console \<Rightarrow> bool" where
  "console_ok font con = (case con of Null_console x \<Rightarrow> True | Vga_console x \<Rightarrow> True
     | Fb_console (c, fb) \<Rightarrow> cons_inv c \<and> (\<exists>table. fb_ok (rows c) (columns c) font table fb))"

lemma console_debug_returns:
  assumes "console_ok (console_font e) (sy_console s)"
  shows "\<exists>con. main_console_debug e s = ret (s\<lparr>sy_console := con\<rparr>)"
proof (cases "sy_console s")
  case (Null_console x)
  then show ?thesis by (auto simp: main_console_debug_def console_debug_def null_console_redraw_def split: prod.split)
next
  case (Vga_console x)
  then show ?thesis by (auto simp: main_console_debug_def console_debug_def vga_console_redraw_def Let_def split: prod.split)
next
  case (Fb_console x)
  obtain c fb where x: "x = (c, fb)" by (cases x)
  then obtain table where "cons_inv c" "fb_ok (rows c) (columns c) (console_font e) table fb"
    using assms Fb_console by (auto simp: console_ok_def)
  then obtain fb' where "fb_console_redraw (console_font e) c fb = ret fb'" using fb_redraw_shows by blast
  then show ?thesis using Fb_console x by (auto simp: main_console_debug_def console_debug_def)
qed

definition device_table :: "'c main_env \<Rightarrow> nat \<Rightarrow> device_call list \<Rightarrow> bool" where
  "device_table e n cs \<longleftrightarrow> length cs < 2 ^ 30 \<and> initcall_end e n = initcall_start e n + 4 * of_nat (length cs) \<and>
     (\<forall>i < length cs. device_calls e (initcall_start e n + 4 * of_nat i) = cs ! i)"

lemma invoke_device_table:
  assumes "device_table e n cs"
  shows "invoke_loop (device_calls e) call (initcall_start e n) (initcall_end e n) s = run_for cs call s"
  using assms by (intro invoke_loop_table) (simp_all add: device_table_def)

lemma devices_sched [simp]:
  "bt_heap (set_devices c b) = bt_heap b" "k_sched (bt_kernel (set_devices c b)) = k_sched (bt_kernel b)"
  "k_keys (bt_kernel (set_devices c b)) = k_keys (bt_kernel b)"
  by (simp_all add: set_devices_def)

text \<open>The steps between the creation of the two threads: they leave heap and tasks alone.\<close>

lemma drivers_run:
  assumes "device_table e 2 []" and "device_table e 3 []" and "device_table e 4 [Pci_ide_initialize]"
    and "console_ok (console_font e) (sy_console s)"
    and "inj blk" and "blocks (sy_pci s) = (\<lambda>n. Some (blk n))" and "pci_host (ports e) cfg" and "bridges_increase cfg"
    and "drives_settle (ports e)" and "inj blk'" and "ide_blocks (sy_ide s) = (\<lambda>n. Some (blk' n))" and "length (ide_buf (sy_ide s)) = 1024"
  shows "\<exists>s' cs. (\<forall>k. run_bind (main_console_debug e s) (\<lambda>s. run_bind (main_pci_init e s) (\<lambda>s. run_bind (invoke_initcall2 e s) (\<lambda>s.
      run_bind (invoke_initcall3 e s) (\<lambda>s. run_bind (invoke_initcall4 e s) k)))) = k s') \<and>
    bt_heap (sy_boot s') = bt_heap (sy_boot s) \<and> sys_sched s' = sys_sched s \<and> sys_keys s' = sys_keys s \<and> enumerates (sy_pci s') (expected cfg) \<and>
    controllers_are cfg (old_nien e) (sy_ide s') cs (concat (map (ide_locations cfg) (expected cfg)))"
proof -
  have nil: "run_for [] (run_device_call e) = ret" by (simp add: fun_eq_iff)
  have calls: "invoke_initcall2 e = ret" "invoke_initcall3 e = ret" "invoke_initcall4 e = run_device_call e Pci_ide_initialize"
    using invoke_device_table [OF assms(1)] invoke_device_table [OF assms(2)] invoke_device_table [OF assms(3), of "run_device_call e"]
    by (auto simp: invoke_initcall2_def invoke_initcall3_def invoke_initcall4_def fun_eq_iff nil run_bind_ret_right)
  obtain con where con: "main_console_debug e s = ret (s\<lparr>sy_console := con\<rparr>)" using console_debug_returns [OF assms(4)] by blast
  obtain ps c ls where pci: "pci_init (ports e) (sy_pci s, k_devices (bt_kernel (sy_boot s))) = ret (ps, c, ls)" "enumerates ps (expected cfg)"
    using pci_enumerated [OF assms(5-8)] by blast
  define t where "t = print_calls ls (s\<lparr>sy_console := con, sy_pci := ps, sy_boot := set_devices c (sy_boot s)\<rparr>)"
  have t: "main_pci_init e (s\<lparr>sy_console := con\<rparr>) = ret t" using pci(1) by (simp add: main_pci_init_def t_def)
  have sel: "sy_pci t = ps" "sy_ide t = sy_ide s" "bt_heap (sy_boot t) = bt_heap (sy_boot s)" "sys_sched t = sys_sched s" "sys_keys t = sys_keys s"
    by (simp_all add: t_def print_calls_def sys_sched_def sys_keys_def)
  let ?i = "(sy_ide t)\<lparr>ide_hw := k_devices (bt_kernel (sy_boot t))\<rparr>"
  obtain i cs where i: "pci_ide_initialize (ports e) (old_nien e) (sleeping e) (sy_pci t) ?i = ret i"
    "controllers_are cfg (old_nien e) i cs (concat (map (ide_locations cfg) (expected cfg)))"
    using ide_initialize_ok [OF pci(2) assms(7,9,10), of ?i "old_nien e" "sleeping e"] assms(11,12) sel by auto
  let ?s = "t\<lparr>sy_ide := i, sy_boot := set_devices (ide_hw i) (sy_boot t)\<rparr>"
  have "run_device_call e Pci_ide_initialize t = ret ?s" using i(1) by (simp add: run_device_call_def)
  moreover have "sys_sched ?s = sys_sched s" "sys_keys ?s = sys_keys s" using sel by (simp_all add: sys_sched_def sys_keys_def)
  ultimately show ?thesis using con t i(2) sel pci(2) by (intro exI [of _ ?s] exI [of _ cs]) (simp add: calls)
qed

text \<open>What \<open>kernel_main\<close> needs: room for 8464 bytes on the heap, an ACPI root pointer, a working console, the IDE driver as the
  only function of the later tables, blocks for the structures of the PCI and IDE drivers, a host bridge with the configuration
  space \<open>cfg\<close> whose bridges lead to larger bus numbers, and drives that answer.\<close>

definition main_ready :: "'c main_env \<Rightarrow> 'c system \<Rightarrow> (u32 \<Rightarrow> u32) \<Rightarrow> bool" where
  "main_ready e s cfg \<longleftrightarrow> heap_inv (bt_heap (sy_boot s)) \<and> free_list (bt_heap (sy_boot s)) = 0 \<and>
     unat (kernel_heap (bt_heap (sy_boot s))) + 8464 \<le> heap_limit (bt_heap (sy_boot s)) \<and>
     the_rsdp (bt_acpi (sy_boot s)) \<noteq> None \<and> console_ok (console_font e) (sy_console s) \<and>
     device_table e 2 [] \<and> device_table e 3 [] \<and> device_table e 4 [Pci_ide_initialize] \<and>
     (\<exists>blk. inj blk \<and> blocks (sy_pci s) = (\<lambda>n. Some (blk n))) \<and> pci_host (ports e) cfg \<and> bridges_increase cfg \<and>
     drives_settle (ports e) \<and> (\<exists>blk. inj blk \<and> ide_blocks (sy_ide s) = (\<lambda>n. Some (blk n))) \<and> length (ide_buf (sy_ide s)) = 1024"

lemma kernel_main_run:
  fixes e :: "'c main_env"
  assumes "main_ready e s cfg"
  shows "\<exists>s' idle kash cs. kernel_main e cmdline s = ret s' \<and>
    ring (sys_sched s') [idle, kash] \<and> running_task (sys_sched s') = Some idle \<and>
    runnable (sys_sched s') idle \<and> runnable (sys_sched s') kash \<and>
    eip (cpu (sys_sched s')) = kernel_idle_entry e \<and> eip (t_regs (task_at (sys_sched s') kash)) = kash_main_entry e \<and>
    enumerates (sy_pci s') (expected cfg) \<and>
    controllers_are cfg (old_nien e) (sy_ide s') cs (concat (map (ide_locations cfg) (expected cfg))) \<and>
    sys_keys s' = sys_keys s \<and> timer_queue (sys_sched s') = None"
proof -
  obtain rsdp blk blk' where "heap_inv (bt_heap (sy_boot s))" "free_list (bt_heap (sy_boot s)) = 0"
    "unat (kernel_heap (bt_heap (sy_boot s))) + 8464 \<le> heap_limit (bt_heap (sy_boot s))"
    "the_rsdp (bt_acpi (sy_boot s)) = Some rsdp" "console_ok (console_font e) (sy_console s)"
    "device_table e 2 []" "device_table e 3 []" "device_table e 4 [Pci_ide_initialize]"
    "inj blk" "blocks (sy_pci s) = (\<lambda>n. Some (blk n))" "pci_host (ports e) cfg" "bridges_increase cfg"
    "drives_settle (ports e)" "inj blk'" "ide_blocks (sy_ide s) = (\<lambda>n. Some (blk' n))" "length (ide_buf (sy_ide s)) = 1024"
    using assms unfolding main_ready_def by blast
  note ready = this
  define s0 where "s0 = (if silent e then s
    else print_calls [([CHR 0x1B] @ ''[44;37;1mIKAROS v0.1'' @ [CHR 0x1B] @ ''[K'' @ [CHR 0x1B] @ ''[40;37m'', []),
      (''Command Line: %s'' @ [CHR 0x0A], [Va_str cmdline])] s)"
  have s0: "sy_boot s0 = sy_boot s" "same_drivers s s0" by (simp_all add: s0_def print_calls_def same_drivers_def sys_keys_def)
  obtain ls where acpi: "acpi_init (memory e) (bt_acpi (sy_boot s0)) = ret ls" using ready(4) s0(1) by (simp add: acpi_init_def acpi_get_rsdp_def)
  let ?h = "bt_heap (sy_boot s)"
  have "heap_ready ?h (80 + (4192 + 4192)) (bt_heap (sy_boot (print_calls ls s0)))"
    using ready(1-3) s0(1) by (simp add: heap_ready_def grown_refl)
  from scheduler_initialize_ready [OF this] obtain s1 main where s1: "main_scheduler_initialize (print_calls ls s0) = ret s1"
    "heap_ready ?h (4192 + 4192) (bt_heap (sy_boot s1))" "same_drivers (print_calls ls s0) s1" "ring (sys_sched s1) [main]"
    "running_task (sys_sched s1) = Some main" "main < unat (kernel_heap (bt_heap (sy_boot s1)))" "timer_queue (sys_sched s1) = None" by blast
  have "\<forall>t \<in> set [main]. t < unat (kernel_heap (bt_heap (sy_boot s1)))" using s1(6) by simp
  from create_thread_ready [OF s1(2,4) this, of "''idle''" "kernel_idle_entry e"] obtain s2 idle where
    s2: "main_create_thread ''idle'' (kernel_idle_entry e) s1 = ret s2"
    "heap_ready ?h 4192 (bt_heap (sy_boot s2))" "same_drivers s1 s2" "ring (sys_sched s2) ([main] @ [idle])" "running_task (sys_sched s2) = Some main"
    "runnable (sys_sched s2) idle" "eip (t_regs (task_at (sys_sched s2) idle)) = kernel_idle_entry e" "idle \<notin> set [main]"
    "\<forall>u \<in> set ([main] @ [idle]). u < unat (kernel_heap (bt_heap (sy_boot s2)))" "timer_queue (sys_sched s2) = timer_queue (sys_sched s1)"
    using s1(5) by metis
  have drv: "sy_pci s2 = sy_pci s" "sy_ide s2 = sy_ide s" "sy_console s2 = sy_console s" "sys_keys s2 = sys_keys s"
    using s0(2) s1(3) s2(3) by (simp_all add: same_drivers_def print_calls_def sys_keys_def)
  obtain s3 cs where s3: "\<And>k :: 'c system \<Rightarrow> 'c system run. run_bind (main_console_debug e s2) (\<lambda>s. run_bind (main_pci_init e s) (\<lambda>s. run_bind (invoke_initcall2 e s) (\<lambda>s.
      run_bind (invoke_initcall3 e s) (\<lambda>s. run_bind (invoke_initcall4 e s) k)))) = k s3"
    "bt_heap (sy_boot s3) = bt_heap (sy_boot s2)" "sys_sched s3 = sys_sched s2" "enumerates (sy_pci s3) (expected cfg)"
    "controllers_are cfg (old_nien e) (sy_ide s3) cs (concat (map (ide_locations cfg) (expected cfg)))"
    "sys_keys s3 = sys_keys s2"
    using drivers_run [OF ready(6-8), of s2 blk cfg blk'] ready(5,9-16) drv by auto
  from create_thread_ready [of ?h 0 s3 "[main] @ [idle]" "''kash''" "kash_main_entry e"] s2(2,4,5,9) s3(2,3) obtain s4 kash where
    s4: "main_create_thread ''kash'' (kash_main_entry e) s3 = ret s4" "same_drivers s3 s4" "kash \<notin> set ([main] @ [idle])"
    "ring (sys_sched s4) (([main] @ [idle]) @ [kash])" "running_task (sys_sched s4) = Some main" "runnable (sys_sched s4) kash"
    "eip (t_regs (task_at (sys_sched s4) kash)) = kash_main_entry e"
    "\<forall>u. u \<noteq> kash \<longrightarrow> runnable (sys_sched s4) u = runnable (sys_sched s3) u \<and> t_regs (task_at (sys_sched s4) u) = t_regs (task_at (sys_sched s3) u)"
    "timer_queue (sys_sched s4) = timer_queue (sys_sched s3)"
    by auto
  obtain sch where sch: "scheduler_exit (sys_sched s4) = ret sch" "running_task sch = Some idle" "ring sch [idle, kash]"
    "\<forall>u. t_state (task_at sch u) = t_state (task_at (sys_sched s4) u)" "cpu sch = t_regs (task_at (sys_sched s4) idle)"
    "\<forall>u. u \<noteq> main \<longrightarrow> t_regs (task_at sch u) = t_regs (task_at (sys_sched s4) u)"
    "timer_queue sch = timer_queue (sys_sched s4)"
    using exit_ring [OF s4(4,5)] after_split [of main "[]" "[idle, kash]"] by auto
  have "kernel_main e cmdline s = ret (set_sched sch s4)"
    unfolding kernel_main_def Let_def s0_def [symmetric] acpi run_bind_simps s1(1) s2(1) s3(1) s4(1) sch(1) ..
  moreover have "kash \<noteq> main" "kash \<noteq> idle" using s4(3) by simp_all
  moreover have "sys_keys (set_sched sch s4) = sys_keys s" using s4(2) s3(6) drv(4) by (simp add: same_drivers_def sys_keys_def set_sched_def)
  moreover have "timer_queue sch = None" using sch(7) s4(9) s3(3) s2(10) s1(7) by simp
  ultimately show ?thesis using sch(2-6) s4(2-8) s3(2-5) s2(6,7)
    by (intro exI [of _ "set_sched sch s4"] exI [of _ idle] exI [of _ kash] exI [of _ cs])
      (simp add: runnable_def same_drivers_def set_sched_def sys_sched_def)
qed

section \<open>Properties\<close>


text \<open>The machine with one IDE controller of \<^verbatim>\<open>Ide\<close>, a null console and a heap of 64 pages.\<close>

definition ide_env :: "u32 main_env" where
  "ide_env = \<lparr>pagedir = 0xC0101000, pagetb1 = 0xC0102000, kernel_start = 0xC0100000, kernel_end = 0xC0180123, tss_addr = 0xC0171000,
     gdt_addr = 0xC0172000, idt_addr = 0xC0173000, irq_stub = (\<lambda>n. 0), int_stub = (\<lambda>n. 0),
     rsd_literal = 0xC0160000, console_font = small_font, initcalls = (\<lambda>a. pc_initcalls ! unat ((a - 0xC0170000) div 4)),
     initcall_start = (\<lambda>n. if n = 0 then 0xC0170000 else if n = 1 then 0xC0170014 else 0xC0170020),
     initcall_end = (\<lambda>n. if n = 0 then 0xC0170014 else if n = 4 then 0xC0170024 else 0xC0170020),
     debug_serial = False, memory = (\<lambda>_. 0), ports = ide_bus, ticks_in = (\<lambda>n. if n < 100000 then 0 else 1), calibrating = id,
     calibration_ticks = 40, old_cells = (\<lambda>n. replicate n \<lparr>cc_ch = 0, cc_attrs = 0\<rparr>), old_bytes = (\<lambda>n. replicate n 0),
     old_stack = replicate 64 0, vga_memory = (\<lambda>n. replicate n \<lparr>cc_ch = 0, cc_attrs = 0\<rparr>), pixels = (\<lambda>n. replicate n 0),
     device_calls = (\<lambda>_. Pci_ide_initialize), old_nien = (\<lambda>_. (0, 0)), sleeping = id, silent = False,
     kernel_idle_entry = 0xC0104000, kash_main_entry = 0xC0105000\<rparr>"

definition ide_system :: "u32 system" where
  "ide_system = \<lparr>sy_boot = \<lparr>bt_map = memory_map_bss, bt_heap = boot_heap, bt_mmio = \<lparr>mmio_start = 0, mmio_limit = 0, mmio_ptr = 0\<rparr>,
       bt_serial = \<lparr>device_head = None, serial_at = (\<lambda>_. \<lparr>sd_next = None, sd_driver = pc_serial_debug_driver ide_bus, sd_private = 0\<rparr>)\<rparr>,
       bt_font = None, bt_gdt = None, bt_irq = None, bt_acpi = \<lparr>rsdp_searched = 1, the_rsdp = Some 0xC00E0000\<rparr>, bt_lpj = 0,
       bt_kernel = \<lparr>k_sched = three_tasks, k_keys = kb_fresh, k_keyboard = None, k_devices = 0\<rparr>\<rparr>,
     sy_pci = pci_blank, sy_ide = ide_blank, sy_console = Null_console (new_console 80 25 [], ()), sy_out = []\<rparr>"

lemma ide_system_ready: "main_ready ide_env ide_system ide_machine"
proof -
  have heap: "heap_inv (bt_heap (sy_boot ide_system))" "free_list (bt_heap (sy_boot ide_system)) = 0"
    "unat (kernel_heap (bt_heap (sy_boot ide_system))) + 8464 \<le> heap_limit (bt_heap (sy_boot ide_system))"
    using boot_heap by (simp_all add: ide_system_def)
  have dev: "the_rsdp (bt_acpi (sy_boot ide_system)) \<noteq> None" "console_ok (console_font ide_env) (sy_console ide_system)"
    "device_table ide_env 2 []" "device_table ide_env 3 []" "device_table ide_env 4 [Pci_ide_initialize]"
    by (simp_all add: ide_system_def console_ok_def device_table_def ide_env_def)
  have inj: "inj (\<lambda>n :: nat. 100 * n)" "inj (\<lambda>n :: nat. 64 * n)" by (simp_all add: inj_def)
  have blk: "blocks (sy_pci ide_system) = (\<lambda>n. Some (100 * n))" "ide_blocks (sy_ide ide_system) = (\<lambda>n. Some (64 * n))"
    "length (ide_buf (sy_ide ide_system)) = 1024" by (simp_all add: ide_system_def pci_blank_def ide_blank_def)
  have host: "pci_host (ports ide_env) ide_machine"
    using config_host [of ide_machine] by (simp add: pci_host_def ide_bus_def config_bus_def ide_env_def)
  have settle: "drives_settle (ports ide_env)" using ide_bus_settles by (simp add: ide_env_def)
  show ?thesis unfolding main_ready_def using heap dev inj blk host ide_machine_increase settle by blast
qed


end
