(* ===== verification/Shell.thy ===== *)
theory Shell
  imports Keyboard Fbconsole
begin

text \<open>
  The two threads that \<open>kernel_main\<close> leaves behind (\<^verbatim>\<open>kernel/kernel.c\<close>): \<open>kernel_idle\<close>, which only yields, and \<open>kash_main\<close>,
  which reads characters from the keyboard and puts them on the console. They run on the scheduler of \<^verbatim>\<open>Tasks\<close>, the keyboard
  of \<^verbatim>\<open>Keyboard\<close> and a console of \<^verbatim>\<open>Console\<close>, and are cut into the pieces between which the interrupts of keyboard and timer
  can strike; \<open>kb_getkey\<close> has the pieces it has there. The lemmas follow every interleaving of the two threads with the
  interrupts, for any device that keeps the contract of a console device.
\<close>

section \<open>The threads\<close>

text \<open>\<open>sh_pc\<close> is where \<open>kash_main\<close> is: in \<open>kb_getkey\<close>, or behind it with the key code that it returned.\<close>

record 'd shell =
  sh_kb :: kb
  sh_sched :: sched
  sh_pc :: getkey
  sh_con :: "console \<times> 'd"

text \<open>Behind \<open>kb_getkey\<close>: \<open>kb_getch\<close> reads the modifiers and either goes round again or returns the character, which is echoed.\<close>

definition kash_main :: "'d driver \<Rightarrow> tptr \<Rightarrow> 'd shell \<Rightarrow> 'd shell run" where
  "kash_main redraw kash x = (case sh_pc x of
     GK_Done key \<Rightarrow> (case kb_getch [(key, kb_getmods (sh_kb x))] of
         None \<Rightarrow> ret (x\<lparr>sh_pc := GK_Start\<rparr>)
       | Some ch \<Rightarrow> run_bind (console_putch redraw ch (sh_con x)) (\<lambda>con. ret (x\<lparr>sh_con := con, sh_pc := GK_Start\<rparr>)))
   | pc \<Rightarrow> run_bind (kb_getkey kash pc (sh_kb x) (sh_sched x)) (\<lambda>(pc, k, s). ret (x\<lparr>sh_kb := k, sh_sched := s, sh_pc := pc\<rparr>)))"

definition kernel_idle :: "'d shell \<Rightarrow> 'd shell run" where
  "kernel_idle x = run_bind (scheduler_yield (sh_sched x)) (\<lambda>s. ret (x\<lparr>sh_sched := s\<rparr>))"

text \<open>What can happen next: a piece of the running thread, a key code from the keyboard interrupt, a tick of the timer.\<close>

datatype sh_event = Run | Key u16 | Tick

definition sh_step :: "'d driver \<Rightarrow> tptr \<Rightarrow> sh_event \<Rightarrow> 'd shell \<Rightarrow> 'd shell run" where
  "sh_step redraw kash ev x = (case ev of
     Run \<Rightarrow> if running_task (sh_sched x) = Some kash then kash_main redraw kash x else kernel_idle x
   | Key c \<Rightarrow> run_bind (kb_emit_keycode c (sh_kb x) (sh_sched x)) (\<lambda>(k, s). ret (x\<lparr>sh_kb := k, sh_sched := s\<rparr>))
   | Tick \<Rightarrow> run_bind (map_option Inr (timer_handler (sh_sched x))) (\<lambda>s. ret (x\<lparr>sh_sched := s\<rparr>)))"

definition sh_run :: "'d driver \<Rightarrow> tptr \<Rightarrow> sh_event list \<Rightarrow> 'd shell \<Rightarrow> 'd shell run" where
  "sh_run redraw kash evs = run_for evs (sh_step redraw kash)"

section \<open>Scheduling\<close>

fun waiting_pc :: "getkey \<Rightarrow> bool" where
  "waiting_pc (GK_Loop tmp) = True"
| "waiting_pc (GK_Prepared tmp) = True"
| "waiting_pc _ = False"

text \<open>Task \<open>r\<close> runs, \<open>kash_main\<close> is at \<open>pc\<close>, and is in the queue of the keyboard (and not runnable) exactly when \<open>q\<close>.\<close>

definition sh_at :: "tptr \<Rightarrow> tptr \<Rightarrow> tptr \<Rightarrow> getkey \<Rightarrow> bool \<Rightarrow> 'd shell \<Rightarrow> bool" where
  "sh_at idle kash r pc q x \<longleftrightarrow> ring (sh_sched x) [idle, kash] \<and> running_task (sh_sched x) = Some r \<and> runnable (sh_sched x) idle \<and>
     timer_queue (sh_sched x) = None \<and> kb_ok (sh_kb x) \<and> sh_pc x = pc \<and>
     (waiting_pc pc \<longrightarrow> w_task (wait_at (sh_sched x) kash) = kash) \<and>
     (if q then key_wait_queue (sh_kb x) = Some kash \<and> w_next (wait_at (sh_sched x) kash) = None \<and>
        t_state (task_at (sh_sched x) kash) = TASK_INTERRUPTIBLE
      else key_wait_queue (sh_kb x) = None \<and> runnable (sh_sched x) kash)"

text \<open>The keyboard without its queue.\<close>

definition kb_core :: "kb \<Rightarrow> kb" where
  "kb_core k = k\<lparr>key_wait_queue := None\<rparr>"

lemma kb_core_simps [simp]:
  "kb_core (k\<lparr>key_wait_queue := q\<rparr>) = kb_core k" "kb_ring_idx (kb_core k) = kb_ring_idx k"
  "kb_getmods (kb_core k) = kb_getmods k" "key_ring (kb_core k) = key_ring k" "kb_ok (kb_core k) = kb_ok k"
  "keyed c (kb_core k) = kb_core (keyed c k)" "kb_core (kb_core k) = kb_core k"
  "key_ring_index (kb_core k) = key_ring_index k"
  by (simp_all add: kb_core_def kb_ring_idx_def kb_getmods_def kb_ok_def keyed_def Let_def)

lemma ring_pair:
  assumes "ring s [idle, kash]"
  shows "idle \<noteq> kash" "after [idle, kash] idle = [kash]" "after [idle, kash] kash = [idle]"
  using assms by (auto simp: ring_def after_def)

lemma idle_yields:
  assumes "sh_at idle kash idle pc q x"
  shows "if q then sh_step redraw kash Run x = ret x
    else \<exists>x'. sh_step redraw kash Run x = ret x' \<and> sh_at idle kash kash pc False x' \<and> sh_kb x' = sh_kb x \<and> sh_con x' = sh_con x"
proof -
  have s: "ring (sh_sched x) [idle, kash]" "running_task (sh_sched x) = Some idle" using assms by (simp_all add: sh_at_def)
  note ne = ring_pair [OF s(1)]
  have y: "scheduler_yield (sh_sched x) = (case find (runnable (sh_sched x)) [kash] of None \<Rightarrow> ret (sh_sched x)
      | Some n \<Rightarrow> ret (task_switch idle n ((sh_sched x)\<lparr>running_task := Some n\<rparr>)))"
    using yield_ring [OF s] ne(2) by simp
  have step: "sh_step redraw kash Run x = kernel_idle x" using s(2) ne(1) by (simp add: sh_step_def)
  show ?thesis
  proof (cases q)
    case True
    then have "\<not> runnable (sh_sched x) kash" using assms by (simp add: sh_at_def runnable_def)
    then show ?thesis using True y by (simp add: step kernel_idle_def)
  next
    case False
    let ?s = "task_switch idle kash ((sh_sched x)\<lparr>running_task := Some kash\<rparr>)"
    have "runnable (sh_sched x) kash" using assms False by (simp add: sh_at_def)
    then have "sh_step redraw kash Run x = ret (x\<lparr>sh_sched := ?s\<rparr>)" using y by (simp add: step kernel_idle_def)
    moreover have "sh_at idle kash kash pc False (x\<lparr>sh_sched := ?s\<rparr>)"
      using assms False by (simp add: sh_at_def ring_switch) (simp add: runnable_def)
    ultimately show ?thesis using False by auto
  qed
qed

lemma kash_start:
  assumes "sh_at idle kash kash GK_Start False x"
  shows "\<exists>x'. sh_step redraw kash Run x = ret x' \<and> sh_at idle kash kash (GK_First (kb_ring_idx (sh_kb x))) False x' \<and>
    sh_kb x' = sh_kb x \<and> sh_con x' = sh_con x"
  using assms by (simp add: sh_at_def sh_step_def kash_main_def kb_getkey_def)

lemma kash_first:
  assumes "sh_at idle kash kash (GK_First tmp) False x"
  shows "\<exists>x'. sh_step redraw kash Run x = ret x' \<and> sh_kb x' = sh_kb x \<and> sh_con x' = sh_con x \<and>
    sh_at idle kash kash (if kb_ring_idx (sh_kb x) \<noteq> tmp then GK_Return (kb_ring_idx (sh_kb x)) else GK_Loop tmp) False x'"
proof (cases "kb_ring_idx (sh_kb x) = tmp")
  case False
  then show ?thesis using assms by (simp add: sh_at_def sh_step_def kash_main_def kb_getkey_def Let_def)
next
  case True
  let ?s = "upd_wait kash (\<lambda>_. \<lparr>w_next = None, w_task = kash\<rparr>) (sh_sched x)"
  have "sh_step redraw kash Run x = ret (x\<lparr>sh_sched := ?s, sh_pc := GK_Loop tmp\<rparr>)"
    using assms True by (simp add: sh_at_def sh_step_def kash_main_def kb_getkey_def Let_def wait_init_def)
  moreover have "ring ?s [idle, kash] = ring (sh_sched x) [idle, kash]" by (simp add: ring_def)
  ultimately show ?thesis using assms True by (auto simp: sh_at_def runnable_def)
qed

lemma kash_prepares:
  assumes "sh_at idle kash kash (GK_Loop tmp) False x"
  shows "\<exists>x'. sh_step redraw kash Run x = ret x' \<and> sh_at idle kash kash (GK_Prepared tmp) True x' \<and>
    kb_core (sh_kb x') = kb_core (sh_kb x) \<and> sh_con x' = sh_con x"
proof -
  have a: "ring (sh_sched x) [idle, kash]" "running_task (sh_sched x) = Some kash" "key_wait_queue (sh_kb x) = None"
    "timer_queue (sh_sched x) = None" using assms by (simp_all add: sh_at_def)
  let ?t = "(sh_sched x)\<lparr>timer_queue := None\<rparr>"
  let ?s = "(wait_add_to_queue kash (upd_task kash (\<lambda>k. k\<lparr>t_state := TASK_INTERRUPTIBLE\<rparr>) ?t))\<lparr>timer_queue := None\<rparr>"
  let ?x = "x\<lparr>sh_kb := (sh_kb x)\<lparr>key_wait_queue := Some kash\<rparr>, sh_sched := ?s, sh_pc := GK_Prepared tmp\<rparr>"
  have "sh_step redraw kash Run x = ret ?x"
    using assms a by (simp add: sh_at_def sh_step_def kash_main_def kb_getkey_def on_key_queue_def wait_prepare_to_wait_def task_set_state_def
        wait_add_to_queue_def)
  moreover have "ring ?s [idle, kash]" using a(1) by (auto simp: ring_def wait_add_to_queue_def)
  ultimately show ?thesis using assms ring_pair(1) [OF a(1)]
    by (intro exI [of _ ?x]) (auto simp: sh_at_def runnable_def wait_add_to_queue_def)
qed

lemma kash_looks:
  assumes "sh_at idle kash kash (GK_Prepared tmp) q x"
  shows "\<exists>x'. sh_step redraw kash Run x = ret x' \<and> kb_core (sh_kb x') = kb_core (sh_kb x) \<and> sh_con x' = sh_con x \<and>
    (if kb_ring_idx (sh_kb x) \<noteq> tmp then sh_at idle kash kash (GK_Return (kb_ring_idx (sh_kb x))) False x'
     else sh_at idle kash idle (GK_Loop tmp) q x')"
proof -
  have a: "ring (sh_sched x) [idle, kash]" "running_task (sh_sched x) = Some kash" "runnable (sh_sched x) idle" "timer_queue (sh_sched x) = None"
    using assms by (simp_all add: sh_at_def)
  note ne = ring_pair [OF a(1)]
  show ?thesis
  proof (cases "kb_ring_idx (sh_kb x) = tmp")
    case True
    let ?s = "task_switch kash idle ((sh_sched x)\<lparr>running_task := Some idle\<rparr>)"
    have "scheduler_yield (sh_sched x) = ret ?s" using yield_ring [OF a(1,2)] ne(3) a(3) by simp
    then have "sh_step redraw kash Run x = ret (x\<lparr>sh_sched := ?s, sh_pc := GK_Loop tmp\<rparr>)"
      using assms True by (simp add: sh_at_def sh_step_def kash_main_def kb_getkey_def Let_def task_signal_pending_def)
    moreover have "sh_at idle kash idle (GK_Loop tmp) q (x\<lparr>sh_sched := ?s, sh_pc := GK_Loop tmp\<rparr>)"
      using assms by (cases q) (simp_all add: sh_at_def ring_switch runnable_def)
    ultimately show ?thesis using True by auto
  next
    case False
    let ?q = "key_wait_queue (sh_kb x)" and ?c = "kb_ring_idx (sh_kb x)"
    let ?t = "upd_task kash (\<lambda>k. k\<lparr>t_state := TASK_RUNNING\<rparr>) ((sh_sched x)\<lparr>timer_queue := ?q\<rparr>)"
    have q: "?q = None \<or> ?q = Some kash \<and> w_next (wait_at (sh_sched x) kash) = None" using assms by (auto simp: sh_at_def split: if_splits)
    have "wait_remove_from_queue kash ?t = Some (?t\<lparr>timer_queue := None\<rparr>)"
      using q remove_empty [of ?t kash] remove_head [of ?t kash] by (auto simp: upd_task_def)
    then have fin: "on_key_queue (wait_finish kash) (sh_kb x) (sh_sched x) = ret (kb_core (sh_kb x), ?t\<lparr>timer_queue := None\<rparr>)"
      using a(2,4) by (simp add: on_key_queue_def wait_finish_def task_set_state_def kb_core_def)
    let ?x = "x\<lparr>sh_kb := kb_core (sh_kb x), sh_sched := ?t\<lparr>timer_queue := None\<rparr>, sh_pc := GK_Return ?c\<rparr>"
    have "sh_step redraw kash Run x = ret ?x"
      using assms False fin by (simp add: sh_at_def sh_step_def kash_main_def kb_getkey_def Let_def)
    moreover have "ring (?t\<lparr>timer_queue := None\<rparr>) [idle, kash]" using a(1) by (auto simp: ring_def)
    moreover have "key_wait_queue (kb_core (sh_kb x)) = None" by (simp add: kb_core_def)
    ultimately show ?thesis using assms False by (intro exI [of _ ?x]) (auto simp: sh_at_def runnable_def)
  qed
qed

lemma kash_returns:
  assumes "sh_at idle kash kash (GK_Return cmp) False x" and "unat cmp < 128"
  shows "\<exists>x'. sh_step redraw kash Run x = ret x' \<and> sh_at idle kash kash (GK_Done (key_ring (sh_kb x) ! unat cmp)) False x' \<and>
    sh_kb x' = sh_kb x \<and> sh_con x' = sh_con x"
  using assms kb_okD(2) [of "sh_kb x"] by (simp add: sh_at_def sh_step_def kash_main_def kb_getkey_def)

lemma key_arrives:
  assumes "sh_at idle kash r pc q x" and "q \<Longrightarrow> waiting_pc pc"
  shows "\<exists>x'. sh_step redraw kash (Key c) x = ret x' \<and> sh_at idle kash r pc False x' \<and> sh_kb x' = kb_core (keyed c (sh_kb x)) \<and> sh_con x' = sh_con x"
proof -
  let ?ws = "if q then [kash] else []"
  have a: "ring (sh_sched x) [idle, kash]" "kb_ok (sh_kb x)" "key_queue (sh_kb x) (sh_sched x) ?ws"
    using assms(1) by (auto simp: sh_at_def key_queue_def queue_def)
  let ?s = "wake_readers (set ?ws) (sh_sched x)" and ?k = "kb_core (keyed c (sh_kb x))"
  have "sh_step redraw kash (Key c) x = ret (x\<lparr>sh_kb := ?k, sh_sched := ?s\<rparr>)"
    using kb_emit_keycode_queue(1) [OF a(2,3), of c] by (simp add: sh_step_def kb_core_def)
  moreover have "ring ?s [idle, kash]" using a(1) by (auto simp: ring_def wake_readers_def wake_all_def)
  moreover have "key_wait_queue ?k = None" "kb_ok ?k" using kb_record_key_keyed(2) [OF a(2)] by (simp_all add: kb_core_def)
  moreover have "runnable ?s idle" "runnable ?s kash"
    using assms by (auto simp: sh_at_def runnable_def wake_readers_def wake_all_def split: if_splits)
  ultimately show ?thesis using assms(1) by (intro exI [of _ "x\<lparr>sh_kb := ?k, sh_sched := ?s\<rparr>"]) (simp add: sh_at_def)
qed

lemma tick_passes:
  assumes "sh_at idle kash r pc q x"
  shows "\<exists>x'. sh_step redraw kash Tick x = ret x' \<and> sh_at idle kash r pc q x' \<and> sh_kb x' = sh_kb x \<and> sh_con x' = sh_con x"
proof -
  let ?s = "(sh_sched x)\<lparr>jiffies := jiffies (sh_sched x) + 1\<rparr>"
  have "queue ?s []" using assms by (simp add: sh_at_def queue_def)
  from wake_up_queue [OF this] have "timer_handler (sh_sched x) = Some (wake_all {} ?s)" by (simp add: timer_handler_def scheduler_timer_def)
  moreover have "wake_all {} ?s = ?s" using assms by (simp add: sh_at_def wake_all_def)
  ultimately have "sh_step redraw kash Tick x = ret (x\<lparr>sh_sched := ?s\<rparr>)" by (simp add: sh_step_def)
  moreover have "ring ?s [idle, kash] = ring (sh_sched x) [idle, kash]" by (simp add: ring_def)
  ultimately show ?thesis using assms by (auto simp: sh_at_def runnable_def)
qed

section \<open>Echoing a key\<close>

text \<open>The character that a key code stands for, if any; the escape key is the only one that gives an escape character.\<close>

definition typed_char :: "u8 \<Rightarrow> u16 \<Rightarrow> u8 list" where
  "typed_char mods c = (if drop_bit 8 (c AND 0xFF00) = 0 \<and> kb_map (c AND 0xFF) mods \<noteq> 0 then [kb_map (c AND 0xFF) mods] else [])"

lemma kb_getch_typed: "kb_getch [(c, mods)] = (case typed_char mods c of [] \<Rightarrow> None | ch # _ \<Rightarrow> Some ch)"
  by (simp add: typed_char_def Let_def)

lemma no_escape_table:
  assumes "i < 256" and "i \<noteq> 1"
  shows "plain_map ! i \<noteq> 27" "shift_map ! i \<noteq> 27" "altgr_map ! i \<noteq> 27"
proof -
  have len: "length plain_map = 256" "length shift_map = 256" "length altgr_map = 256"
    by (simp_all add: plain_map_def shift_map_def altgr_map_def char_table_def ascii_def)
  have "27 \<notin> set shift_map" "27 \<notin> set altgr_map" "27 \<notin> set (tl (tl plain_map))" "hd plain_map \<noteq> 27"
    by (simp_all add: plain_map_def shift_map_def altgr_map_def char_table_def ascii_def)
  note no = this
  show "shift_map ! i \<noteq> 27" "altgr_map ! i \<noteq> 27" using no(1,2) len assms(1) by (metis nth_mem)+
  show "plain_map ! i \<noteq> 27"
  proof (cases "i = 0")
    case True
    then show ?thesis using no(4) len(1) by (metis hd_conv_nth list.size(3) zero_neq_numeral)
  next
    case False
    then obtain j where j: "i = Suc (Suc j)" using assms(2) by (metis One_nat_def old.nat.exhaust)
    then have "plain_map ! i = tl (tl plain_map) ! j" "j < length (tl (tl plain_map))" using len(1) assms(1) by (simp_all add: nth_tl)
    then show ?thesis using no(3) by (metis nth_mem)
  qed
qed

lemma caps_no_escape:
  fixes x :: u8
  shows "of_char (CHR ''a'') \<le> x \<Longrightarrow> x \<le> of_char (CHR ''z'') \<Longrightarrow> x - 32 \<noteq> 27"
    and "of_char (CHR ''A'') \<le> x \<Longrightarrow> x \<le> of_char (CHR ''Z'') \<Longrightarrow> x + 32 \<noteq> 27"
proof -
  show "x - 32 \<noteq> 27" if "of_char (CHR ''a'') \<le> x" "x \<le> of_char (CHR ''z'')"
  proof
    assume "x - 32 = 27"
    then have "x = 59" by (simp add: diff_eq_eq)
    then show False using that(1) by (simp add: word_le_nat_alt)
  qed
  show "x + 32 \<noteq> 27" if "of_char (CHR ''A'') \<le> x" "x \<le> of_char (CHR ''Z'')"
  proof
    assume "x + 32 = 27"
    then have "x = 27 - 32" by (simp only: eq_diff_eq)
    then show False using that(2) by (simp add: word_le_nat_alt)
  qed
qed

lemma kb_map_no_escape:
  assumes "c AND 0xFF \<noteq> 1"
  shows "kb_map (c AND 0xFF) mods \<noteq> 0x1B"
proof -
  let ?i = "unat (c AND 0xFF)"
  have "c AND 0xFF = c AND mask 8" by (simp add: mask_eq_exp_minus_1)
  then have "?i = unat (take_bit 8 c)" by (simp add: take_bit_eq_mask)
  then have "?i < 256" using take_bit_nat_less_exp [of 8 "unat c"] by (simp add: unsigned_take_bit_eq)
  moreover have "?i \<noteq> 1" using assms by (simp add: word_unat_eq_iff)
  ultimately have "plain_map ! ?i \<noteq> 27" "shift_map ! ?i \<noteq> 27" "altgr_map ! ?i \<noteq> 27" using no_escape_table by auto
  then show ?thesis using caps_no_escape unfolding kb_map_def by (simp add: Let_def and.assoc) 
qed

text \<open>A console in order, on a device that shows it; and what writing \<open>bs\<close> to it does.\<close>

definition con_ok :: "('d \<Rightarrow> bool) \<Rightarrow> (console \<Rightarrow> 'd \<Rightarrow> bool) \<Rightarrow> (console \<Rightarrow> bool) \<Rightarrow> console \<times> 'd \<Rightarrow> bool" where
  "con_ok dev_ok shows_console fits = (\<lambda>(c, dev). cons_inv c \<and> escape_code_length c = 0 \<and> flags c AND CONSOLE_FLAG_AUTODRAW \<noteq> 0 \<and>
     fits c \<and> dev_ok dev \<and> shows_console c dev)"

definition echoes :: "u8 list \<Rightarrow> console \<times> 'd \<Rightarrow> console \<times> 'd \<Rightarrow> bool" where
  "echoes bs con con' \<longleftrightarrow> term_of (fst con') = fold term_put bs (term_of (fst con)) \<and> serial (fst con') = serial (fst con) @ bs"

lemma echoes_nil [simp]: "echoes [] con con"
  by (simp add: echoes_def)

lemma echoes_trans: "echoes as x y \<Longrightarrow> echoes bs y z \<Longrightarrow> echoes (as @ bs) x z"
  by (simp add: echoes_def)

lemma run_for_one: "run_for [i] f s = f i s"
proof -
  have "run_for [] f = ret" by (simp add: fun_eq_iff)
  then show ?thesis by (simp add: run_for_Cons run_bind_ret_right)
qed

section \<open>Every interleaving\<close>

definition no_escape_key :: "u16 \<Rightarrow> bool" where
  "no_escape_key c \<longleftrightarrow> c AND 0xFF \<noteq> 1"

definition legal :: "tptr \<Rightarrow> tptr \<Rightarrow> tptr \<Rightarrow> getkey \<Rightarrow> bool \<Rightarrow> bool" where
  "legal idle kash r pc q \<longleftrightarrow> r = idle \<and> (pc = GK_Start \<and> \<not> q \<or> (\<exists>tmp. pc = GK_Loop tmp)) \<or>
     r = kash \<and> (q \<longrightarrow> (\<exists>tmp. pc = GK_Prepared tmp)) \<and> (\<forall>cmp. pc = GK_Return cmp \<longrightarrow> unat cmp < 128) \<and> (\<forall>c. pc = GK_Done c \<longrightarrow> no_escape_key c)"

definition sh_inv :: "tptr \<Rightarrow> tptr \<Rightarrow> 'd shell \<Rightarrow> bool" where
  "sh_inv idle kash x \<longleftrightarrow> (\<exists>r pc q. sh_at idle kash r pc q x \<and> legal idle kash r pc q) \<and> (\<forall>c \<in> set (key_ring (sh_kb x)). no_escape_key c)"

lemma keyed_no_escape:
  assumes "\<forall>c \<in> set (key_ring k). no_escape_key c" and "no_escape_key c"
  shows "\<forall>c \<in> set (key_ring (keyed c k)). no_escape_key c"
  using assms set_update_subset_insert [of "key_ring k"] by (fastforce simp: keyed_def Let_def)

lemma sh_inv_at:
  assumes "sh_at idle kash r pc q x'" and "legal idle kash r pc q" and "kb_core (sh_kb x') = kb_core (sh_kb x)"
    and "\<forall>c \<in> set (key_ring (sh_kb x)). no_escape_key c"
  shows "sh_inv idle kash x'"
  using assms unfolding sh_inv_def by (metis kb_core_simps(4))

section \<open>From one key to the next\<close>

text \<open>How many pieces are left until \<open>kash_main\<close> is asleep in \<open>kb_getkey\<close> and the idle thread runs; \<open>b\<close>: it has yet to echo
  the last key of the ring.\<close>

definition stage :: "tptr \<Rightarrow> tptr \<Rightarrow> nat \<Rightarrow> bool \<Rightarrow> 'd shell \<Rightarrow> bool" where
  "stage idle kash n b x \<longleftrightarrow> (let i = kb_ring_idx (sh_kb x); at = (\<lambda>r pc q. sh_at idle kash r pc q x) in
     (b \<and> (n = 9 \<and> (\<exists>tmp. tmp \<noteq> i \<and> at idle (GK_Loop tmp) False) \<or> n = 8 \<and> (\<exists>tmp. tmp \<noteq> i \<and> at kash (GK_Loop tmp) False) \<or>
        n = 7 \<and> (\<exists>tmp. tmp \<noteq> i \<and> at kash (GK_Prepared tmp) True) \<or> n = 6 \<and> at kash (GK_Return i) False \<or>
        n = 5 \<and> at kash (GK_Done (key_ring (sh_kb x) ! unat i)) False)) \<or>
     (\<not> b \<and> (n = 5 \<and> at idle GK_Start False \<or> n = 4 \<and> at kash GK_Start False \<or> n = 3 \<and> at kash (GK_First i) False \<or>
        n = 2 \<and> at kash (GK_Loop i) False \<or> n = 1 \<and> at kash (GK_Prepared i) True \<or> n = 0 \<and> at idle (GK_Loop i) True)))"

lemma stage_intros:
  "tmp \<noteq> kb_ring_idx (sh_kb x) \<Longrightarrow> sh_at idle kash kash (GK_Loop tmp) False x \<Longrightarrow> stage idle kash 8 True x"
  "tmp \<noteq> kb_ring_idx (sh_kb x) \<Longrightarrow> sh_at idle kash kash (GK_Prepared tmp) True x \<Longrightarrow> stage idle kash 7 True x"
  "sh_at idle kash kash (GK_Return (kb_ring_idx (sh_kb x))) False x \<Longrightarrow> stage idle kash 6 True x"
  "sh_at idle kash kash (GK_Done (key_ring (sh_kb x) ! unat (kb_ring_idx (sh_kb x)))) False x \<Longrightarrow> stage idle kash 5 True x"
  "sh_at idle kash kash GK_Start False x \<Longrightarrow> stage idle kash 4 False x"
  "sh_at idle kash kash (GK_First (kb_ring_idx (sh_kb x))) False x \<Longrightarrow> stage idle kash 3 False x"
  "sh_at idle kash kash (GK_Loop (kb_ring_idx (sh_kb x))) False x \<Longrightarrow> stage idle kash 2 False x"
  "sh_at idle kash kash (GK_Prepared (kb_ring_idx (sh_kb x))) True x \<Longrightarrow> stage idle kash 1 False x"
  "sh_at idle kash idle (GK_Loop (kb_ring_idx (sh_kb x))) True x \<Longrightarrow> stage idle kash 0 False x"
  by (auto simp: stage_def Let_def)

lemma stage_asleep: "stage idle kash 0 b x \<longleftrightarrow> \<not> b \<and> sh_at idle kash idle (GK_Loop (kb_ring_idx (sh_kb x))) True x"
  by (simp add: stage_def Let_def)

definition last_key :: "kb \<Rightarrow> u16" where
  "last_key k = key_ring k ! unat (kb_ring_idx k)"

lemma core_idx: "kb_core k = kb_core k' \<Longrightarrow> kb_ring_idx k = kb_ring_idx k' \<and> kb_getmods k = kb_getmods k' \<and> last_key k = last_key k'"
  unfolding last_key_def by (metis kb_core_simps(2,3,4))

lemma stage_key:
  assumes "stage idle kash 0 b x"
  shows "\<exists>x'. sh_step redraw kash (Key c) x = ret x' \<and> stage idle kash 9 True x' \<and> kb_core (sh_kb x') = kb_core (keyed c (sh_kb x)) \<and>
    sh_con x' = sh_con x \<and> last_key (sh_kb x') = c"
proof -
  let ?k = "sh_kb x"
  have at: "sh_at idle kash idle (GK_Loop (kb_ring_idx ?k)) True x" using assms by (simp add: stage_asleep)
  have ok: "kb_ok ?k" using at by (simp add: sh_at_def)
  note k' = kb_record_key_keyed(2) [OF ok, of c]
  obtain x' where x': "sh_step redraw kash (Key c) x = ret x'" "sh_at idle kash idle (GK_Loop (kb_ring_idx ?k)) False x'"
    "sh_kb x' = kb_core (keyed c ?k)" "sh_con x' = sh_con x" using key_arrives [OF at] by auto
  have idx: "unat (kb_ring_idx (keyed c ?k)) = (unat (kb_ring_idx ?k) + 1) mod 128"
    using keyed_ring(2) [OF ok, of "[c]"] kb_ring_idx_unat [OF ok] kb_ring_idx_unat [OF k'] by simp
  have "unat (kb_ring_idx ?k) < 128" using kb_ring_idx_unat [OF ok] kb_okD(1) [OF ok] by simp
  then have "kb_ring_idx (keyed c ?k) \<noteq> kb_ring_idx ?k" using idx ring_round [of "unat (kb_ring_idx ?k)" 1] by auto
  moreover have "last_key (keyed c ?k) = c"
    using keyed_ring(3) [OF ok, of "[c]"] kb_ring_idx_unat [OF k'] by (simp add: last_key_def)
  ultimately show ?thesis using x' unfolding stage_def last_key_def by (intro exI [of _ x']) (simp add: Let_def, metis)
qed

lemma stage_tick:
  assumes "stage idle kash n b x"
  shows "\<exists>x'. sh_step redraw kash Tick x = ret x' \<and> stage idle kash n b x' \<and> sh_kb x' = sh_kb x \<and> sh_con x' = sh_con x"
proof -
  obtain r pc q where at: "sh_at idle kash r pc q x" using assms by (auto simp: stage_def Let_def)
  obtain x' where x': "sh_step redraw kash Tick x = ret x'" "sh_at idle kash r pc q x'" "sh_kb x' = sh_kb x" "sh_con x' = sh_con x"
    using tick_passes [OF at] by blast
  have "sh_at idle kash r' pc' q' x' \<longleftrightarrow> sh_at idle kash r' pc' q' x" for r' pc' q'
    using at x'(2) by (auto simp: sh_at_def x'(3) split: if_splits)
  then show ?thesis using assms x' by (intro exI [of _ x']) (simp add: stage_def)
qed

text \<open>A piece of the running thread that does not touch the console.\<close>

definition stage_step :: "'d driver \<Rightarrow> tptr \<Rightarrow> tptr \<Rightarrow> nat \<Rightarrow> bool \<Rightarrow> 'd shell \<Rightarrow> bool" where
  "stage_step redraw idle kash n b x \<longleftrightarrow> (\<exists>x'. sh_step redraw kash Run x = ret x' \<and> stage idle kash n b x' \<and>
     kb_core (sh_kb x') = kb_core (sh_kb x) \<and> sh_con x' = sh_con x)"

lemma core_ring: "kb_core k' = kb_core k \<Longrightarrow> kb_ring_idx k' = kb_ring_idx k \<and> key_ring k' = key_ring k"
  by (metis kb_core_simps(2,4))

lemma stage_pending:
  assumes "stage idle kash n True x" and "n \<noteq> 5"
  shows "stage_step redraw idle kash (n - 1) True x"
proof -
  let ?i = "kb_ring_idx (sh_kb x)"
  consider (a) tmp where "n = 9" "tmp \<noteq> ?i" "sh_at idle kash idle (GK_Loop tmp) False x" | (b) tmp where "n = 8" "tmp \<noteq> ?i" "sh_at idle kash kash (GK_Loop tmp) False x" |
    (c) tmp where "n = 7" "tmp \<noteq> ?i" "sh_at idle kash kash (GK_Prepared tmp) True x" | (d) "n = 6" "sh_at idle kash kash (GK_Return ?i) False x"
    using assms unfolding stage_def Let_def by auto
  then show ?thesis
  proof cases
    case a
    then obtain x' where "sh_step redraw kash Run x = ret x'" "sh_at idle kash kash (GK_Loop tmp) False x'" "sh_kb x' = sh_kb x" "sh_con x' = sh_con x"
      using idle_yields [of idle kash "GK_Loop tmp" False x redraw] by auto
    then show ?thesis using stage_intros(1) [of tmp x'] a by (auto simp: stage_step_def)
  next
    case b
    then obtain x' where x': "sh_step redraw kash Run x = ret x'" "sh_at idle kash kash (GK_Prepared tmp) True x'"
      "kb_core (sh_kb x') = kb_core (sh_kb x)" "sh_con x' = sh_con x" using kash_prepares [of idle kash tmp x redraw] by auto
    then show ?thesis using stage_intros(2) [of tmp x'] core_ring [OF x'(3)] b by (auto simp: stage_step_def)
  next
    case c
    then obtain x' where x': "sh_step redraw kash Run x = ret x'" "sh_at idle kash kash (GK_Return ?i) False x'"
      "kb_core (sh_kb x') = kb_core (sh_kb x)" "sh_con x' = sh_con x" using kash_looks [of idle kash tmp True x redraw] by auto
    then show ?thesis using stage_intros(3) [of idle kash x'] core_ring [OF x'(3)] c by (auto simp: stage_step_def)
  next
    case d
    have "kb_ok (sh_kb x)" using d(2) by (simp add: sh_at_def)
    then have "unat ?i < 128" using kb_ring_idx_unat kb_okD(1) by simp
    with d obtain x' where "sh_step redraw kash Run x = ret x'" "sh_at idle kash kash (GK_Done (key_ring (sh_kb x) ! unat ?i)) False x'"
      "sh_kb x' = sh_kb x" "sh_con x' = sh_con x" using kash_returns [of idle kash ?i x redraw] by auto
    then show ?thesis using stage_intros(4) [of idle kash x'] d by (auto simp: stage_step_def)
  qed
qed

lemma stage_settling:
  assumes "stage idle kash n False x"
  shows "stage_step redraw idle kash (n - 1) False x"
proof -
  let ?i = "kb_ring_idx (sh_kb x)"
  consider (a) "n = 5" "sh_at idle kash idle GK_Start False x" | (b) "n = 4" "sh_at idle kash kash GK_Start False x" |
    (c) "n = 3" "sh_at idle kash kash (GK_First ?i) False x" | (d) "n = 2" "sh_at idle kash kash (GK_Loop ?i) False x" |
    (e) "n = 1" "sh_at idle kash kash (GK_Prepared ?i) True x" | (f) "n = 0" "sh_at idle kash idle (GK_Loop ?i) True x"
    using assms unfolding stage_def Let_def by auto
  then show ?thesis
  proof cases
    case a
    then show ?thesis using idle_yields [of idle kash GK_Start False x redraw] stage_intros(5) by (auto simp: stage_step_def)
  next
    case b
    then obtain x' where "sh_step redraw kash Run x = ret x'" "sh_at idle kash kash (GK_First ?i) False x'" "sh_kb x' = sh_kb x" "sh_con x' = sh_con x"
      using kash_start [of idle kash x redraw] by auto
    then show ?thesis using stage_intros(6) [of idle kash x'] b by (auto simp: stage_step_def)
  next
    case c
    then obtain x' where "sh_step redraw kash Run x = ret x'" "sh_at idle kash kash (GK_Loop ?i) False x'" "sh_kb x' = sh_kb x" "sh_con x' = sh_con x"
      using kash_first [of idle kash ?i x redraw] by auto
    then show ?thesis using stage_intros(7) [of idle kash x'] c by (auto simp: stage_step_def)
  next
    case d
    then obtain x' where x': "sh_step redraw kash Run x = ret x'" "sh_at idle kash kash (GK_Prepared ?i) True x'"
      "kb_core (sh_kb x') = kb_core (sh_kb x)" "sh_con x' = sh_con x" using kash_prepares [of idle kash ?i x redraw] by auto
    then show ?thesis using stage_intros(8) [of idle kash x'] core_ring [OF x'(3)] d by (auto simp: stage_step_def)
  next
    case e
    then obtain x' where x': "sh_step redraw kash Run x = ret x'" "sh_at idle kash idle (GK_Loop ?i) True x'"
      "kb_core (sh_kb x') = kb_core (sh_kb x)" "sh_con x' = sh_con x" using kash_looks [of idle kash ?i True x redraw] by auto
    then show ?thesis using stage_intros(9) [of idle kash x'] core_ring [OF x'(3)] e by (auto simp: stage_step_def)
  next
    case f
    then show ?thesis using idle_yields [of idle kash "GK_Loop ?i" True x redraw] stage_intros(9) by (auto simp: stage_step_def)
  qed
qed

context console_device
begin

abbreviation good :: "console \<times> 'd \<Rightarrow> bool" where
  "good \<equiv> con_ok dev_ok shows_console fits"

lemma putch_echoes:
  assumes "good con" and "ch \<noteq> 0x1B"
  shows "\<exists>con'. console_putch redraw ch con = ret con' \<and> good con' \<and> echoes [ch] con con'"
proof -
  obtain c dev where con: "con = (c, dev)" by (cases con)
  have c: "cons_inv c" "escape_code_length c = 0" "flags c AND CONSOLE_FLAG_AUTODRAW \<noteq> 0" "fits c" "dev_ok dev"
    using assms(1) by (simp_all add: con con_ok_def)
  have "0x1B \<notin> set [ch]" using assms(2) by simp
  from text_run [OF c(1,2) this] obtain t where t: "console_putch_raw ch c = ret t" "cons_inv t" "escape_code_length t = 0"
    "flags t = flags c" "term_of t = term_put ch (term_of c)" "serial t = serial c @ [ch]" "rows t = rows c" "columns t = columns c"
    unfolding run_for_one by auto
  have "fits t" using c(4) fits_cong t(7,8) by blast
  then obtain fl dev' where w: "console_touch redraw (t, dev) = ret (t\<lparr>flags := fl\<rparr>, dev')" "dev_ok dev'" "shows_console (t\<lparr>flags := fl\<rparr>) dev'"
    "fl AND CONSOLE_FLAG_AUTODRAW \<noteq> 0"
    using touch_shows [of t dev] t c by auto
  have "good (t\<lparr>flags := fl\<rparr>, dev')" using t w \<open>fits t\<close> fits_cong [of "t\<lparr>flags := fl\<rparr>" t] by (simp add: con_ok_def cons_inv_def)
  then show ?thesis using t w by (intro exI [of _ "(t\<lparr>flags := fl\<rparr>, dev')"]) (simp add: con console_putch_def echoes_def term_of_def)
qed

lemma kash_echoes:
  assumes "sh_at idle kash kash (GK_Done c) False x" and "good (sh_con x)" and "no_escape_key c"
  shows "\<exists>x'. sh_step redraw kash Run x = ret x' \<and> sh_at idle kash kash GK_Start False x' \<and> sh_kb x' = sh_kb x \<and> good (sh_con x') \<and>
    echoes (typed_char (kb_getmods (sh_kb x)) c) (sh_con x) (sh_con x')"
proof -
  let ?t = "typed_char (kb_getmods (sh_kb x)) c"
  have pc: "sh_pc x = GK_Done c" "running_task (sh_sched x) = Some kash" using assms(1) by (simp_all add: sh_at_def)
  show ?thesis
  proof (cases ?t)
    case Nil
    then have "sh_step redraw kash Run x = ret (x\<lparr>sh_pc := GK_Start\<rparr>)" using pc by (simp add: sh_step_def kash_main_def kb_getch_typed del: kb_getch.simps)
    then show ?thesis using assms Nil by (auto simp: sh_at_def)
  next
    case (Cons ch rest)
    then have t: "?t = [ch]" "ch \<noteq> 0x1B"
      using kb_map_no_escape [of c] assms(3) by (auto simp: typed_char_def no_escape_key_def split: if_splits)
    obtain con where con: "console_putch redraw ch (sh_con x) = ret con" "good con" "echoes [ch] (sh_con x) con"
      using putch_echoes [OF assms(2) t(2)] by blast
    have "sh_step redraw kash Run x = ret (x\<lparr>sh_con := con, sh_pc := GK_Start\<rparr>)"
      using pc t con(1) by (simp add: sh_step_def kash_main_def kb_getch_typed del: kb_getch.simps)
    then show ?thesis using assms(1) t con by (auto simp: sh_at_def)
  qed
qed

text \<open>One event, at any point of the two threads.\<close>

lemma idle_inv:
  assumes "sh_at idle kash idle pc q x" and "legal idle kash idle pc q" and "\<forall>c \<in> set (key_ring (sh_kb x)). no_escape_key c"
  shows "\<exists>x'. sh_step redraw kash Run x = ret x' \<and> sh_inv idle kash x' \<and> sh_con x' = sh_con x"
proof (cases q)
  case True
  then show ?thesis using idle_yields [OF assms(1), of redraw] assms by (auto simp: sh_inv_def)
next
  case False
  then obtain x' where x': "sh_step redraw kash Run x = ret x'" "sh_at idle kash kash pc False x'" "sh_kb x' = sh_kb x" "sh_con x' = sh_con x"
    using idle_yields [OF assms(1), of redraw] by auto
  have "idle \<noteq> kash" using assms(1) ring_pair(1) by (auto simp: sh_at_def)
  then have "legal idle kash kash pc False" using assms(2) by (auto simp: legal_def)
  then show ?thesis using x' assms(3) by (auto simp: sh_inv_def)
qed

lemma kash_inv:
  assumes "sh_at idle kash kash pc q x" and "legal idle kash kash pc q" and "\<forall>c \<in> set (key_ring (sh_kb x)). no_escape_key c" and "good (sh_con x)"
  shows "\<exists>x' bs. sh_step redraw kash Run x = ret x' \<and> sh_inv idle kash x' \<and> good (sh_con x') \<and> echoes bs (sh_con x) (sh_con x')"
proof -
  have k: "idle \<noteq> kash" "kb_ok (sh_kb x)" using assms(1) ring_pair(1) by (auto simp: sh_at_def)
  have idx: "unat (kb_ring_idx (sh_kb x)) < 128" using kb_ring_idx_unat [OF k(2)] kb_okD(1) [OF k(2)] by simp
  have quiet: ?thesis if "\<exists>x'. sh_step redraw kash Run x = ret x' \<and> sh_inv idle kash x' \<and> sh_con x' = sh_con x"
    using that assms(4) by (metis echoes_nil)
  show ?thesis
  proof (cases pc)
    case GK_Start
    then have "\<not> q" using assms(2) k(1) by (auto simp: legal_def)
    with GK_Start obtain x' where "sh_step redraw kash Run x = ret x'" "sh_at idle kash kash (GK_First (kb_ring_idx (sh_kb x))) False x'"
      "sh_kb x' = sh_kb x" "sh_con x' = sh_con x" using kash_start [of idle kash x redraw] assms(1) by auto
    then show ?thesis using assms(3) sh_inv_at [of idle kash kash _ False x' x] by (intro quiet) (auto simp: legal_def)
  next
    case (GK_First tmp)
    then have "\<not> q" using assms(2) k(1) by (auto simp: legal_def)
    with GK_First obtain x' where "sh_step redraw kash Run x = ret x'" "sh_kb x' = sh_kb x" "sh_con x' = sh_con x"
      "sh_at idle kash kash (if kb_ring_idx (sh_kb x) \<noteq> tmp then GK_Return (kb_ring_idx (sh_kb x)) else GK_Loop tmp) False x'"
      using kash_first [of idle kash tmp x redraw] assms(1) by auto
    then show ?thesis using assms(3) idx sh_inv_at [of idle kash kash _ False x' x] by (intro quiet) (auto simp: legal_def split: if_splits)
  next
    case (GK_Loop tmp)
    then have "\<not> q" using assms(2) k(1) by (auto simp: legal_def)
    with GK_Loop obtain x' where "sh_step redraw kash Run x = ret x'" "sh_at idle kash kash (GK_Prepared tmp) True x'"
      "kb_core (sh_kb x') = kb_core (sh_kb x)" "sh_con x' = sh_con x" using kash_prepares [of idle kash tmp x redraw] assms(1) by auto
    then show ?thesis using assms(3) sh_inv_at [of idle kash kash _ True x' x] by (intro quiet) (auto simp: legal_def)
  next
    case (GK_Prepared tmp)
    then obtain x' where x': "sh_step redraw kash Run x = ret x'" "kb_core (sh_kb x') = kb_core (sh_kb x)" "sh_con x' = sh_con x"
      "if kb_ring_idx (sh_kb x) \<noteq> tmp then sh_at idle kash kash (GK_Return (kb_ring_idx (sh_kb x))) False x'
       else sh_at idle kash idle (GK_Loop tmp) q x'" using kash_looks [of idle kash tmp q x redraw] assms(1) by auto
    have "sh_inv idle kash x'"
    proof (cases "kb_ring_idx (sh_kb x) = tmp")
      case True
      then show ?thesis using x' assms(3) by (intro sh_inv_at [of idle kash idle "GK_Loop tmp" q x' x]) (auto simp: legal_def)
    next
      case False
      then show ?thesis using x' assms(3) idx
        by (intro sh_inv_at [of idle kash kash "GK_Return (kb_ring_idx (sh_kb x))" False x' x]) (auto simp: legal_def)
    qed
    then show ?thesis using x' by (intro quiet) auto
  next
    case (GK_Return cmp)
    then have c: "\<not> q" "unat cmp < 128" using assms(2) k(1) by (auto simp: legal_def)
    with GK_Return obtain x' where x': "sh_step redraw kash Run x = ret x'" "sh_at idle kash kash (GK_Done (key_ring (sh_kb x) ! unat cmp)) False x'"
      "sh_kb x' = sh_kb x" "sh_con x' = sh_con x" using kash_returns [of idle kash cmp x redraw] assms(1) by auto
    have "no_escape_key (key_ring (sh_kb x) ! unat cmp)" using assms(3) c(2) kb_okD(2) [OF k(2)] by simp
    then show ?thesis using x' assms(3) sh_inv_at [of idle kash kash _ False x' x] by (intro quiet) (auto simp: legal_def)
  next
    case (GK_Done c)
    then have c: "\<not> q" "no_escape_key c" using assms(2) k(1) by (auto simp: legal_def)
    with GK_Done obtain x' where x': "sh_step redraw kash Run x = ret x'" "sh_at idle kash kash GK_Start False x'" "sh_kb x' = sh_kb x"
      "good (sh_con x')" "echoes (typed_char (kb_getmods (sh_kb x)) c) (sh_con x) (sh_con x')"
      using kash_echoes [of idle kash c x] assms(1,4) by auto
    have "sh_inv idle kash x'" using x' assms(3) by (intro sh_inv_at [of idle kash kash GK_Start False x' x]) (auto simp: legal_def)
    then show ?thesis using x' by blast
  qed
qed

lemma sh_step_inv:
  assumes "sh_inv idle kash x" and "good (sh_con x)" and "\<forall>c. ev = Key c \<longrightarrow> no_escape_key c"
  shows "\<exists>x' bs. sh_step redraw kash ev x = ret x' \<and> sh_inv idle kash x' \<and> good (sh_con x') \<and> echoes bs (sh_con x) (sh_con x')"
proof -
  obtain r pc q where at: "sh_at idle kash r pc q x" "legal idle kash r pc q" "\<forall>c \<in> set (key_ring (sh_kb x)). no_escape_key c"
    using assms(1) by (auto simp: sh_inv_def)
  show ?thesis
  proof (cases ev)
    case Run
    have "r = idle \<or> r = kash" using at(2) by (auto simp: legal_def)
    then show ?thesis using Run at assms(2) idle_inv [of idle kash pc q x] kash_inv [of idle kash pc q x] by (metis echoes_nil)
  next
    case (Key c)
    have "idle \<noteq> kash" using at(1) ring_pair(1) by (auto simp: sh_at_def)
    then have w: "q \<Longrightarrow> waiting_pc pc" using at(2) by (auto simp: legal_def)
    obtain x' where x': "sh_step redraw kash (Key c) x = ret x'" "sh_at idle kash r pc False x'" "sh_kb x' = kb_core (keyed c (sh_kb x))" "sh_con x' = sh_con x"
      using key_arrives [OF at(1) w] by blast
    have "legal idle kash r pc False" using at(2) by (auto simp: legal_def)
    then have "sh_inv idle kash x'" using x'(2,3) keyed_no_escape [OF at(3)] assms(3) Key by (auto simp: sh_inv_def)
    then show ?thesis using Key x' assms(2) by (metis echoes_nil)
  next
    case Tick
    obtain x' where x': "sh_step redraw kash Tick x = ret x'" "sh_at idle kash r pc q x'" "sh_kb x' = sh_kb x" "sh_con x' = sh_con x"
      using tick_passes [OF at(1)] by blast
    then have "sh_inv idle kash x'" using at(2,3) by (auto simp: sh_inv_def)
    then show ?thesis using Tick x' assms(2) by (metis echoes_nil)
  qed
qed

lemma sh_run_inv:
  assumes "sh_inv idle kash x" and "good (sh_con x)" and "\<forall>c. Key c \<in> set evs \<longrightarrow> no_escape_key c"
  shows "\<exists>x' bs. sh_run redraw kash evs x = ret x' \<and> sh_inv idle kash x' \<and> good (sh_con x') \<and> echoes bs (sh_con x) (sh_con x')"
  using assms
proof (induction evs arbitrary: x)
  case Nil
  then show ?case by (auto simp: sh_run_def intro: exI [of _ "[]"])
next
  case (Cons ev evs)
  obtain x1 bs1 where x1: "sh_step redraw kash ev x = ret x1" "sh_inv idle kash x1" "good (sh_con x1)" "echoes bs1 (sh_con x) (sh_con x1)"
    using sh_step_inv [OF Cons.prems(1,2), of ev] Cons.prems(3) by auto
  obtain x2 bs2 where x2: "sh_run redraw kash evs x1 = ret x2" "sh_inv idle kash x2" "good (sh_con x2)" "echoes bs2 (sh_con x1) (sh_con x2)"
    using Cons.IH [OF x1(2,3)] Cons.prems(3) by auto
  show ?case using x1(1) x2 echoes_trans [OF x1(4) x2(4)] by (auto simp: sh_run_def run_for_Cons)
qed

text \<open>One piece of the running thread brings the shell one stage on.\<close>

lemma stage_run:
  assumes "stage idle kash n b x" and "good (sh_con x)" and "b \<Longrightarrow> no_escape_key (last_key (sh_kb x))"
  shows "\<exists>x'. sh_step redraw kash Run x = ret x' \<and> stage idle kash (n - 1) (b \<and> n \<noteq> 5) x' \<and> kb_core (sh_kb x') = kb_core (sh_kb x) \<and>
    good (sh_con x') \<and> echoes (if b \<and> n = 5 then typed_char (kb_getmods (sh_kb x)) (last_key (sh_kb x)) else []) (sh_con x) (sh_con x')"
proof (cases "b \<and> n = 5")
  case True
  then have "sh_at idle kash kash (GK_Done (last_key (sh_kb x))) False x" using assms(1) by (simp add: stage_def last_key_def Let_def)
  then obtain x' where x': "sh_step redraw kash Run x = ret x'" "sh_at idle kash kash GK_Start False x'" "sh_kb x' = sh_kb x" "good (sh_con x')"
    "echoes (typed_char (kb_getmods (sh_kb x)) (last_key (sh_kb x))) (sh_con x) (sh_con x')"
    using kash_echoes [of idle kash "last_key (sh_kb x)" x] assms(2,3) True by auto
  then show ?thesis using True stage_intros(5) by (intro exI [of _ x']) simp
next
  case False
  then have "stage_step redraw idle kash (n - 1) (b \<and> n \<noteq> 5) x"
    using stage_pending [of idle kash n x redraw] stage_settling [of idle kash n x redraw] assms(1) by (cases b) auto
  then obtain x' where "sh_step redraw kash Run x = ret x'" "stage idle kash (n - 1) (b \<and> n \<noteq> 5) x'" "kb_core (sh_kb x') = kb_core (sh_kb x)"
    "sh_con x' = sh_con x" by (auto simp: stage_step_def)
  with False assms(2) show ?thesis by (intro exI [of _ x']) auto
qed

text \<open>Until the next key: any number of pieces and ticks.\<close>

lemma quiet_run:
  assumes "stage idle kash n b x" and "good (sh_con x)" and "b \<Longrightarrow> no_escape_key (last_key (sh_kb x))" and "set evs \<subseteq> {Run, Tick}"
  shows "\<exists>x'. sh_run redraw kash evs x = ret x' \<and> stage idle kash (n - count_list evs Run) (b \<and> 5 \<le> n - count_list evs Run) x' \<and>
    kb_core (sh_kb x') = kb_core (sh_kb x) \<and> good (sh_con x') \<and>
    echoes (if b \<and> n - count_list evs Run < 5 then typed_char (kb_getmods (sh_kb x)) (last_key (sh_kb x)) else []) (sh_con x) (sh_con x')"
  using assms
proof (induction evs arbitrary: n b x)
  case Nil
  have "b \<Longrightarrow> 5 \<le> n" using Nil.prems(1) by (auto simp: stage_def Let_def)
  then show ?case using Nil.prems by (auto simp: sh_run_def)
next
  case (Cons ev evs)
  have five: "b \<Longrightarrow> 5 \<le> n" using Cons.prems(1) by (auto simp: stage_def Let_def)
  have evs: "set evs \<subseteq> {Run, Tick}" using Cons.prems(4) by simp
  have cons: "sh_run redraw kash (ev # evs) x = run_bind (sh_step redraw kash ev x) (sh_run redraw kash evs)"
    by (simp add: sh_run_def run_for_Cons)
  consider "ev = Run" | "ev = Tick" using Cons.prems(4) by auto
  then show ?case
  proof cases
    case 1
    obtain x1 where x1: "sh_step redraw kash Run x = ret x1" "stage idle kash (n - 1) (b \<and> n \<noteq> 5) x1" "kb_core (sh_kb x1) = kb_core (sh_kb x)"
      "good (sh_con x1)" "echoes (if b \<and> n = 5 then typed_char (kb_getmods (sh_kb x)) (last_key (sh_kb x)) else []) (sh_con x) (sh_con x1)"
      using stage_run [OF Cons.prems(1-3)] by blast
    have same: "kb_getmods (sh_kb x1) = kb_getmods (sh_kb x)" "last_key (sh_kb x1) = last_key (sh_kb x)" using core_idx [OF x1(3)] by simp_all
    let ?m = "n - 1 - count_list evs Run"
    have "b \<and> n \<noteq> 5 \<Longrightarrow> no_escape_key (last_key (sh_kb x1))" using Cons.prems(3) same by simp
    from Cons.IH [OF x1(2,4) this evs] obtain x2 where x2: "sh_run redraw kash evs x1 = ret x2" "stage idle kash ?m ((b \<and> n \<noteq> 5) \<and> 5 \<le> ?m) x2"
      "kb_core (sh_kb x2) = kb_core (sh_kb x1)" "good (sh_con x2)"
      "echoes (if (b \<and> n \<noteq> 5) \<and> ?m < 5 then typed_char (kb_getmods (sh_kb x)) (last_key (sh_kb x)) else []) (sh_con x1) (sh_con x2)"
      unfolding same by blast
    have m: "n - count_list (ev # evs) Run = ?m" "((b \<and> n \<noteq> 5) \<and> 5 \<le> ?m) = (b \<and> 5 \<le> ?m)" using 1 five by auto
    have run: "sh_run redraw kash (ev # evs) x = ret x2" using cons x1(1) x2(1) 1 by simp
    have "echoes (if b \<and> ?m < 5 then typed_char (kb_getmods (sh_kb x)) (last_key (sh_kb x)) else []) (sh_con x) (sh_con x2)"
      using echoes_trans [OF x1(5) x2(5)] five by (auto split: if_splits)
    then show ?thesis unfolding m(1) using run x1(3) x2(2-4) unfolding m(2) by auto
  next
    case 2
    obtain x1 where x1: "sh_step redraw kash Tick x = ret x1" "stage idle kash n b x1" "sh_kb x1 = sh_kb x" "sh_con x1 = sh_con x"
      using stage_tick [OF Cons.prems(1)] by blast
    have run: "sh_run redraw kash (ev # evs) x = sh_run redraw kash evs x1" "count_list (ev # evs) Run = count_list evs Run"
      using cons x1(1) 2 by simp_all
    show ?thesis using Cons.IH [OF x1(2) _ _ evs] Cons.prems(2,3) unfolding x1(3,4) run by blast
  qed
qed

end

text \<open>Typing: the characters that key codes stand for, one after the other, with the modifiers as they are after each.\<close>

fun typed_text :: "u8 \<Rightarrow> u16 list \<Rightarrow> u8 list" where
  "typed_text mods [] = []"
| "typed_text mods (c # cs) =
     (let mods = update_modifiers (c AND 0xFF) (drop_bit 8 c \<noteq> 0) mods in typed_char mods c @ typed_text mods cs)"

definition quiet :: "nat \<Rightarrow> sh_event list \<Rightarrow> bool" where
  "quiet k evs \<longleftrightarrow> set evs \<subseteq> {Run, Tick} \<and> k \<le> count_list evs Run"

definition key_events :: "(u16 \<times> sh_event list) list \<Rightarrow> sh_event list" where
  "key_events ks = concat (map (\<lambda>(c, evs). Key c # evs) ks)"

lemma keyed_mods: "kb_getmods (keyed c k) = update_modifiers (c AND 0xFF) (drop_bit 8 c \<noteq> 0) (kb_getmods k)"
  by (simp add: kb_getmods_def keyed_def Let_def)

lemma sh_run_append: "sh_run redraw kash (as @ bs) x = run_bind (sh_run redraw kash as x) (sh_run redraw kash bs)"
  by (simp add: sh_run_def run_for_append)

context console_device
begin

lemma typing_run:
  assumes "stage idle kash 0 False x" and "good (sh_con x)" and "\<forall>(c, evs) \<in> set ks. no_escape_key c \<and> quiet 9 evs"
  shows "\<exists>x'. sh_run redraw kash (key_events ks) x = ret x' \<and> stage idle kash 0 False x' \<and> good (sh_con x') \<and>
    echoes (typed_text (kb_getmods (sh_kb x)) (map fst ks)) (sh_con x) (sh_con x')"
  using assms
proof (induction ks arbitrary: x)
  case Nil
  then show ?case by (auto simp: sh_run_def key_events_def)
next
  case (Cons k ks)
  obtain c evs where k: "k = (c, evs)" by (cases k)
  have c: "no_escape_key c" "set evs \<subseteq> {Run, Tick}" "9 \<le> count_list evs Run" using Cons.prems(3) by (auto simp: k quiet_def)
  obtain x1 where x1: "sh_step redraw kash (Key c) x = ret x1" "stage idle kash 9 True x1" "kb_core (sh_kb x1) = kb_core (keyed c (sh_kb x))"
    "sh_con x1 = sh_con x" "last_key (sh_kb x1) = c" using stage_key [OF Cons.prems(1)] by blast
  let ?mods = "update_modifiers (c AND 0xFF) (drop_bit 8 c \<noteq> 0) (kb_getmods (sh_kb x))"
  have mods: "kb_getmods (sh_kb x1) = ?mods" using core_idx [OF x1(3)] by (simp add: keyed_mods)
  have "9 - count_list evs Run = 0" using c(3) by simp
  then obtain x2 where x2: "sh_run redraw kash evs x1 = ret x2" "stage idle kash 0 False x2" "kb_core (sh_kb x2) = kb_core (sh_kb x1)"
    "good (sh_con x2)" "echoes (typed_char ?mods c) (sh_con x) (sh_con x2)"
    using quiet_run [OF x1(2) _ _ c(2)] Cons.prems(2) c(1) x1(4,5) mods by auto
  have mods2: "kb_getmods (sh_kb x2) = ?mods" using core_idx [OF x2(3)] mods by simp
  obtain x3 where x3: "sh_run redraw kash (key_events ks) x2 = ret x3" "stage idle kash 0 False x3" "good (sh_con x3)"
    "echoes (typed_text ?mods (map fst ks)) (sh_con x2) (sh_con x3)"
    using Cons.IH [OF x2(2,4)] Cons.prems(3) mods2 by auto
  have "key_events (k # ks) = Key c # evs @ key_events ks" by (simp add: key_events_def k)
  moreover have "sh_run redraw kash (Key c # evs @ key_events ks) x = ret x3"
    using x1(1) x2(1) x3(1) by (simp add: sh_run_def run_for_Cons run_for_append)
  ultimately show ?case using x3 echoes_trans [OF x2(5) x3(4)] by (auto simp: k Let_def)
qed

lemma shell_types:
  assumes "sh_at idle kash idle GK_Start False x" and "good (sh_con x)" and "quiet 5 evs"
    and "\<forall>(c, evs) \<in> set ks. no_escape_key c \<and> quiet 9 evs"
  shows "\<exists>x'. sh_run redraw kash (evs @ key_events ks) x = ret x' \<and> sh_at idle kash idle (GK_Loop (kb_ring_idx (sh_kb x'))) True x' \<and> good (sh_con x') \<and>
    echoes (typed_text (kb_getmods (sh_kb x)) (map fst ks)) (sh_con x) (sh_con x')"
proof -
  have "stage idle kash 5 False x" using assms(1) by (simp add: stage_def)
  moreover have "5 - count_list evs Run = 0" using assms(3) by (simp add: quiet_def)
  ultimately obtain x1 where x1: "sh_run redraw kash evs x = ret x1" "stage idle kash 0 False x1" "kb_core (sh_kb x1) = kb_core (sh_kb x)" "good (sh_con x1)"
    "echoes [] (sh_con x) (sh_con x1)"
    using quiet_run [of idle kash 5 False x evs] assms(2,3) by (auto simp: quiet_def)
  obtain x2 where x2: "sh_run redraw kash (key_events ks) x1 = ret x2" "stage idle kash 0 False x2" "good (sh_con x2)"
    "echoes (typed_text (kb_getmods (sh_kb x)) (map fst ks)) (sh_con x1) (sh_con x2)"
    using typing_run [OF x1(2,4) assms(4)] core_idx [OF x1(3)] by auto
  show ?thesis using x1(1) x2 echoes_trans [OF x1(5) x2(4)] by (auto simp: sh_run_append stage_asleep)
qed

end

section \<open>Properties\<close>

text \<open>C40: After \<open>kernel_main\<close> has handed over to the idle thread and the shell, no interleaving of the two threads with key and timer
  interrupts can bring the system down, as long as the escape key is not pressed: every piece of the threads and every
  interrupt returns; the shell is in the keyboard's queue only while it waits; the idle thread stays runnable; the console keeps
  its invariant, inside the pixel memory; and all that happens to the screen is that text is put on it.\<close>

theorem shell_never_stuck:
  assumes "sh_at idle kash idle GK_Start False x" and "\<forall>c \<in> set (key_ring (sh_kb x)). no_escape_key c"
    and "con_ok (fb_ok R C font table) (fb_shows font table) (\<lambda>s. rows s = R \<and> columns s = C) (sh_con x)"
    and "\<forall>c. Key c \<in> set evs \<longrightarrow> no_escape_key c"
  shows "\<exists>x' bs. sh_run (fb_console_redraw font) kash evs x = ret x' \<and> sh_inv idle kash x' \<and>
    con_ok (fb_ok R C font table) (fb_shows font table) (\<lambda>s. rows s = R \<and> columns s = C) (sh_con x') \<and>
    term_of (fst (sh_con x')) = fold term_put bs (term_of (fst (sh_con x)))"
proof -
  have "sh_inv idle kash x" using assms(1,2) by (auto simp: sh_inv_def legal_def)
  from fb.sh_run_inv [OF this assms(3,4)] show ?thesis by (auto simp: echoes_def)
qed

text \<open>What is typed appears. When the threads get at least nine pieces of time after every key code, the shell echoes exactly
  the characters of the keys pressed, in order, each with the modifiers held at that time; key releases and keys without a
  character print nothing; the screen shows the text, drawn pixel by pixel, the same bytes go to the serial port, and
  the shell is asleep in \<open>kb_getkey\<close> again while the idle thread runs.\<close>

theorem typed_text_appears:
  assumes "sh_at idle kash idle GK_Start False x"
    and "con_ok (fb_ok R C font table) (fb_shows font table) (\<lambda>s. rows s = R \<and> columns s = C) (sh_con x)"
    and "quiet 5 evs" and "\<forall>(c, evs) \<in> set ks. no_escape_key c \<and> quiet 9 evs"
    and "text = typed_text (kb_getmods (sh_kb x)) (map fst ks)"
  shows "\<exists>x'. sh_run (fb_console_redraw font) kash (evs @ key_events ks) x = ret x' \<and>
    sh_at idle kash idle (GK_Loop (kb_ring_idx (sh_kb x'))) True x' \<and>
    con_ok (fb_ok R C font table) (fb_shows font table) (\<lambda>s. rows s = R \<and> columns s = C) (sh_con x') \<and>
    term_of (fst (sh_con x')) = fold term_put text (term_of (fst (sh_con x))) \<and> serial (fst (sh_con x')) = serial (fst (sh_con x)) @ text"
  using fb.shell_types [OF assms(1-4)] unfolding assms(5) echoes_def by blast

text \<open>A console of two rows and two columns, and the two threads as \<open>kernel_main\<close> leaves them.\<close>

definition shell_tasks :: sched where
  "shell_tasks = \<lparr>cpu = no_regs,
     task_at = (\<lambda>t. \<lparr>t_regs = no_regs, t_next = Some (if t = 1 then 2 else 1), t_name = [], t_state = TASK_RUNNING\<rparr>),
     tasks = Some 1, tasks_tail = Some 2, running_task = Some 1,
     wait_at = (\<lambda>_. \<lparr>w_next = None, w_task = 0\<rparr>), timer_queue = None, jiffies = 0\<rparr>"

definition small_shell :: "framebuffer shell" where
  "small_shell = \<lparr>sh_kb = kb_fresh, sh_sched = shell_tasks, sh_pc = GK_Start,
     sh_con = (new_console 2 2 (replicate 4 \<lparr>cc_ch = 32, cc_attrs = 7\<rparr>), small_fb\<lparr>fb_private := replicate 2048 0\<rparr>)\<rparr>"

lemma small_shell_at: "sh_at 1 2 1 GK_Start False small_shell" "\<forall>c \<in> set (key_ring (sh_kb small_shell)). no_escape_key c" "kb_getmods (sh_kb small_shell) = 0"
  using kb_fresh_ok(1)
  by (simp_all add: sh_at_def small_shell_def shell_tasks_def ring_def runnable_def kb_fresh_def kb_early_init_def no_escape_key_def kb_getmods_def)

lemma small_shell_con:
  "con_ok (fb_ok 2 2 small_font (replicate 2048 0)) (fb_shows small_font (replicate 2048 0)) (\<lambda>s. rows s = 2 \<and> columns s = 2) (sh_con small_shell)"
proof -
  let ?s = "new_console 2 2 (replicate 4 \<lparr>cc_ch = 32, cc_attrs = 7\<rparr>)" and ?fb = "small_fb\<lparr>fb_private := replicate 2048 0\<rparr>"
  have s: "cons_inv ?s" "escape_code_length ?s = 0" "flags ?s AND CONSOLE_FLAG_AUTODRAW \<noteq> 0" "rows ?s = 2" "columns ?s = 2"
    by (simp_all add: new_console_def cons_inv_def CONSOLE_FLAG_AUTODRAW_def CONSOLE_FLAG_SHOW_CURSOR_def)
  have fb: "pixel_size ?fb = 4" "fb_pitch ?fb = 64" "fb_data ?fb = replicate 2048 0" by (simp_all add: small_fb_def pixel_size_def)
  have table: "pixel_byte small_font (replicate 2048 0) 4 c gy gx k = 0" if "k < 4" for c gy gx k
    using that byte_le [of "cc_attrs c"] by (simp add: pixel_byte_def)
  have drawn: "fb_shows small_font (replicate 2048 0) ?s ?fb" unfolding fb_shows_def fb s(4,5) by (auto simp: table)
  have "fb_ok 2 2 small_font (replicate 2048 0) ?fb" by (rule small_fb_ok) simp
  with s drawn show ?thesis by (simp add: con_ok_def small_shell_def)
qed

theorem shell_never_stuck_witness:
  "\<exists>x' bs. sh_run (fb_console_redraw small_font) 2 [Run, Key 30, Run, Tick, Run, Run, Key 0x11E, Run] small_shell = ret x' \<and> sh_inv 1 2 x' \<and>
    term_of (fst (sh_con x')) = fold term_put bs (term_of (fst (sh_con small_shell)))"
proof -
  have "\<forall>c. Key c \<in> set [Run, Key 30, Run, Tick, Run, Run, Key 0x11E, Run] \<longrightarrow> no_escape_key c" by (auto simp: no_escape_key_def)
  from shell_never_stuck [OF small_shell_at(1,2) small_shell_con this] show ?thesis by blast
qed

lemma typed_Hi: "typed_text 0 [42, 35, 0x123, 0x12A, 23, 0x117] = [72, 105]"
  by code_simp

theorem typed_text_appears_witness:
  "\<exists>x'. sh_run (fb_console_redraw small_font) 2 (replicate 5 Run @ key_events (map (\<lambda>c. (c, Tick # replicate 9 Run)) [42, 35, 0x123, 0x12A, 23, 0x117]))
     small_shell = ret x' \<and> serial (fst (sh_con x')) = [72, 105] \<and>
    term_of (fst (sh_con x')) = fold term_put [72, 105] (term_of (fst (sh_con small_shell)))"
proof -
  let ?ks = "map (\<lambda>c. (c, Tick # replicate 9 Run)) [42, 35, 0x123, 0x12A, 23, 0x117 :: u16]"
  have q: "quiet 5 (replicate 5 Run)" "quiet 9 (Tick # replicate 9 Run)" by (simp_all add: quiet_def numeral_eq_Suc)
  have ks: "\<forall>(c, evs) \<in> set ?ks. no_escape_key c \<and> quiet 9 evs" using q(2) by (auto simp: no_escape_key_def)
  have hi: "[72, 105] = typed_text (kb_getmods (sh_kb small_shell)) (map fst ?ks)" using typed_Hi small_shell_at(3) by simp
  have "serial (fst (sh_con small_shell)) = []" by (simp add: small_shell_def new_console_def)
  with typed_text_appears [OF small_shell_at(1) small_shell_con q(1) ks hi] show ?thesis by auto
qed

end
