(* ===== verification/Bochs_Vga.thy ===== *)
theory Bochs_Vga
  imports Pci
begin

text \<open>
  The driver of the display adapter of the Bochs and QEMU emulators (\<^verbatim>\<open>graphics/bochs_vga.c\<close>): the search for the adapter among the
  PCI functions and the measuring of its two memory ranges. The part of the function that would program the adapter is
  commented out in the source. What \<open>malloc\<close> returned is an argument; the kernel does not call the driver yet.
\<close>

section \<open>The code\<close>

text \<open>The fields for virtual addresses are never set.\<close>

record bochs_vga_device =
  bv_pci_function :: fptr
  bv_fb_size :: u32
  bv_io_size :: u32
  bv_fb_phys_addr :: u32
  bv_io_phys_addr :: u32

definition is_bochs :: "pci \<Rightarrow> fptr \<Rightarrow> bool" where
  "is_bochs ps f \<longleftrightarrow> f_vendor_id (fun_at ps f) = 0x1234 \<and> f_device_id (fun_at ps f) = 0x1111"

partial_function (option) bochs_functions :: "pci \<Rightarrow> dptr \<Rightarrow> fptr option \<Rightarrow> fptr option option" where
  "bochs_functions ps d cur = (case cur of
     None \<Rightarrow> Some None
   | Some f \<Rightarrow> if is_bochs ps f then Some (Some f) else bochs_functions ps d (pci_enumerate_functions d (Some f) ps))"

partial_function (option) bochs_devices :: "pci \<Rightarrow> dptr option \<Rightarrow> (dptr \<times> fptr) option option" where
  "bochs_devices ps cur = (case cur of
     None \<Rightarrow> Some None
   | Some d \<Rightarrow> (case bochs_functions ps d (pci_enumerate_functions d None ps) of
       None \<Rightarrow> None
     | Some (Some f) \<Rightarrow> Some (Some (d, f))
     | Some None \<Rightarrow> bochs_devices ps (pci_enumerate_devices (Some d) ps)))"

definition bar_size :: "u32 \<Rightarrow> u32" where
  "bar_size v = NOT (v AND 0xFFFFFFF0) + 1"

text \<open>The registers as they were, the sizes of the two ranges, and the hardware after the registers have been put back.\<close>

definition bochs_measure :: "'c bus \<Rightarrow> u8 \<Rightarrow> u8 \<Rightarrow> u8 \<Rightarrow> 'c \<Rightarrow> u32 \<times> u32 \<times> u32 \<times> u32 \<times> 'c" where
  "bochs_measure b bus slot func c =
     (let (bar0, c) = pci_get_bar b 0 bus slot func c;
          (bar2, c) = pci_get_bar b 2 bus slot func c;
          c = pci_config_writel b bus slot func 0x10 0xFFFFFFFF c;
          c = pci_config_writel b bus slot func 0x18 0xFFFFFFFF c;
          (m0, c) = pci_get_bar b 0 bus slot func c;
          (m2, c) = pci_get_bar b 2 bus slot func c;
          c = pci_config_writel b bus slot func 0x10 bar0 c;
          c = pci_config_writel b bus slot func 0x18 bar2 c
      in (bar0, bar2, bar_size m0, bar_size m2, c))"

definition bochs_vga_init :: "'c bus \<Rightarrow> nat option \<Rightarrow> pci \<Rightarrow> 'c \<Rightarrow> (bochs_vga_device option \<times> 'c \<times> printf_call list) run" where
  "bochs_vga_init b mem ps c = (case bochs_devices ps (pci_enumerate_devices None ps) of
     None \<Rightarrow> None
   | Some None \<Rightarrow> ret (None, c, [])
   | Some (Some (d, f)) \<Rightarrow>
       (let (bar0, bar2, framebuffer_size, mmio_size, c) =
              bochs_measure b (d_bus (dev_at ps d)) (d_number (dev_at ps d)) (f_number (fun_at ps f)) c;
            out = [(''BAR0: 0x%08X'' @ [CHR 10] @ ''BAR2: 0x%08X'' @ [CHR 10], [Va_int bar0, Va_int bar2]),
              (''FB: 0x%08X'' @ [CHR 10] @ ''IO: 0x%08X'' @ [CHR 10], [Va_int framebuffer_size, Va_int mmio_size])]
        in if mem = None then goes_wrong Null_pointer
           else ret (Some \<lparr>bv_pci_function = f, bv_fb_size = framebuffer_size, bv_io_size = mmio_size,
             bv_fb_phys_addr = bar0 AND 0xFFFFFFF0, bv_io_phys_addr = bar2 AND 0xFFFFFFF0\<rparr>, c, out)))"

section \<open>The search\<close>

text \<open>Where the adapters are: bus, device and function numbers.\<close>

definition bochs_locations :: "device_info list \<Rightarrow> (u8 \<times> u8 \<times> u8) list" where
  "bochs_locations infos = concat (map (\<lambda>(bus, slot, v, i, fis).
     map (\<lambda>fi. (bus, slot, fst fi)) (filter (\<lambda>fi. fst (snd fi) = 0x1234 \<and> fst (snd (snd fi)) = 0x1111) fis)) infos)"

lemma bochs_functions_find:
  assumes "lseg (\<lambda>f. pci_enumerate_functions d (Some f) ps) cur fs None"
  shows "bochs_functions ps d cur = Some (find (is_bochs ps) fs)"
  using assms
proof (induction fs arbitrary: cur)
  case Nil
  then show ?case by (subst bochs_functions.simps) simp
next
  case (Cons f fs)
  then show ?case by (subst bochs_functions.simps) simp
qed

lemma bochs_functions_locations:
  "map (\<lambda>fi. (bus, slot, fst fi)) (filter (\<lambda>fi. fst (snd fi) = 0x1234 \<and> fst (snd (snd fi)) = 0x1111) (map (fun_info ps) fs)) =
    map (\<lambda>f. (bus, slot, f_number (fun_at ps f))) (filter (is_bochs ps) fs)"
  by (induction fs) (simp_all add: fun_info_def is_bochs_def Let_def)

lemma find_filter: "find P xs = (case filter P xs of [] \<Rightarrow> None | x # _ \<Rightarrow> Some x)"
  by (induction xs) simp_all

lemma bochs_devices_find:
  assumes "lseg (\<lambda>d. pci_enumerate_devices (Some d) ps) cur ds None"
    and "list_all2 (\<lambda>d info. \<exists>fs. info = (d_bus (dev_at ps d), d_number (dev_at ps d), d_vendor_id (dev_at ps d),
         d_device_id (dev_at ps d), map (fun_info ps) fs) \<and>
       lseg (\<lambda>f. pci_enumerate_functions d (Some f) ps) (pci_enumerate_functions d None ps) fs None \<and>
       (\<forall>f \<in> set fs. f_device (fun_at ps f) = d)) ds infos"
  shows "\<exists>r. bochs_devices ps cur = Some r \<and> (case bochs_locations infos of
     [] \<Rightarrow> r = None
   | loc # _ \<Rightarrow> \<exists>d f. r = Some (d, f) \<and> loc = (d_bus (dev_at ps d), d_number (dev_at ps d), f_number (fun_at ps f)) \<and> is_bochs ps f)"
  using assms
proof (induction ds arbitrary: cur infos)
  case Nil
  then show ?case by (subst bochs_devices.simps) (simp add: bochs_locations_def)
next
  case (Cons d ds)
  let ?loc = "\<lambda>f. (d_bus (dev_at ps d), d_number (dev_at ps d), f_number (fun_at ps f))"
  obtain fs infos' where infos: "infos = (d_bus (dev_at ps d), d_number (dev_at ps d), d_vendor_id (dev_at ps d),
         d_device_id (dev_at ps d), map (fun_info ps) fs) # infos'"
    and fs: "lseg (\<lambda>f. pci_enumerate_functions d (Some f) ps) (pci_enumerate_functions d None ps) fs None"
    and rest: "list_all2 (\<lambda>d info. \<exists>fs. info = (d_bus (dev_at ps d), d_number (dev_at ps d), d_vendor_id (dev_at ps d),
         d_device_id (dev_at ps d), map (fun_info ps) fs) \<and>
       lseg (\<lambda>f. pci_enumerate_functions d (Some f) ps) (pci_enumerate_functions d None ps) fs None \<and>
       (\<forall>f \<in> set fs. f_device (fun_at ps f) = d)) ds infos'"
    using Cons.prems(2) unfolding list_all2_Cons1 by blast
  have locs: "bochs_locations infos = map ?loc (filter (is_bochs ps) fs) @ bochs_locations infos'"
    by (simp add: infos bochs_locations_def bochs_functions_locations)
  have cur: "cur = Some d" "lseg (\<lambda>d. pci_enumerate_devices (Some d) ps) (pci_enumerate_devices (Some d) ps) ds None"
    using Cons.prems(1) by simp_all
  note found = bochs_functions_find [OF fs]
  show ?case
  proof (cases "filter (is_bochs ps) fs")
    case Nil
    then have "bochs_devices ps cur = bochs_devices ps (pci_enumerate_devices (Some d) ps)"
      using found by (subst bochs_devices.simps) (simp add: cur(1) find_filter)
    then show ?thesis using Cons.IH [OF cur(2) rest] Nil by (simp add: locs)
  next
    case (Cons f fs')
    then have "bochs_devices ps cur = Some (Some (d, f))" using found by (subst bochs_devices.simps) (simp add: cur(1) find_filter)
    moreover have "is_bochs ps f" using Cons by (metis filter_eq_Cons_iff)
    ultimately show ?thesis using Cons by (simp add: locs)
  qed
qed

section \<open>Measuring a memory range\<close>

text \<open>
  What the specification of PCI promises of the base address registers of a memory range of \<open>2 ^ k\<close> bytes: the address bits below \<open>k\<close> are
  hard-wired to 0, the lowest four bits hold the type of the range and cannot be written, and reading changes nothing.
\<close>

definition bar_device :: "'c bus \<Rightarrow> u8 \<Rightarrow> u8 \<Rightarrow> u8 \<Rightarrow> ('c \<Rightarrow> u8 \<Rightarrow> u32) \<Rightarrow> (u8 \<Rightarrow> nat) \<Rightarrow> (u8 \<Rightarrow> u32) \<Rightarrow> bool" where
  "bar_device b bus slot func reg k kind \<longleftrightarrow> (\<forall>off \<in> {0x10, 0x18}. 4 \<le> k off \<and> k off < 32 \<and> kind off < 16 \<and>
     (\<forall>c. fst (pci_config_readl b bus slot func off c) = reg c off \<and> reg (snd (pci_config_readl b bus slot func off c)) = reg c) \<and>
     (\<forall>v c. reg (pci_config_writel b bus slot func off v c) = (reg c)(off := (v AND NOT (mask (k off))) OR kind off)))"

lemma bar_nth: "[0x10, 0x14, 0x18, 0x1C, 0x20, 0x24 :: u8] ! 2 = 0x18"
  by simp

lemma bit_bar_mask: "bit (0xFFFFFFF0 :: u32) n \<longleftrightarrow> 4 \<le> n \<and> n < 32"
proof -
  have "(0xFFFFFFF0 :: u32) = NOT (mask 4)" by (simp add: mask_eq_exp_minus_1)
  show ?thesis unfolding \<open>0xFFFFFFF0 = NOT (mask 4)\<close> by (auto simp: bit_simps)
qed

lemma small_bits:
  assumes "(w :: u32) < 16" and "bit w n"
  shows "n < 4"
proof -
  have "take_bit 4 (unat w) = unat w" using assms(1) by (intro take_bit_nat_eq_self) (simp add: word_less_nat_alt)
  then have "take_bit 4 w = w" by (simp add: word_unat_eq_iff unsigned_take_bit_eq)
  then show ?thesis using assms(2) by (metis bit_take_bit_iff)
qed

lemma bar_size_power:
  assumes "4 \<le> k" and "k < 32" and "kind < 16"
  shows "bar_size ((0xFFFFFFFF AND NOT (mask k)) OR kind) = 2 ^ k"
proof -
  have "(0xFFFFFFFF :: u32) = - 1" by simp
  then have ones: "(0xFFFFFFFF AND NOT (mask k) :: u32) = NOT (mask k)" by (simp only: and.left_neutral)
  have "((NOT (mask k)) OR kind) AND 0xFFFFFFF0 = (NOT (mask k) :: u32)"
    using assms(1) small_bits [OF assms(3)] by (intro bit_word_eqI)
      (simp only: bit_and_iff bit_or_iff bit_not_iff bit_mask_iff bit_bar_mask possible_bit_word, fastforce)
  then have "bar_size ((0xFFFFFFFF AND NOT (mask k)) OR kind) = NOT (NOT (mask k)) + 1" unfolding bar_size_def ones by (rule arg_cong)
  then show ?thesis by (simp add: mask_eq_exp_minus_1)
qed

lemma bochs_measure_ok:
  assumes "bar_device b bus slot func reg k kind" and "\<forall>off \<in> {0x10, 0x18}. (reg c off AND NOT (mask (k off))) OR kind off = reg c off"
  shows "\<exists>c'. bochs_measure b bus slot func c = (reg c 0x10, reg c 0x18, 2 ^ k 0x10, 2 ^ k 0x18, c') \<and> reg c' = reg c"
proof -
  let ?rd = "\<lambda>off. pci_config_readl b bus slot func off" and ?wr = "\<lambda>off. pci_config_writel b bus slot func off"
  have rd: "fst (?rd 0x10 c) = reg c 0x10" "fst (?rd 0x18 c) = reg c 0x18" "reg (snd (?rd 0x10 c)) = reg c" "reg (snd (?rd 0x18 c)) = reg c" for c
    using assms(1) by (simp_all add: bar_device_def)
  have wr: "reg (?wr 0x10 v c) = (reg c)(0x10 := (v AND NOT (mask (k 0x10))) OR kind 0x10)"
    "reg (?wr 0x18 v c) = (reg c)(0x18 := (v AND NOT (mask (k 0x18))) OR kind 0x18)" for v c
    using assms(1) by (simp_all add: bar_device_def)
  have sizes: "bar_size ((0xFFFFFFFF AND NOT (mask (k off))) OR kind off) = 2 ^ k off" if "off \<in> {0x10, 0x18}" for off
    using assms(1) that by (intro bar_size_power) (auto simp: bar_device_def)
  define c2 where "c2 = snd (?rd 0x18 (snd (?rd 0x10 c)))"
  define c4 where "c4 = ?wr 0x18 0xFFFFFFFF (?wr 0x10 0xFFFFFFFF c2)"
  define c6 where "c6 = snd (?rd 0x18 (snd (?rd 0x10 c4)))"
  define c8 where "c8 = ?wr 0x18 (reg c 0x18) (?wr 0x10 (reg c 0x10) c6)"
  have regs: "reg c2 = reg c" "reg c6 = reg c4" "reg c4 0x10 = (0xFFFFFFFF AND NOT (mask (k 0x10))) OR kind 0x10"
    "reg c4 0x18 = (0xFFFFFFFF AND NOT (mask (k 0x18))) OR kind 0x18" "\<forall>off. off \<noteq> 0x10 \<longrightarrow> off \<noteq> 0x18 \<longrightarrow> reg c4 off = reg c off"
    by (simp_all add: c2_def c4_def c6_def rd wr)
  have "reg c8 = (reg c4)(0x10 := reg c 0x10, 0x18 := reg c 0x18)" unfolding c8_def wr regs(2) using assms(2) by simp
  then have same: "reg c8 = reg c" using regs(5) by (auto simp only: fun_eq_iff fun_upd_apply split: if_splits)
  have size: "bar_size (reg c4 0x10) = 2 ^ k 0x10" "bar_size (reg c4 0x18) = 2 ^ k 0x18" unfolding regs(3,4) by (simp_all only: sizes insertI1 insertI2)
  have "bochs_measure b bus slot func c = (reg c 0x10, reg c 0x18, bar_size (reg c4 0x10), bar_size (reg c4 0x18), c8)"
    by (simp only: bochs_measure_def Let_def split_def pci_get_bar_def nth_Cons_0 bar_nth rd c8_def c6_def c4_def c2_def fst_conv snd_conv)
  then show ?thesis using same unfolding size by blast
qed

section \<open>Properties\<close>

text \<open>After the PCI enumeration the driver finds the first adapter, measures its framebuffer and its register range by
  writing ones to the base address registers, and leaves both registers as they were; without an adapter it touches nothing. The
  block for the adapter has to be there: \<open>malloc\<close> is not checked.\<close>

theorem bochs_vga_init_measures:
  assumes "enumerates ps infos" and "bochs_locations infos = (bus, slot, func) # locs"
    and "bar_device b bus slot func reg k kind" and "mem \<noteq> None"
    and "\<forall>off \<in> {0x10, 0x18}. (reg c off AND NOT (mask (k off))) OR kind off = reg c off"
  shows "\<exists>dev c' out. bochs_vga_init b mem ps c = ret (Some dev, c', out) \<and> is_bochs ps (bv_pci_function dev) \<and>
    bv_fb_size dev = 2 ^ k 0x10 \<and> bv_io_size dev = 2 ^ k 0x18 \<and>
    bv_fb_phys_addr dev = reg c 0x10 AND 0xFFFFFFF0 \<and> bv_io_phys_addr dev = reg c 0x18 AND 0xFFFFFFF0 \<and>
    reg c' = reg c"
proof -
  obtain d f where df: "bochs_devices ps (pci_enumerate_devices None ps) = Some (Some (d, f))"
    "bus = d_bus (dev_at ps d)" "slot = d_number (dev_at ps d)" "func = f_number (fun_at ps f)" "is_bochs ps f"
    using assms(1,2) bochs_devices_find [of ps "pci_enumerate_devices None ps" _ infos] unfolding enumerates_def by fastforce
  obtain c' where "bochs_measure b bus slot func c = (reg c 0x10, reg c 0x18, 2 ^ k 0x10, 2 ^ k 0x18, c')" "reg c' = reg c"
    using bochs_measure_ok [OF assms(3,5)] by blast
  then show ?thesis using assms(4) df by (simp add: bochs_vga_init_def Let_def)
qed

theorem bochs_vga_init_absent:
  assumes "enumerates ps infos" and "bochs_locations infos = []"
  shows "bochs_vga_init b mem ps c = ret (None, c, [])"
  using assms bochs_devices_find [of ps "pci_enumerate_devices None ps" _ infos] unfolding enumerates_def
  by (fastforce simp: bochs_vga_init_def)

text \<open>An adapter with 16 MiB of framebuffer at \<^verbatim>\<open>0xFD000000\<close> and one page of registers at \<^verbatim>\<open>0xFEBF0000\<close>, as the only device.
  The state of the hardware is the address register and the two base address registers.\<close>

definition bochs_bus :: "(u32 \<times> u32 \<times> u32) bus" where
  "bochs_bus = \<lparr>in8 = (\<lambda>port c. (0, c)), in16 = (\<lambda>port c. (0, c)),
     in32 = (\<lambda>port c. (if port = 0xCFC then if fst c = 0x80000010 then fst (snd c) else if fst c = 0x80000018 then snd (snd c) else 0 else 0, c)),
     out8 = (\<lambda>port v c. c), out16 = (\<lambda>port v c. c),
     out32 = (\<lambda>port v (a, fb, io). if port = 0xCF8 then (v, fb, io)
       else if port = 0xCFC \<and> a = 0x80000010 then (a, v AND NOT (mask 24) OR 8, io)
       else if port = 0xCFC \<and> a = 0x80000018 then (a, fb, v AND NOT (mask 12) OR 0) else (a, fb, io))\<rparr>"

definition bochs_reg :: "u32 \<times> u32 \<times> u32 \<Rightarrow> u8 \<Rightarrow> u32" where
  "bochs_reg c off = (if off = 0x10 then fst (snd c) else if off = 0x18 then snd (snd c) else 0)"

definition bochs_pci :: pci where
  "bochs_pci = pci_blank\<lparr>pci_devices := Some 1, dev_at := (\<lambda>_. \<lparr>d_prev = None, d_next = None, d_bus = 0, d_number = 0,
       d_vendor_id = 0x1234, d_device_id = 0x1111, d_functions = Some 2\<rparr>),
     fun_at := (\<lambda>_. \<lparr>f_prev = None, f_next = None, f_device = 1, f_number = 0, f_vendor_id = 0x1234, f_device_id = 0x1111,
       f_class_code = 3, f_subclass = 0, f_progif = 0\<rparr>)\<rparr>"

lemma bochs_bus_bars: "bar_device bochs_bus 0 0 0 bochs_reg (\<lambda>off. if off = 0x10 then 24 else 12) (\<lambda>off. if off = 0x10 then 8 else 0)"
proof -
  have addr: "pci_config_address 0 0 0 0x10 = 0x80000010" "pci_config_address 0 0 0 0x18 = 0x80000018"
    by (simp_all add: pci_config_address_def)
  show ?thesis
    by (auto simp: bar_device_def pci_config_readl_def pci_config_writel_def addr outl_p_def inl_p_def bochs_bus_def bochs_reg_def Let_def
        PCI_CONFIG_ADDRESS_def PCI_CONFIG_DATA_def fun_eq_iff split_def)
qed

theorem bochs_vga_init_measures_witness:
  "\<exists>dev c' out. bochs_vga_init bochs_bus (Some 4096) bochs_pci (0, 0xFD000008, 0xFEBF0000) = ret (Some dev, c', out) \<and>
    bv_fb_size dev = 0x1000000 \<and> bv_io_size dev = 0x1000 \<and> bv_fb_phys_addr dev = 0xFD000000 \<and> bochs_reg c' 0x10 = 0xFD000008"
proof -
  have locs: "bochs_locations [(0, 0, 0x1234, 0x1111, [(0, 0x1234, 0x1111, 3, 0, 0)])] = [(0, 0, 0)]" by (simp add: bochs_locations_def)
  have "enumerates bochs_pci [(0, 0, 0x1234, 0x1111, [(0, 0x1234, 0x1111, 3, 0, 0)])]"
    unfolding enumerates_def
    by (rule exI [of _ "[1]"], simp add: bochs_pci_def pci_enumerate_devices_def, rule exI [of _ "[2]"])
      (simp add: fun_info_def pci_enumerate_functions_def)
  note bochs_vga_init_measures [OF this locs bochs_bus_bars, of "Some 4096" "(0, 0xFD000008, 0xFEBF0000)"]
  then show ?thesis by (fastforce simp: bochs_reg_def mask_eq_exp_minus_1)
qed

end
