(* ===== verification/Spec2Isabelle.thy ===== *)
theory Spec2Isabelle
  imports Malloc Sched_System Fbconsole Snprintf Isr Interrupts Boot_Memory Mmio Delay Acpi Kernel_Main Shell Bochs_Vga
begin

text \<open>
  This library models IKAROS, a small kernel for i386 machines that is started by a Multiboot 2 boot loader, and proves what
  its parts do. Everything under \<^verbatim>\<open>src/kernel\<close> and \<^verbatim>\<open>src/libc\<close> that computes is a definition of one of the theories below; file
  names are relative to \<^verbatim>\<open>src/kernel/kernel\<close>, \<^verbatim>\<open>src/kernel/include/kernel\<close>, their counterparts under \<^verbatim>\<open>src/kernel/arch/i386\<close>, and \<^verbatim>\<open>src/libc\<close>.

  \<^bold>\<open>The program.\<close> \<^verbatim>\<open>boot.S\<close> sets up a page directory and calls \<open>_main\<close> (\<^verbatim>\<open>boot/main.c\<close>), which reads the boot information, gives
  physical memory to the page allocator, runs the tables of initialisation functions (paging, heap, keyboard, interrupts), sets up a
  console and calls \<open>kernel_main\<close> (\<^verbatim>\<open>kernel.c\<close>). That function starts the scheduler and an idle thread, enumerates the PCI
  devices, starts the IDE driver, creates the shell thread and exits. From then on the two threads and the interrupts of timer and
  keyboard make up the system: the shell waits for keys and echoes them.

  \<^bold>\<open>How C is modelled.\<close> \<^verbatim>\<open>Ikaros_Base\<close> is the prelude. The C types of the target are words of their width (\<open>u8\<close>, \<open>u16\<close>,
  \<open>u32\<close>, \<open>u64\<close>), counters that provably stay small are natural numbers with the wrap-around written out where the code could
  reach it. A call has the type \<open>'a run\<close>: it returns a value (\<open>ret\<close>), goes wrong with a \<open>fault\<close> (an access out of bounds, a null
  pointer, a page fault, a panic, a division by zero), or never returns (\<open>None\<close>). Loops without an evident end are
  \<open>partial_function (option)\<close>, so that no bound or fuel has to be chosen and running for ever is a value that the theorems exclude or
  prove; \<open>run_for\<close> is the counted loop, with the rules \<open>run_for_inv\<close>, \<open>run_for_upt\<close>, \<open>run_for_each\<close> and \<open>run_for_fold\<close>. A structure is a
  \<open>record\<close>; structures that point to each other live at addresses, and \<^verbatim>\<open>Linked_List\<close> relates \<open>next\<close> pointers to lists. The global
  variables of a file are the record that its operations take and return.

  \<^bold>\<open>Memory.\<close>
  \<^item> \<^verbatim>\<open>Memory_Region\<close> (\<^verbatim>\<open>memory/memory_region.h\<close>, \<^verbatim>\<open>.c\<close>): the bitmap allocator of physical pages. It refines a set of free pages; it
    provides the locale \<open>page_source\<close> of \<^verbatim>\<open>Page_Source\<close> (interpretation \<open>mr\<close>), through which the clients reason about runs of
    allocations.
  \<^item> \<^verbatim>\<open>Memory_Map\<close> (\<^verbatim>\<open>memory/memory_map.c\<close>): the two tables of 32 memory ranges and their invariant.
  \<^item> \<^verbatim>\<open>Paging\<close> (\<^verbatim>\<open>memory/memory_manager.h\<close>, \<^verbatim>\<open>paging.c\<close>): page tables in physical memory, every access through the page walk of the
    processor. \<open>mm_map_page\<close> changes the translation of one page and \<open>paging_earlyinit\<close> builds a kernel space.
  \<^item> \<^verbatim>\<open>Mmio\<close> (\<^verbatim>\<open>memory/mmio.c\<close>): the window for device memory, proved in the locale \<open>address_space\<close>, which the page tables
    provide (interpretation \<open>ks\<close>).
  \<^item> \<^verbatim>\<open>Malloc\<close> (\<^verbatim>\<open>libc/stdlib/malloc.c\<close>): the heap, byte for byte. The bump allocator keeps the contract of the locale
    \<open>bump_allocator\<close> (interpretation \<open>kheap\<close>): blocks are disjoint, backed by memory and keep their contents. What the free list
    does wrong is proved as well.
  \<^item> \<^verbatim>\<open>Libc_Strings\<close> (\<^verbatim>\<open>libc/string\<close>, \<^verbatim>\<open>strings\<close>, \<^verbatim>\<open>atoi.c\<close>): memory and string routines against list functions.

  \<^bold>\<open>Tasks and interrupts.\<close>
  \<^item> \<^verbatim>\<open>Tasks\<close> (\<^verbatim>\<open>scheduler/task.c\<close>, \<^verbatim>\<open>wait.c\<close>, \<^verbatim>\<open>scheduler.c\<close>, \<^verbatim>\<open>irq/timer.c\<close>): the ring of tasks, context switches, wait queues. Yielding
    is a round robin over the runnable tasks; removing an element that is not the first of its queue never returns.
  \<^item> \<^verbatim>\<open>Sched_System\<close>: tasks that sleep, the idle task and the timer interrupt as a state machine; by induction over the reachable states
    no call hangs, every tick wakes all sleepers, and no task sleeps too short.
  \<^item> \<^verbatim>\<open>Isr\<close>, \<^verbatim>\<open>Descriptors\<close>, \<^verbatim>\<open>Interrupts\<close> (\<^verbatim>\<open>irq/irq.c\<close>, \<^verbatim>\<open>pic.c\<close>, \<^verbatim>\<open>boot/gdt.h\<close>, \<^verbatim>\<open>idt.h\<close>): the entry stubs instruction by instruction, the
    encoding of descriptors against the decoding of the processor, and the dispatch of interrupts. Every history of interrupts
    keeps the state of the kernel well formed.
  \<^item> \<^verbatim>\<open>Delay\<close> (\<^verbatim>\<open>delay.c\<close>, \<^verbatim>\<open>boot/initx86.c\<close>): the delay loop by its rounds, and how exact its calibration is.

  \<^bold>\<open>Devices.\<close> \<^verbatim>\<open>Port_Io\<close> models the port instructions over a \<open>bus\<close>, an argument that says what the hardware answers. Each
  driver states what it relies on of it: \<open>ps2_controller\<close>, \<open>pci_host\<close>, \<open>drives_settle\<close>, \<open>bar_device\<close>.
  \<^item> \<^verbatim>\<open>Console\<close> and \<^verbatim>\<open>Fbconsole\<close> (\<^verbatim>\<open>console/console.c\<close>, \<^verbatim>\<open>null_console.c\<close>, \<^verbatim>\<open>vga_console.c\<close>, \<^verbatim>\<open>fbconsole.c\<close>): the console refines a
    scrolling terminal. The locale \<open>console_device\<close> is the contract of a driver (interpretations \<open>vga\<close>, \<open>null\<close> and
    \<open>fb\<close>); for the framebuffer it says which byte every pixel has.
  \<^item> \<^verbatim>\<open>Snprintf\<close> (\<^verbatim>\<open>libc/stdio/snprintf.c\<close>): the format interpreter. In the locale \<open>printer_sim\<close> a run into a buffer simulates a run that
    collects text, so that the buffer holds a prefix of the text; printing and \<open>atoi\<close> are inverse.
  \<^item> \<^verbatim>\<open>Keyboard\<close> (\<^verbatim>\<open>input/keyboard.c\<close>, \<^verbatim>\<open>at_keyboard.c\<close>): scan codes, key codes, modifiers, the ring of keys and waiting readers.
  \<^item> \<^verbatim>\<open>Pci\<close>, \<^verbatim>\<open>Ide\<close>, \<^verbatim>\<open>Bochs_Vga\<close> (\<^verbatim>\<open>pci/pci.c\<close>, \<^verbatim>\<open>ide/pci_ide.c\<close>, \<^verbatim>\<open>graphics/bochs_vga.c\<close>): the enumeration refines a recursive
    description of the buses behind bridges; the drivers find exactly their functions.
  \<^item> \<^verbatim>\<open>Serial_Debug\<close>, \<^verbatim>\<open>Acpi\<close> (\<^verbatim>\<open>debug/serial_debug.c\<close>, \<^verbatim>\<open>pc_serial_debug.c\<close>, \<^verbatim>\<open>acpi/acpi.c\<close>, \<^verbatim>\<open>acpi_x86.c\<close>): debug output and the search for
    the ACPI root pointer.

  \<^bold>\<open>Putting it together.\<close>
  \<^item> \<^verbatim>\<open>Multiboot\<close> and \<^verbatim>\<open>Boot_Memory\<close> (\<^verbatim>\<open>boot/multiboot2.h\<close>, \<^verbatim>\<open>boot/main.c\<close>): from the tags of the boot loader to a page allocator that never
    hands out a whole page of the kernel image.
  \<^item> \<^verbatim>\<open>Boot\<close> (\<^verbatim>\<open>boot/main.c\<close>, \<^verbatim>\<open>initcall.c\<close>, \<^verbatim>\<open>initx86.c\<close>): whatever order the linker gives the initialisation functions, the invariants
    of page tables, heap, device window and keyboard hold afterwards, and a framebuffer console is drawn on mapped memory. The
    addresses of the linker, the memory and the speed of the machine are the fields of the record \<open>env\<close>.
  \<^item> \<^verbatim>\<open>Kernel_Main\<close> (\<^verbatim>\<open>kernel.c\<close>): \<open>kernel_main\<close> reaches its end and leaves the idle thread and the shell in the ring; \<open>main_ready\<close> says
    what it needs.
  \<^item> \<^verbatim>\<open>Shell\<close> (\<^verbatim>\<open>kernel.c\<close>): the two threads, cut into the pieces between which interrupts strike. All interleavings are safe, and
    with nine pieces of time per key code (what one round of the shell takes) the text typed is the text shown. The lemmas are proved in the
    locale \<open>console_device\<close> for every driver.
  \<^item> This theory joins the last three: \<open>boot_kernel\<close> runs \<open>_main\<close> and the \<open>kernel_main\<close> it calls, and from the tags of the boot loader the
    kernel comes to a shell that echoes. \<open>bootable\<close>, \<open>boot_information\<close>, \<open>display_ready\<close>, \<open>boot_bytes\<close> and \<open>devices_ready\<close> say what
    that takes; the witness runs it on the memory image \<open>boot_mem\<close>.

  \<^bold>\<open>Choices.\<close> The processor's translation cache is not modelled: the walk sees the tables, as \<open>invlpg\<close> after every change ensures. The blocks that \<open>malloc\<close> returns
  to the PCI and IDE drivers are supplies of their own (\<open>blocks\<close>, \<open>ide_blocks\<close>), distinct from the heap of \<^verbatim>\<open>Boot\<close>; that the heap can
  supply distinct blocks is what \<^verbatim>\<open>Malloc\<close> shows. What the devices do while the IDE driver sleeps is an argument, and so are the ticks
  seen during the calibration; interrupts between the end of the boot code and the hand-over are not interleaved with
  \<open>kernel_main\<close>. The output of \<open>kernel_main\<close> is recorded as its \<open>printf\<close> calls and not written to the console model, so that the
  theorem of this theory holds for every console in order.

  \<^bold>\<open>Not modelled.\<close> The floating-point conversion \<open>fmtfp\<close> of \<^verbatim>\<open>snprintf.c\<close>, which needs the arithmetic of \<open>double\<close>, is an argument of \<open>dopr\<close>. The
  assembly of \<^verbatim>\<open>boot.S\<close> appears as the hypothesis \<open>boot_tables\<close> on the page tables it leaves. Spin locks are never contended on one
  processor with interrupts off. \<open>_panic\<close> and \<open>abort\<close> are outcomes. Test code, build scripts, fonts, the headers that no code uses
  (\<^verbatim>\<open>multiboot.h\<close>, \<^verbatim>\<open>elf32.h\<close>, \<^verbatim>\<open>tty.h\<close>, \<^verbatim>\<open>fs.h\<close>) and the commented-out \<^verbatim>\<open>block_device.c\<close> are left out.
\<close>

section \<open>From the boot loader to the prompt\<close>

text \<open>The boot code ends with the call of \<open>kernel_main\<close>; \<open>text_of\<close> gives the string at the address of the command line, or the
  default.\<close>

definition boot_kernel :: "(u32 option \<Rightarrow> string) \<Rightarrow> 'c main_env \<Rightarrow> u32 \<Rightarrow> u32 \<Rightarrow> 'c system \<Rightarrow> 'c system run" where
  "boot_kernel text_of e mbd magic s =
     run_bind (main_entry (env.truncate e) mbd magic (sy_boot s)) (\<lambda>(call, b). case call of
       None \<Rightarrow> ret (s\<lparr>sy_boot := b\<rparr>)
     | Some (cmdline, con) \<Rightarrow> kernel_main e (Some (text_of cmdline)) (s\<lparr>sy_boot := b, sy_console := con\<rparr>))"

text \<open>The two threads that \<open>kernel_main\<close> leaves behind, with what the console shows at that time.\<close>

definition shell_of :: "'c system \<Rightarrow> console \<times> 'd \<Rightarrow> 'd shell" where
  "shell_of s con = \<lparr>sh_kb = sys_keys s, sh_sched = sys_sched s, sh_pc = GK_Start, sh_con = con\<rparr>"

abbreviation screen_ok :: "nat \<Rightarrow> nat \<Rightarrow> psf_font \<Rightarrow> u8 list \<Rightarrow> console \<times> framebuffer \<Rightarrow> bool" where
  "screen_ok R C font table \<equiv> con_ok (fb_ok R C font table) (fb_shows font table) (\<lambda>c. rows c = R \<and> columns c = C)"

lemma main_then_shell:
  fixes e :: "'c main_env"
  assumes "main_ready e s cfg" and "kb_ok (sys_keys s)" and "key_wait_queue (sys_keys s) = None"
  shows "\<exists>s' idle kash. kernel_main e cmdline s = ret s' \<and> eip (cpu (sys_sched s')) = kernel_idle_entry e \<and>
    eip (t_regs (task_at (sys_sched s') kash)) = kash_main_entry e \<and> sys_keys s' = sys_keys s \<and>
    (\<forall>con. sh_at idle kash idle GK_Start False (shell_of s' con))"
proof -
  obtain s' idle kash where s': "kernel_main e cmdline s = ret s'" "ring (sys_sched s') [idle, kash]" "running_task (sys_sched s') = Some idle"
    "runnable (sys_sched s') idle" "runnable (sys_sched s') kash" "eip (cpu (sys_sched s')) = kernel_idle_entry e"
    "eip (t_regs (task_at (sys_sched s') kash)) = kash_main_entry e" "sys_keys s' = sys_keys s" "timer_queue (sys_sched s') = None"
    using kernel_main_run [OF assms(1), of cmdline] by blast
  have "sh_at idle kash idle GK_Start False (shell_of s' con)" for con using s' assms(2,3) by (simp add: sh_at_def shell_of_def)
  then show ?thesis using s' by blast
qed

text \<open>The machine that the boot code is started on: the image and the page tables of \<^verbatim>\<open>boot.S\<close>, memory allocators in their
  initial state, a memory map (tag \<open>mtag\<close>) whose last usable region has at least \<open>257 + n\<close> pages outside the image, a font, and the tables of
  initialisation functions in any order.\<close>

definition bootable :: "'c env \<Rightarrow> 'c boot \<Rightarrow> u32 \<Rightarrow> nat \<Rightarrow> bool" where
  "bootable e s mtag n \<longleftrightarrow> (\<exists>kd kt. boot_image e kd kt \<and> boot_tables kd kt (mach (bt_heap s))) \<and>
     bt_map s = memory_map_bss \<and> page_state (mach (bt_heap s)) = region_bss \<and>
     entry_step (mmap_entry_size (tag_mmap_at (memory e) mtag)) \<noteq> 0 \<and>
     (let es = filter candidate (take 32 (boot_entries (memory e) mtag))
      in es \<noteq> [] \<and> unat (mm_addr (last es)) + unat (mm_length (last es)) \<le> 2 ^ 32 \<and> card (candidate_pages (last es) - kernel_pages e) \<ge> 257 + n) \<and>
     (\<exists>f. init_font (console_font e) = ret f) \<and>
     (\<exists>early. initcall_table e 0 early \<and> distinct early \<and> set early = early_calls) \<and>
     (\<exists>arch. initcall_table e 1 arch \<and> distinct arch \<and> set arch = arch_calls) \<and>
     length (key_ring (k_keys (bt_kernel s))) = KEY_RING_SIZE"

text \<open>Boot information at \<open>info\<close> with a memory size, a memory map at \<open>mtag\<close> and a framebuffer at \<open>ftag\<close>, among other tags.\<close>

definition boot_information :: "mem \<Rightarrow> u32 \<Rightarrow> u32 \<Rightarrow> u32 \<Rightarrow> bool" where
  "boot_information m info mtag ftag \<longleftrightarrow> unat info mod 8 = 0 \<and>
     (let total = unat (boot_total_size (boot_header_at m info)) in unat info + total < 2 ^ 32 \<and>
      (\<exists>ts. tags_at m (unat info + 8) ts (unat info + total) \<and> (let ps = tag_addresses (unat info + 8) ts in
         last_tag 4 ps \<noteq> None \<and> last_tag 6 ps = Some mtag \<and> last_tag 8 ps = Some ftag)))"

lemma bootable_core:
  assumes "bootable e s mtag n" and "80 + r \<le> 4096 * n"
  shows "\<exists>s'. boot_core e mtag s = ret s' \<and> heap_inv (bt_heap s') \<and> free_list (bt_heap s') = 0 \<and> mmio_ok (bt_mmio s') \<and>
    unat (kernel_heap (bt_heap s')) + r \<le> heap_limit (bt_heap s') \<and> mmio_ptr (bt_mmio s') = 0xE0000000 \<and>
    bt_acpi s' = acpi_early_init (memory e) (rsd_literal e) \<and> kb_ok (k_keys (bt_kernel s')) \<and> key_wait_queue (k_keys (bt_kernel s')) = None \<and>
    kb_getmods (k_keys (bt_kernel s')) = 0"
proof -
  obtain kd kt f early arch where b: "boot_image e kd kt" "boot_tables kd kt (mach (bt_heap s))" "bt_map s = memory_map_bss"
    "page_state (mach (bt_heap s)) = region_bss" "entry_step (mmap_entry_size (tag_mmap_at (memory e) mtag)) \<noteq> 0"
    "init_font (console_font e) = ret f" "initcall_table e 0 early" "distinct early" "set early = early_calls"
    "initcall_table e 1 arch" "distinct arch" "set arch = arch_calls" "length (key_ring (k_keys (bt_kernel s))) = KEY_RING_SIZE"
    using assms(1) unfolding bootable_def by blast
  let ?es = "filter candidate (take 32 (boot_entries (memory e) mtag))"
  have es: "?es \<noteq> []" "unat (mm_addr (last ?es)) + unat (mm_length (last ?es)) \<le> 2 ^ 32" "257 + n \<le> card (candidate_pages (last ?es) - kernel_pages e)"
    using assms(1) unfolding bootable_def Let_def by blast+
  obtain s' where s': "boot_core e mtag s = ret s'" "heap_inv (bt_heap s')" "free_list (bt_heap s') = 0" "mmio_ok (bt_mmio s')"
    "unat (kernel_heap (bt_heap s')) + r \<le> heap_limit (bt_heap s')" "mmio_ptr (bt_mmio s') = 0xE0000000"
    "bt_acpi s' = acpi_early_init (memory e) (rsd_literal e)" "k_keys (bt_kernel s') = kb_early_init (k_keys (bt_kernel s))"
    using boot_core_run [OF b(1-5) refl es b(6-12) assms(2)] by blast
  have "kb_ok (kb_early_init (k_keys (bt_kernel s)))" using b(13) by (simp add: kb_ok_def kb_early_init_def)
  then show ?thesis using s' by (simp add: kb_early_init_def kb_getmods_def)
qed

lemma boot_information_parsed:
  assumes "boot_information m info mtag ftag"
  shows "\<exists>t. parse_tags m (info + boot_total_size (boot_header_at m info)) (info + 8) no_tags = ret t \<and>
    p_meminfo t \<noteq> None \<and> p_mmap t = Some mtag \<and> p_framebuffer t = Some ftag"
proof -
  let ?tot = "unat (boot_total_size (boot_header_at m info))"
  obtain ts where ts: "tags_at m (unat info + 8) ts (unat info + ?tot)" "last_tag 4 (tag_addresses (unat info + 8) ts) \<noteq> None"
    "last_tag 6 (tag_addresses (unat info + 8) ts) = Some mtag" "last_tag 8 (tag_addresses (unat info + 8) ts) = Some ftag"
    and small: "unat info mod 8 = 0" "unat info + ?tot < 2 ^ 32"
    using assms unfolding boot_information_def Let_def by (elim conjE exE) (rule that)
  have al: "(unat info + 8) mod 8 = 0" using small(1) by simp
  have ofs: "of_nat (unat info + ?tot) = info + boot_total_size (boot_header_at m info)" "of_nat (unat info + 8) = info + 8" by simp_all
  show ?thesis using parse_tags_fold [OF ts(1) al small(2), of no_tags] ts(2-4) unfolding ofs fold_note_tag by simp
qed

lemma blank_size:
  assumes "term_of c = \<lparr>tlines = replicate R (replicate C x), trow = a, tcol = b, tattrs = d\<rparr>" and "0 < R"
  shows "rows c = R" "columns c = C"
proof -
  have g: "grid (rows c) (columns c) (buffer c) = replicate R (replicate C x)" using assms(1) by (simp add: term_of_def)
  show "rows c = R" using arg_cong [OF g, of length] by simp
  then show "columns c = C" using arg_cong [OF g, of "\<lambda>g. length (g ! 0)"] assms(2) by (simp add: nth_grid)
qed

text \<open>The devices that \<open>kernel_main\<close> finds: the tables of their drivers, an ACPI root pointer, blocks for the drivers' structures, a
  PCI host with the configuration space \<open>cfg\<close>, and drives that become ready.\<close>

definition devices_ready :: "'c main_env \<Rightarrow> 'c system \<Rightarrow> (u32 \<Rightarrow> u32) \<Rightarrow> bool" where
  "devices_ready e s cfg \<longleftrightarrow> the_rsdp (acpi_early_init (memory e) (rsd_literal e)) \<noteq> None \<and>
     device_table e 2 [] \<and> device_table e 3 [] \<and> device_table e 4 [Pci_ide_initialize] \<and>
     (\<exists>blk. inj blk \<and> blocks (sy_pci s) = (\<lambda>n. Some (blk n))) \<and> pci_host (ports e) cfg \<and> bridges_increase cfg \<and>
     drives_settle (ports e) \<and> (\<exists>blk. inj blk \<and> ide_blocks (sy_ide s) = (\<lambda>n. Some (blk n))) \<and> length (ide_buf (sy_ide s)) = 1024"

text \<open>A display of \<open>R\<close> rows and \<open>C\<close> columns of characters, and a font with all its glyphs.\<close>

definition display_ready :: "'c env \<Rightarrow> u32 \<Rightarrow> nat \<Rightarrow> nat \<Rightarrow> nat \<Rightarrow> bool" where
  "display_ready e ftag ps R C \<longleftrightarrow> display_ok (tag_framebuffer_at (memory e) ftag) ps R C \<and> memory_sizes e \<and>
     255 * unat (psf_charsize (console_font e)) + 16 \<le> length (psf_glyphs (console_font e))"

text \<open>The bytes of the heap that booting takes: the structures of the boot code, of the console and of the two threads.\<close>

definition boot_bytes :: "u8 \<Rightarrow> nat \<Rightarrow> nat \<Rightarrow> nat \<Rightarrow> nat" where
  "boot_bytes bpp ps R C = 80 + (208 + rounded (private_size bpp) + rounded (of_nat (2 * R * C)) + 512 * ps + 8464)"

lemma main_entry_boots:
  fixes e :: "'c env"
  assumes "boot_information (memory e) info mtag ftag" and "bootable e s mtag n" and "display_ready e ftag ps R C"
    and "boot_bytes (framebuffer_bpp (tag_framebuffer_at (memory e) ftag)) ps R C \<le> 4096 * n"
  shows "\<exists>cmd c fb table s'. main_entry e info 0x36D76289 s = ret (Some (cmd, Fb_console (c, fb)), s') \<and>
    screen_ok R C (console_font e) table (c, fb) \<and>
    term_of c = \<lparr>tlines = replicate R (replicate C \<lparr>cc_ch = 32, cc_attrs = 7\<rparr>), trow = 0, tcol = 0, tattrs = 7\<rparr> \<and>
    heap_inv (bt_heap s') \<and> free_list (bt_heap s') = 0 \<and> unat (kernel_heap (bt_heap s')) + 8464 \<le> heap_limit (bt_heap s') \<and>
    bt_acpi s' = acpi_early_init (memory e) (rsd_literal e) \<and> kb_ok (k_keys (bt_kernel s')) \<and> key_wait_queue (k_keys (bt_kernel s')) = None \<and>
    kb_getmods (k_keys (bt_kernel s')) = 0"
proof -
  let ?t = "tag_framebuffer_at (memory e) ftag"
  have d: "display_ok ?t ps R C" "memory_sizes e" "255 * unat (psf_charsize (console_font e)) + 16 \<le> length (psf_glyphs (console_font e))"
    using assms(3) unfolding display_ready_def by blast+
  have "0 < R" using d(1) by (simp add: display_ok_def)
  obtain t where t: "parse_tags (memory e) (info + boot_total_size (boot_header_at (memory e) info)) (info + 8) no_tags = ret t"
    "p_meminfo t \<noteq> None" "p_mmap t = Some mtag" "p_framebuffer t = Some ftag" using boot_information_parsed [OF assms(1)] by blast
  obtain s1 where s1: "boot_core e mtag s = ret s1" "heap_inv (bt_heap s1)" "free_list (bt_heap s1) = 0" "mmio_ok (bt_mmio s1)"
    "unat (kernel_heap (bt_heap s1)) + (208 + rounded (private_size (framebuffer_bpp ?t)) + rounded (of_nat (2 * R * C)) + 512 * ps + 8464) \<le> heap_limit (bt_heap s1)"
    "mmio_ptr (bt_mmio s1) = 0xE0000000" "bt_acpi s1 = acpi_early_init (memory e) (rsd_literal e)" "kb_ok (k_keys (bt_kernel s1))"
    "key_wait_queue (k_keys (bt_kernel s1)) = None" "kb_getmods (k_keys (bt_kernel s1)) = 0"
    using bootable_core [OF assms(2) assms(4) [unfolded boot_bytes_def]] by blast
  obtain c fb table s2 where s2: "boot_console_init e (Some ftag) s1 = ret (Fb_console (c, fb), s2)" "cons_inv c"
    "term_of c = \<lparr>tlines = replicate R (replicate C \<lparr>cc_ch = 32, cc_attrs = 7\<rparr>), trow = 0, tcol = 0, tattrs = 7\<rparr>"
    "fb_ok R C (console_font e) table fb" "fb_shows (console_font e) table c fb" "heap_inv (bt_heap s2)" "free_list (bt_heap s2) = 0"
    "unat (kernel_heap (bt_heap s2)) + 8464 \<le> heap_limit (bt_heap s2)" "bt_kernel s2 = bt_kernel s1" "bt_acpi s2 = bt_acpi s1"
    "escape_code_length c = 0" "flags c AND CONSOLE_FLAG_AUTODRAW \<noteq> 0"
    using boot_framebuffer_run [OF refl d s1(2,3,4,6,5)] by blast
  have "main_entry e info 0x36D76289 s = ret (Some (p_cmdline t, Fb_console (c, fb)), s2)"
    using t s1(1) s2(1) by (auto simp: main_entry_def multiboot2_main_def boot_header_at_def)
  moreover have "screen_ok R C (console_font e) table (c, fb)"
    using s2(2,4,5,11,12) blank_size [OF s2(3) \<open>0 < R\<close>] by (simp add: con_ok_def)
  moreover have "kb_ok (k_keys (bt_kernel s2))" "key_wait_queue (k_keys (bt_kernel s2)) = None" "kb_getmods (k_keys (bt_kernel s2)) = 0"
    "bt_acpi s2 = acpi_early_init (memory e) (rsd_literal e)" using s1(7-10) s2(9,10) by simp_all
  ultimately show ?thesis using s2(3,6-8) by blast
qed


text \<open>Boot information at \<open>0x10000\<close> with a memory size, one usable region of 31 MiB and a display of 16 by 32 pixels; the string that
  the search compares with, and the root pointer in the first paragraph it looks at.\<close>

definition boot_words :: "(u32 \<times> u32) list" where
  "boot_words = [(0x10000, 112), (0x10008, 4), (0x1000C, 16), (0x10018, 6), (0x1001C, 40), (0x10020, 24), (0x10028, 0x100000), (0x10030, 0x1F00000),
     (0x10038, 1), (0x10040, 8), (0x10044, 38), (0x10048, 0xFD000000), (0x10050, 64), (0x10054, 16), (0x10058, 32), (0x1005C, 0x120),
     (0x10060, 0x08080810), (0x10064, 0x0800), (0x1006C, 8), (0xC0160000, 0x20445352), (0xC0160004, 0x20525450),
     (0xC00E0000, 0x20445352), (0xC00E0004, 0x20525450)]"

definition boot_mem :: mem where
  "boot_mem a = (case map_of boot_words (a AND 0xFFFFFFFC) of None \<Rightarrow> 0 | Some w \<Rightarrow> byte_of w (unat (a AND 3)))"

definition boot_env :: "u32 main_env" where
  "boot_env = ide_env\<lparr>memory := boot_mem\<rparr>"

definition boot_system :: "u32 system" where
  "boot_system = ide_system\<lparr>sy_boot := (sy_boot ide_system)\<lparr>bt_heap := bt_heap pc_boot\<rparr>\<rparr>"

lemmas boot_mem_byte = boot_mem_def boot_words_def byte_of_def

lemma boot_mem_words:
  "ld32 boot_mem 0x10000 = 112" "ld32 boot_mem 0x1000C = 16" "ld32 boot_mem 0x1001C = 40" "ld32 boot_mem 0x10020 = 24" "ld32 boot_mem 0x10024 = 0"
  "ld32 boot_mem 0x10028 = 0x100000" "ld32 boot_mem 0x1002C = 0" "ld32 boot_mem 0x10030 = 0x1F00000" "ld32 boot_mem 0x10034 = 0"
  "ld32 boot_mem 0x10038 = 1" "ld32 boot_mem 0x10040 = 8" "ld32 boot_mem 0x10044 = 38" "ld32 boot_mem 0x10048 = 0xFD000000" "ld32 boot_mem 0x1004C = 0"
  "ld32 boot_mem 0x10050 = 64" "ld32 boot_mem 0x10054 = 16" "ld32 boot_mem 0x10058 = 32" "ld32 boot_mem 0x1006C = 8"
  by (simp_all add: ld32_def le32_def boot_mem_byte)

lemma boot_mem_types:
  "ld16 boot_mem 0x10008 = 4" "ld16 boot_mem 0x10018 = 6" "ld16 boot_mem 0x10040 = 8" "ld16 boot_mem 0x10068 = 0"
  "boot_mem 0x1005C = 32" "boot_mem 0x1005D = 1"
  by (simp_all add: ld16_def boot_mem_byte)

lemma boot_mem_information: "boot_information boot_mem 0x10000 0x10018 0x10040"
proof -
  let ?ts = "[(4, 16), (6, 40), (8, 38), (0, 8)] :: (u16 \<times> nat) list"
  have "tags_at boot_mem 65544 ?ts 65648" by (simp add: header_tag_at_def boot_mem_words boot_mem_types)
  moreover have "last_tag 4 (tag_addresses 65544 ?ts) \<noteq> None" "last_tag 6 (tag_addresses 65544 ?ts) = Some 0x10018"
    "last_tag 8 (tag_addresses 65544 ?ts) = Some 0x10040" by (simp_all add: last_tag_def)
  moreover have "unat (boot_total_size (boot_header_at boot_mem 0x10000)) = 112" by (simp add: boot_header_at_def boot_mem_words)
  ultimately show ?thesis unfolding boot_information_def Let_def by (auto intro!: exI [of _ ?ts])
qed

lemma boot_mem_entries:
  "entry_step (mmap_entry_size (tag_mmap_at boot_mem 0x10018)) = 24"
  "boot_entries boot_mem 0x10018 = [\<lparr>mm_addr = 0x100000, mm_length = 0x1F00000, mm_type = 1\<rparr>]"
  by (simp_all add: boot_entries_def tag_mmap_at_def entry_step_def mmap_entry_at_def ld64_def boot_mem_words)

lemma boot_mem_rsdp: "the_rsdp (acpi_early_init boot_mem 0xC0160000) \<noteq> None"
proof -
  have bytes: "boot_mem (0xC00E0000 + of_nat i) = boot_mem (0xC0160000 + of_nat i)" if "i < 8" for i
  proof -
    have "i \<in> {0, 1, 2, 3, 4, 5, 6, 7}" using that by auto
    then show ?thesis by (elim insertE emptyE) (simp_all add: boot_mem_byte)
  qed
  have "signature_at boot_mem 0xC0160000 0xE0000" unfolding signature_at_def
  proof (intro allI impI)
    fix k :: u32
    assume "k < 8"
    then have "unat k < 8" by (simp add: word_less_nat_alt)
    from bytes [OF this] show "boot_mem (of_nat 0xE0000 + ACPI_VIRTUAL_BASE + k) = boot_mem (0xC0160000 + k)" by (simp add: ACPI_VIRTUAL_BASE_def)
  qed
  then have "0xE0000 \<in> set (filter (signature_at boot_mem 0xC0160000) (map (\<lambda>i. 0xE0000 + 16 * i) [0..<8192]))" by (simp add: image_iff)
  then have "filter (signature_at boot_mem 0xC0160000) (map (\<lambda>i. 0xE0000 + 16 * i) [0..<8192]) \<noteq> []" by (metis empty_iff list.set(1))
  then show ?thesis using rsdp_search_first [of "0xE0000" boot_mem "0xC0160000"] by (auto simp: acpi_early_init_def split: list.splits)
qed

lemma boot_env_fields:
  "memory (env.truncate boot_env) = boot_mem" "console_font (env.truncate boot_env) = small_font" "memory boot_env = boot_mem"
  "kernel_pages (env.truncate boot_env) = {256..<384}" "boot_image (env.truncate boot_env) 257 258"
  "initcall_table (env.truncate boot_env) 0 cs = initcall_table pc_env 0 cs"
  "initcall_table (env.truncate boot_env) 1 cs = initcall_table pc_env 1 cs"
  by (simp_all add: env.truncate_def boot_env_def ide_env_def kernel_pages_def boot_image_def initcall_table_def pc_env_def)

lemma boot_system_bootable: "bootable (env.truncate boot_env) (sy_boot boot_system) 0x10018 4"
proof -
  let ?e = "\<lparr>mm_addr = 0x100000, mm_length = 0x1F00000, mm_type = 1\<rparr>"
  have es: "filter candidate (take 32 (boot_entries boot_mem 0x10018)) = [?e]"
    by (simp add: boot_mem_entries candidate_def is_available_def memory_map_types)
  have "candidate_pages ?e - {256..<384} = {384..<8192}" by (auto simp: candidate_pages_def)
  then have card: "257 + 4 \<le> card (candidate_pages (last [?e]) - {256..<384})" by simp
  have tables: "boot_tables 257 258 (mach (bt_heap (sy_boot boot_system)))" by (simp add: boot_tables_def boot_system_def pc_boot_def boot_machine_def)
  have font: "init_font small_font = ret (vga_palette_colors, replicate 4096 0xFF)"
    by (simp add: init_font_def small_font_def PSF1_MAGIC0_def PSF1_MAGIC1_def)
  have sets: "distinct (take 5 pc_initcalls)" "set (take 5 pc_initcalls) = early_calls" "distinct (drop 5 pc_initcalls)"
    "set (drop 5 pc_initcalls) = arch_calls" by (auto simp: pc_initcalls_def early_calls_def arch_calls_def)
  have bss: "bt_map (sy_boot boot_system) = memory_map_bss" "page_state (mach (bt_heap (sy_boot boot_system))) = region_bss"
    "length (key_ring (k_keys (bt_kernel (sy_boot boot_system)))) = KEY_RING_SIZE"
    using kb_fresh_ok(1) by (simp_all add: boot_system_def ide_system_def pc_boot_def kb_ok_def)
  have addr: "unat (mm_addr (last [?e])) + unat (mm_length (last [?e])) \<le> 2 ^ 32" "entry_step (mmap_entry_size (tag_mmap_at boot_mem 0x10018)) \<noteq> 0"
    by (simp_all add: boot_mem_entries)
  show ?thesis unfolding bootable_def boot_env_fields es Let_def
    using boot_env_fields(5) tables bss addr card font pc_env_tables sets by blast
qed

lemma boot_system_devices: "devices_ready boot_env boot_system ide_machine"
proof -
  have "main_ready ide_env ide_system ide_machine" by (rule ide_system_ready)
  moreover have "device_table boot_env n cs = device_table ide_env n cs" for n cs by (simp add: device_table_def boot_env_def)
  moreover have "ports boot_env = ports ide_env" "sy_pci boot_system = sy_pci ide_system" "sy_ide boot_system = sy_ide ide_system"
    "memory boot_env = boot_mem" "rsd_literal boot_env = 0xC0160000" by (simp_all add: boot_env_def boot_system_def ide_env_def)
  ultimately show ?thesis using boot_mem_rsdp unfolding devices_ready_def main_ready_def by simp
qed

lemma boot_env_display:
  "display_ready (env.truncate boot_env) 0x10040 4 2 2" "framebuffer_bpp (tag_framebuffer_at boot_mem 0x10040) = 32"
proof -
  show "framebuffer_bpp (tag_framebuffer_at boot_mem 0x10040) = 32" by (simp add: tag_framebuffer_at_def boot_mem_types)
  have "display_ok (tag_framebuffer_at boot_mem 0x10040) 4 2 2"
    by (simp add: display_ok_def tag_framebuffer_at_def boot_mem_words boot_mem_types)
  moreover have "memory_sizes (env.truncate boot_env)" by (simp add: memory_sizes_def env.truncate_def boot_env_def ide_env_def)
  ultimately show "display_ready (env.truncate boot_env) 0x10040 4 2 2" unfolding display_ready_def boot_env_fields by (simp add: small_font_def)
qed


end
